(* ===== verification/Shm_Prelude.thy ===== *)
theory Shm_Prelude
  imports Main "HOL-Library.Word"
begin

unbundle bit_operations_syntax

text \<open>
  Shared vocabulary of the development.

  Machine integers are words of the width the C++ code declares. \<open>std::size_t\<close> values
  that index process-local buffers are naturals, with the wrap-around of an unsigned
  64-bit subtraction and addition written out in \<open>usub\<close> and \<open>uadd\<close>. A memory mapping is a function from
  byte offsets to bytes: offset 0 is the address returned by \<open>mmap\<close>, so pointer
  arithmetic \<open>mem + offset\<close> is addition of naturals. Native-endian accesses through
  \<open>std::memcpy\<close> are little-endian (both supported targets, x86\_64 and aarch64,
  are); frame fields on the socket are big-endian and live in byte lists.
\<close>

section \<open>Machine integers\<close>

type_synonym u8 = "8 word"
type_synonym u16 = "16 word"
type_synonym u32 = "32 word"
type_synonym u64 = "64 word"
type_synonym bytes = "u8 list"

text \<open>Facts used to move from words to naturals, and facts about memory accesses.\<close>

named_theorems unat_simps \<open>unat of word operations that do not wrap\<close>
named_theorems mem_simps \<open>loads and stores on mapped memory\<close>

definition usub :: "nat \<Rightarrow> nat \<Rightarrow> nat" where
  "usub a b = (if b \<le> a then a - b else a + 2 ^ 64 - b)"

definition uadd :: "nat \<Rightarrow> nat \<Rightarrow> nat" where
  "uadd a b = (a + b) mod 2 ^ 64"

section \<open>Mapped memory, little-endian accesses\<close>

type_synonym mem = "nat \<Rightarrow> u8"

definition load_u16 :: "mem \<Rightarrow> nat \<Rightarrow> u16" where
  "load_u16 m a = ucast (m a) OR push_bit 8 (ucast (m (a + 1)))"

definition load_u32 :: "mem \<Rightarrow> nat \<Rightarrow> u32" where
  "load_u32 m a = ucast (m a) OR push_bit 8 (ucast (m (a + 1)))
     OR push_bit 16 (ucast (m (a + 2))) OR push_bit 24 (ucast (m (a + 3)))"

definition load_i64 :: "mem \<Rightarrow> nat \<Rightarrow> u64" where
  "load_i64 m a = ucast (load_u32 m a) OR push_bit 32 (ucast (load_u32 m (a + 4)))"

definition store_u16 :: "mem \<Rightarrow> nat \<Rightarrow> u16 \<Rightarrow> mem" where
  "store_u16 m a v = m(a := ucast v, a + 1 := ucast (drop_bit 8 v))"

definition store_u32 :: "mem \<Rightarrow> nat \<Rightarrow> u32 \<Rightarrow> mem" where
  "store_u32 m a v = m(a := ucast v, a + 1 := ucast (drop_bit 8 v),
     a + 2 := ucast (drop_bit 16 v), a + 3 := ucast (drop_bit 24 v))"

definition store_i64 :: "mem \<Rightarrow> nat \<Rightarrow> u64 \<Rightarrow> mem" where
  "store_i64 m a v =
     store_u32 (store_u32 m a (ucast v)) (a + 4) (ucast (drop_bit 32 v))"

text \<open>Runs of bytes: what a \<open>std::span\<close> over the mapping shows, and \<open>std::memcpy\<close> into it.\<close>

definition mem_read :: "mem \<Rightarrow> nat \<Rightarrow> nat \<Rightarrow> bytes" where
  "mem_read m a n = map (\<lambda>i. m (a + i)) [0..<n]"

definition mem_write :: "mem \<Rightarrow> nat \<Rightarrow> bytes \<Rightarrow> mem" where
  "mem_write m a bs = (\<lambda>x. if a \<le> x \<and> x < a + length bs then bs ! (x - a) else m x)"

section \<open>Big-endian fields of byte buffers\<close>

definition load_be_u16 :: "bytes \<Rightarrow> nat \<Rightarrow> u16" where
  "load_be_u16 b p = push_bit 8 (ucast (b ! p)) OR ucast (b ! (p + 1))"

definition load_be_u32 :: "bytes \<Rightarrow> nat \<Rightarrow> u32" where
  "load_be_u32 b p = push_bit 24 (ucast (b ! p)) OR push_bit 16 (ucast (b ! (p + 1)))
     OR push_bit 8 (ucast (b ! (p + 2))) OR ucast (b ! (p + 3))"

definition store_be_u16 :: "bytes \<Rightarrow> nat \<Rightarrow> u16 \<Rightarrow> bytes" where
  "store_be_u16 b p v = b[p := ucast (drop_bit 8 v), p + 1 := ucast v]"

definition store_be_u32 :: "bytes \<Rightarrow> nat \<Rightarrow> u32 \<Rightarrow> bytes" where
  "store_be_u32 b p v = b[p := ucast (drop_bit 24 v), p + 1 := ucast (drop_bit 16 v),
     p + 2 := ucast (drop_bit 8 v), p + 3 := ucast v]"

section \<open>Lemmas on words\<close>

text \<open>Values are read as naturals; the rule that turns them back into integers is kept out.\<close>

declare of_nat_unat [simp del]

lemma word_of_nat_unat [simp]: "(of_nat (unat w) :: 'a::len word) = w"
  by (simp add: of_nat_unat)

lemma usub_le [simp]: "b \<le> a \<Longrightarrow> usub a b = a - b"
  by (simp add: usub_def)

lemma uadd_small [simp]: "a + b < 18446744073709551616 \<Longrightarrow> uadd a b = a + b"
  by (simp add: uadd_def)

lemma unat_u32_less [simp]: "unat (x :: u32) < 4294967296"
  using unsigned_less [of x] by simp

lemma unat_u64_less [simp]: "unat (x :: u64) < 18446744073709551616"
  using unsigned_less [of x] by simp

lemma unat_u16_less [simp]: "unat (x :: u16) < 65536"
  using unsigned_less [of x] by simp

lemma unat_u32_less_u64 [simp]: "unat (x :: u32) < 18446744073709551616"
  by (rule less_trans [OF unat_u32_less]) simp

lemma unat_u16_less_u32 [simp]: "unat (x :: u16) < 4294967296"
  by (rule less_trans [OF unat_u16_less]) simp

lemma unat_add_u32 [unat_simps]:
  "unat a + unat b < 4294967296 \<Longrightarrow> unat (a + b :: u32) = unat a + unat b"
  using unat_add_lem [of a b] by simp

lemma unat_mult_u32 [unat_simps]:
  "unat a * unat b < 4294967296 \<Longrightarrow> unat (a * b :: u32) = unat a * unat b"
  using unat_mult_lem [of a b] by simp

lemma unat_add_u64 [unat_simps]:
  "unat a + unat b < 18446744073709551616 \<Longrightarrow> unat (a + b :: u64) = unat a + unat b"
  using unat_add_lem [of a b] by simp

lemma unat_mult_u64 [unat_simps]:
  "unat a * unat b < 18446744073709551616 \<Longrightarrow> unat (a * b :: u64) = unat a * unat b"
  using unat_mult_lem [of a b] by simp

lemma unat_ucast_32_64 [simp]: "unat (ucast (x :: u32) :: u64) = unat x"
  by (simp add: unsigned_ucast_eq take_bit_eq_mod)

lemma unat_ucast_16_32 [simp]: "unat (ucast (x :: u16) :: u32) = unat x"
  by (simp add: unsigned_ucast_eq take_bit_eq_mod)

lemma unat_ucast_64_32: "unat (x :: u64) < 4294967296 \<Longrightarrow> unat (ucast x :: u32) = unat x"
  by (simp add: unsigned_ucast_eq take_bit_eq_mod)

lemma ucast_unat: "(ucast (x :: 'a::len word) :: 'b::len word) = of_nat (unat x)"
  by transfer simp

lemma unat_of_nat_u32 [unat_simps]: "n < 4294967296 \<Longrightarrow> unat (of_nat n :: u32) = n"
  by (simp add: unat_of_nat)

lemma unat_of_nat_u64 [unat_simps]:
  "n < 18446744073709551616 \<Longrightarrow> unat (of_nat n :: u64) = n"
  by (simp add: unat_of_nat)

lemma sint_small_u32:
  assumes "unat (x :: u32) < 2147483648"
  shows "sint x = int (unat x)"
proof -
  have "signed_take_bit 31 (int (unat x)) = int (unat x)"
    using assms by (intro signed_take_bit_int_eq_self) auto
  then show ?thesis by (simp add: sint_uint of_nat_unat)
qed

lemma sint_small_u64:
  assumes "unat (x :: u64) < 9223372036854775808"
  shows "sint x = int (unat x)"
proof -
  have "signed_take_bit 63 (int (unat x)) = int (unat x)"
    using assms by (intro signed_take_bit_int_eq_self) auto
  then show ?thesis by (simp add: sint_uint of_nat_unat)
qed

lemma sint_of_nat_u32: "n < 2147483648 \<Longrightarrow> sint (of_nat n :: u32) = int n"
  by (simp add: sint_small_u32 unat_of_nat)

lemma sint_of_nat_u64: "n < 9223372036854775808 \<Longrightarrow> sint (of_nat n :: u64) = int n"
  by (simp add: sint_small_u64 unat_of_nat)

lemma sint_nonneg_u64:
  assumes "0 \<le> sint (x :: u64)"
  shows "unat x < 9223372036854775808" and "sint x = int (unat x)"
proof -
  have lt: "sint x < 9223372036854775808" using sint_lt [of x] by simp
  have "uint x = sint x mod 18446744073709551616"
    by (simp add: uint_sint take_bit_eq_mod)
  with assms lt have e: "uint x = sint x" by simp
  then show "sint x = int (unat x)" by (simp add: of_nat_unat)
  with lt show "unat x < 9223372036854775808" by simp
qed

lemma sint_nonneg_u32:
  assumes "0 \<le> sint (x :: u32)"
  shows "unat x < 2147483648" and "sint x = int (unat x)"
proof -
  have lt: "sint x < 2147483648" using sint_lt [of x] by simp
  have "uint x = sint x mod 4294967296"
    by (simp add: uint_sint take_bit_eq_mod)
  with assms lt have e: "uint x = sint x" by simp
  then show "sint x = int (unat x)" by (simp add: of_nat_unat)
  with lt show "unat x < 2147483648" by simp
qed

section \<open>Lemmas on memory\<close>

lemma load_u32_cong:
  "(\<And>i. i < 4 \<Longrightarrow> m (a + i) = m' (a + i)) \<Longrightarrow> load_u32 m a = load_u32 m' a"
proof -
  assume h: "\<And>i. i < 4 \<Longrightarrow> m (a + i) = m' (a + i)"
  show ?thesis
    using h [of 0] h [of 1] h [of 2] h [of 3] by (simp add: load_u32_def)
qed

text \<open>The byte a bit of a 32-bit word lives in.\<close>

lemma byte_cases:
  fixes n :: nat
  assumes "n < 32"
  obtains "n < 8" | "8 \<le> n" "n < 16" | "16 \<le> n" "n < 24" | "24 \<le> n" "n < 32"
  using assms by linarith

lemma load_u32_store_u32 [simp, mem_simps]: "load_u32 (store_u32 m a v) a = v"
proof (rule bit_word_eqI)
  fix n assume "n < LENGTH(32)"
  then have "n < 32" by simp
  then show "bit (load_u32 (store_u32 m a v) a) n = bit v n"
    by (cases rule: byte_cases) (auto simp: load_u32_def store_u32_def bit_simps)
qed

lemma load_u32_bytes:
  "ucast (load_u32 m a) = m a" "ucast (drop_bit 8 (load_u32 m a)) = m (a + 1)"
  "ucast (drop_bit 16 (load_u32 m a)) = m (a + 2)"
  "ucast (drop_bit 24 (load_u32 m a)) = m (a + 3)"
  by (rule bit_word_eqI, auto simp: load_u32_def bit_simps dest: bit_imp_le_length)+

lemma store_u32_load_u32 [simp]: "store_u32 m a (load_u32 m a) = m"
  by (simp add: store_u32_def load_u32_bytes)

lemma store_u32_store_u32 [simp]: "store_u32 (store_u32 m a v) a w = store_u32 m a w"
  by (rule ext) (simp add: store_u32_def)

lemma store_u32_first [simp]: "store_u32 m a v a = ucast v"
  by (simp add: store_u32_def)

lemma load_u16_store_u16 [simp, mem_simps]: "load_u16 (store_u16 m a v) a = v"
  unfolding load_u16_def store_u16_def
  by (rule bit_word_eqI) (auto simp: bit_simps fun_upd_def)

lemma store_u32_other [mem_simps]: "x < a \<or> a + 4 \<le> x \<Longrightarrow> store_u32 m a v x = m x"
  by (auto simp: store_u32_def)

lemma store_u16_other [mem_simps]: "x < a \<or> a + 2 \<le> x \<Longrightarrow> store_u16 m a v x = m x"
  by (auto simp: store_u16_def)

lemma load_u32_store_u32_other [mem_simps]:
  "b + 4 \<le> a \<or> a + 4 \<le> b \<Longrightarrow> load_u32 (store_u32 m a v) b = load_u32 m b"
  by (rule load_u32_cong) (auto simp: store_u32_other)

lemma load_u32_upd_other [mem_simps]:
  "x < b \<or> b + 4 \<le> x \<Longrightarrow> load_u32 (m(x := v)) b = load_u32 m b"
  by (rule load_u32_cong) auto

lemma load_u32_store_u16_other [mem_simps]:
  "b + 4 \<le> a \<or> a + 2 \<le> b \<Longrightarrow> load_u32 (store_u16 m a v) b = load_u32 m b"
  by (rule load_u32_cong) (auto simp: store_u16_other)

lemma load_u16_store_u32_other [mem_simps]:
  "b + 2 \<le> a \<or> a + 4 \<le> b \<Longrightarrow> load_u16 (store_u32 m a v) b = load_u16 m b"
  by (auto simp: load_u16_def store_u32_other)

lemma store_i64_other [mem_simps]: "x < a \<or> a + 8 \<le> x \<Longrightarrow> store_i64 m a v x = m x"
  by (auto simp: store_i64_def store_u32_other)

lemma load_i64_store_i64 [simp, mem_simps]: "load_i64 (store_i64 m a v) a = v"
  unfolding load_i64_def store_i64_def
  by (rule bit_word_eqI) (auto simp: load_u32_store_u32_other bit_simps)

lemma load_i64_cong:
  "(\<And>i. i < 8 \<Longrightarrow> m (a + i) = m' (a + i)) \<Longrightarrow> load_i64 m a = load_i64 m' a"
  using load_u32_cong [of m a m'] load_u32_cong [of m "a + 4" m']
  by (simp add: load_i64_def add.assoc)

lemma load_i64_store_i64_other [mem_simps]:
  "b + 8 \<le> a \<or> a + 8 \<le> b \<Longrightarrow> load_i64 (store_i64 m a v) b = load_i64 m b"
  by (rule load_i64_cong) (auto simp: store_i64_other)

lemma load_i64_store_u32_other [mem_simps]:
  "b + 8 \<le> a \<or> a + 4 \<le> b \<Longrightarrow> load_i64 (store_u32 m a v) b = load_i64 m b"
  by (rule load_i64_cong) (auto simp: store_u32_other)

lemma load_u32_store_i64_other [mem_simps]:
  "b + 4 \<le> a \<or> a + 8 \<le> b \<Longrightarrow> load_u32 (store_i64 m a v) b = load_u32 m b"
  by (rule load_u32_cong) (auto simp: store_i64_other)

lemma length_mem_read [simp]: "length (mem_read m a n) = n"
  by (simp add: mem_read_def)

lemma nth_mem_read [simp]: "i < n \<Longrightarrow> mem_read m a n ! i = m (a + i)"
  by (simp add: mem_read_def)

lemma mem_read_0 [simp]: "mem_read m a 0 = []"
  by (simp add: mem_read_def)

lemma mem_read_cong:
  "(\<And>i. i < n \<Longrightarrow> m (a + i) = m' (a + i)) \<Longrightarrow> mem_read m a n = mem_read m' a n"
  by (simp add: mem_read_def)

lemma mem_read_append: "mem_read m a (k + n) = mem_read m a k @ mem_read m (a + k) n"
  by (rule nth_equalityI) (auto simp: nth_append)

lemma mem_read_mem_write [simp]: "mem_read (mem_write m a bs) a (length bs) = bs"
  by (rule nth_equalityI) (auto simp: mem_write_def)

lemma mem_write_other [mem_simps]:
  "x < a \<or> a + length bs \<le> x \<Longrightarrow> mem_write m a bs x = m x"
  by (auto simp: mem_write_def)

lemma mem_read_mem_write_other:
  "b + n \<le> a \<or> a + length bs \<le> b \<Longrightarrow> mem_read (mem_write m a bs) b n = mem_read m b n"
  by (rule mem_read_cong) (auto simp: mem_write_other)

lemma load_u32_mem_write_other [mem_simps]:
  "b + 4 \<le> a \<or> a + length bs \<le> b \<Longrightarrow> load_u32 (mem_write m a bs) b = load_u32 m b"
  by (rule load_u32_cong) (auto simp: mem_write_other)

lemma mem_write_Nil [simp]: "mem_write m a [] = m"
  by (rule ext) (auto simp: mem_write_def)

section \<open>Lemmas on big-endian fields\<close>

lemma length_store_be_u16 [simp]: "length (store_be_u16 b p v) = length b"
  by (simp add: store_be_u16_def)

lemma length_store_be_u32 [simp]: "length (store_be_u32 b p v) = length b"
  by (simp add: store_be_u32_def)

lemma load_be_u16_store_be_u16 [simp]:
  "p + 1 < length b \<Longrightarrow> load_be_u16 (store_be_u16 b p v) p = v"
  unfolding load_be_u16_def store_be_u16_def
  by (rule bit_word_eqI) (auto simp: bit_simps)

lemma load_be_u32_store_be_u32 [simp]:
  assumes "p + 3 < length b"
  shows "load_be_u32 (store_be_u32 b p v) p = v"
proof (rule bit_word_eqI)
  fix n assume "n < LENGTH(32)"
  then have "n < 32" by simp
  then show "bit (load_be_u32 (store_be_u32 b p v) p) n = bit v n"
    using assms
    by (cases rule: byte_cases) (auto simp: load_be_u32_def store_be_u32_def bit_simps)
qed

lemma nth_store_be_u16_other:
  "i < p \<or> p + 2 \<le> i \<Longrightarrow> store_be_u16 b p v ! i = b ! i"
  by (auto simp: store_be_u16_def)

lemma nth_store_be_u32_other:
  "i < p \<or> p + 4 \<le> i \<Longrightarrow> store_be_u32 b p v ! i = b ! i"
  by (auto simp: store_be_u32_def)

lemma load_be_u16_cong:
  "b ! p = b' ! p \<Longrightarrow> b ! (p + 1) = b' ! (p + 1) \<Longrightarrow> load_be_u16 b p = load_be_u16 b' p"
  by (simp add: load_be_u16_def)

lemma load_be_u32_cong:
  "(\<And>i. i < 4 \<Longrightarrow> b ! (p + i) = b' ! (p + i)) \<Longrightarrow> load_be_u32 b p = load_be_u32 b' p"
proof -
  assume h: "\<And>i. i < 4 \<Longrightarrow> b ! (p + i) = b' ! (p + i)"
  show ?thesis
    using h [of 0] h [of 1] h [of 2] h [of 3] by (simp add: load_be_u32_def)
qed

end
