(* ===== verification/Errors.thy ===== *)
theory Errors
  imports Shm_Prelude
begin

text \<open>
  The error values of \<open>include/shmipc/error.hpp\<close> and \<open>src/error.cpp\<close>: the enum
  \<open>Err\<close>, the class \<open>Error\<close> (kind, size payload, free-form message), the message
  table, and the translation to \<open>std::errc\<close>. \<open>Result<T>\<close> is the sum type
  \<open>'a result\<close> with \<open>Inl\<close> for the error. Formatted messages are built with
  \<open>dec\<close>, the decimal printer behind \<open>std::to_string\<close> and the \<open>%u\<close> and
  \<open>%zu\<close> conversions.
\<close>

section \<open>Decimal printing\<close>

fun dec :: "nat \<Rightarrow> string" where
  "dec n = (if n < 10 then [char_of (48 + n)] else dec (n div 10) @ [char_of (48 + n mod 10)])"

declare dec.simps [simp del]

section \<open>Errors\<close>

datatype err =
    KInvalidVersion | KInvalidMsgType | KSessionShutdown | KStreamsExhausted
  | KDuplicateStream | KTimeout | KStreamClosed | KStreamReset
  | KConnectionWriteTimeout | KConnectionTimeout | KKeepAliveTimeout | KEndOfStream
  | KSessionUnhealthy | KNotEnoughData | KNoMoreBuffer | KSizeTooLarge
  | KBrokenBuffer | KShareMemoryHadNotLeftSpace | KStreamCallbackHadExisted
  | KExchangeConfig | KExchangeConfigTimeout | KOSNonSupported | KArchNonSupported
  | KHotRestartInProgress | KInHandshakeStage | KFileNameTooLong | KQueueEmpty
  | KQueueFull | KStreamPoolFull | KStreamHasUnreadData | KStreamHasPendingData
  | KIo | KOther

record error =
  kind :: err
  size_payload :: nat
  message_text :: string

type_synonym 'a result = "error + 'a"

definition Error :: "err \<Rightarrow> error" where
  "Error k = \<lparr>kind = k, size_payload = 0, message_text = []\<rparr>"

definition with_size :: "err \<Rightarrow> nat \<Rightarrow> error" where
  "with_size k n = \<lparr>kind = k, size_payload = n, message_text = []\<rparr>"

definition io_error :: "string \<Rightarrow> error" where
  "io_error s = \<lparr>kind = KIo, size_payload = 0, message_text = s\<rparr>"

definition other_error :: "string \<Rightarrow> error" where
  "other_error s = \<lparr>kind = KOther, size_payload = 0, message_text = s\<rparr>"

fun err_message :: "err \<Rightarrow> string" where
  "err_message KInvalidVersion = ''invalid protocol version''"
| "err_message KInvalidMsgType = ''invalid msg type''"
| "err_message KSessionShutdown = ''session shutdown''"
| "err_message KStreamsExhausted = ''streams exhausted''"
| "err_message KDuplicateStream = ''duplicate stream initiated''"
| "err_message KTimeout = ''i/o deadline reached''"
| "err_message KStreamClosed = ''stream closed''"
| "err_message KStreamReset = ''stream reset by peer''"
| "err_message KConnectionWriteTimeout = ''connection write timeout''"
| "err_message KConnectionTimeout = ''connection timeout''"
| "err_message KKeepAliveTimeout = ''keepalive timeout''"
| "err_message KEndOfStream = ''end of stream''"
| "err_message KSessionUnhealthy = ''now the session is unhealthy, please retry later''"
| "err_message KNotEnoughData = ''current buffer is not enough data to read''"
| "err_message KNoMoreBuffer = ''share memory no more buffer''"
| "err_message KSizeTooLarge = ''alloc size exceed''"
| "err_message KBrokenBuffer = ''share memory's buffer had broken''"
| "err_message KShareMemoryHadNotLeftSpace = ''share memory had not left space''"
| "err_message KStreamCallbackHadExisted = ''stream callbacks had existed''"
| "err_message KExchangeConfig = ''exchange config protocol invalid''"
| "err_message KExchangeConfigTimeout = ''exchange config timeout''"
| "err_message KOSNonSupported = ''shmipc just support linux OS now''"
| "err_message KArchNonSupported = ''shmipc just support amd64 or arm64 arch''"
| "err_message KHotRestartInProgress = ''hot restart in progress, try again later''"
| "err_message KInHandshakeStage = ''session in handshake stage, try again later''"
| "err_message KFileNameTooLong = ''share memory path prefix too long''"
| "err_message KQueueEmpty = ''the queue is empty''"
| "err_message KQueueFull = ''the queue is full''"
| "err_message KStreamPoolFull = ''stream pool is full''"
| "err_message KStreamHasUnreadData = ''stream had unread data''"
| "err_message KStreamHasPendingData = ''stream had pending data''"
| "err_message KIo = ''io error''"
| "err_message KOther = ''other error''"

definition message :: "error \<Rightarrow> string" where
  "message e = (case kind e of
      KStreamHasUnreadData \<Rightarrow> ''stream had unread data, size: '' @ dec (size_payload e)
    | KStreamHasPendingData \<Rightarrow>
        ''stream had pending data, pending slice len: '' @ dec (size_payload e)
    | KIo \<Rightarrow> (if message_text e = [] then err_message KIo else message_text e)
    | KOther \<Rightarrow> (if message_text e = [] then err_message KOther else message_text e)
    | k \<Rightarrow> err_message k)"

datatype errc =
    Invalid_argument | Connection_reset | Resource_unavailable_try_again
  | Already_connected | Timed_out | Connection_aborted | Broken_pipe
  | Not_enough_memory | Not_supported | Io_error

definition to_io_error_code :: "error \<Rightarrow> errc" where
  "to_io_error_code e = (case kind e of
      KInvalidVersion \<Rightarrow> Invalid_argument
    | KInvalidMsgType \<Rightarrow> Invalid_argument
    | KConnectionWriteTimeout \<Rightarrow> Invalid_argument
    | KSessionShutdown \<Rightarrow> Connection_reset
    | KStreamReset \<Rightarrow> Connection_reset
    | KStreamsExhausted \<Rightarrow> Resource_unavailable_try_again
    | KSessionUnhealthy \<Rightarrow> Resource_unavailable_try_again
    | KNotEnoughData \<Rightarrow> Resource_unavailable_try_again
    | KNoMoreBuffer \<Rightarrow> Resource_unavailable_try_again
    | KShareMemoryHadNotLeftSpace \<Rightarrow> Resource_unavailable_try_again
    | KQueueEmpty \<Rightarrow> Resource_unavailable_try_again
    | KQueueFull \<Rightarrow> Resource_unavailable_try_again
    | KStreamPoolFull \<Rightarrow> Resource_unavailable_try_again
    | KHotRestartInProgress \<Rightarrow> Resource_unavailable_try_again
    | KInHandshakeStage \<Rightarrow> Resource_unavailable_try_again
    | KDuplicateStream \<Rightarrow> Already_connected
    | KStreamCallbackHadExisted \<Rightarrow> Already_connected
    | KTimeout \<Rightarrow> Timed_out
    | KConnectionTimeout \<Rightarrow> Timed_out
    | KKeepAliveTimeout \<Rightarrow> Timed_out
    | KExchangeConfigTimeout \<Rightarrow> Timed_out
    | KStreamClosed \<Rightarrow> Connection_aborted
    | KEndOfStream \<Rightarrow> Broken_pipe
    | KSizeTooLarge \<Rightarrow> Not_enough_memory
    | KBrokenBuffer \<Rightarrow> Broken_pipe
    | KOSNonSupported \<Rightarrow> Not_supported
    | KArchNonSupported \<Rightarrow> Not_supported
    | KFileNameTooLong \<Rightarrow> Invalid_argument
    | KIo \<Rightarrow> Io_error
    | _ \<Rightarrow> Io_error)"

text \<open>The two \<open>operator==\<close> overloads compare kinds only.\<close>

definition error_eq :: "error \<Rightarrow> error \<Rightarrow> bool" where
  "error_eq a b \<longleftrightarrow> kind a = kind b"

section \<open>Lemmas\<close>

lemma kind_Error [simp]: "kind (Error k) = k"
  by (simp add: Error_def)

lemma kind_with_size [simp]: "kind (with_size k n) = k"
  by (simp add: with_size_def)

lemma kind_io_error [simp]: "kind (io_error s) = KIo"
  by (simp add: io_error_def)

lemma kind_other_error [simp]: "kind (other_error s) = KOther"
  by (simp add: other_error_def)

lemma Error_inject [simp]: "Error a = Error b \<longleftrightarrow> a = b"
  by (auto simp: Error_def)

lemma Error_neq_other [simp]: "Error k \<noteq> other_error s \<longleftrightarrow> k \<noteq> KOther \<or> s \<noteq> []"
  by (auto simp: Error_def other_error_def)

lemma dec_nonempty [simp]: "dec n \<noteq> []" "[] \<noteq> dec n"
  by (subst dec.simps, simp)+

lemma char_of_digit_inject:
  "a < 10 \<Longrightarrow> b < 10 \<Longrightarrow> (char_of (48 + a :: nat) = (char_of (48 + b) :: char)) \<longleftrightarrow> a = b"
  by (simp add: char_of_eq_iff take_bit_eq_mod)

text \<open>Two numbers print alike only when they are equal.\<close>

lemma dec_inject: "dec a = dec b \<longleftrightarrow> a = b"
proof
  show "a = b" if "dec a = dec b"
    using that
  proof (induction a arbitrary: b rule: dec.induct)
    case (1 a)
    show ?case
    proof (cases "a < 10")
      case True
      with 1(2) show ?thesis
        by (cases "b < 10")
           (auto simp: dec.simps [of a] dec.simps [of b] char_of_digit_inject)
    next
      case a: False
      show ?thesis
      proof (cases "b < 10")
        case True
        with a 1(2) show ?thesis by (simp add: dec.simps [of a] dec.simps [of b])
      next
        case False
        with a 1(2) have "dec (a div 10) = dec (b div 10)"
          and "char_of (48 + a mod 10) = (char_of (48 + b mod 10) :: char)"
          by (simp_all add: dec.simps [of a] dec.simps [of b])
        with 1(1) [OF a] have "a div 10 = b div 10" and "a mod 10 = b mod 10"
          by (simp_all add: char_of_digit_inject)
        then show ?thesis by (metis div_mult_mod_eq)
      qed
    qed
  qed
qed simp

end
