(* ===== verification/Config.thy ===== *)
theory Config
  imports Errors
begin

unbundle bit_operations_syntax

text \<open>
  \<open>include/shmipc/config.hpp\<close>, \<open>include/shmipc/consts.hpp\<close>, \<open>src/config.cpp\<close> and
  \<open>include/shmipc/session_config.hpp\<close>: the session configuration, its defaults and
  \<open>Config::verify\<close>, which checks the configuration and rounds the slice sizes up to
  4 bytes and the queue capacity up to 8. Durations are nanoseconds. The verifier
  mutates the configuration even when it then reports an error, so the model returns
  the new configuration beside the result.
\<close>

section \<open>Constants\<close>

definition kProtoVersion :: u8 where "kProtoVersion = 2"
definition kMaxSupportProtoVersion :: u8 where "kMaxSupportProtoVersion = 3"
definition kMagicNumber :: u16 where "kMagicNumber = 0x7758"
definition kMemfdCount :: nat where "kMemfdCount = 2"
definition kFileNameMaxLen :: nat where "kFileNameMaxLen = 255"
definition kEpochInfoMaxLen :: nat where "kEpochInfoMaxLen = 7 + 20 + 1 + 20"
definition kQueueInfoMaxLen :: nat where "kQueueInfoMaxLen = 7 + 20"
definition kDefaultSingleBufferSize :: nat where "kDefaultSingleBufferSize = 4096"
definition kQueueElementLen :: nat where "kQueueElementLen = 12"
definition kQueueCount :: nat where "kQueueCount = 2"
definition kHeaderSize :: nat where "kHeaderSize = 4 + 2 + 1 + 1"
definition kBufferHeaderSize :: u32 where "kBufferHeaderSize = 4 + 4 + 4 + 4 + 4"

section \<open>Configuration\<close>

datatype mem_map_type = KDevShmFile | KMemFd

datatype state_type = KDefault | KHotRestart | KHotRestartDone

record size_percent_pair =
  spp_size :: u32
  spp_percent :: u32

record config =
  connection_write_timeout :: int
  connection_read_timeout :: int
  connection_timeout :: int
  initialize_timeout :: int
  queue_cap :: u32
  queue_path :: string
  share_memory_buffer_cap :: u32
  share_memory_path_prefix :: string
  buffer_slice_sizes :: "size_percent_pair list"
  mem_map_type :: mem_map_type
  rebuild_interval :: int
  max_stream_num :: nat

definition default_config :: config where
  "default_config = \<lparr>
     connection_write_timeout = 10 * 1000000000,
     connection_read_timeout = 0,
     connection_timeout = 0,
     initialize_timeout = 1000 * 1000000,
     queue_cap = 8192,
     queue_path = ''/dev/shm/shmipc_queue'',
     share_memory_buffer_cap = 32 * 1024 * 1024,
     share_memory_path_prefix = ''/dev/shm/shmipc'',
     buffer_slice_sizes = [
       \<lparr>spp_size = 8192 - kBufferHeaderSize, spp_percent = 50\<rparr>,
       \<lparr>spp_size = 32 * 1024 - kBufferHeaderSize, spp_percent = 30\<rparr>,
       \<lparr>spp_size = 128 * 1024 - kBufferHeaderSize, spp_percent = 20\<rparr>],
     mem_map_type = KMemFd,
     rebuild_interval = 60 * 1000000000,
     max_stream_num = 4096\<rparr>"

definition align4 :: "u32 \<Rightarrow> u32" where
  "align4 x = (x + 3) AND NOT 3"

definition align8 :: "u32 \<Rightarrow> u32" where
  "align8 x = (x + 7) AND NOT 7"

definition msg_cap_too_small :: "u32 \<Rightarrow> string" where
  "msg_cap_too_small c = ''share memory size is too small:'' @ dec (unat c)
     @ '', must greater than '' @ dec (2 ^ 20)"

definition msg_slice_too_large :: "u32 \<Rightarrow> u32 \<Rightarrow> string" where
  "msg_slice_too_large sz c = ''buffer_slice_sizes's size:'' @ dec (unat sz)
     @ '' couldn't greater than share_memory_buffer_cap:'' @ dec (unat c)"

text \<open>
  The loop over \<open>buffer_slice_sizes\<close>: the accumulated percent sum (a \<open>uint32_t\<close>,
  which wraps), the pairs already aligned and the pairs still to come. A pair that is
  too large stops the loop, leaving the earlier pairs aligned.
\<close>

fun verify_pairs ::
  "u32 \<Rightarrow> u32 \<Rightarrow> size_percent_pair list \<Rightarrow> size_percent_pair list \<times> u32 result" where
  "verify_pairs c tot [] = ([], Inr tot)"
| "verify_pairs c tot (p # ps) =
     (let tot' = tot + spp_percent p in
      if spp_size p > c then (p # ps, Inl (other_error (msg_slice_too_large (spp_size p) c)))
      else
        let aligned = align4 (spp_size p);
            p' = (if aligned \<noteq> spp_size p then p\<lparr>spp_size := aligned\<rparr> else p);
            r = verify_pairs c tot' ps
        in (p' # fst r, snd r))"

definition verify :: "config \<Rightarrow> config \<times> unit result" where
  "verify c =
     (if share_memory_buffer_cap c < push_bit 20 1
      then (c, Inl (other_error (msg_cap_too_small (share_memory_buffer_cap c))))
      else if buffer_slice_sizes c = []
      then (c, Inl (other_error ''buffer_slice_sizes could not be nil''))
      else
        let r = verify_pairs (share_memory_buffer_cap c) 0 (buffer_slice_sizes c);
            c1 = c\<lparr>buffer_slice_sizes := fst r\<rparr>
        in case snd r of
             Inl e \<Rightarrow> (c1, Inl e)
           | Inr tot \<Rightarrow>
               if tot \<noteq> 100
               then (c1, Inl (other_error
                      ''the sum of buffer_slice_sizes's percent should be 100''))
               else
                 let aligned_queue_cap = align8 (queue_cap c1);
                     c2 = (if aligned_queue_cap \<noteq> queue_cap c1
                           then c1\<lparr>queue_cap := aligned_queue_cap\<rparr> else c1)
                 in if share_memory_path_prefix c2 = [] \<or> queue_path c2 = []
                    then (c2, Inl (other_error ''buffer path or queue path could not be nil''))
                    else (c2, Inr ()))"

record session_manager_config =
  smc_config :: config
  session_num :: nat
  stream_max_idle_time :: int

definition default_session_manager_config :: session_manager_config where
  "default_session_manager_config =
     \<lparr>smc_config = default_config, session_num = 1, stream_max_idle_time = 30 * 1000000000\<rparr>"

section \<open>Alignment\<close>

text \<open>Clearing the low bits of a word rounds it down to a multiple.\<close>

lemma and_not_low:
  fixes x b :: u32
  assumes "b = mask n"
  shows "x AND NOT b = x - take_bit n x"
proof -
  have "x - (x AND b) = x AND NOT (x AND b)"
    by (rule disjunctive_diff_eq_and_not) (rule bit_word_eqI, simp add: bit_simps)
  also have "\<dots> = x AND NOT b"
    by (rule bit_word_eqI) (auto simp: bit_simps)
  finally show ?thesis
    using assms by (simp add: take_bit_eq_mask)
qed

lemma unat_and_not_low:
  fixes x b :: u32
  assumes "b = mask n"
  shows "unat (x AND NOT b) = unat x - unat x mod 2 ^ n"
proof -
  have t: "unat (take_bit n x) = unat x mod 2 ^ n"
    by (rule trans [OF unsigned_take_bit_eq take_bit_eq_mod])
  have "take_bit n x \<le> x"
    by (simp add: word_le_nat_alt t)
  then show ?thesis
    by (simp add: and_not_low [OF assms] unat_sub t)
qed

lemma align_up_nat:
  fixes x k :: nat
  assumes "0 < k"
  shows "k dvd (x + (k - 1) - (x + (k - 1)) mod k)"
    and "x \<le> x + (k - 1) - (x + (k - 1)) mod k"
    and "x + (k - 1) - (x + (k - 1)) mod k < x + k"
proof -
  show "k dvd (x + (k - 1) - (x + (k - 1)) mod k)"
    by (simp add: minus_mod_eq_mult_div)
  have "(x + (k - 1)) mod k < k" using assms by simp
  then show "x \<le> x + (k - 1) - (x + (k - 1)) mod k" by linarith
  show "x + (k - 1) - (x + (k - 1)) mod k < x + k" using assms by linarith
qed

lemma unat_align4:
  assumes "unat x + 3 < 4294967296"
  shows "unat (align4 x) = unat x + 3 - (unat x + 3) mod 4"
proof -
  have "(3 :: u32) = mask 2" by (simp add: mask_eq_exp_minus_1)
  then show ?thesis
    using assms unat_and_not_low [of 3 2 "x + 3"] unat_add_u32 [of x 3]
    by (simp add: align4_def)
qed

lemma unat_align8:
  assumes "unat x + 7 < 4294967296"
  shows "unat (align8 x) = unat x + 7 - (unat x + 7) mod 8"
proof -
  have "(7 :: u32) = mask 3" by (simp add: mask_eq_exp_minus_1)
  then show ?thesis
    using assms unat_and_not_low [of 7 3 "x + 7"] unat_add_u32 [of x 7]
    by (simp add: align8_def)
qed

text \<open>Rounding up is exact on the next multiple, and leaves multiples alone.\<close>

lemma align4_up:
  assumes "unat x + 3 < 4294967296"
  shows "4 dvd unat (align4 x)" "unat x \<le> unat (align4 x)" "unat (align4 x) < unat x + 4"
  using align_up_nat [of 4 "unat x"] unat_align4 [OF assms] by simp_all

lemma align8_up:
  assumes "unat x + 7 < 4294967296"
  shows "8 dvd unat (align8 x)" "unat x \<le> unat (align8 x)" "unat (align8 x) < unat x + 8"
  using align_up_nat [of 8 "unat x"] unat_align8 [OF assms] by simp_all

lemma and_not_low_dvd:
  fixes x b :: u32
  assumes "b = mask n"
  shows "2 ^ n dvd unat (x AND NOT b)"
  by (simp add: unat_and_not_low [OF assms] minus_mod_eq_mult_div)

lemma align4_dvd: "4 dvd unat (align4 x)"
  using and_not_low_dvd [of 3 2 "x + 3"] by (simp add: align4_def mask_eq_exp_minus_1)

lemma align8_dvd: "8 dvd unat (align8 x)"
  using and_not_low_dvd [of 7 3 "x + 7"] by (simp add: align8_def mask_eq_exp_minus_1)

lemma align4_id:
  assumes "4 dvd unat x"
  shows "align4 x = x"
proof -
  have "unat x + 3 < 4294967296"
    using assms unat_u32_less [of x] by presburger
  then have "unat (align4 x) = unat x"
    using assms by (simp add: unat_align4) presburger
  then show ?thesis by (simp add: word_unat_eq_iff)
qed

lemma align8_id:
  assumes "8 dvd unat x"
  shows "align8 x = x"
proof -
  have "unat x + 7 < 4294967296"
    using assms unat_u32_less [of x] by presburger
  then have "unat (align8 x) = unat x"
    using assms by (simp add: unat_align8) presburger
  then show ?thesis by (simp add: word_unat_eq_iff)
qed

section \<open>The verifier\<close>

definition align_pair :: "size_percent_pair \<Rightarrow> size_percent_pair" where
  "align_pair p = p\<lparr>spp_size := align4 (spp_size p)\<rparr>"

lemma align_pair_if:
  "(if align4 (spp_size p) \<noteq> spp_size p then p\<lparr>spp_size := align4 (spp_size p)\<rparr> else p)
     = align_pair p"
  by (auto simp: align_pair_def)

lemma verify_pairs_Inr_iff:
  "snd (verify_pairs c tot ps) = Inr tot' \<longleftrightarrow>
     (\<forall>p \<in> set ps. spp_size p \<le> c) \<and> tot' = tot + sum_list (map spp_percent ps)"
  by (induction ps arbitrary: tot) (auto simp: Let_def algebra_simps not_less)

lemma verify_pairs_fst:
  "\<forall>p \<in> set ps. spp_size p \<le> c \<Longrightarrow> fst (verify_pairs c tot ps) = map align_pair ps"
  by (induction ps arbitrary: tot) (auto simp: Let_def align_pair_def not_less)

lemma align_pair_simps [simp]:
  "spp_size (align_pair p) = align4 (spp_size p)"
  "spp_percent (align_pair p) = spp_percent p"
  by (simp_all add: align_pair_def)

definition verify_accepts :: "config \<Rightarrow> bool" where
  "verify_accepts c \<longleftrightarrow>
     2 ^ 20 \<le> unat (share_memory_buffer_cap c) \<and> buffer_slice_sizes c \<noteq> []
     \<and> (\<forall>p \<in> set (buffer_slice_sizes c). spp_size p \<le> share_memory_buffer_cap c)
     \<and> sum_list (map spp_percent (buffer_slice_sizes c)) = 100
     \<and> share_memory_path_prefix c \<noteq> [] \<and> queue_path c \<noteq> []"

definition verify_aligned :: "config \<Rightarrow> config" where
  "verify_aligned c = c\<lparr>buffer_slice_sizes := map align_pair (buffer_slice_sizes c),
     queue_cap := align8 (queue_cap c)\<rparr>"

lemma cap_too_small_iff: "(x :: u32) < 1048576 \<longleftrightarrow> unat x < 1048576"
  by (simp add: word_less_nat_alt)

lemma verify_Inr_iff: "verify c = (c', Inr ()) \<longleftrightarrow> verify_accepts c \<and> c' = verify_aligned c"
proof (cases "snd (verify_pairs (share_memory_buffer_cap c) 0 (buffer_slice_sizes c))")
  case (Inl e)
  then have "\<not> (\<forall>p \<in> set (buffer_slice_sizes c). spp_size p \<le> share_memory_buffer_cap c)"
    using verify_pairs_Inr_iff [of "share_memory_buffer_cap c" 0 "buffer_slice_sizes c"]
    by (metis Inl_Inr_False)
  with Inl show ?thesis
    by (auto simp: verify_def verify_accepts_def Let_def)
next
  case (Inr tot)
  then have ok: "\<forall>p \<in> set (buffer_slice_sizes c). spp_size p \<le> share_memory_buffer_cap c"
    and tot: "tot = sum_list (map spp_percent (buffer_slice_sizes c))"
    by (simp_all add: verify_pairs_Inr_iff)
  have f: "fst (verify_pairs (share_memory_buffer_cap c) 0 (buffer_slice_sizes c))
     = map align_pair (buffer_slice_sizes c)"
    by (rule verify_pairs_fst [OF ok])
  show ?thesis
    using Inr ok tot f
    by (auto simp: verify_def verify_accepts_def verify_aligned_def Let_def cap_too_small_iff
      not_less)
qed

lemma align4_le_cap:
  fixes x c :: u32
  assumes "x \<le> c" and "4 dvd unat c"
  shows "align4 x \<le> c"
proof -
  have le: "unat x \<le> unat c" using assms(1) by (simp add: word_le_nat_alt)
  moreover have "unat c + 3 < 4294967296"
    using assms(2) unat_u32_less [of c] by presburger
  ultimately have no: "unat x + 3 < 4294967296" by linarith
  have "unat (align4 x) < unat x + 4" and "4 dvd unat (align4 x)"
    using align4_up [OF no] by auto
  with le assms(2) have "unat (align4 x) \<le> unat c" by presburger
  then show ?thesis by (simp add: word_le_nat_alt)
qed

section \<open>Properties\<close>

text \<open>
  Property C33. \<open>Config::verify\<close> accepts exactly the configurations whose buffer
  capacity is at least 1 MiB, whose slice-size table is non-empty, has no size above the
  capacity and percentages summing to 100 (as a \<open>uint32_t\<close>), and whose two paths are
  non-empty; on acceptance only the slice sizes and the queue capacity change, each
  rounded up to its alignment.
\<close>

theorem verify_accepts_iff:
  "verify c = (c', Inr ()) \<longleftrightarrow>
     1048576 \<le> unat (share_memory_buffer_cap c) \<and> buffer_slice_sizes c \<noteq> []
     \<and> (\<forall>p \<in> set (buffer_slice_sizes c). spp_size p \<le> share_memory_buffer_cap c)
     \<and> sum_list (map spp_percent (buffer_slice_sizes c)) = 100
     \<and> share_memory_path_prefix c \<noteq> [] \<and> queue_path c \<noteq> []
     \<and> c' = c\<lparr>buffer_slice_sizes := map (\<lambda>p. p\<lparr>spp_size := align4 (spp_size p)\<rparr>)
                                        (buffer_slice_sizes c),
              queue_cap := align8 (queue_cap c)\<rparr>"
  by (auto simp: verify_Inr_iff verify_accepts_def verify_aligned_def align_pair_def)

text \<open>A 1 MiB pool with one slice size of 4093 bytes is accepted and rounded to 4096.\<close>

definition small_config :: config where
  "small_config = default_config\<lparr>share_memory_buffer_cap := 1048576, queue_cap := 9,
     buffer_slice_sizes := [\<lparr>spp_size = 4093, spp_percent = 100\<rparr>]\<rparr>"

theorem verify_accepts_iff_witness:
  "verify small_config = (small_config\<lparr>queue_cap := 16,
     buffer_slice_sizes := [\<lparr>spp_size = 4096, spp_percent = 100\<rparr>]\<rparr>, Inr ())"
  by (simp add: verify_accepts_iff small_config_def default_config_def align4_def align8_def)

text \<open>
  When the buffer capacity is a multiple of 4, an accepted configuration is
  a fixed point of \<open>Config::verify\<close>: its slice sizes are multiples of 4 within the
  capacity, its queue capacity is a multiple of 8, and verifying it again changes nothing.
\<close>

theorem verify_fixed_point:
  assumes "verify c = (c', Inr ())" and "4 dvd unat (share_memory_buffer_cap c)"
  shows "verify c' = (c', Inr ())
    \<and> (\<forall>p \<in> set (buffer_slice_sizes c'). 4 dvd unat (spp_size p)
           \<and> spp_size p \<le> share_memory_buffer_cap c')
    \<and> 8 dvd unat (queue_cap c')"
proof -
  from assms(1) have acc: "verify_accepts c" and c': "c' = verify_aligned c"
    by (simp_all add: verify_Inr_iff)
  have sizes: "\<forall>p \<in> set (buffer_slice_sizes c'). 4 dvd unat (spp_size p)
      \<and> spp_size p \<le> share_memory_buffer_cap c'"
    using acc assms(2)
    by (auto simp: c' verify_aligned_def verify_accepts_def align4_dvd intro: align4_le_cap)
  have q: "8 dvd unat (queue_cap c')"
    by (simp add: c' verify_aligned_def align8_dvd)
  have "verify_accepts c'"
    using acc sizes by (simp add: c' verify_aligned_def verify_accepts_def comp_def)
  moreover have "verify_aligned c' = c'"
  proof -
    have "map align_pair (buffer_slice_sizes c') = buffer_slice_sizes c'"
      by (rule map_idI) (use sizes in \<open>auto simp: align_pair_def align4_id\<close>)
    then show ?thesis by (simp add: verify_aligned_def align8_id [OF q])
  qed
  ultimately show ?thesis using sizes q by (simp add: verify_Inr_iff)
qed

theorem verify_fixed_point_witness:
  "verify (fst (verify small_config)) = (fst (verify small_config), Inr ())"
proof -
  let ?c = "small_config\<lparr>queue_cap := 16,
     buffer_slice_sizes := [\<lparr>spp_size = 4096, spp_percent = 100\<rparr>]\<rparr>"
  have v: "verify small_config = (?c, Inr ())"
    by (simp add: verify_Inr_iff verify_accepts_def verify_aligned_def align_pair_def
        small_config_def default_config_def align4_def align8_def)
  have "4 dvd unat (share_memory_buffer_cap small_config)"
    by (simp add: small_config_def)
  from verify_fixed_point [OF v this] show ?thesis by (simp add: v)
qed

text \<open>
  The size check runs before the rounding, so with a capacity that is not a multiple of 4
  an accepted configuration can hold a slice size above the capacity, and verifying it
  again rejects it.
\<close>

definition odd_config :: config where
  "odd_config = default_config\<lparr>share_memory_buffer_cap := 1048577,
     buffer_slice_sizes := [\<lparr>spp_size = 1048577, spp_percent = 100\<rparr>]\<rparr>"

lemma verify_size_escapes_cap:
  "snd (verify odd_config) = Inr ()
   \<and> (\<exists>p \<in> set (buffer_slice_sizes (fst (verify odd_config))).
        spp_size p > share_memory_buffer_cap (fst (verify odd_config)))
   \<and> snd (verify (fst (verify odd_config))) \<noteq> Inr ()"
proof -
  let ?c = "odd_config\<lparr>buffer_slice_sizes := [\<lparr>spp_size = 1048580, spp_percent = 100\<rparr>]\<rparr>"
  have v: "verify odd_config = (?c, Inr ())"
    by (simp add: verify_Inr_iff verify_accepts_def verify_aligned_def align_pair_def
        odd_config_def default_config_def align4_def align8_def)
  have "\<not> verify_accepts ?c"
    by (simp add: verify_accepts_def odd_config_def)
  then have "snd (verify ?c) \<noteq> Inr ()"
    using verify_Inr_iff [of ?c "fst (verify ?c)"] by (metis prod.collapse)
  moreover have "share_memory_buffer_cap odd_config = 1048577"
    by (simp add: odd_config_def)
  ultimately show ?thesis by (simp add: v)
qed

end
