(* ===== verification/Protocol.thy ===== *)
theory Protocol
  imports Config "HOL-Library.Sublist"
begin

text \<open>
  The wire format and the blocking I/O of the control connection: \<open>src/protocol/event.cpp\<close>,
  \<open>include/shmipc/protocol/event.hpp\<close> and \<open>header.hpp\<close> (the 8-byte header, the fallback
  event, the polling events and the validation), the metadata codec of
  \<open>src/protocol/initializer.cpp\<close>, and \<open>src/protocol/block_io.cpp\<close>. A \<open>Header\<close> is a view on a
  byte buffer, so its accessors are functions on byte lists. What the kernel does during a
  loop of \<open>read\<close> or \<open>write\<close> is a list the loop consumes: it is the parameter the
  results are quantified over.
\<close>

section \<open>Event types\<close>

text \<open>The enum's underlying type is \<open>uint8_t\<close> and unknown values are preserved.\<close>

type_synonym event_type = u8

definition kShareMemoryByFilePath :: event_type where "kShareMemoryByFilePath = 0"
definition kPolling :: event_type where "kPolling = 1"
definition kStreamClose :: event_type where "kStreamClose = 2"
definition kFallbackData :: event_type where "kFallbackData = 3"
definition kExchangeProtoVersion :: event_type where "kExchangeProtoVersion = 4"
definition kShareMemoryByMemfd :: event_type where "kShareMemoryByMemfd = 5"
definition kAckShareMemory :: event_type where "kAckShareMemory = 6"
definition kAckReadyRecvFd :: event_type where "kAckReadyRecvFd = 7"
definition kHotRestart :: event_type where "kHotRestart = 8"
definition kHotRestartAck :: event_type where "kHotRestartAck = 9"
definition kMinEventType :: event_type where "kMinEventType = kShareMemoryByFilePath"
definition kMaxEventType :: event_type where "kMaxEventType = kHotRestartAck"

lemmas event_type_consts =
  kShareMemoryByFilePath_def kPolling_def kStreamClose_def kFallbackData_def
  kExchangeProtoVersion_def kShareMemoryByMemfd_def kAckShareMemory_def kAckReadyRecvFd_def
  kHotRestart_def kHotRestartAck_def kMinEventType_def kMaxEventType_def

definition event_type_name :: "event_type \<Rightarrow> string" where
  "event_type_name t =
     (if t = kShareMemoryByFilePath then ''ShareMemoryByFilePath''
      else if t = kPolling then ''Polling''
      else if t = kStreamClose then ''StreamClose''
      else if t = kFallbackData then ''FallbackData''
      else if t = kExchangeProtoVersion then ''ExchangeProtoVersion''
      else if t = kShareMemoryByMemfd then ''ShareMemoryByMemfd''
      else if t = kAckShareMemory then ''AckShareMemory''
      else if t = kAckReadyRecvFd then ''AckReadyRecvFD''
      else if t = kHotRestart then ''HotRestart''
      else if t = kHotRestartAck then ''HotRestartAck''
      else ''UNSET'' @ dec (unat t))"

section \<open>Header\<close>

definition hdr_length :: "bytes \<Rightarrow> u32" where "hdr_length p = load_be_u32 p 0"
definition hdr_magic :: "bytes \<Rightarrow> u16" where "hdr_magic p = load_be_u16 p 4"
definition hdr_version :: "bytes \<Rightarrow> u8" where "hdr_version p = p ! 6"
definition hdr_msg_type :: "bytes \<Rightarrow> event_type" where "hdr_msg_type p = p ! 7"

definition hdr_encode :: "bytes \<Rightarrow> u32 \<Rightarrow> u8 \<Rightarrow> event_type \<Rightarrow> bytes" where
  "hdr_encode p len version msg_type =
     (store_be_u16 (store_be_u32 p 0 len) 4 kMagicNumber)[6 := version, 7 := msg_type]"

definition hdr_as_slice :: "bytes \<Rightarrow> bytes" where "hdr_as_slice p = take kHeaderSize p"

definition hdr_to_string :: "bytes \<Rightarrow> string" where
  "hdr_to_string p =
     take 159 (''Header { length: '' @ dec (unat (hdr_length p)) @ '', magic: ''
       @ dec (unat (hdr_magic p)) @ '', version: '' @ dec (unat (hdr_version p))
       @ '', msg_type: '' @ event_type_name (hdr_msg_type p) @ '' }'')"

text \<open>A header event: 8 zero bytes, encoded.\<close>

definition header_event :: "u8 \<Rightarrow> event_type \<Rightarrow> bytes" where
  "header_event version t =
     hdr_as_slice (hdr_encode (replicate kHeaderSize 0) (of_nat kHeaderSize) version t)"

definition polling_event_with_version :: "bytes list" where
  "polling_event_with_version =
     map (\<lambda>i. hdr_encode (replicate kHeaderSize 0) (of_nat kHeaderSize) (of_nat i) kPolling)
       [0 ..< Suc (unat kMaxSupportProtoVersion)]"

definition check_event_valid :: "bytes \<Rightarrow> unit result" where
  "check_event_valid hdr =
     (if hdr_magic hdr \<noteq> kMagicNumber \<or> hdr_version hdr = 0 then Inl (Error KInvalidVersion)
      else if hdr_msg_type hdr < kMinEventType \<or> hdr_msg_type hdr > kMaxEventType
      then Inl (Error KInvalidMsgType)
      else Inr ())"

section \<open>FallbackDataEvent\<close>

definition fallback_encode :: "bytes \<Rightarrow> u32 \<Rightarrow> u8 \<Rightarrow> u32 \<Rightarrow> u32 \<Rightarrow> bytes" where
  "fallback_encode p len version seq_id status =
     (let p1 = (store_be_u16 (store_be_u32 p 0 len) 4 kMagicNumber)[6 := version, 7 := kFallbackData]
      in store_be_u32 (store_be_u32 p1 8 seq_id) 12 status)"

definition fallback_as_slice :: "bytes \<Rightarrow> bytes" where
  "fallback_as_slice p = take (kHeaderSize + 8) p"

section \<open>Shared-memory metadata\<close>

text \<open>Paths are strings; their bytes go on the wire.\<close>

definition string_bytes :: "string \<Rightarrow> bytes" where
  "string_bytes s = map (\<lambda>c. of_nat (of_char c)) s"

definition bytes_string :: "bytes \<Rightarrow> string" where
  "bytes_string bs = map (\<lambda>b. char_of (unat b)) bs"

definition blit :: "bytes \<Rightarrow> nat \<Rightarrow> bytes \<Rightarrow> bytes" where
  "blit p off src = take off p @ src @ drop (off + length src) p"

definition generate_shm_metadata :: "event_type \<Rightarrow> string \<Rightarrow> string \<Rightarrow> u8 \<Rightarrow> bytes" where
  "generate_shm_metadata t buffer_path qpath version =
     (let size = kHeaderSize + 2 + length buffer_path + 2 + length qpath;
          d0 = hdr_encode (replicate size 0) (of_nat size) version t;
          d1 = store_be_u16 d0 kHeaderSize (of_nat (length qpath));
          d2 = blit d1 (kHeaderSize + 2) (string_bytes qpath);
          d3 = store_be_u16 d2 (kHeaderSize + 2 + length qpath) (of_nat (length buffer_path))
      in blit d3 (kHeaderSize + 2 + length qpath + 2) (string_bytes buffer_path))"

text \<open>
  The decoder checks no bounds: a read behind the end of the body is undefined, which is
  \<open>None\<close>. The result is the pair of buffer path and queue path.
\<close>

definition extract_shm_metadata :: "bytes \<Rightarrow> (string \<times> string) option" where
  "extract_shm_metadata body =
     (if length body < 2 then None
      else
        let qlen = unat (load_be_u16 body 0) in
        if length body < 2 + qlen + 2 then None
        else
          let qpath = bytes_string (take qlen (drop 2 body));
              blen = unat (load_be_u16 body (2 + qlen))
          in if length body < 2 + qlen + 2 + blen then None
             else Some (bytes_string (take blen (drop (2 + qlen + 2) body)), qpath))"

section \<open>Blocking reads and writes\<close>

text \<open>
  What arrives on a stream socket: runs of bytes, interrupted calls, errors, and the end of
  the stream as an empty run. \<open>read\<close> returns at most as many bytes as it is asked for and
  leaves the rest of the run for the next call.
\<close>

datatype arrival = Run bytes | Interrupted | Failed string

fun block_read_full :: "nat \<Rightarrow> bytes \<Rightarrow> arrival list \<Rightarrow> (arrival list \<times> bytes result) option" where
  "block_read_full n acc [] = (if length acc < n then None else Some ([], Inr acc))"
| "block_read_full n acc (a # as) =
     (if length acc < n
      then (case a of
              Interrupted \<Rightarrow> block_read_full n acc as
            | Failed reason \<Rightarrow>
                Some (as, Inl (io_error (take 127 (''read_full failed, had read_size:''
                  @ dec (length acc) @ '', reason:'' @ reason))))
            | Run bs \<Rightarrow>
                if bs = [] then Some (as, Inl (io_error ''EOF''))
                else
                  let k = n - length acc in
                  if k < length bs then Some (Run (drop k bs) # as, Inr (acc @ take k bs))
                  else block_read_full n (acc @ bs) as)
      else Some (a # as, Inr acc))"

text \<open>The answers of \<open>write\<close>: it takes at most as many bytes as it is given.\<close>

datatype write_answer = Accepts nat | WInterrupted | WFailed string

text \<open>Arguments: the data, the count \<open>written\<close>, the answers. The bytes that went out are returned too.\<close>

fun block_write_full ::
  "bytes \<Rightarrow> nat \<Rightarrow> write_answer list \<Rightarrow> (write_answer list \<times> bytes \<times> unit result) option" where
  "block_write_full d n [] = (if n < length d then None else Some ([], take n d, Inr ()))"
| "block_write_full d n (a # as) =
     (if n < length d
      then (case a of
              WInterrupted \<Rightarrow> block_write_full d n as
            | WFailed reason \<Rightarrow> Some (as, take n d, Inl (io_error reason))
            | Accepts k \<Rightarrow> block_write_full d (n + min k (length d - n)) as)
      else Some (a # as, take n d, Inr ()))"

section \<open>Lemmas on the codecs\<close>

lemma hdr_encode_fields [simp]:
  assumes "8 \<le> length p"
  shows "hdr_length (hdr_encode p l v t) = l" "hdr_magic (hdr_encode p l v t) = kMagicNumber"
    "hdr_version (hdr_encode p l v t) = v" "hdr_msg_type (hdr_encode p l v t) = t"
proof -
  have "load_be_u32 (hdr_encode p l v t) 0 = load_be_u32 (store_be_u32 p 0 l) 0"
    by (rule load_be_u32_cong) (auto simp: hdr_encode_def nth_store_be_u16_other nth_list_update)
  then show "hdr_length (hdr_encode p l v t) = l" using assms by (simp add: hdr_length_def)
  have "load_be_u16 (hdr_encode p l v t) 4 = load_be_u16 (store_be_u16 (store_be_u32 p 0 l) 4 kMagicNumber) 4"
    by (rule load_be_u16_cong) (simp_all add: hdr_encode_def)
  then show "hdr_magic (hdr_encode p l v t) = kMagicNumber" using assms by (simp add: hdr_magic_def)
  show "hdr_version (hdr_encode p l v t) = v" "hdr_msg_type (hdr_encode p l v t) = t"
    using assms by (simp_all add: hdr_version_def hdr_msg_type_def hdr_encode_def)
qed

lemma length_hdr_encode [simp]: "length (hdr_encode p l v t) = length p"
  by (simp add: hdr_encode_def)

lemma hdr_encode_append:
  assumes "8 \<le> length p" shows "hdr_encode (p @ q) l v t = hdr_encode p l v t @ q"
  using assms by (auto simp: hdr_encode_def store_be_u16_def store_be_u32_def list_update_append)

lemma header_event_fields [simp]:
  "length (header_event v t) = 8" "hdr_length (header_event v t) = 8"
  "hdr_magic (header_event v t) = kMagicNumber" "hdr_version (header_event v t) = v"
  "hdr_msg_type (header_event v t) = t"
  by (simp_all add: header_event_def hdr_as_slice_def kHeaderSize_def)

definition be16 :: "u16 \<Rightarrow> bytes" where
  "be16 v = [ucast (drop_bit 8 v), ucast v]"

lemma length_be16 [simp]: "length (be16 v) = 2"
  by (simp add: be16_def)

lemma store_be_u16_at:
  "length ys = 2 \<Longrightarrow> length xs = n \<Longrightarrow> store_be_u16 (xs @ ys @ zs) n v = xs @ be16 v @ zs"
  by (auto simp: store_be_u16_def be16_def list_update_append length_Suc_conv numeral_2_eq_2)

lemma load_be_u16_at: "length xs = n \<Longrightarrow> load_be_u16 (xs @ be16 v @ zs) n = v"
proof -
  assume n: "length xs = n"
  have "load_be_u16 (store_be_u16 (xs @ [0, 0] @ zs) n v) n = v"
    using n by (intro load_be_u16_store_be_u16) simp
  moreover have "store_be_u16 (xs @ [0, 0] @ zs) n v = xs @ be16 v @ zs"
    using n by (intro store_be_u16_at) simp_all
  ultimately show ?thesis by metis
qed

lemma blit_at: "length xs = n \<Longrightarrow> length ys = length src \<Longrightarrow> blit (xs @ ys @ zs) n src = xs @ src @ zs"
  by (simp add: blit_def)

lemma string_bytes_simps [simp]:
  "length (string_bytes s) = length s" "bytes_string (string_bytes s) = s"
proof -
  have "unat (of_nat (of_char c) :: u8) = of_char c" for c :: char
    by (simp add: unat_of_nat)
  then show "bytes_string (string_bytes s) = s" by (simp add: bytes_string_def string_bytes_def comp_def)
qed (simp add: string_bytes_def)

definition metadata_body :: "string \<Rightarrow> string \<Rightarrow> bytes" where
  "metadata_body buffer_path qpath = be16 (of_nat (length qpath)) @ string_bytes qpath
     @ be16 (of_nat (length buffer_path)) @ string_bytes buffer_path"

lemma generate_shm_metadata_layout:
  "generate_shm_metadata t b q v = hdr_encode (replicate 8 0) (of_nat (12 + length b + length q)) v t
     @ metadata_body b q"
proof -
  let ?size = "kHeaderSize + 2 + length b + 2 + length q"
  let ?h = "hdr_encode (replicate 8 0) (of_nat ?size) v t"
  have r: "replicate ?size (0 :: u8) = replicate 8 0 @ [0, 0] @ replicate (length q) 0 @ [0, 0] @ replicate (length b) 0"
    by (rule nth_equalityI) (auto simp: kHeaderSize_def nth_append nth_Cons split: nat.splits)
  have d0: "hdr_encode (replicate ?size 0) (of_nat ?size) v t
      = ?h @ [0, 0] @ replicate (length q) 0 @ [0, 0] @ replicate (length b) 0"
    unfolding r by (rule hdr_encode_append) simp
  have d1: "store_be_u16 (?h @ [0, 0] @ replicate (length q) 0 @ [0, 0] @ replicate (length b) 0) kHeaderSize w
      = ?h @ be16 w @ replicate (length q) 0 @ [0, 0] @ replicate (length b) 0" for w
    by (rule store_be_u16_at) (simp_all add: kHeaderSize_def)
  have d2: "blit (?h @ be16 w @ replicate (length q) 0 @ [0, 0] @ replicate (length b) 0) (kHeaderSize + 2)
        (string_bytes q)
      = ?h @ be16 w @ string_bytes q @ [0, 0] @ replicate (length b) 0" for w
    using blit_at [of "?h @ be16 w" "kHeaderSize + 2" "replicate (length q) 0" "string_bytes q"
        "[0, 0] @ replicate (length b) 0"] by (simp add: kHeaderSize_def)
  have d3: "store_be_u16 (?h @ be16 w @ string_bytes q @ [0, 0] @ replicate (length b) 0)
        (kHeaderSize + 2 + length q) w' = ?h @ be16 w @ string_bytes q @ be16 w' @ replicate (length b) 0"
    for w w'
    using store_be_u16_at [of "[0, 0]" "?h @ be16 w @ string_bytes q" "kHeaderSize + 2 + length q"
        "replicate (length b) 0" w'] by (simp add: kHeaderSize_def)
  have d4: "blit (?h @ be16 w @ string_bytes q @ be16 w' @ replicate (length b) 0)
        (kHeaderSize + 2 + length q + 2) (string_bytes b)
      = ?h @ be16 w @ string_bytes q @ be16 w' @ string_bytes b" for w w'
    using blit_at [of "?h @ be16 w @ string_bytes q @ be16 w'" "kHeaderSize + 2 + length q + 2"
        "replicate (length b) 0" "string_bytes b" "[]"] by (simp add: kHeaderSize_def)
  have s: "?size = 12 + length b + length q" by (simp add: kHeaderSize_def)
  have "generate_shm_metadata t b q v = ?h @ metadata_body b q"
    unfolding generate_shm_metadata_def Let_def d0 d1 d2 d3 d4 metadata_body_def by simp
  then show ?thesis unfolding s .
qed

lemma unat_of_nat_u16: "n < 65536 \<Longrightarrow> unat (of_nat n :: u16) = n"
  by (simp add: unat_of_nat)

lemma extract_metadata_body:
  assumes "length b < 65536" "length q < 65536"
  shows "extract_shm_metadata (metadata_body b q) = Some (b, q)"
proof -
  have l1: "load_be_u16 (metadata_body b q) 0 = of_nat (length q)"
    using load_be_u16_at [of "[]" 0] by (simp add: metadata_body_def)
  have l2: "load_be_u16 (metadata_body b q) (2 + length q) = of_nat (length b)"
    using load_be_u16_at [of "be16 (of_nat (length q)) @ string_bytes q" "2 + length q" "of_nat (length b)"]
    by (simp add: metadata_body_def)
  have len: "length (metadata_body b q) = 4 + length q + length b" by (simp add: metadata_body_def)
  have t: "take (length q) (drop 2 (metadata_body b q)) = string_bytes q"
    "take (length b) (drop (2 + length q + 2) (metadata_body b q)) = string_bytes b"
    by (simp_all add: metadata_body_def)
  note u = unat_of_nat_u16 [OF assms(1)] unat_of_nat_u16 [OF assms(2)]
  have n: "\<not> length (metadata_body b q) < 2" "\<not> length (metadata_body b q) < 2 + length q + 2"
    "\<not> length (metadata_body b q) < 2 + length q + 2 + length b" unfolding len by linarith+
  show ?thesis
    unfolding extract_shm_metadata_def Let_def l1 u l2 t using n by simp
qed

section \<open>Lemmas on the loops\<close>

text \<open>The bytes a reader gets before the first error or the end of the stream.\<close>

fun stream_of :: "arrival list \<Rightarrow> bytes" where
  "stream_of [] = []"
| "stream_of (Interrupted # as) = stream_of as"
| "stream_of (Failed r # as) = []"
| "stream_of (Run bs # as) = (if bs = [] then [] else bs @ stream_of as)"

lemma block_read_full_ok:
  "length acc \<le> n \<Longrightarrow> n \<le> length acc + length (stream_of as) \<Longrightarrow>
     \<exists>as'. block_read_full n acc as = Some (as', Inr (acc @ take (n - length acc) (stream_of as)))
       \<and> stream_of as' = drop (n - length acc) (stream_of as)"
proof (induction n acc as rule: block_read_full.induct)
  case (2 n acc a as)
  show ?case
  proof (cases "length acc < n")
    case lt: True
    show ?thesis
    proof (cases a)
      case (Run bs)
      then have ne: "bs \<noteq> []" using 2(4) lt by (auto split: if_splits)
      show ?thesis
      proof (cases "n - length acc < length bs")
        case True
        with Run ne lt show ?thesis by (auto simp: Let_def)
      next
        case False
        with 2(1) [OF lt Run ne _ False] 2(4) Run ne lt show ?thesis by (auto simp: Let_def)
      qed
    next
      case Interrupted
      with 2 lt show ?thesis by simp
    next
      case (Failed r)
      with 2 lt show ?thesis by simp
    qed
  next
    case False
    with 2 show ?thesis by (cases a) auto
  qed
qed auto

text \<open>The answers of \<open>write\<close> take at least \<open>n\<close> bytes before the first failure.\<close>

fun accepts :: "nat \<Rightarrow> write_answer list \<Rightarrow> bool" where
  "accepts n [] = (n = 0)"
| "accepts n (WInterrupted # as) = accepts n as"
| "accepts n (WFailed r # as) = (n = 0)"
| "accepts n (Accepts k # as) = accepts (n - k) as"

lemma block_write_full_ok:
  "n \<le> length d \<Longrightarrow> accepts (length d - n) as \<Longrightarrow> \<exists>as'. block_write_full d n as = Some (as', d, Inr ())"
proof (induction d n as rule: block_write_full.induct)
  case (2 d n a as)
  show ?case
  proof (cases "n < length d")
    case lt: True
    show ?thesis
    proof (cases a)
      case (Accepts k)
      have "length d - (n + min k (length d - n)) = length d - n - k" by linarith
      with 2(1) [OF lt Accepts] 2(4) Accepts lt show ?thesis by auto
    qed (use 2 lt in auto)
  next
    case False
    with 2 show ?thesis by simp
  qed
qed auto

lemma block_write_full_prefix:
  "block_write_full d n as = Some (as', out, r) \<Longrightarrow> prefix out d \<and> (r = Inr () \<longrightarrow> out = d)"
proof (induction d n as rule: block_write_full.induct)
  case (2 d n a as)
  then show ?case
    by (auto simp: take_is_prefix split: if_splits write_answer.splits)
qed (auto simp: take_is_prefix split: if_splits)

lemma fallback_encode_fields [simp]:
  assumes "16 \<le> length p"
  shows "hdr_length (fallback_encode p l v i st) = l" "hdr_magic (fallback_encode p l v i st) = kMagicNumber"
    "hdr_version (fallback_encode p l v i st) = v" "hdr_msg_type (fallback_encode p l v i st) = kFallbackData"
    "load_be_u32 (fallback_encode p l v i st) 8 = i" "load_be_u32 (fallback_encode p l v i st) 12 = st"
    "length (fallback_encode p l v i st) = length p"
proof -
  let ?h = "hdr_encode p l v kFallbackData"
  have e: "fallback_encode p l v i st = store_be_u32 (store_be_u32 ?h 8 i) 12 st"
    by (simp add: fallback_encode_def hdr_encode_def)
  have same: "fallback_encode p l v i st ! j = ?h ! j" if "j < 8" for j
    using that by (simp add: e nth_store_be_u32_other)
  have a: "load_be_u32 (fallback_encode p l v i st) 0 = load_be_u32 ?h 0"
    "load_be_u16 (fallback_encode p l v i st) 4 = load_be_u16 ?h 4"
    by (intro load_be_u32_cong load_be_u16_cong; simp add: same)+
  have l: "8 \<le> length p" using assms by simp
  note h = hdr_encode_fields [OF l, of l v kFallbackData]
  show "hdr_length (fallback_encode p l v i st) = l" "hdr_magic (fallback_encode p l v i st) = kMagicNumber"
    using h(1,2) a by (simp_all add: hdr_length_def hdr_magic_def)
  show "hdr_version (fallback_encode p l v i st) = v" "hdr_msg_type (fallback_encode p l v i st) = kFallbackData"
    using h(3,4) same by (simp_all add: hdr_version_def hdr_msg_type_def)
  have "load_be_u32 (fallback_encode p l v i st) 8 = load_be_u32 (store_be_u32 ?h 8 i) 8"
    unfolding e by (rule load_be_u32_cong) (simp add: nth_store_be_u32_other)
  then show "load_be_u32 (fallback_encode p l v i st) 8 = i" using assms by simp
  show "load_be_u32 (fallback_encode p l v i st) 12 = st" unfolding e using assms by simp
  show "length (fallback_encode p l v i st) = length p" by (simp add: e)
qed

section \<open>Properties\<close>

text \<open>
  Headers survive the wire: what \<open>Header::encode\<close> writes into a buffer of at
  least 8 bytes is read back by the accessors, only the first 8 bytes change, and the receiver's
  validation accepts the header exactly when the version is not 0 and the event type is
  one of the ten known ones; the other headers are rejected with the error for a bad version
  or a bad message type.
\<close>

theorem header_round_trip:
  assumes "8 \<le> length p"
  shows "hdr_length (hdr_encode p l v t) = l \<and> hdr_version (hdr_encode p l v t) = v
    \<and> hdr_msg_type (hdr_encode p l v t) = t \<and> drop 8 (hdr_encode p l v t) = drop 8 p
    \<and> check_event_valid (hdr_encode p l v t)
      = (if v = 0 then Inl (Error KInvalidVersion)
         else if unat t > 9 then Inl (Error KInvalidMsgType) else Inr ())"
proof -
  have d: "drop 8 (hdr_encode p l v t) = drop 8 p"
    by (rule nth_equalityI) (simp_all add: hdr_encode_def nth_store_be_u16_other nth_store_be_u32_other)
  have "t > 9 \<longleftrightarrow> unat t > 9" by (simp add: word_less_nat_alt)
  then show ?thesis
    using assms d by (simp add: check_event_valid_def event_type_consts)
qed

theorem header_round_trip_witness:
  "check_event_valid (hdr_encode (replicate 8 0) 8 3 kAckShareMemory) = Inr ()"
  using header_round_trip [of "replicate 8 0" 8 3 kAckShareMemory] by (simp add: event_type_consts)

text \<open>
  Property C24. The handshake message that announces the shared memory survives the wire: its
  header states its full length, and decoding the body the header announces gives back
  both paths, for paths shorter than \<open>2^16\<close> bytes.
\<close>

theorem shm_metadata_round_trip:
  assumes "length buffer_path < 2 ^ 16" and "length qpath < 2 ^ 16"
  shows "unat (hdr_length (generate_shm_metadata t buffer_path qpath v))
      = length (generate_shm_metadata t buffer_path qpath v)
    \<and> hdr_msg_type (generate_shm_metadata t buffer_path qpath v) = t
    \<and> hdr_version (generate_shm_metadata t buffer_path qpath v) = v
    \<and> extract_shm_metadata (drop kHeaderSize (generate_shm_metadata t buffer_path qpath v))
      = Some (buffer_path, qpath)"
proof -
  let ?n = "12 + length buffer_path + length qpath"
  let ?d = "hdr_encode (replicate 8 0 @ metadata_body buffer_path qpath) (of_nat ?n) v t"
  have e: "generate_shm_metadata t buffer_path qpath v = ?d"
    by (simp add: generate_shm_metadata_layout hdr_encode_append)
  have len: "length ?d = ?n" by (simp add: metadata_body_def)
  have "unat (of_nat ?n :: u32) = ?n" using assms by (intro unat_of_nat_u32) simp
  moreover have "drop kHeaderSize ?d = metadata_body buffer_path qpath"
    by (simp add: hdr_encode_append kHeaderSize_def)
  ultimately show ?thesis
    unfolding e len using extract_metadata_body [of buffer_path qpath] assms by simp
qed

theorem shm_metadata_round_trip_witness:
  "extract_shm_metadata (drop kHeaderSize (generate_shm_metadata kShareMemoryByMemfd ''/b'' ''/q'' 3))
     = Some (''/b'', ''/q'')"
  using shm_metadata_round_trip [of "''/b''" "''/q''" kShareMemoryByMemfd 3] by simp

text \<open>
  \<open>block_read_full\<close> does not depend on how the kernel cuts the stream: whatever
  the sizes of the runs that arrive and wherever calls are interrupted, when \<open>n\<close> bytes
  arrive before an error or the end of the stream it returns exactly the first \<open>n\<close> bytes and
  leaves the rest of the stream for the next read.
\<close>

theorem block_read_full_any_chunking:
  assumes "n \<le> length (stream_of as)"
  shows "\<exists>as'. block_read_full n [] as = Some (as', Inr (take n (stream_of as)))
    \<and> stream_of as' = drop n (stream_of as)"
  using block_read_full_ok [of "[]" n as] assms by simp

theorem block_read_full_any_chunking_witness:
  "\<exists>as'. block_read_full 4 [] [Run [1], Interrupted, Run [2, 3, 4, 5], Run []] = Some (as', Inr [1, 2, 3, 4])
     \<and> stream_of as' = [5]"
  using block_read_full_any_chunking [of 4 "[Run [1], Interrupted, Run [2, 3, 4, 5], Run []]"] by simp

text \<open>
  \<open>block_write_full\<close> sends a prefix of its data whatever the kernel answers, reports
  success only when that prefix is all of the data, and does succeed when the kernel's
  answers take as many bytes as there are before they report a failure.
\<close>

theorem block_write_full_correct:
  "(\<forall>as' out r. block_write_full d 0 as = Some (as', out, r) \<longrightarrow> prefix out d \<and> (r = Inr () \<longrightarrow> out = d))
   \<and> (accepts (length d) as \<longrightarrow> (\<exists>as'. block_write_full d 0 as = Some (as', d, Inr ())))"
  using block_write_full_prefix block_write_full_ok [of 0 d as] by auto

theorem block_write_full_correct_witness:
  "\<exists>as'. block_write_full [1, 2, 3] 0 [Accepts 2, WInterrupted, Accepts 0, Accepts 7] = Some (as', [1, 2, 3], Inr ())"
  using block_write_full_correct [of "[1, 2, 3]" "[Accepts 2, WInterrupted, Accepts 0, Accepts 7]"] by simp

end
