(* ===== verification/Queue.thy ===== *)
theory Queue
  imports Config "HOL-Library.Signed_Division"
begin

unbundle bit_operations_syntax

text \<open>
  The IO queue of \<open>include/shmipc/queue.hpp\<close> and \<open>src/queue.cpp\<close>: a ring of
  12-byte elements in mapped memory with 64-bit head and tail counters and a working
  flag. A queue object is the record of its pointers (offsets into the mapping) and its
  capacity; every operation takes the memory and returns the new memory. The position of
  the counters and of the flag depends on the architecture, as in the source. The mutex
  that makes \<open>put\<close> single-producer is the atomicity of the model's \<open>put\<close>; the
  interleavings of producer and consumer are the subject of the theory on wake-ups.
\<close>

section \<open>Data\<close>

datatype arch = X86_64 | Aarch64

definition kQueueHeaderLength :: nat where "kQueueHeaderLength = 24"

record queue_element =
  seq_id :: u32
  offset_in_shm_buf :: u32
  status :: u32

record queue =
  q_head :: nat
  q_tail :: nat
  q_working_flag :: nat
  q_bytes :: nat
  q_cap :: u64
  q_len :: nat

section \<open>Operations\<close>

definition count_queue_mem_size :: "u32 \<Rightarrow> nat" where
  "count_queue_mem_size c = kQueueHeaderLength + kQueueElementLen * unat c"

definition mapping_from_bytes :: "arch \<Rightarrow> mem \<Rightarrow> nat \<Rightarrow> queue" where
  "mapping_from_bytes a m d =
     (let cap = ucast (load_u32 m (d + 0));
          queue_start_offset = kQueueHeaderLength;
          queue_end_offset = kQueueHeaderLength + kQueueElementLen * unat cap
      in \<lparr>q_head = (case a of Aarch64 \<Rightarrow> d + 8 | X86_64 \<Rightarrow> d + 4),
          q_tail = (case a of Aarch64 \<Rightarrow> d + 16 | X86_64 \<Rightarrow> d + 12),
          q_working_flag = (case a of Aarch64 \<Rightarrow> d + 4 | X86_64 \<Rightarrow> d + 20),
          q_bytes = d + queue_start_offset,
          q_cap = cap,
          q_len = queue_end_offset - queue_start_offset\<rparr>)"

definition load_head :: "mem \<Rightarrow> queue \<Rightarrow> u64" where
  "load_head m q = load_i64 m (q_head q)"

definition load_tail :: "mem \<Rightarrow> queue \<Rightarrow> u64" where
  "load_tail m q = load_i64 m (q_tail q)"

definition store_head :: "mem \<Rightarrow> queue \<Rightarrow> u64 \<Rightarrow> mem" where
  "store_head m q v = store_i64 m (q_head q) v"

definition store_tail :: "mem \<Rightarrow> queue \<Rightarrow> u64 \<Rightarrow> mem" where
  "store_tail m q v = store_i64 m (q_tail q) v"

definition create_from_bytes :: "arch \<Rightarrow> mem \<Rightarrow> nat \<Rightarrow> u32 \<Rightarrow> mem \<times> queue" where
  "create_from_bytes a m d cap =
     (let m1 = store_u32 m (d + 0) cap;
          q = mapping_from_bytes a m1 d;
          m2 = store_head m1 q 0;
          m3 = store_tail m2 q 0;
          m4 = store_u32 m3 (q_working_flag q) 0
      in (m4, q))"

definition queue_size :: "mem \<Rightarrow> queue \<Rightarrow> int" where
  "queue_size m q = sint (load_tail m q - load_head m q)"

definition is_full :: "mem \<Rightarrow> queue \<Rightarrow> bool" where
  "is_full m q \<longleftrightarrow> queue_size m q = sint (q_cap q)"

definition is_empty :: "mem \<Rightarrow> queue \<Rightarrow> bool" where
  "is_empty m q \<longleftrightarrow> queue_size m q = 0"

text \<open>
  The byte offset of a counter value in the ring,
  \<open>static_cast<std::size_t>((v % cap_) * kQueueElementLen)\<close>.
\<close>

definition slot_offset :: "queue \<Rightarrow> u64 \<Rightarrow> nat" where
  "slot_offset q v = nat ((sint v smod sint (q_cap q)) * int kQueueElementLen mod 2 ^ 64)"

definition store_element :: "mem \<Rightarrow> nat \<Rightarrow> queue_element \<Rightarrow> mem" where
  "store_element m p e =
     store_u32 (store_u32 (store_u32 m p (seq_id e)) (p + 4) (offset_in_shm_buf e))
       (p + 8) (status e)"

definition put :: "queue \<Rightarrow> mem \<Rightarrow> queue_element \<Rightarrow> mem \<times> unit result" where
  "put q m e =
     (if sint (load_tail m q - load_head m q) \<ge> sint (q_cap q)
      then (m, Inl (Error KQueueFull))
      else
        let queue_offset = slot_offset q (load_tail m q);
            base = q_bytes q;
            m1 = store_element m (base + queue_offset) e;
            m2 = store_tail m1 q (load_tail m1 q + 1)
        in (m2, Inr ()))"

definition load_element :: "mem \<Rightarrow> nat \<Rightarrow> queue_element" where
  "load_element m p = \<lparr>seq_id = load_u32 m p, offset_in_shm_buf = load_u32 m (p + 4),
     status = load_u32 m (p + 8)\<rparr>"

definition pop :: "queue \<Rightarrow> mem \<Rightarrow> mem \<times> queue_element result" where
  "pop q m =
     (if sint (load_head m q) \<ge> sint (load_tail m q)
      then (m, Inl (Error KQueueEmpty))
      else
        let queue_offset = slot_offset q (load_head m q);
            element = load_element m (q_bytes q + queue_offset);
            m1 = store_head m q (load_head m q + 1)
        in (m1, Inr element))"

definition consumer_is_working :: "mem \<Rightarrow> queue \<Rightarrow> bool" where
  "consumer_is_working m q \<longleftrightarrow> load_u32 m (q_working_flag q) > 0"

text \<open>\<open>compare_exchange_strong(0, 1)\<close> on the flag; the result says whether it was 0.\<close>

definition mark_working :: "queue \<Rightarrow> mem \<Rightarrow> mem \<times> bool" where
  "mark_working q m =
     (if load_u32 m (q_working_flag q) = 0 then (store_u32 m (q_working_flag q) 1, True)
      else (m, False))"

definition mark_not_working :: "queue \<Rightarrow> mem \<Rightarrow> mem \<times> bool" where
  "mark_not_working q m =
     (let m1 = store_u32 m (q_working_flag q) 0
      in if queue_size m1 q = 0 then (m1, True)
         else (store_u32 m1 (q_working_flag q) 1, False))"

section \<open>Contents and invariant\<close>

text \<open>
  The abstract value of a queue is the list of elements between head and tail. The
  invariant fixes the layout of the record, orders the counters and bounds their
  distance by the capacity; \<open>room\<close> is the number of further puts the 63-bit tail
  counter has room for.
\<close>

definition contents :: "mem \<Rightarrow> queue \<Rightarrow> queue_element list" where
  "contents m q =
     map (\<lambda>k. load_element m (q_bytes q + slot_offset q (load_head m q + of_nat k)))
         [0 ..< nat (sint (load_tail m q) - sint (load_head m q))]"

definition queue_layout :: "arch \<Rightarrow> nat \<Rightarrow> u32 \<Rightarrow> queue" where
  "queue_layout a d cap =
     \<lparr>q_head = (case a of Aarch64 \<Rightarrow> d + 8 | X86_64 \<Rightarrow> d + 4),
      q_tail = (case a of Aarch64 \<Rightarrow> d + 16 | X86_64 \<Rightarrow> d + 12),
      q_working_flag = (case a of Aarch64 \<Rightarrow> d + 4 | X86_64 \<Rightarrow> d + 20),
      q_bytes = d + 24, q_cap = ucast cap, q_len = 12 * unat cap\<rparr>"

definition queue_inv :: "nat \<Rightarrow> arch \<Rightarrow> nat \<Rightarrow> u32 \<Rightarrow> mem \<Rightarrow> bool" where
  "queue_inv room a d cap m \<longleftrightarrow>
     (let q = queue_layout a d cap; h = sint (load_head m q); t = sint (load_tail m q)
      in 0 \<le> h \<and> h \<le> t \<and> t - h \<le> int (unat cap) \<and> t + int room < 2 ^ 63
         \<and> load_u32 m d = cap)"

section \<open>An abstract bounded FIFO\<close>

text \<open>
  What the sessions rely on: a FIFO of bounded capacity. An operation is a put or a pop;
  a run of operations returns the list of answers. The locale states the contract over
  any implementation, and its lemma says that every run of the implementation gives the
  answers of the plain list.
\<close>

datatype 'e qop = QPut 'e | QPop

datatype 'e answer = APut "unit result" | APop "'e result"

fun fifo_step :: "nat \<Rightarrow> 'e list \<Rightarrow> 'e qop \<Rightarrow> 'e list \<times> 'e answer" where
  "fifo_step c xs (QPut e) =
     (if length xs < c then (xs @ [e], APut (Inr ())) else (xs, APut (Inl (Error KQueueFull))))"
| "fifo_step c [] QPop = ([], APop (Inl (Error KQueueEmpty)))"
| "fifo_step c (x # xs) QPop = (xs, APop (Inr x))"

fun run_ops :: "('s \<Rightarrow> 'o \<Rightarrow> 's \<times> 'a) \<Rightarrow> 's \<Rightarrow> 'o list \<Rightarrow> 's \<times> 'a list" where
  "run_ops f s [] = (s, [])"
| "run_ops f s (x # xs) =
     (let r = f s x; r' = run_ops f (fst r) xs in (fst r', snd r # snd r'))"

fun n_puts :: "'e qop list \<Rightarrow> nat" where
  "n_puts [] = 0"
| "n_puts (QPut e # xs) = Suc (n_puts xs)"
| "n_puts (QPop # xs) = n_puts xs"

locale bounded_fifo =
  fixes enq :: "'s \<Rightarrow> 'e \<Rightarrow> 's \<times> unit result"
    and deq :: "'s \<Rightarrow> 's \<times> 'e result"
    and items :: "'s \<Rightarrow> 'e list"
    and capacity :: nat
    and invar :: "nat \<Rightarrow> 's \<Rightarrow> bool"
  assumes enq_room: "invar (Suc n) s \<Longrightarrow> length (items s) < capacity \<Longrightarrow>
      \<exists>s'. enq s e = (s', Inr ()) \<and> items s' = items s @ [e] \<and> invar n s'"
    and enq_full: "invar n s \<Longrightarrow> \<not> length (items s) < capacity \<Longrightarrow>
      enq s e = (s, Inl (Error KQueueFull))"
    and deq_some: "invar n s \<Longrightarrow> items s = x # xs \<Longrightarrow>
      \<exists>s'. deq s = (s', Inr x) \<and> items s' = xs \<and> invar n s'"
    and deq_none: "invar n s \<Longrightarrow> items s = [] \<Longrightarrow> deq s = (s, Inl (Error KQueueEmpty))"
    and invar_mono: "invar (Suc n) s \<Longrightarrow> invar n s"
begin

definition impl_step :: "'s \<Rightarrow> 'e qop \<Rightarrow> 's \<times> 'e answer" where
  "impl_step s x = (case x of
      QPut e \<Rightarrow> (let r = enq s e in (fst r, APut (snd r)))
    | QPop \<Rightarrow> (let r = deq s in (fst r, APop (snd r))))"

lemma impl_step_simulates:
  assumes "invar (n_puts [x] + n) s"
  shows "snd (impl_step s x) = snd (fifo_step capacity (items s) x)
    \<and> items (fst (impl_step s x)) = fst (fifo_step capacity (items s) x)
    \<and> invar n (fst (impl_step s x))"
proof (cases x)
  case (QPut e)
  with assms have inv: "invar (Suc n) s" by simp
  show ?thesis
  proof (cases "length (items s) < capacity")
    case True
    with enq_room [OF inv True, of e] QPut show ?thesis
      by (auto simp: impl_step_def)
  next
    case False
    with enq_full [OF inv False] invar_mono [OF inv] QPut show ?thesis
      by (simp add: impl_step_def)
  qed
next
  case QPop
  with assms have inv: "invar n s" by simp
  show ?thesis
  proof (cases "items s")
    case Nil
    with deq_none [OF inv Nil] inv QPop show ?thesis by (simp add: impl_step_def)
  next
    case (Cons y ys)
    with deq_some [OF inv Cons] QPop show ?thesis by (auto simp: impl_step_def)
  qed
qed

lemma run_simulates:
  "invar (n_puts ops + n) s \<Longrightarrow>
     snd (run_ops impl_step s ops) = snd (run_ops (fifo_step capacity) (items s) ops)
     \<and> items (fst (run_ops impl_step s ops)) = fst (run_ops (fifo_step capacity) (items s) ops)
     \<and> invar n (fst (run_ops impl_step s ops))"
proof (induction ops arbitrary: s)
  case Nil
  then show ?case by simp
next
  case (Cons x ops)
  have "n_puts (x # ops) + n = n_puts [x] + (n_puts ops + n)"
    by (cases x) auto
  with Cons.prems have "invar (n_puts [x] + (n_puts ops + n)) s" by simp
  from impl_step_simulates [OF this] Cons.IH [of "fst (impl_step s x)"]
  show ?case by (simp add: Let_def)
qed

end

section \<open>The memory layout\<close>

lemma mapping_from_bytes_layout: "mapping_from_bytes a m d = queue_layout a d (load_u32 m d)"
  by (simp add: mapping_from_bytes_def queue_layout_def Let_def kQueueHeaderLength_def
      kQueueElementLen_def)

lemma layout_simps [simp]:
  "q_bytes (queue_layout a d c) = d + 24"
  "q_cap (queue_layout a d c) = ucast c"
  "q_len (queue_layout a d c) = 12 * unat c"
  by (simp_all add: queue_layout_def)

text \<open>Head, tail, flag and capacity occupy disjoint parts of the 24-byte header.\<close>

lemma layout_positions:
  shows "d + 4 \<le> q_head (queue_layout a d c)" "q_head (queue_layout a d c) + 8 \<le> d + 24"
    and "d + 4 \<le> q_tail (queue_layout a d c)" "q_tail (queue_layout a d c) + 8 \<le> d + 24"
    and "d + 4 \<le> q_working_flag (queue_layout a d c)"
      "q_working_flag (queue_layout a d c) + 4 \<le> d + 24"
    and "q_head (queue_layout a d c) + 8 \<le> q_tail (queue_layout a d c)"
    and "q_working_flag (queue_layout a d c) + 4 \<le> q_head (queue_layout a d c)
      \<or> q_tail (queue_layout a d c) + 8 \<le> q_working_flag (queue_layout a d c)"
  by (cases a; simp add: queue_layout_def)+

lemma load_element_store_element [simp]: "load_element (store_element m p e) p = e"
  by (cases e) (simp add: load_element_def store_element_def mem_simps)

lemma load_element_cong:
  assumes "\<And>i. i < 12 \<Longrightarrow> m (p + i) = m' (p + i)"
  shows "load_element m p = load_element m' p"
proof -
  have "load_u32 m p = load_u32 m' p" by (rule load_u32_cong) (simp add: assms)
  moreover have "load_u32 m (p + 4) = load_u32 m' (p + 4)"
    by (rule load_u32_cong) (simp add: assms add.assoc)
  moreover have "load_u32 m (p + 8) = load_u32 m' (p + 8)"
    by (rule load_u32_cong) (simp add: assms add.assoc)
  ultimately show ?thesis by (simp add: load_element_def)
qed

lemma store_element_other: "x < p \<or> p + 12 \<le> x \<Longrightarrow> store_element m p e x = m x"
  by (auto simp: store_element_def store_u32_other)

lemma slots_disjoint:
  fixes i j :: nat
  assumes "i \<noteq> j"
  shows "i * 12 + 12 \<le> j * 12 \<or> j * 12 + 12 \<le> i * 12"
  using assms by linarith

section \<open>Counters as naturals\<close>

definition counters :: "arch \<Rightarrow> nat \<Rightarrow> u32 \<Rightarrow> mem \<Rightarrow> nat \<Rightarrow> nat \<Rightarrow> bool" where
  "counters a d c m h t \<longleftrightarrow>
     load_head m (queue_layout a d c) = of_nat h \<and> load_tail m (queue_layout a d c) = of_nat t
     \<and> h \<le> t \<and> t - h \<le> unat c \<and> t < 9223372036854775808 \<and> load_u32 m d = c"

lemma queue_inv_counters:
  "queue_inv room a d c m \<longleftrightarrow> (\<exists>h t. counters a d c m h t \<and> t + room < 9223372036854775808)"
proof
  assume inv: "queue_inv room a d c m"
  let ?q = "queue_layout a d c"
  let ?h = "unat (load_head m ?q)" and ?t = "unat (load_tail m ?q)"
  from inv have h: "0 \<le> sint (load_head m ?q)" and t: "0 \<le> sint (load_tail m ?q)"
    by (auto simp: queue_inv_def Let_def)
  from sint_nonneg_u64 [OF h] sint_nonneg_u64 [OF t] inv have "counters a d c m ?h ?t"
    and "?t + room < 9223372036854775808"
    by (auto simp: queue_inv_def Let_def counters_def)
  then show "\<exists>h t. counters a d c m h t \<and> t + room < 9223372036854775808" by blast
next
  assume "\<exists>h t. counters a d c m h t \<and> t + room < 9223372036854775808"
  then obtain h t where c: "counters a d c m h t" and r: "t + room < 9223372036854775808"
    by blast
  then have "sint (load_head m (queue_layout a d c)) = int h"
    and "sint (load_tail m (queue_layout a d c)) = int t"
    by (simp_all add: counters_def sint_of_nat_u64)
  with c r show "queue_inv room a d c m"
    by (auto simp: queue_inv_def Let_def counters_def)
qed

lemma counters_sint:
  assumes "counters a d c m h t"
  defines "q \<equiv> queue_layout a d c"
  shows "sint (load_head m q) = int h" and "sint (load_tail m q) = int t"
    and "sint (load_tail m q - load_head m q) = int (t - h)"
proof -
  have h: "load_head m q = of_nat h" and t: "load_tail m q = of_nat t"
    and ht: "h \<le> t" "t < 9223372036854775808"
    using assms by (simp_all add: counters_def)
  then show "sint (load_head m q) = int h" and "sint (load_tail m q) = int t"
    by (simp_all add: sint_of_nat_u64)
  have "load_tail m q - load_head m q = of_nat (t - h)"
    using ht by (simp add: h t)
  then show "sint (load_tail m q - load_head m q) = int (t - h)"
    using ht by (simp only: sint_of_nat_u64)
qed

lemma sint_cap [simp]: "sint (ucast (c :: u32) :: u64) = int (unat c)"
  by (subst sint_small_u64) (auto intro: less_trans [OF unat_u32_less])

lemma slot_offset_nat:
  assumes "0 < unat c" and "k < 9223372036854775808"
  shows "slot_offset (queue_layout a d c) (of_nat k) = (k mod unat c) * 12"
proof -
  have "sint (of_nat k :: u64) smod sint (ucast c :: u64) = int (k mod unat c)"
    using assms by (simp add: sint_of_nat_u64 signed_modulo_int_def sgn_if zmod_int)
  moreover have "int (k mod unat c) * 12 mod 18446744073709551616 = int ((k mod unat c) * 12)"
    using assms(1) less_trans [OF mod_less_divisor [OF assms(1), of k] unat_u32_less] by simp
  ultimately have "slot_offset (queue_layout a d c) (of_nat k) = nat (int ((k mod unat c) * 12))"
    by (simp add: slot_offset_def kQueueElementLen_def)
  then show ?thesis by (simp only: nat_int)
qed

definition ring :: "mem \<Rightarrow> nat \<Rightarrow> nat \<Rightarrow> nat \<Rightarrow> queue_element" where
  "ring m d n i = load_element m (d + 24 + (i mod n) * 12)"

lemma contents_ring:
  assumes c: "counters a d c m h t"
  shows "contents m (queue_layout a d c) = map (ring m d (unat c)) [h ..< t]"
proof (cases "unat c = 0")
  case True
  with c have "h = t" by (simp add: counters_def)
  then show ?thesis
    by (simp add: contents_def counters_sint [OF c])
next
  case False
  have ht: "h \<le> t" "t < 9223372036854775808" and hd: "load_head m (queue_layout a d c) = of_nat h"
    using c by (simp_all add: counters_def)
  have len: "nat (sint (load_tail m (queue_layout a d c)) - sint (load_head m (queue_layout a d c)))
      = t - h"
    by (simp add: counters_sint [OF c])
  have "contents m (queue_layout a d c)
      = map (\<lambda>k. ring m d (unat c) (h + k)) [0 ..< t - h]"
    unfolding contents_def len
  proof (rule map_cong [OF refl], unfold hd)
    fix k assume "k \<in> set [0..<t - h]"
    then have "h + k < 9223372036854775808" using ht by simp
    then show "load_element m (q_bytes (queue_layout a d c)
        + slot_offset (queue_layout a d c) (of_nat h + of_nat k)) = ring m d (unat c) (h + k)"
      using slot_offset_nat [of c "h + k" a d] False by (simp add: ring_def)
  qed
  also have "\<dots> = map (ring m d (unat c)) (map (\<lambda>k. k + h) [0 ..< t - h])"
    by (simp add: comp_def add.commute)
  also have "map (\<lambda>k. k + h) [0 ..< t - h] = [h ..< t]"
    using ht by (simp add: map_add_upt)
  finally show ?thesis .
qed

lemma length_contents: "counters a d c m h t \<Longrightarrow> length (contents m (queue_layout a d c)) = t - h"
  by (simp add: contents_ring)

text \<open>Writing the header's counters or flag leaves the ring untouched.\<close>

lemma ring_cong:
  assumes "\<And>x. d + 24 \<le> x \<Longrightarrow> x < d + 24 + n * 12 \<Longrightarrow> m x = m' x" and "0 < n"
  shows "ring m d n i = ring m' d n i"
proof -
  have "i mod n < n" using assms(2) by simp
  then have le: "(i mod n) * 12 + 12 \<le> n * 12" by linarith
  show ?thesis unfolding ring_def
    by (rule load_element_cong) (rule assms(1), use le in auto)
qed

lemma mod_neq_in_window:
  fixes i t n :: nat
  assumes "i < t" "t - i < n"
  shows "i mod n \<noteq> t mod n"
proof
  assume "i mod n = t mod n"
  with assms(1) have "n dvd t - i" by (metis less_imp_le mod_eq_dvd_iff_nat)
  with assms show False by (simp add: nat_dvd_not_less)
qed

text \<open>The counters after the tail is moved, and after the head is moved.\<close>

lemma counters_store_tail:
  assumes "counters a d c m h t" and "t - h < unat c" and "t + 1 < 9223372036854775808"
  shows "counters a d c (store_tail m (queue_layout a d c) (of_nat (t + 1))) h (t + 1)"
  using assms layout_positions [where a = a and d = d and c = c]
  by (simp add: counters_def load_head_def load_tail_def store_tail_def mem_simps del: of_nat_add)

lemma counters_store_head:
  assumes "counters a d c m h t" and "h < t"
  shows "counters a d c (store_head m (queue_layout a d c) (of_nat (h + 1))) (h + 1) t"
  using assms diff_le_mono2 [of h "h + 1" t] layout_positions [where a = a and d = d and c = c]
  by (simp add: counters_def load_head_def load_tail_def store_head_def mem_simps
      del: of_nat_add of_nat_Suc)

lemma counters_cong:
  assumes "counters a d c m h t" and "\<And>x. d \<le> x \<Longrightarrow> x < d + 24 \<Longrightarrow> m' x = m x"
  shows "counters a d c m' h t"
proof -
  have "load_i64 m' p = load_i64 m p" if "d \<le> p" "p + 8 \<le> d + 24" for p
    using that by (intro load_i64_cong assms(2)) auto
  moreover have "load_u32 m' d = load_u32 m d"
    by (intro load_u32_cong assms(2)) auto
  ultimately show ?thesis
    using assms(1) layout_positions [where a = a and d = d and c = c]
    by (simp add: counters_def load_head_def load_tail_def)
qed

text \<open>
  What a put and a pop do to the counters and to the ring, with the frame: only the
  mapped queue region is written, and of the header only the counter concerned.
\<close>

lemma put_room:
  fixes e :: queue_element
  assumes c: "counters a d c m h t" and room: "t - h < unat c" "t + 1 < 9223372036854775808"
  defines "q \<equiv> queue_layout a d c"
  defines "m1 \<equiv> store_element m (d + 24 + (t mod unat c) * 12) e"
  shows "put q m e = (store_tail m1 q (of_nat (t + 1)), Inr ())"
    and "counters a d c (store_tail m1 q (of_nat (t + 1))) h (t + 1)"
    and "contents (store_tail m1 q (of_nat (t + 1))) q = contents m q @ [e]"
proof -
  let ?n = "unat c" and ?m2 = "store_tail m1 q (of_nat (t + 1))"
  have n: "0 < ?n" and t: "load_tail m q = of_nat t" and ht: "h \<le> t"
    using room c by (auto simp: counters_def q_def)
  have hdr: "m1 x = m x" if "x < d + 24" for x
    using that by (simp add: m1_def store_element_other)
  have c1: "counters a d c m1 h t"
    by (rule counters_cong [OF c]) (simp add: hdr)
  then have t1: "load_tail m1 q = of_nat t" by (simp add: counters_def q_def)
  have off: "q_bytes q + slot_offset q (of_nat t) = d + 24 + (t mod ?n) * 12"
    using slot_offset_nat [OF n, of t a d] room by (simp add: q_def)
  show "put q m e = (?m2, Inr ())"
    using room counters_sint(3) [OF c] t1
    by (simp add: put_def Let_def t off m1_def [symmetric] q_def [symmetric])
      (simp add: q_def add.commute)
  show c2: "counters a d c ?m2 h (t + 1)"
    unfolding q_def by (rule counters_store_tail [OF c1 room])
  have tail: "ring (store_tail m1 q v) d ?n i = ring m1 d ?n i" for i v
    using layout_positions(4) [of a d c] n
    by (intro ring_cong) (auto simp: store_tail_def q_def store_i64_other)
  have old: "ring m1 d ?n i = ring m d ?n i" if "i \<in> set [h ..< t]" for i
  proof -
    have "i mod ?n \<noteq> t mod ?n"
      using that room by (intro mod_neq_in_window) auto
    from slots_disjoint [OF this] show ?thesis
      unfolding ring_def m1_def
      by (intro load_element_cong store_element_other) auto
  qed
  have "contents ?m2 q = map (ring ?m2 d ?n) [h ..< t + 1]"
    unfolding q_def by (rule contents_ring [OF c2 [unfolded q_def]])
  also have "\<dots> = map (ring m1 d ?n) [h ..< t] @ [ring m1 d ?n t]"
    using ht by (simp add: tail)
  also have "map (ring m1 d ?n) [h ..< t] = contents m q"
    unfolding q_def contents_ring [OF c] by (rule map_cong [OF refl old])
  also have "ring m1 d ?n t = e" by (simp add: ring_def m1_def)
  finally show "contents ?m2 q = contents m q @ [e]" .
qed

lemma put_full:
  assumes c: "counters a d c m h t" and full: "t - h = unat c"
  shows "put (queue_layout a d c) m e = (m, Inl (Error KQueueFull))"
  using full counters_sint(3) [OF c] by (simp add: put_def)

lemma pop_some:
  assumes c: "counters a d c m h t" and ne: "h < t"
  defines "q \<equiv> queue_layout a d c"
  defines "m1 \<equiv> store_head m q (of_nat (h + 1))"
  shows "pop q m = (m1, Inr (hd (contents m q)))"
    and "counters a d c m1 (h + 1) t"
    and "contents m1 q = tl (contents m q)"
proof -
  let ?n = "unat c"
  have n: "0 < ?n" and h: "load_head m q = of_nat h" and lt: "h < 9223372036854775808"
    using ne c by (auto simp: counters_def q_def)
  have cs: "contents m q = map (ring m d ?n) (h # [h + 1 ..< t])"
    unfolding q_def contents_ring [OF c] using ne by (simp add: upt_conv_Cons)
  show "pop q m = (m1, Inr (hd (contents m q)))"
    using ne counters_sint(1,2) [OF c] unfolding cs
    by (simp add: pop_def q_def [symmetric] h Let_def)
      (simp add: q_def m1_def slot_offset_nat n lt ring_def add.commute)
  show c1: "counters a d c m1 (h + 1) t"
    unfolding m1_def q_def by (rule counters_store_head [OF c ne])
  have "ring m1 d ?n i = ring m d ?n i" for i
    using layout_positions(2) [of a d c] n
    by (intro ring_cong) (auto simp: store_head_def q_def m1_def store_i64_other)
  then show "contents m1 q = tl (contents m q)"
    unfolding cs unfolding q_def contents_ring [OF c1] by simp
qed

lemma pop_none:
  assumes c: "counters a d c m h t" and e: "h = t"
  shows "pop (queue_layout a d c) m = (m, Inl (Error KQueueEmpty))"
  using e counters_sint(1,2) [OF c] by (simp add: pop_def)

lemma contents_empty_iff:
  "counters a d c m h t \<Longrightarrow> contents m (queue_layout a d c) = [] \<longleftrightarrow> h = t"
  using contents_ring [of a d c m h t] by (auto simp: counters_def)

section \<open>The ring buffer is a bounded FIFO\<close>

interpretation rb: bounded_fifo "put (queue_layout a d c)" "pop (queue_layout a d c)"
  "\<lambda>m. contents m (queue_layout a d c)" "unat c" "\<lambda>n. queue_inv n a d c"
proof (unfold_locales, goal_cases)
  case (1 n m e)
  from 1(1) obtain h t where c: "counters a d c m h t" and r: "t + Suc n < 9223372036854775808"
    by (auto simp: queue_inv_counters)
  from 1(2) have l: "t - h < unat c" by (simp add: length_contents [OF c])
  from r have "t + 1 < 9223372036854775808" by simp
  from put_room [OF c l this, of e] r show ?case
    by (auto simp: queue_inv_counters intro!: exI)
next
  case (2 n m e)
  from 2(1) obtain h t where c: "counters a d c m h t"
    by (auto simp: queue_inv_counters)
  with 2(2) have "t - h = unat c" by (auto simp: length_contents counters_def)
  from put_full [OF c this] show ?case .
next
  case (3 n m x xs)
  from 3(1) obtain h t where c: "counters a d c m h t" and r: "t + n < 9223372036854775808"
    by (auto simp: queue_inv_counters)
  with 3(2) have "h < t" using contents_empty_iff [OF c] by (auto simp: counters_def)
  from pop_some [OF c this] 3(2) r show ?case
    by (auto simp: queue_inv_counters intro!: exI)
next
  case (4 n m)
  from 4(1) obtain h t where c: "counters a d c m h t"
    by (auto simp: queue_inv_counters)
  with 4(2) have "h = t" by (simp add: contents_empty_iff)
  from pop_none [OF c this] show ?case .
next
  case (5 n m)
  then show ?case by (auto simp: queue_inv_def Let_def)
qed

section \<open>Creation and the working flag\<close>

lemma create_from_bytes_layout: "snd (create_from_bytes a m d c) = queue_layout a d c"
  by (simp add: create_from_bytes_def Let_def mapping_from_bytes_layout)

lemma create_from_bytes_counters: "counters a d c (fst (create_from_bytes a m d c)) 0 0"
  using layout_positions [where a = a and d = d and c = c]
  by (auto simp: create_from_bytes_def Let_def mapping_from_bytes_layout counters_def
      load_head_def load_tail_def store_head_def store_tail_def mem_simps)

lemma create_from_bytes_flag:
  "load_u32 (fst (create_from_bytes a m d c)) (q_working_flag (queue_layout a d c)) = 0"
  by (simp add: create_from_bytes_def Let_def mapping_from_bytes_layout)

lemma counters_store_flag:
  assumes "counters a d c m h t"
  shows "counters a d c (store_u32 m (q_working_flag (queue_layout a d c)) v) h t"
  using assms layout_positions [where a = a and d = d and c = c]
  by (auto simp: counters_def load_head_def load_tail_def mem_simps)

lemma contents_store_flag:
  assumes "counters a d c m h t"
  shows "contents (store_u32 m (q_working_flag (queue_layout a d c)) v) (queue_layout a d c)
    = contents m (queue_layout a d c)"
proof (cases "unat c = 0")
  case True
  with assms have "h = t" by (simp add: counters_def)
  with assms counters_store_flag [OF assms, of v] show ?thesis
    by (simp add: contents_ring)
next
  case False
  have "ring (store_u32 m (q_working_flag (queue_layout a d c)) v) d (unat c) i
      = ring m d (unat c) i" for i
    using layout_positions(6) [of a d c] False
    by (intro ring_cong) (auto simp: store_u32_other)
  then show ?thesis
    by (simp add: contents_ring [OF assms] contents_ring [OF counters_store_flag [OF assms]])
qed

lemma queue_size_contents:
  "counters a d c m h t \<Longrightarrow> queue_size m (queue_layout a d c) = int (length (contents m (queue_layout a d c)))"
  by (simp add: queue_size_def counters_sint length_contents)

section \<open>Frame\<close>

text \<open>Every operation writes inside the \<open>count_queue_mem_size\<close> bytes of its queue only.\<close>

lemma put_frame:
  assumes c: "counters a d c m h t" and x: "x < d \<or> d + count_queue_mem_size c \<le> x"
  shows "fst (put (queue_layout a d c) m e) x = m x"
proof (cases "t - h < unat c")
  case True
  let ?p = "d + 24 + (t mod unat c) * 12"
  have t: "t < 9223372036854775808" and tl: "load_tail m (queue_layout a d c) = of_nat t"
    using c by (simp_all add: counters_def)
  have n: "0 < unat c" using True by simp
  have "(t mod unat c) * 12 + 12 \<le> unat c * 12"
    using mod_less_divisor [OF n, of t] by linarith
  then have "x < ?p \<or> ?p + 12 \<le> x"
    using x by (auto simp: count_queue_mem_size_def kQueueHeaderLength_def kQueueElementLen_def)
  moreover have "store_tail k (queue_layout a d c) v x = k x" for k v
    using x layout_positions [where a = a and d = d and c = c]
    by (auto simp: store_tail_def count_queue_mem_size_def kQueueHeaderLength_def store_i64_other)
  ultimately show ?thesis
    using True counters_sint(3) [OF c] slot_offset_nat [OF n t, of a d]
    by (simp add: put_def Let_def tl store_element_other)
next
  case False
  with put_full [OF c] c show ?thesis by (simp add: counters_def)
qed

lemma pop_frame:
  assumes "x < d \<or> d + count_queue_mem_size c \<le> x"
  shows "fst (pop (queue_layout a d c) m) x = m x"
  using assms layout_positions [where a = a and d = d and c = c]
  by (auto simp: pop_def Let_def store_head_def count_queue_mem_size_def kQueueHeaderLength_def
      store_i64_other)

lemma create_from_bytes_frame:
  assumes "x < d \<or> d + count_queue_mem_size c \<le> x"
  shows "fst (create_from_bytes a m d c) x = m x"
  using assms layout_positions [where a = a and d = d and c = c]
  by (auto simp: create_from_bytes_def Let_def mapping_from_bytes_layout store_head_def
      store_tail_def count_queue_mem_size_def kQueueHeaderLength_def store_i64_other
      store_u32_other)

section \<open>Properties\<close>

definition queue_step :: "queue \<Rightarrow> mem \<Rightarrow> queue_element qop \<Rightarrow> mem \<times> queue_element answer" where
  "queue_step q m x = (case x of
      QPut e \<Rightarrow> (let r = put q m e in (fst r, APut (snd r)))
    | QPop \<Rightarrow> (let r = pop q m in (fst r, APop (snd r))))"

lemma queue_step_impl: "queue_step (queue_layout a d c) = rb.impl_step a d c"
  by (intro ext) (simp add: queue_step_def rb.impl_step_def)

text \<open>
  Property C12. Any sequence of put and pop on a freshly created queue of capacity
  \<open>c\<close> gives exactly the answers a plain list bounded by \<open>c\<close> gives
  (elements in order, \<open>kQueueFull\<close> and \<open>kQueueEmpty\<close> exactly when it is full or
  empty), and leaves that list as its contents, as long as fewer than 2^63 puts are made.
\<close>

theorem queue_runs_as_fifo:
  assumes "create_from_bytes a m d c = (m0, q)" and "n_puts ops < 9223372036854775808"
  shows "snd (run_ops (queue_step q) m0 ops) = snd (run_ops (fifo_step (unat c)) [] ops)
    \<and> contents (fst (run_ops (queue_step q) m0 ops)) q
      = fst (run_ops (fifo_step (unat c)) [] ops)"
proof -
  have q: "q = queue_layout a d c" and m0: "m0 = fst (create_from_bytes a m d c)"
    using assms(1) create_from_bytes_layout [of a m d c] by simp_all
  have c: "counters a d c m0 0 0" unfolding m0 by (rule create_from_bytes_counters)
  have inv: "queue_inv (n_puts ops + 0) a d c m0"
    unfolding queue_inv_counters using c assms(2) by (intro exI [of _ 0]) simp
  have "contents m0 q = []" unfolding q by (simp add: contents_empty_iff [OF c])
  with rb.run_simulates [OF inv] show ?thesis
    by (simp add: q queue_step_impl)
qed

definition sample_element :: queue_element where
  "sample_element = \<lparr>seq_id = 7, offset_in_shm_buf = 36, status = 1\<rparr>"

definition sample_queue :: "mem \<times> queue" where
  "sample_queue = create_from_bytes X86_64 (\<lambda>_. 0) 0 1"

theorem queue_runs_as_fifo_witness:
  "snd (run_ops (queue_step (snd sample_queue)) (fst sample_queue)
       [QPut sample_element, QPut sample_element, QPop, QPop])
     = [APut (Inr ()), APut (Inl (Error KQueueFull)), APop (Inr sample_element),
        APop (Inl (Error KQueueEmpty))]"
  using queue_runs_as_fifo [of X86_64 "\<lambda>_. 0" 0 1 "fst sample_queue" "snd sample_queue"
      "[QPut sample_element, QPut sample_element, QPop, QPop]"]
  by (simp add: sample_queue_def)

lemma sample_queue_inv: "queue_inv 5 X86_64 0 1 (fst sample_queue)"
  unfolding queue_inv_counters sample_queue_def
  using create_from_bytes_counters [of X86_64 0 1 "\<lambda>_. 0"]
  by (intro exI [of _ 0]) simp

text \<open>
  A put or a pop on a queue whose invariant holds writes only the bytes of
  that queue: everything outside its \<open>count_queue_mem_size(cap)\<close> bytes keeps its value.
\<close>

theorem queue_ops_stay_inside:
  assumes "queue_inv n a d c m" and "x < d \<or> d + count_queue_mem_size c \<le> x"
  shows "fst (queue_step (queue_layout a d c) m y) x = m x"
proof -
  obtain h t where "counters a d c m h t" using assms(1) by (auto simp: queue_inv_counters)
  with assms(2) put_frame pop_frame show ?thesis
    by (cases y) (simp_all add: queue_step_def Let_def)
qed

theorem queue_ops_stay_inside_witness:
  "queue_inv 5 X86_64 0 1 (fst sample_queue) \<and> count_queue_mem_size 1 = 36
   \<and> fst (queue_step (queue_layout X86_64 0 1) (fst sample_queue) (QPut sample_element)) 36
     = fst sample_queue 36"
  using queue_ops_stay_inside [OF sample_queue_inv, of 36 "QPut sample_element"] sample_queue_inv
  by (simp add: count_queue_mem_size_def kQueueHeaderLength_def kQueueElementLen_def)

text \<open>
  Property C19. \<open>mark_not_working\<close> answers true exactly when the queue is drained; the flag
  it leaves says working exactly when elements are left, and no element is touched.
\<close>

theorem mark_not_working_correct:
  assumes "queue_inv n a d c m"
  defines "q \<equiv> queue_layout a d c"
  shows "(snd (mark_not_working q m) \<longleftrightarrow> contents m q = [])
    \<and> (consumer_is_working (fst (mark_not_working q m)) q \<longleftrightarrow> contents m q \<noteq> [])
    \<and> contents (fst (mark_not_working q m)) q = contents m q
    \<and> queue_inv n a d c (fst (mark_not_working q m))"
proof -
  obtain h t where c: "counters a d c m h t" and r: "t + n < 9223372036854775808"
    using assms(1) by (auto simp: queue_inv_counters)
  let ?f = "\<lambda>k v. store_u32 k (q_working_flag q) v"
  note c1 = counters_store_flag [OF c, folded q_def]
  note c2 = counters_store_flag [OF c1, folded q_def]
  note t1 = contents_store_flag [OF c, folded q_def]
  note t2 = contents_store_flag [OF c1, folded q_def]
  have sz: "queue_size (?f m 0) q = 0 \<longleftrightarrow> contents m q = []"
    using queue_size_contents [OF c1, of 0] t1 [of 0] by (simp add: q_def)
  have "queue_inv n a d c (fst (mark_not_working q m))"
    unfolding queue_inv_counters
    by (intro exI [of _ h] exI [of _ t]) (simp add: mark_not_working_def Let_def c1 c2 r)
  then show ?thesis
    by (simp add: mark_not_working_def Let_def sz consumer_is_working_def t1 t2)
qed

theorem mark_not_working_correct_witness:
  "queue_inv 5 X86_64 0 1 (fst sample_queue)
   \<and> (snd (mark_not_working (queue_layout X86_64 0 1) (fst sample_queue))
      \<longleftrightarrow> contents (fst sample_queue) (queue_layout X86_64 0 1) = [])"
  using mark_not_working_correct [OF sample_queue_inv] sample_queue_inv by simp

end
