(* ===== verification/Os_Interface.thy ===== *)
theory Os_Interface
  imports Config "HOL-Library.Sublist"
begin

text \<open>
  The operating system as the library sees it. The kernel is not part of the program, so
  the results of its calls are the fields of a record the definitions take as an argument:
  a negative number is the error return of a call that yields a descriptor or a status.
  What the program does to the outside world is a list of events in program order. The
  theory also holds \<open>src/util/dev_shm.cpp\<close>.
\<close>

record os =
  os_memfd_create :: "string \<Rightarrow> int"
  os_open :: "string \<Rightarrow> int"
  os_open_create :: "string \<Rightarrow> int"
  os_fchmod :: "int \<Rightarrow> int"
  os_ftruncate :: "int \<Rightarrow> nat \<Rightarrow> int"
  os_fstat :: "int \<Rightarrow> int option"
  os_mmap_ok :: "int \<Rightarrow> nat \<Rightarrow> bool"
  os_exists :: "string \<Rightarrow> bool"
  os_statvfs :: "(u64 \<times> u64) option"
  os_strerror :: string

datatype os_event =
    EvOpen int
  | EvClose int
  | EvMkdirs string
  | EvChmod string
  | EvMap int nat
  | EvUnmap
  | EvUnlink string
  | EvRemove string
  | EvShutdown int

text \<open>Descriptors opened and closed by a list of events.\<close>

definition opened :: "os_event list \<Rightarrow> int list" where
  "opened evs = concat (map (\<lambda>e. case e of EvOpen f \<Rightarrow> [f] | _ \<Rightarrow> []) evs)"

definition closed :: "os_event list \<Rightarrow> int list" where
  "closed evs = concat (map (\<lambda>e. case e of EvClose f \<Rightarrow> [f] | _ \<Rightarrow> []) evs)"

lemma opened_simps [simp]:
  "opened [] = []" "opened (EvOpen f # es) = f # opened es" "opened (EvClose f # es) = opened es"
  "opened (EvMkdirs p # es) = opened es" "opened (EvChmod p # es) = opened es"
  "opened (EvMap f n # es) = opened es" "opened (EvUnmap # es) = opened es"
  "opened (EvUnlink p # es) = opened es" "opened (EvRemove p # es) = opened es"
  "opened (EvShutdown f # es) = opened es"
  "opened (xs @ ys) = opened xs @ opened ys"
  by (simp_all add: opened_def)

lemma closed_simps [simp]:
  "closed [] = []" "closed (EvClose f # es) = f # closed es" "closed (EvOpen f # es) = closed es"
  "closed (EvMkdirs p # es) = closed es" "closed (EvChmod p # es) = closed es"
  "closed (EvMap f n # es) = closed es" "closed (EvUnmap # es) = closed es"
  "closed (EvUnlink p # es) = closed es" "closed (EvRemove p # es) = closed es"
  "closed (EvShutdown f # es) = closed es"
  "closed (xs @ ys) = closed xs @ closed ys"
  by (simp_all add: closed_def)

text \<open>\<open>can_create_on_dev_shm\<close>: free space is \<open>f_bavail * f_frsize\<close> in 64 bits.\<close>

definition can_create_on_dev_shm :: "os \<Rightarrow> u64 \<Rightarrow> string \<Rightarrow> bool" where
  "can_create_on_dev_shm os sz path =
     (if sublist ''/dev/shm'' path
      then case os_statvfs os of
             None \<Rightarrow> False
           | Some (f_bavail, f_frsize) \<Rightarrow> f_bavail * f_frsize \<ge> sz
      else True)"

definition from_errno :: "os \<Rightarrow> error" where
  "from_errno os = io_error (os_strerror os)"

text \<open>
  \<open>path.has_parent_path() ? path.parent_path() : "/"\<close>, the directory both file factories
  create before they open a file.
\<close>

definition parent_dir :: "string \<Rightarrow> string" where
  "parent_dir p =
     (let d = dropWhile (\<lambda>c. c \<noteq> CHR ''/'') (rev p); e = dropWhile (\<lambda>c. c = CHR ''/'') d
      in if e = [] then ''/'' else rev e)"

end
