(* ===== verification/Queue_Manager.thy ===== *)
theory Queue_Manager
  imports Queue Os_Interface
begin

text \<open>
  \<open>QueueManager\<close> of \<open>src/queue.cpp\<close> and \<open>include/shmipc/queue.hpp\<close>: one mapping that holds two
  queues. The creator sends on the first half and receives on the second; the peer that
  maps the same memory swaps them. Every factory returns the events it caused, the memory
  and the manager; offset 0 of the memory is the address of the mapping. The theorems say
  that the two sides are connected and that the two directions do not disturb each other.
\<close>

section \<open>The manager and its factories\<close>

record queue_manager =
  qm_send_queue :: queue
  qm_recv_queue :: queue
  qm_path :: string
  qm_memfd :: int
  qm_mem_len :: nat
  qm_map_type :: mem_map_type

text \<open>\<open>memset(mem->data(), 0, mem_size)\<close>\<close>

definition memset0 :: "mem \<Rightarrow> nat \<Rightarrow> mem" where
  "memset0 m n = (\<lambda>x. if x < n then 0 else m x)"

text \<open>The queues of a new manager over a mapping of \<open>mem_size\<close> bytes.\<close>

definition qm_create ::
  "arch \<Rightarrow> mem \<Rightarrow> nat \<Rightarrow> u32 \<Rightarrow> string \<Rightarrow> mem_map_type \<Rightarrow> int \<Rightarrow> mem \<times> queue_manager" where
  "qm_create a m mem_size qcap path ty fd =
     (let m0 = memset0 m mem_size;
          (m1, send_queue) = create_from_bytes a m0 0 qcap;
          (m2, recv_queue) = create_from_bytes a m1 (mem_size div 2) qcap
      in (m2, \<lparr>qm_send_queue = send_queue, qm_recv_queue = recv_queue, qm_path = path,
               qm_memfd = fd, qm_mem_len = mem_size, qm_map_type = ty\<rparr>))"

text \<open>The queues of a manager over a mapping the peer has created: the halves are swapped.\<close>

definition qm_mapping :: "arch \<Rightarrow> mem \<Rightarrow> nat \<Rightarrow> string \<Rightarrow> mem_map_type \<Rightarrow> int \<Rightarrow> queue_manager" where
  "qm_mapping a m mapping_size path ty fd =
     \<lparr>qm_send_queue = mapping_from_bytes a m (mapping_size div 2),
      qm_recv_queue = mapping_from_bytes a m 0, qm_path = path,
      qm_memfd = fd, qm_mem_len = mapping_size, qm_map_type = ty\<rparr>"

definition create_with_memfd ::
  "arch \<Rightarrow> os \<Rightarrow> string \<Rightarrow> u32 \<Rightarrow> mem \<Rightarrow> os_event list \<times> mem \<times> queue_manager result" where
  "create_with_memfd a os qpath qcap m =
     (let memfd = os_memfd_create os (''shmipc'' @ qpath) in
      if memfd < 0 then ([], m, Inl (from_errno os))
      else
        let mem_size = count_queue_mem_size qcap * kQueueCount in
        if os_ftruncate os memfd mem_size \<noteq> 0
        then ([EvOpen memfd, EvClose memfd], m,
              Inl (other_error (''create_queue_manager_with_memfd truncate share memory failed: ''
                     @ os_strerror os)))
        else if \<not> os_mmap_ok os memfd mem_size
        then ([EvOpen memfd, EvClose memfd], m, Inl (from_errno os))
        else
          let (m1, qm) = qm_create a m mem_size qcap qpath KMemFd memfd
          in ([EvOpen memfd, EvMap memfd mem_size], m1, Inr qm))"

definition msg_no_space :: "string \<Rightarrow> nat \<Rightarrow> string" where
  "msg_no_space path n = take 319 (''err: share memory had not left space, path:'' @ path @ '', size:'' @ dec n)"

definition create_with_file ::
  "arch \<Rightarrow> os \<Rightarrow> string \<Rightarrow> u32 \<Rightarrow> mem \<Rightarrow> os_event list \<times> mem \<times> queue_manager result" where
  "create_with_file a os qpath qcap m =
     (let pre = [EvMkdirs (parent_dir qpath), EvChmod qpath] in
      if os_exists os qpath
      then (pre, m, Inl (other_error (''queue was existed, path:'' @ qpath)))
      else
        let mem_size = count_queue_mem_size qcap * kQueueCount in
        if \<not> can_create_on_dev_shm os (of_nat mem_size) qpath
        then (pre, m, Inl (other_error (msg_no_space qpath mem_size)))
        else
          let fd = os_open_create os qpath in
          if fd < 0 then (pre, m, Inl (from_errno os))
          else if os_fchmod os fd \<noteq> 0
          then (pre @ [EvOpen fd, EvClose fd], m, Inl (from_errno os))
          else if os_ftruncate os fd mem_size \<noteq> 0
          then (pre @ [EvOpen fd, EvClose fd], m, Inl (from_errno os))
          else if \<not> os_mmap_ok os fd mem_size
          then (pre @ [EvOpen fd, EvClose fd], m, Inl (from_errno os))
          else
            let (m1, qm) = qm_create a m mem_size qcap qpath KDevShmFile 0
            in (pre @ [EvOpen fd, EvMap fd mem_size, EvClose fd], m1, Inr qm))"

definition msg_multiple_of_16 :: string where
  "msg_multiple_of_16 = ''the memory size of queue should be a multiple of 16''"

definition mapping_with_memfd ::
  "arch \<Rightarrow> os \<Rightarrow> string \<Rightarrow> int \<Rightarrow> mem \<Rightarrow> os_event list \<times> queue_manager result" where
  "mapping_with_memfd a os qpath memfd m =
     (case os_fstat os memfd of
        None \<Rightarrow> ([], Inl (from_errno os))
      | Some st_size \<Rightarrow>
          let mapping_size = nat (st_size mod 2 ^ 64) in
          if a = Aarch64 \<and> mapping_size mod 16 \<noteq> 0
          then ([], Inl (other_error msg_multiple_of_16))
          else if \<not> os_mmap_ok os memfd mapping_size then ([], Inl (from_errno os))
          else ([EvMap memfd mapping_size], Inr (qm_mapping a m mapping_size qpath KMemFd memfd)))"

definition mapping_with_file ::
  "arch \<Rightarrow> os \<Rightarrow> string \<Rightarrow> mem \<Rightarrow> os_event list \<times> queue_manager result" where
  "mapping_with_file a os qpath m =
     (let fd = os_open os qpath in
      if fd < 0 then ([], Inl (from_errno os))
      else if os_fchmod os fd \<noteq> 0 then ([EvOpen fd, EvClose fd], Inl (from_errno os))
      else
        case os_fstat os fd of
          None \<Rightarrow> ([EvOpen fd, EvClose fd], Inl (from_errno os))
        | Some st_size \<Rightarrow>
            let mapping_size = nat (st_size mod 2 ^ 64) in
            if a = Aarch64 \<and> mapping_size mod 16 \<noteq> 0
            then ([EvOpen fd, EvClose fd], Inl (other_error msg_multiple_of_16))
            else if \<not> os_mmap_ok os fd mapping_size
            then ([EvOpen fd, EvClose fd], Inl (from_errno os))
            else ([EvOpen fd, EvMap fd mapping_size, EvClose fd],
                  Inr (qm_mapping a m mapping_size qpath KDevShmFile 0)))"

definition qm_unmap :: "queue_manager \<Rightarrow> os_event list" where
  "qm_unmap qm =
     (if qm_map_type qm = KDevShmFile then [EvUnlink (qm_path qm)] else [EvClose (qm_memfd qm)])"

section \<open>The two halves\<close>

lemma queue_local:
  assumes c: "counters a d c m h t"
    and same: "\<And>x. d \<le> x \<Longrightarrow> x < d + count_queue_mem_size c \<Longrightarrow> m' x = m x"
  shows "counters a d c m' h t" "contents m' (queue_layout a d c) = contents m (queue_layout a d c)"
proof -
  have sz: "count_queue_mem_size c = 24 + 12 * unat c"
    by (simp add: count_queue_mem_size_def kQueueHeaderLength_def kQueueElementLen_def)
  show c': "counters a d c m' h t" by (rule counters_cong [OF c]) (use same sz in auto)
  show "contents m' (queue_layout a d c) = contents m (queue_layout a d c)"
  proof (cases "unat c = 0")
    case True
    with c have "h = t" by (simp add: counters_def)
    then show ?thesis by (simp add: contents_ring [OF c] contents_ring [OF c'])
  next
    case False
    have "ring m' d (unat c) i = ring m d (unat c) i" for i
      by (rule ring_cong) (use same sz False in auto)
    then show ?thesis by (simp add: contents_ring [OF c] contents_ring [OF c'])
  qed
qed

lemma queue_inv_local:
  assumes "queue_inv n a d c m" and "\<And>x. d \<le> x \<Longrightarrow> x < d + count_queue_mem_size c \<Longrightarrow> m' x = m x"
  shows "queue_inv n a d c m'" "contents m' (queue_layout a d c) = contents m (queue_layout a d c)"
proof -
  obtain h t where c: "counters a d c m h t" "t + n < 9223372036854775808"
    using assms(1) by (auto simp: queue_inv_counters)
  show "queue_inv n a d c m'"
    unfolding queue_inv_counters using queue_local(1) [OF c(1) assms(2)] c(2) by blast
  show "contents m' (queue_layout a d c) = contents m (queue_layout a d c)"
    by (rule queue_local(2) [OF c(1) assms(2)])
qed

lemma queue_step_frame:
  assumes "queue_inv n a d c m" and "x < d \<or> d + count_queue_mem_size c \<le> x"
  shows "fst (queue_step (queue_layout a d c) m y) x = m x"
proof -
  obtain h t where "counters a d c m h t" using assms(1) by (auto simp: queue_inv_counters)
  with assms(2) put_frame pop_frame show ?thesis
    by (cases y) (simp_all add: queue_step_def Let_def)
qed

text \<open>A pair of queues of capacity \<open>c\<close>, one behind the other.\<close>

definition half :: "u32 \<Rightarrow> nat" where
  "half c = count_queue_mem_size c"

definition pair_inv :: "nat \<Rightarrow> nat \<Rightarrow> arch \<Rightarrow> u32 \<Rightarrow> mem \<Rightarrow> bool" where
  "pair_inv n k a c m \<longleftrightarrow> queue_inv n a 0 c m \<and> queue_inv k a (half c) c m"

definition pair_contents :: "arch \<Rightarrow> u32 \<Rightarrow> mem \<Rightarrow> queue_element list \<times> queue_element list" where
  "pair_contents a c m = (contents m (queue_layout a 0 c), contents m (queue_layout a (half c) c))"

lemma qm_create_ok:
  assumes "qm_create a m (count_queue_mem_size c * kQueueCount) c path ty fd = (m', qm)"
    and "n < 9223372036854775808" "k < 9223372036854775808"
  shows "qm_send_queue qm = queue_layout a 0 c" "qm_recv_queue qm = queue_layout a (half c) c"
    "pair_inv n k a c m'" "pair_contents a c m' = ([], [])" "load_u32 m' 0 = c" "load_u32 m' (half c) = c"
proof -
  let ?s = "count_queue_mem_size c * kQueueCount"
  let ?m1 = "fst (create_from_bytes a (memset0 m ?s) 0 c)"
  have h: "?s div 2 = half c" by (simp add: half_def kQueueCount_def)
  have m': "m' = fst (create_from_bytes a ?m1 (half c) c)"
    using assms(1) h by (auto simp: qm_create_def Let_def split: prod.splits)
  have q: "qm_send_queue qm = snd (create_from_bytes a (memset0 m ?s) 0 c)"
    "qm_recv_queue qm = snd (create_from_bytes a ?m1 (half c) c)"
    using assms(1) h by (auto simp: qm_create_def Let_def split: prod.splits)
  then show "qm_send_queue qm = queue_layout a 0 c" "qm_recv_queue qm = queue_layout a (half c) c"
    by (simp_all add: create_from_bytes_layout)
  have c2: "counters a (half c) c m' 0 0" unfolding m' by (rule create_from_bytes_counters)
  have c0: "counters a 0 c ?m1 0 0" by (rule create_from_bytes_counters)
  have same: "m' x = ?m1 x" if "x < 0 + count_queue_mem_size c" for x
    unfolding m' by (rule create_from_bytes_frame) (use that in \<open>simp add: half_def\<close>)
  have c1: "counters a 0 c m' 0 0" by (rule queue_local(1) [OF c0]) (use same in simp)
  show "pair_inv n k a c m'" unfolding pair_inv_def queue_inv_counters using c1 c2 assms(2,3) by fastforce
  show "pair_contents a c m' = ([], [])"
    by (simp add: pair_contents_def contents_empty_iff [OF c1] contents_empty_iff [OF c2])
  show "load_u32 m' 0 = c" "load_u32 m' (half c) = c" using c1 c2 by (simp_all add: counters_def)
qed

lemma qm_mapping_ok:
  assumes "load_u32 m 0 = c" "load_u32 m (half c) = c"
  shows "qm_send_queue (qm_mapping a m (count_queue_mem_size c * kQueueCount) path ty fd) = queue_layout a (half c) c"
    "qm_recv_queue (qm_mapping a m (count_queue_mem_size c * kQueueCount) path ty fd) = queue_layout a 0 c"
  using assms by (simp_all add: qm_mapping_def mapping_from_bytes_layout half_def kQueueCount_def)

section \<open>Both directions at once\<close>

text \<open>
  The two processes use the one mapping: an operation is a put on the sender's queue or a
  pop from its receive queue, by the creator or by the peer, in any order.
\<close>

datatype side = Creator | Peer

fun duplex_step ::
  "queue_manager \<Rightarrow> queue_manager \<Rightarrow> mem \<Rightarrow> side \<times> queue_element qop \<Rightarrow> mem \<times> queue_element answer" where
  "duplex_step qc qp m (Creator, QPut e) = queue_step (qm_send_queue qc) m (QPut e)"
| "duplex_step qc qp m (Creator, QPop) = queue_step (qm_recv_queue qc) m QPop"
| "duplex_step qc qp m (Peer, QPut e) = queue_step (qm_send_queue qp) m (QPut e)"
| "duplex_step qc qp m (Peer, QPop) = queue_step (qm_recv_queue qp) m QPop"

text \<open>Two bounded lists: what the creator sent and what the peer sent.\<close>

fun fifos_step ::
  "nat \<Rightarrow> queue_element list \<times> queue_element list \<Rightarrow> side \<times> queue_element qop
     \<Rightarrow> (queue_element list \<times> queue_element list) \<times> queue_element answer" where
  "fifos_step c (xs, ys) (Creator, QPut e) = (let r = fifo_step c xs (QPut e) in ((fst r, ys), snd r))"
| "fifos_step c (xs, ys) (Creator, QPop) = (let r = fifo_step c ys QPop in ((xs, fst r), snd r))"
| "fifos_step c (xs, ys) (Peer, QPut e) = (let r = fifo_step c ys (QPut e) in ((xs, fst r), snd r))"
| "fifos_step c (xs, ys) (Peer, QPop) = (let r = fifo_step c xs QPop in ((fst r, ys), snd r))"

fun puts_of :: "side \<Rightarrow> (side \<times> queue_element qop) list \<Rightarrow> nat" where
  "puts_of s [] = 0"
| "puts_of s ((s', QPut e) # ops) = (if s = s' then Suc (puts_of s ops) else puts_of s ops)"
| "puts_of s ((s', QPop) # ops) = puts_of s ops"

lemma first_step:
  assumes inv: "pair_inv (n_puts [x] + n) k a c m"
  shows "snd (queue_step (queue_layout a 0 c) m x) = snd (fifo_step (unat c) (fst (pair_contents a c m)) x)"
    "pair_contents a c (fst (queue_step (queue_layout a 0 c) m x))
      = (fst (fifo_step (unat c) (fst (pair_contents a c m)) x), snd (pair_contents a c m))"
    "pair_inv n k a c (fst (queue_step (queue_layout a 0 c) m x))"
proof -
  have i: "queue_inv (n_puts [x] + n) a 0 c m" "queue_inv k a (half c) c m"
    using inv by (simp_all add: pair_inv_def)
  note s = rb.impl_step_simulates [OF i(1)]
  have "fst (queue_step (queue_layout a 0 c) m x) y = m y" if "half c \<le> y" for y
    by (rule queue_step_frame [OF i(1)]) (use that in \<open>simp add: half_def\<close>)
  note l = queue_inv_local [OF i(2) this]
  show "snd (queue_step (queue_layout a 0 c) m x) = snd (fifo_step (unat c) (fst (pair_contents a c m)) x)"
    "pair_contents a c (fst (queue_step (queue_layout a 0 c) m x))
      = (fst (fifo_step (unat c) (fst (pair_contents a c m)) x), snd (pair_contents a c m))"
    "pair_inv n k a c (fst (queue_step (queue_layout a 0 c) m x))"
    using s l by (simp_all add: queue_step_impl pair_contents_def pair_inv_def)
qed

lemma second_step:
  assumes inv: "pair_inv n (n_puts [x] + k) a c m"
  shows "snd (queue_step (queue_layout a (half c) c) m x) = snd (fifo_step (unat c) (snd (pair_contents a c m)) x)"
    "pair_contents a c (fst (queue_step (queue_layout a (half c) c) m x))
      = (fst (pair_contents a c m), fst (fifo_step (unat c) (snd (pair_contents a c m)) x))"
    "pair_inv n k a c (fst (queue_step (queue_layout a (half c) c) m x))"
proof -
  have i: "queue_inv n a 0 c m" "queue_inv (n_puts [x] + k) a (half c) c m"
    using inv by (simp_all add: pair_inv_def)
  note s = rb.impl_step_simulates [OF i(2)]
  have "fst (queue_step (queue_layout a (half c) c) m x) y = m y" if "y < half c" for y
    by (rule queue_step_frame [OF i(2)]) (use that in simp)
  then have "fst (queue_step (queue_layout a (half c) c) m x) y = m y"
    if "0 \<le> y" "y < 0 + count_queue_mem_size c" for y
    using that by (simp add: half_def)
  note l = queue_inv_local [OF i(1) this]
  show "snd (queue_step (queue_layout a (half c) c) m x) = snd (fifo_step (unat c) (snd (pair_contents a c m)) x)"
    "pair_contents a c (fst (queue_step (queue_layout a (half c) c) m x))
      = (fst (pair_contents a c m), fst (fifo_step (unat c) (snd (pair_contents a c m)) x))"
    "pair_inv n k a c (fst (queue_step (queue_layout a (half c) c) m x))"
    using s l by (simp_all add: queue_step_impl pair_contents_def pair_inv_def)
qed

lemma duplex_simulates:
  assumes q: "qm_send_queue qc = queue_layout a 0 c" "qm_recv_queue qc = queue_layout a (half c) c"
    "qm_send_queue qp = queue_layout a (half c) c" "qm_recv_queue qp = queue_layout a 0 c"
  shows "pair_inv (puts_of Creator ops + n) (puts_of Peer ops + k) a c m \<Longrightarrow>
    snd (run_ops (duplex_step qc qp) m ops) = snd (run_ops (fifos_step (unat c)) (pair_contents a c m) ops)
    \<and> pair_contents a c (fst (run_ops (duplex_step qc qp) m ops))
      = fst (run_ops (fifos_step (unat c)) (pair_contents a c m) ops)"
proof (induction ops arbitrary: m)
  case (Cons op ops)
  obtain xs ys where xy: "pair_contents a c m = (xs, ys)" by fastforce
  let ?m = "fst (duplex_step qc qp m op)"
  have "snd (duplex_step qc qp m op) = snd (fifos_step (unat c) (xs, ys) op)
    \<and> pair_contents a c ?m = fst (fifos_step (unat c) (xs, ys) op)
    \<and> pair_inv (puts_of Creator ops + n) (puts_of Peer ops + k) a c ?m"
  proof (cases "(qc, qp, m, op)" rule: duplex_step.cases)
    case (1 qc' qp' m' e)
    with Cons.prems q xy first_step [of "QPut e" "puts_of Creator ops + n" "puts_of Peer ops + k" a c m]
    show ?thesis by (simp add: Let_def)
  next
    case (2 qc' qp' m')
    with Cons.prems q xy second_step [of "puts_of Creator ops + n" "QPop" "puts_of Peer ops + k" a c m]
    show ?thesis by (simp add: Let_def)
  next
    case (3 qc' qp' m' e)
    with Cons.prems q xy second_step [of "puts_of Creator ops + n" "QPut e" "puts_of Peer ops + k" a c m]
    show ?thesis by (simp add: Let_def)
  next
    case (4 qc' qp' m')
    with Cons.prems q xy first_step [of "QPop" "puts_of Creator ops + n" "puts_of Peer ops + k" a c m]
    show ?thesis by (simp add: Let_def)
  qed
  with Cons.IH [of ?m] xy show ?case by (simp add: Let_def)
qed simp

section \<open>Properties\<close>

text \<open>Every way a manager is created ends in \<open>qm_create\<close> or returns an error.\<close>

lemma create_with_memfd_cases:
  assumes "create_with_memfd a os path c m = (evs, m', Inr qm)"
  shows "qm_create a m (count_queue_mem_size c * kQueueCount) c path KMemFd
      (os_memfd_create os (''shmipc'' @ path)) = (m', qm)"
  using assms by (auto simp: create_with_memfd_def Let_def split: if_splits prod.splits)

lemma create_with_file_cases:
  assumes "create_with_file a os path c m = (evs, m', Inr qm)"
  shows "qm_create a m (count_queue_mem_size c * kQueueCount) c path KDevShmFile 0 = (m', qm)"
  using assms by (auto simp: create_with_file_def Let_def split: if_splits prod.splits)

lemma qm_create_memfd:
  "qm_create a m n c path ty fd = (m', qm) \<Longrightarrow> qm_memfd qm = fd \<and> qm_map_type qm = ty"
  by (auto simp: qm_create_def Let_def split: prod.splits)

lemma mem_size_u64:
  "nat (int (count_queue_mem_size c * kQueueCount) mod 2 ^ 64) = count_queue_mem_size c * kQueueCount"
proof -
  obtain k where k: "unat c = k" "k < 4294967296" by (metis unat_u32_less)
  then have "count_queue_mem_size c * kQueueCount < 18446744073709551616"
    unfolding count_queue_mem_size_def kQueueHeaderLength_def kQueueElementLen_def kQueueCount_def k(1)
    using k(2) by simp
  then have "count_queue_mem_size c * kQueueCount < 2 ^ 64" by simp
  then show ?thesis by (metis nat_int of_nat_mod mod_less of_nat_numeral of_nat_power)
qed

lemma mapping_with_memfd_inr:
  assumes "mapping_with_memfd a os path fd m = (evs, Inr qm)"
    and "os_fstat os fd = Some (int (count_queue_mem_size c * kQueueCount))"
  shows "qm = qm_mapping a m (count_queue_mem_size c * kQueueCount) path KMemFd fd"
  using assms mem_size_u64 [of c]
  by (auto simp: mapping_with_memfd_def Let_def split: if_splits)

lemma mapping_with_file_inr:
  assumes "mapping_with_file a os path m = (evs, Inr qm)"
    and "os_fstat os (os_open os path) = Some (int (count_queue_mem_size c * kQueueCount))"
  shows "qm = qm_mapping a m (count_queue_mem_size c * kQueueCount) path KDevShmFile 0"
  using assms mem_size_u64 [of c]
  by (auto simp: mapping_with_file_def Let_def split: if_splits)

text \<open>
  Property C5. A creator and the peer that maps the same memfd or the same file, which \<open>fstat\<close> reports
  with the size the creator gave to \<open>ftruncate\<close>, have a full duplex channel: whatever the
  order in which both processes put and pop, every operation answers what two independent
  bounded FIFO lists of the queue's capacity answer, the one the creator fills and the peer
  drains and the other way round, as long as fewer than \<open>2^63\<close> elements are put in a
  direction.
\<close>

theorem duplex_queues_are_two_fifos:
  assumes "create_with_memfd a os path c m = (evs, m0, Inr qc)
        \<and> os_fstat os_peer fd = Some (int (count_queue_mem_size c * kQueueCount))
        \<and> mapping_with_memfd a os_peer path' fd m0 = (evs', Inr qp)
      \<or> create_with_file a os path c m = (evs, m0, Inr qc)
        \<and> os_fstat os_peer (os_open os_peer path') = Some (int (count_queue_mem_size c * kQueueCount))
        \<and> mapping_with_file a os_peer path' m0 = (evs', Inr qp)"
    and "puts_of Creator ops < 2 ^ 63" and "puts_of Peer ops < 2 ^ 63"
  shows "snd (run_ops (duplex_step qc qp) m0 ops) = snd (run_ops (fifos_step (unat c)) ([], []) ops)
    \<and> pair_contents a c (fst (run_ops (duplex_step qc qp) m0 ops))
      = fst (run_ops (fifos_step (unat c)) ([], []) ops)"
proof -
  have b: "puts_of Creator ops < 9223372036854775808" "puts_of Peer ops < 9223372036854775808"
    using assms(2,3) by simp_all
  from assms(1) obtain ty ty' f f' where
    cr: "qm_create a m (count_queue_mem_size c * kQueueCount) c path ty f = (m0, qc)"
    and mp: "qp = qm_mapping a m0 (count_queue_mem_size c * kQueueCount) path' ty' f'"
    using create_with_memfd_cases create_with_file_cases mapping_with_memfd_inr mapping_with_file_inr
    by meson
  note k = qm_create_ok [OF cr b]
  note p = qm_mapping_ok [OF k(5,6)] mp
  show ?thesis
    using duplex_simulates [of qc a c qp ops 0 0 m0] k p by simp
qed

definition queue_os :: os where
  "queue_os = \<lparr>os_memfd_create = (\<lambda>_. 7), os_open = (\<lambda>_. 8), os_open_create = (\<lambda>_. 9),
     os_fchmod = (\<lambda>_. 0), os_ftruncate = (\<lambda>_ _. 0), os_fstat = (\<lambda>_. Some 72),
     os_mmap_ok = (\<lambda>_ _. True), os_exists = (\<lambda>_. False), os_statvfs = Some (1024, 4096),
     os_strerror = []\<rparr>"

definition queue_sample_mem :: mem where
  "queue_sample_mem = fst (snd (create_with_memfd X86_64 queue_os ''q'' 1 (\<lambda>_. 0)))"

lemma queue_sample_create:
  "\<exists>evs qm. create_with_memfd X86_64 queue_os ''q'' 1 (\<lambda>_. 0) = (evs, queue_sample_mem, Inr qm)"
  by (simp add: queue_sample_mem_def create_with_memfd_def queue_os_def Let_def split: prod.splits)

lemma queue_sample_map:
  "\<exists>evs qm. mapping_with_memfd X86_64 queue_os ''q'' 7 m = (evs, Inr qm)"
  by (simp add: mapping_with_memfd_def queue_os_def Let_def)

lemma queue_sample_fstat:
  "os_fstat queue_os fd = Some (int (count_queue_mem_size 1 * kQueueCount))"
  by (simp add: queue_os_def count_queue_mem_size_def kQueueHeaderLength_def
      kQueueElementLen_def kQueueCount_def)

theorem duplex_queues_are_two_fifos_witness:
  "\<exists>qc qp. snd (run_ops (duplex_step qc qp) queue_sample_mem
      [(Creator, QPut sample_element), (Peer, QPop), (Creator, QPop)])
    = [APut (Inr ()), APop (Inr sample_element), APop (Inl (Error KQueueEmpty))]"
proof -
  obtain e1 qc where
    c: "create_with_memfd X86_64 queue_os ''q'' 1 (\<lambda>_. 0) = (e1, queue_sample_mem, Inr qc)"
    using queue_sample_create by blast
  obtain e2 qp where p: "mapping_with_memfd X86_64 queue_os ''q'' 7 queue_sample_mem = (e2, Inr qp)"
    using queue_sample_map by blast
  show ?thesis
    using duplex_queues_are_two_fifos [OF disjI1 [OF conjI [OF c conjI [OF queue_sample_fstat p]]],
        of "[(Creator, QPut sample_element), (Peer, QPop), (Creator, QPop)]"]
    by (intro exI [of _ qc] exI [of _ qp]) (simp add: Let_def)
qed

text \<open>
  No factory leaks a descriptor. The file factories close every descriptor they
  open, whether they succeed or fail; the memfd factory closes the memfd on every failure and
  keeps it open exactly when it succeeds, as the manager's \<open>memfd_\<close>, which \<open>unmap\<close> then
  closes.
\<close>

theorem queue_factories_close_descriptors:
  "(case create_with_file a os path c m of (evs, m', r) \<Rightarrow> closed evs = opened evs)
   \<and> (case mapping_with_file a os path m of (evs, r) \<Rightarrow> closed evs = opened evs)
   \<and> (case create_with_memfd a os path c m of
       (evs, m', Inl err) \<Rightarrow> closed evs = opened evs
     | (evs, m', Inr qm) \<Rightarrow> opened evs = [qm_memfd qm] \<and> closed evs = []
         \<and> closed (qm_unmap qm) = [qm_memfd qm])"
proof (intro conjI)
  show "case create_with_file a os path c m of (evs, m', r) \<Rightarrow> closed evs = opened evs"
    unfolding create_with_file_def Let_def by (simp split: prod.split)
  show "case mapping_with_file a os path m of (evs, r) \<Rightarrow> closed evs = opened evs"
    unfolding mapping_with_file_def Let_def by (simp split: prod.split option.split)
  obtain evs m' r where e: "create_with_memfd a os path c m = (evs, m', r)"
    by (metis prod_cases3)
  show "case create_with_memfd a os path c m of
       (evs, m', Inl err) \<Rightarrow> closed evs = opened evs
     | (evs, m', Inr qm) \<Rightarrow> opened evs = [qm_memfd qm] \<and> closed evs = []
         \<and> closed (qm_unmap qm) = [qm_memfd qm]"
    using e qm_create_memfd
    by (auto simp: create_with_memfd_def Let_def qm_unmap_def split: if_splits prod.splits sum.splits)
qed

end
