(* ===== verification/Slice.thy ===== *)
theory Slice
  imports Config
begin

text \<open>
  \<open>src/buffer/slice.cpp\<close>, \<open>include/shmipc/buffer/slice.hpp\<close> and
  \<open>include/shmipc/buffer/layout.hpp\<close>: the 20-byte header of a shared-memory buffer
  (\<open>BufferHeader\<close>, a view at an address of the mapping) and the slice over it
  (\<open>BufferSlice\<close>). A slice's data pointer is either an address of the mapping or a
  heap vector of its own. \<open>next_slice_\<close> is not a field: the chain a slice belongs to
  is the list of \<open>Slice_List\<close>, and \<open>update\<close> takes the successor as an argument.
  Release builds are modelled, in which \<open>assert\<close> has no effect.
\<close>

section \<open>Layout\<close>

definition kBufferCapOffset :: nat where "kBufferCapOffset = 0"
definition kBufferSizeOffset :: nat where "kBufferSizeOffset = kBufferCapOffset + 4"
definition kBufferDataStartOffset :: nat where "kBufferDataStartOffset = kBufferSizeOffset + 4"
definition kNextBufferOffset :: nat where "kNextBufferOffset = kBufferDataStartOffset + 4"
definition kBufferFlagOffset :: nat where "kBufferFlagOffset = kNextBufferOffset + 4"
definition kBufferManagerHeaderSize :: u32 where "kBufferManagerHeaderSize = 8"
definition kBmCapOffset :: u32 where "kBmCapOffset = 4"
definition kHasNextBufferFlag :: u8 where "kHasNextBufferFlag = push_bit 0 1"
definition kSliceInUsedFlag :: u8 where "kSliceInUsedFlag = push_bit 1 1"

lemmas layout_consts [simp] =
  kBufferCapOffset_def kBufferSizeOffset_def kBufferDataStartOffset_def kNextBufferOffset_def
  kBufferFlagOffset_def kBufferManagerHeaderSize_def kBmCapOffset_def kBufferHeaderSize_def

section \<open>BufferHeader\<close>

definition next_buffer_offset :: "mem \<Rightarrow> nat \<Rightarrow> u32" where
  "next_buffer_offset m p = load_u32 m (p + kNextBufferOffset)"

definition has_next :: "mem \<Rightarrow> nat \<Rightarrow> bool" where
  "has_next m p \<longleftrightarrow> m (p + kBufferFlagOffset) AND kHasNextBufferFlag > 0"

definition clear_flag :: "mem \<Rightarrow> nat \<Rightarrow> mem" where
  "clear_flag m p = m(p + kBufferFlagOffset := 0)"

definition set_in_used :: "mem \<Rightarrow> nat \<Rightarrow> mem" where
  "set_in_used m p = m(p + kBufferFlagOffset := m (p + kBufferFlagOffset) OR kSliceInUsedFlag)"

definition is_in_used :: "mem \<Rightarrow> nat \<Rightarrow> bool" where
  "is_in_used m p \<longleftrightarrow> m (p + kBufferFlagOffset) AND kSliceInUsedFlag > 0"

definition link_next :: "mem \<Rightarrow> nat \<Rightarrow> u32 \<Rightarrow> mem" where
  "link_next m p nxt =
     (let m1 = store_u32 m (p + kNextBufferOffset) nxt
      in m1(p + kBufferFlagOffset := m1 (p + kBufferFlagOffset) OR kHasNextBufferFlag))"

definition header_cap :: "mem \<Rightarrow> nat \<Rightarrow> u32" where
  "header_cap m p = load_u32 m (p + kBufferCapOffset)"

definition header_size :: "mem \<Rightarrow> nat \<Rightarrow> u32" where
  "header_size m p = load_u32 m (p + kBufferSizeOffset)"

definition set_size :: "mem \<Rightarrow> nat \<Rightarrow> u32 \<Rightarrow> mem" where
  "set_size m p v = store_u32 m (p + kBufferSizeOffset) v"

definition header_start :: "mem \<Rightarrow> nat \<Rightarrow> u32" where
  "header_start m p = load_u32 m (p + kBufferDataStartOffset)"

definition set_start :: "mem \<Rightarrow> nat \<Rightarrow> u32 \<Rightarrow> mem" where
  "set_start m p v = store_u32 m (p + kBufferDataStartOffset) v"

section \<open>BufferSlice\<close>

datatype data_ptr = ShmData nat | HeapData bytes

record buffer_slice =
  bs_buffer_header :: "nat option"
  bs_data :: data_ptr
  bs_cap :: u32
  bs_start :: u32
  bs_offset_in_shm :: u32
  bs_read_index :: nat
  bs_write_index :: nat
  bs_is_from_shm :: bool

text \<open>The constructor: a span over the mapping at \<open>p\<close> of \<open>len\<close> bytes.\<close>

definition new_slice :: "mem \<Rightarrow> nat option \<Rightarrow> nat \<Rightarrow> nat \<Rightarrow> u32 \<Rightarrow> bool \<Rightarrow> buffer_slice" where
  "new_slice m header p len offset from_shm =
     (case (from_shm, header) of
        (True, Some h) \<Rightarrow>
          \<lparr>bs_buffer_header = Some h, bs_data = ShmData p, bs_cap = header_cap m h,
           bs_start = header_start m h, bs_offset_in_shm = offset,
           bs_read_index = unat (header_start m h),
           bs_write_index = unat (header_start m h + header_size m h),
           bs_is_from_shm = from_shm\<rparr>
      | _ \<Rightarrow>
          \<lparr>bs_buffer_header = None, bs_data = ShmData p, bs_cap = of_nat len, bs_start = 0,
           bs_offset_in_shm = offset, bs_read_index = 0, bs_write_index = 0,
           bs_is_from_shm = from_shm\<rparr>)"

definition from_heap :: "bytes \<Rightarrow> buffer_slice" where
  "from_heap storage =
     \<lparr>bs_buffer_header = None, bs_data = HeapData storage, bs_cap = of_nat (length storage),
      bs_start = 0, bs_offset_in_shm = 0, bs_read_index = 0, bs_write_index = 0,
      bs_is_from_shm = False\<rparr>"

definition slice_size :: "buffer_slice \<Rightarrow> nat" where
  "slice_size s = usub (bs_write_index s) (bs_read_index s)"

definition slice_remain :: "buffer_slice \<Rightarrow> nat" where
  "slice_remain s = usub (unat (bs_cap s)) (bs_write_index s)"

definition slice_capacity :: "buffer_slice \<Rightarrow> nat" where
  "slice_capacity s = unat (bs_cap s)"

definition update :: "mem \<Rightarrow> buffer_slice \<Rightarrow> buffer_slice option \<Rightarrow> mem" where
  "update m s nxt =
     (case bs_buffer_header s of
        None \<Rightarrow> m
      | Some h \<Rightarrow>
          let m1 = set_size m h (of_nat (slice_size s));
              m2 = set_start m1 h (bs_start s)
          in case nxt of None \<Rightarrow> m2 | Some n \<Rightarrow> link_next m2 h (bs_offset_in_shm n))"

definition reset :: "mem \<Rightarrow> buffer_slice \<Rightarrow> mem \<times> buffer_slice" where
  "reset m s =
     ((case bs_buffer_header s of
         None \<Rightarrow> m
       | Some h \<Rightarrow> clear_flag (set_start (set_size m h 0) h 0) h),
      s\<lparr>bs_start := 0, bs_write_index := 0, bs_read_index := 0\<rparr>)"

text \<open>A span into the slice's data is its position and length.\<close>

definition slice_reserve :: "buffer_slice \<Rightarrow> nat \<Rightarrow> buffer_slice \<times> (nat \<times> nat) result" where
  "slice_reserve s n =
     (let start_pos = bs_write_index s in
      if slice_remain s \<ge> n
      then (s\<lparr>bs_write_index := uadd (bs_write_index s) n\<rparr>, Inr (start_pos, n))
      else (s, Inl (Error KNoMoreBuffer)))"

text \<open>\<open>std::memcpy\<close> to and from \<open>data + pos\<close>.\<close>

definition data_write :: "mem \<Rightarrow> buffer_slice \<Rightarrow> nat \<Rightarrow> bytes \<Rightarrow> mem \<times> buffer_slice" where
  "data_write m s pos bs =
     (case bs_data s of
        ShmData p \<Rightarrow> (mem_write m (p + pos) bs, s)
      | HeapData h \<Rightarrow> (m, s\<lparr>bs_data := HeapData (take pos h @ bs @ drop (pos + length bs) h)\<rparr>))"

definition data_read :: "mem \<Rightarrow> buffer_slice \<Rightarrow> nat \<Rightarrow> nat \<Rightarrow> bytes" where
  "data_read m s pos n =
     (case bs_data s of
        ShmData p \<Rightarrow> mem_read m (p + pos) n
      | HeapData h \<Rightarrow> take n (drop pos h))"

definition slice_append :: "mem \<Rightarrow> buffer_slice \<Rightarrow> bytes \<Rightarrow> (mem \<times> buffer_slice) \<times> nat" where
  "slice_append m s bs =
     (if bs = [] then ((m, s), 0)
      else
        let copy_size = min (length bs) (slice_remain s);
            r = data_write m s (bs_write_index s) (take copy_size bs)
        in ((fst r, (snd r)\<lparr>bs_write_index := uadd (bs_write_index s) copy_size\<rparr>), copy_size))"

definition slice_read :: "mem \<Rightarrow> buffer_slice \<Rightarrow> nat \<Rightarrow> buffer_slice \<times> bytes" where
  "slice_read m s n =
     (let k = min n (slice_size s)
      in (s\<lparr>bs_read_index := uadd (bs_read_index s) k\<rparr>, data_read m s (bs_read_index s) k))"

definition slice_peek :: "mem \<Rightarrow> buffer_slice \<Rightarrow> nat \<Rightarrow> bytes" where
  "slice_peek m s n = data_read m s (bs_read_index s) (min n (slice_size s))"

definition slice_skip :: "buffer_slice \<Rightarrow> nat \<Rightarrow> buffer_slice \<times> nat" where
  "slice_skip s n =
     (let un_read = slice_size s in
      if un_read > n then (s\<lparr>bs_read_index := uadd (bs_read_index s) n\<rparr>, n)
      else (s\<lparr>bs_read_index := uadd (bs_read_index s) un_read\<rparr>, un_read))"

section \<open>Lemmas on headers\<close>

lemma flag_consts [simp]: "kHasNextBufferFlag = 1" "kSliceInUsedFlag = 2"
  by (simp_all add: kHasNextBufferFlag_def kSliceInUsedFlag_def)

lemma u8_flag_bits [simp]:
  "(0 :: u8) < (x OR 1) AND 1" "(0 :: u8) < (x OR 2) AND 2"
  "(x OR 1) AND 2 = x AND (2 :: u8)" "(x OR 2) AND 1 = x AND (1 :: u8)"
  by (simp_all add: bit.conj_disj_distrib2 word_gt_0 or_eq_0_iff)

text \<open>
  What each setter does to each getter of the same header, what it leaves alone outside
  the 20 bytes, and that the getters depend on those 20 bytes only.
\<close>

named_theorems hdr_simps \<open>reads of a buffer header after writes to it\<close>

lemmas header_getters =
  next_buffer_offset_def has_next_def is_in_used_def header_cap_def header_size_def
  header_start_def

lemmas header_setters = link_next_def clear_flag_def set_in_used_def set_size_def set_start_def

lemma link_next_same [hdr_simps]:
  "has_next (link_next m p n) p" "next_buffer_offset (link_next m p n) p = n"
  "is_in_used (link_next m p n) p = is_in_used m p"
  "header_cap (link_next m p n) p = header_cap m p"
  "header_size (link_next m p n) p = header_size m p"
  "header_start (link_next m p n) p = header_start m p"
  by (simp_all add: header_getters link_next_def Let_def mem_simps)

lemma clear_flag_same [hdr_simps]:
  "\<not> has_next (clear_flag m p) p" "\<not> is_in_used (clear_flag m p) p"
  "next_buffer_offset (clear_flag m p) p = next_buffer_offset m p"
  "header_cap (clear_flag m p) p = header_cap m p"
  "header_size (clear_flag m p) p = header_size m p"
  "header_start (clear_flag m p) p = header_start m p"
  by (simp_all add: header_getters clear_flag_def mem_simps)

lemma set_in_used_same [hdr_simps]:
  "is_in_used (set_in_used m p) p" "has_next (set_in_used m p) p = has_next m p"
  "next_buffer_offset (set_in_used m p) p = next_buffer_offset m p"
  "header_cap (set_in_used m p) p = header_cap m p"
  "header_size (set_in_used m p) p = header_size m p"
  "header_start (set_in_used m p) p = header_start m p"
  by (simp_all add: header_getters set_in_used_def mem_simps)

lemma set_size_same [hdr_simps]:
  "header_size (set_size m p v) p = v" "header_start (set_size m p v) p = header_start m p"
  "header_cap (set_size m p v) p = header_cap m p"
  "has_next (set_size m p v) p = has_next m p"
  "is_in_used (set_size m p v) p = is_in_used m p"
  "next_buffer_offset (set_size m p v) p = next_buffer_offset m p"
  by (simp_all add: header_getters set_size_def mem_simps)

lemma set_start_same [hdr_simps]:
  "header_start (set_start m p v) p = v" "header_size (set_start m p v) p = header_size m p"
  "header_cap (set_start m p v) p = header_cap m p"
  "has_next (set_start m p v) p = has_next m p"
  "is_in_used (set_start m p v) p = is_in_used m p"
  "next_buffer_offset (set_start m p v) p = next_buffer_offset m p"
  by (simp_all add: header_getters set_start_def mem_simps)

lemma header_setters_other [mem_simps]:
  assumes "x < p \<or> p + 20 \<le> x"
  shows "link_next m p n x = m x" "clear_flag m p x = m x" "set_in_used m p x = m x"
    "set_size m p v x = m x" "set_start m p v x = m x"
  using assms by (auto simp: header_setters Let_def store_u32_other)

lemma header_cong:
  assumes "\<And>x. p \<le> x \<Longrightarrow> x < p + 20 \<Longrightarrow> m x = m' x"
  shows "has_next m p = has_next m' p" "is_in_used m p = is_in_used m' p"
    "next_buffer_offset m p = next_buffer_offset m' p" "header_cap m p = header_cap m' p"
    "header_size m p = header_size m' p" "header_start m p = header_start m' p"
proof -
  have "load_u32 m (p + k) = load_u32 m' (p + k)" if "k \<le> 16" for k
    using that by (intro load_u32_cong assms) auto
  from this [of 0] this [of 4] this [of 8] this [of 12] assms [of "p + 16"]
  show "has_next m p = has_next m' p" "is_in_used m p = is_in_used m' p"
    "next_buffer_offset m p = next_buffer_offset m' p" "header_cap m p = header_cap m' p"
    "header_size m p = header_size m' p" "header_start m p = header_start m' p"
    by (simp_all add: header_getters)
qed

section \<open>Lemmas on slices\<close>

text \<open>
  A well-formed slice has its indices in order and inside the capacity, and its heap
  vector, if it has one, is as long as the capacity. Its unread bytes are what a reader
  would get.
\<close>

definition slice_ok :: "buffer_slice \<Rightarrow> bool" where
  "slice_ok s \<longleftrightarrow> bs_read_index s \<le> bs_write_index s \<and> bs_write_index s \<le> unat (bs_cap s)
     \<and> (case bs_data s of ShmData p \<Rightarrow> True | HeapData h \<Rightarrow> length h = unat (bs_cap s))"

definition slice_bytes :: "mem \<Rightarrow> buffer_slice \<Rightarrow> bytes" where
  "slice_bytes m s = data_read m s (bs_read_index s) (slice_size s)"

lemma slice_ok_bounds:
  assumes "slice_ok s"
  shows "bs_write_index s < 4294967296" "bs_read_index s < 4294967296"
    and "slice_size s = bs_write_index s - bs_read_index s"
    and "slice_remain s = unat (bs_cap s) - bs_write_index s"
proof -
  have le: "bs_write_index s \<le> unat (bs_cap s)" "bs_read_index s \<le> bs_write_index s"
    using assms by (auto simp: slice_ok_def)
  from le(1) show w: "bs_write_index s < 4294967296" by (rule le_less_trans) simp
  from le(2) w show "bs_read_index s < 4294967296" by (rule le_less_trans)
  from le show "slice_size s = bs_write_index s - bs_read_index s"
    "slice_remain s = unat (bs_cap s) - bs_write_index s"
    by (simp_all add: slice_size_def slice_remain_def)
qed

lemma length_data_read:
  "slice_ok s \<Longrightarrow> pos + n \<le> unat (bs_cap s) \<Longrightarrow> length (data_read m s pos n) = n"
  by (auto simp: data_read_def slice_ok_def split: data_ptr.splits)

lemma length_slice_bytes [simp]: "slice_ok s \<Longrightarrow> length (slice_bytes m s) = slice_size s"
  unfolding slice_bytes_def
  by (rule length_data_read) (auto simp: slice_ok_bounds slice_ok_def)

lemma data_read_append:
  "data_read m s pos (k + n) = data_read m s pos k @ data_read m s (pos + k) n"
  by (simp add: data_read_def mem_read_append take_add ac_simps split: data_ptr.splits)

lemma data_read_fields:
  "bs_data s = bs_data s' \<Longrightarrow> data_read m s pos n = data_read m s' pos n"
  by (simp add: data_read_def)

lemma data_read_split:
  assumes "k \<le> n"
  shows "take k (data_read m s pos n) = data_read m s pos k \<or> length (data_read m s pos k) < k"
    and "drop k (data_read m s pos n) = data_read m s (pos + k) (n - k)"
proof -
  show "take k (data_read m s pos n) = data_read m s pos k \<or> length (data_read m s pos k) < k"
    using assms by (auto simp: data_read_def min_def mem_read_def take_map split: data_ptr.splits)
  show "drop k (data_read m s pos n) = data_read m s (pos + k) (n - k)"
    using assms
    by (auto simp: data_read_def drop_take ac_simps intro!: nth_equalityI split: data_ptr.splits)
qed

lemma slice_bytes_take:
  assumes "slice_ok s" and "n \<le> slice_size s"
  shows "data_read m s (bs_read_index s) n = take n (slice_bytes m s)"
proof -
  have "bs_read_index s + n \<le> unat (bs_cap s)"
    using assms slice_ok_bounds(3) [OF assms(1)] unfolding slice_ok_def by linarith
  from length_data_read [OF assms(1) this] data_read_split(1) [OF assms(2)] show ?thesis
    by (metis less_irrefl slice_bytes_def)
qed

lemma slice_peek_bytes: "slice_ok s \<Longrightarrow> slice_peek m s n = take n (slice_bytes m s)"
  using slice_bytes_take [of s "min n (slice_size s)" m]
  by (simp add: slice_peek_def min_def)

lemma slice_read_bytes:
  assumes ok: "slice_ok s"
  shows "snd (slice_read m s n) = take n (slice_bytes m s)"
    and "slice_bytes m (fst (slice_read m s n)) = drop n (slice_bytes m s)"
    and "slice_ok (fst (slice_read m s n))"
    and "slice_size (fst (slice_read m s n)) = slice_size s - n"
proof -
  let ?k = "min n (slice_size s)"
  note b = slice_ok_bounds [OF ok]
  have k: "bs_read_index s + ?k \<le> bs_write_index s"
    using ok b by (auto simp: slice_ok_def min_def)
  then have u: "uadd (bs_read_index s) ?k = bs_read_index s + ?k"
    using b by (intro uadd_small) linarith
  show "snd (slice_read m s n) = take n (slice_bytes m s)"
    using slice_bytes_take [OF ok, of ?k m] ok by (simp add: slice_read_def Let_def min_def)
  show ok': "slice_ok (fst (slice_read m s n))"
    using ok k by (auto simp: slice_read_def Let_def u slice_ok_def split: data_ptr.splits)
  show sz: "slice_size (fst (slice_read m s n)) = slice_size s - n"
    using k b slice_ok_bounds(3) [OF ok'] by (auto simp: slice_read_def Let_def u min_def)
  have "slice_bytes m (fst (slice_read m s n))
      = data_read m s (bs_read_index s + ?k) (slice_size s - n)"
    unfolding slice_bytes_def sz by (simp add: slice_read_def Let_def u data_read_def)
  also have "slice_size s - n = slice_size s - ?k" by (simp add: min_def)
  also have "data_read m s (bs_read_index s + ?k) (slice_size s - ?k) = drop ?k (slice_bytes m s)"
    using data_read_split(2) [of ?k "slice_size s" m s "bs_read_index s"]
    by (simp add: slice_bytes_def)
  also have "\<dots> = drop n (slice_bytes m s)" using ok by (simp add: min_def)
  finally show "slice_bytes m (fst (slice_read m s n)) = drop n (slice_bytes m s)" .
qed

lemma slice_skip_read:
  "slice_ok s \<Longrightarrow> slice_skip s n = (fst (slice_read m s n), min n (slice_size s))"
  by (auto simp: slice_skip_def slice_read_def Let_def min_def)

text \<open>What \<open>append\<close> does: the bytes that fit are added at the end, and nothing else moves.\<close>

lemma slice_append_ok:
  fixes bs :: bytes and m :: mem
  assumes ok: "slice_ok s"
  defines "k \<equiv> min (length bs) (slice_remain s)"
  defines "m' \<equiv> fst (fst (slice_append m s bs))" and "s' \<equiv> snd (fst (slice_append m s bs))"
  shows "snd (slice_append m s bs) = k" and "slice_ok s'"
    and "slice_bytes m' s' = slice_bytes m s @ take k bs"
    and "slice_size s' = slice_size s + k" and "slice_remain s' = slice_remain s - k"
    and "bs_write_index s' = bs_write_index s + k"
    and "bs_buffer_header s' = bs_buffer_header s" and "bs_cap s' = bs_cap s"
    and "bs_start s' = bs_start s" and "bs_offset_in_shm s' = bs_offset_in_shm s"
    and "bs_read_index s' = bs_read_index s" and "bs_is_from_shm s' = bs_is_from_shm s"
    and "\<And>x. (case bs_data s of
            ShmData p \<Rightarrow> x < p + bs_write_index s \<or> p + bs_write_index s + k \<le> x
          | HeapData h \<Rightarrow> True) \<Longrightarrow> m' x = m x"
    and "\<And>p. bs_data s = ShmData p \<Longrightarrow> bs_data s' = ShmData p"
proof -
  note b = slice_ok_bounds [OF ok]
  have kb: "bs_write_index s + k \<le> unat (bs_cap s)" and rw: "bs_read_index s \<le> bs_write_index s"
    using ok b by (auto simp: slice_ok_def k_def min_def)
  have kl: "length (take k bs) = k" by (simp add: k_def)
  have "bs_write_index s + k < 18446744073709551616"
    using le_less_trans [OF kb unat_u32_less_u64] .
  then have u: "uadd (bs_write_index s) k = bs_write_index s + k" by simp
  have r: "slice_append m s bs
      = ((fst (data_write m s (bs_write_index s) (take k bs)),
          (snd (data_write m s (bs_write_index s) (take k bs)))
             \<lparr>bs_write_index := bs_write_index s + k\<rparr>), k)"
  proof (cases "bs = []")
    case True
    then have "k = 0" by (simp add: k_def)
    with True ok show ?thesis
      by (auto simp: slice_append_def data_write_def slice_ok_def split: data_ptr.splits)
  next
    case False
    then show ?thesis
      using u by (simp add: slice_append_def Let_def k_def [symmetric])
  qed
  show snd: "snd (slice_append m s bs) = k" by (simp add: r)
  show w: "bs_write_index s' = bs_write_index s + k"
    "bs_buffer_header s' = bs_buffer_header s" "bs_cap s' = bs_cap s"
    "bs_start s' = bs_start s" "bs_offset_in_shm s' = bs_offset_in_shm s"
    "bs_read_index s' = bs_read_index s" "bs_is_from_shm s' = bs_is_from_shm s"
    "\<And>p. bs_data s = ShmData p \<Longrightarrow> bs_data s' = ShmData p"
    by (simp_all add: s'_def r data_write_def split: data_ptr.splits)
  show ok': "slice_ok s'"
    using ok kb kl w rw by (auto simp: slice_ok_def s'_def r data_write_def split: data_ptr.splits)
  note b' = slice_ok_bounds [OF ok']
  show "slice_size s' = slice_size s + k" "slice_remain s' = slice_remain s - k"
    using w b b' rw kb by simp_all
  show "m' x = m x" if "case bs_data s of
            ShmData p \<Rightarrow> x < p + bs_write_index s \<or> p + bs_write_index s + k \<le> x
          | HeapData h \<Rightarrow> True" for x
    using that kl
    by (auto simp: m'_def r data_write_def mem_write_other split: data_ptr.splits)
  have old: "data_read m' s' (bs_read_index s) (slice_size s) = slice_bytes m s"
    using b rw kb ok kl
    by (auto simp: slice_bytes_def data_read_def m'_def s'_def r data_write_def
        mem_read_mem_write_other slice_ok_def drop_take split: data_ptr.splits)
  have new: "data_read m' s' (bs_write_index s) k = take k bs"
    using kl kb ok mem_read_mem_write [of m _ "take k bs"]
    by (auto simp: data_read_def m'_def s'_def r data_write_def slice_ok_def
        split: data_ptr.splits)
  have "slice_bytes m' s' = data_read m' s' (bs_read_index s) (slice_size s + k)"
    using w b b' rw by (simp add: slice_bytes_def)
  also have "bs_read_index s + slice_size s = bs_write_index s" using b rw by simp
  then have "data_read m' s' (bs_read_index s) (slice_size s + k) = slice_bytes m s @ take k bs"
    by (simp only: data_read_append old new)
  finally show "slice_bytes m' s' = slice_bytes m s @ take k bs" .
qed

lemma slice_bytes_cong:
  assumes "slice_ok s"
    and "\<And>p x. bs_data s = ShmData p \<Longrightarrow> p + bs_read_index s \<le> x \<Longrightarrow> x < p + bs_write_index s
      \<Longrightarrow> m x = m' x"
  shows "slice_bytes m s = slice_bytes m' s"
  using assms slice_ok_bounds(3) [OF assms(1)]
  by (auto simp: slice_bytes_def data_read_def intro!: mem_read_cong split: data_ptr.splits)

lemma from_heap_ok:
  assumes "length v < 4294967296"
  shows "slice_ok (from_heap v)" "slice_bytes m (from_heap v) = []"
    "slice_remain (from_heap v) = length v" "slice_size (from_heap v) = 0"
    "bs_is_from_shm (from_heap v) = False"
  using assms unat_of_nat_u32 [OF assms]
  by (simp_all add: slice_ok_def from_heap_def slice_bytes_def data_read_def slice_remain_def
      slice_size_def)

section \<open>Properties\<close>

text \<open>A slice written to its header by \<open>update\<close> is read back as it was.\<close>

lemma update_reads_back:
  fixes nxt :: "buffer_slice option"
  assumes "slice_ok s" and "bs_buffer_header s = Some h" and "bs_data s = ShmData (h + 20)"
    and "bs_read_index s = unat (bs_start s)" and "header_cap m h = bs_cap s"
    and "bs_is_from_shm s" and "\<not> has_next m h"
  defines "m' \<equiv> update m s nxt"
  defines "r \<equiv> new_slice m' (Some h) (h + 20) (unat (bs_cap s)) (bs_offset_in_shm s) True"
  shows "r = s \<and> slice_bytes m' r = slice_bytes m s
    \<and> has_next m' h = (nxt \<noteq> None)
    \<and> (case nxt of None \<Rightarrow> True | Some n \<Rightarrow> next_buffer_offset m' h = bs_offset_in_shm n)"
proof -
  note b = slice_ok_bounds [OF assms(1)]
  have sz: "header_size m' h = of_nat (slice_size s)" and st: "header_start m' h = bs_start s"
    and cap: "header_cap m' h = bs_cap s"
    using assms(2,5) by (simp_all add: m'_def update_def Let_def hdr_simps split: option.splits)
  have rw: "bs_read_index s \<le> bs_write_index s" using assms(1) by (simp add: slice_ok_def)
  have "bs_start s + of_nat (slice_size s) = (of_nat (bs_write_index s) :: u32)"
    using assms(4) b(3) rw by (metis le_add_diff_inverse of_nat_add word_of_nat_unat)
  then have w: "unat (bs_start s + of_nat (slice_size s) :: u32) = bs_write_index s"
    using b(1) by (simp only: unat_of_nat_u32)
  have "r = s"
    using assms(2-6) sz st cap w by (simp add: r_def new_slice_def)
  moreover have "slice_bytes m' s = slice_bytes m s"
    using assms(1-3)
    by (intro slice_bytes_cong)
      (auto simp: m'_def update_def Let_def header_setters_other split: option.splits)
  moreover have "has_next m' h = (nxt \<noteq> None)"
    using assms(2,7) by (auto simp: m'_def update_def Let_def hdr_simps split: option.splits)
  moreover have "case nxt of None \<Rightarrow> True | Some n \<Rightarrow> next_buffer_offset m' h = bs_offset_in_shm n"
    using assms(2) by (auto simp: m'_def update_def Let_def hdr_simps split: option.splits)
  ultimately show ?thesis by simp
qed

text \<open>
  What a sender flushes into a buffer header with \<open>update\<close> is what the
  receiver's \<open>BufferSlice\<close> constructor reads back: the receiver sees exactly the unread
  bytes of the sender's slice, provided the slice has not been read from
  (\<open>read_index = start\<close>), and it sees a successor exactly when the sender linked one.
\<close>

theorem update_read_back:
  fixes nxt :: "buffer_slice option"
  assumes "slice_ok s" and "bs_buffer_header s = Some h" and "bs_data s = ShmData (h + 20)"
    and "bs_read_index s = unat (bs_start s)" and "header_cap m h = bs_cap s"
    and "bs_is_from_shm s" and "\<not> has_next m h"
  defines "m' \<equiv> update m s nxt"
  defines "r \<equiv> new_slice m' (Some h) (h + 20) (unat (bs_cap s)) (bs_offset_in_shm s) True"
  shows "r = s \<and> slice_bytes m' r = slice_bytes m s
    \<and> has_next m' h = (nxt \<noteq> None)
    \<and> (case nxt of None \<Rightarrow> True | Some n \<Rightarrow> next_buffer_offset m' h = bs_offset_in_shm n)"
  unfolding m'_def r_def by (rule update_reads_back [OF assms(1-7)])

definition sample_slice :: buffer_slice where
  "sample_slice = \<lparr>bs_buffer_header = Some 44, bs_data = ShmData 64, bs_cap = 8, bs_start = 0,
     bs_offset_in_shm = 44, bs_read_index = 0, bs_write_index = 3, bs_is_from_shm = True\<rparr>"

definition sample_slice_mem :: mem where
  "sample_slice_mem = mem_write (store_u32 (\<lambda>_. 0) 44 8) 64 [1, 2, 3]"

lemma sample_slice_facts:
  "slice_ok sample_slice" "header_cap sample_slice_mem 44 = 8" "\<not> has_next sample_slice_mem 44"
  by (simp_all add: slice_ok_def sample_slice_def sample_slice_mem_def header_cap_def has_next_def
      mem_simps)

theorem update_read_back_witness:
  "header_cap sample_slice_mem 44 = bs_cap sample_slice
   \<and> new_slice (update sample_slice_mem sample_slice None) (Some 44) 64 8 44 True = sample_slice
   \<and> \<not> has_next (update sample_slice_mem sample_slice None) 44"
  using update_read_back [of sample_slice 44 sample_slice_mem None] sample_slice_facts
  by (simp add: sample_slice_def)

text \<open>
  Appending to a well-formed slice copies exactly the bytes that fit, keeps
  the slice well formed, and a following \<open>read\<close> of everything returns the old unread bytes
  followed by those.
\<close>

theorem slice_append_then_read:
  fixes m :: mem and bs :: bytes
  assumes "slice_ok s"
  defines "a \<equiv> slice_append m s bs"
  shows "snd a = min (length bs) (slice_remain s) \<and> slice_ok (snd (fst a))
    \<and> snd (slice_read (fst (fst a)) (snd (fst a)) (slice_size (snd (fst a))))
      = slice_bytes m s @ take (snd a) bs"
proof -
  let ?s = "snd (fst a)" and ?m = "fst (fst a)"
  note ap = slice_append_ok [OF assms(1), where m = m and bs = bs, folded a_def]
  have "snd (slice_read ?m ?s (slice_size ?s)) = take (slice_size ?s) (slice_bytes ?m ?s)"
    by (rule slice_read_bytes(1) [OF ap(2)])
  also have "\<dots> = slice_bytes ?m ?s" using ap(2) by simp
  finally show ?thesis using ap(1,2,3) by simp
qed

theorem slice_append_then_read_witness:
  "slice_ok sample_slice
   \<and> snd (slice_append sample_slice_mem sample_slice [4, 5, 6, 7, 8, 9]) = 5"
  using slice_append_then_read [OF sample_slice_facts(1), of sample_slice_mem "[4, 5, 6, 7, 8, 9]"]
    sample_slice_facts(1)
  by (simp add: slice_remain_def sample_slice_def)

end
