(* ===== verification/Buffer_List.thy ===== *)
theory Buffer_List
  imports Slice "HOL-Library.Multiset"
begin

text \<open>
  \<open>src/buffer/list.cpp\<close> and \<open>include/shmipc/buffer/list.hpp\<close>: the free list of equally
  sized buffers that lives in the mapping. A \<open>BufferList\<close> is a record of addresses into the
  mapping; the atomics it points to are the 4-byte words of its 36-byte header. The
  definitions run one operation at a time, so a \<open>compare_exchange\<close> compares with the
  value in memory; \<open>Free_List_Race\<close> takes \<open>push\<close> and \<open>pop\<close> apart for threads that run them at the same time.
\<close>

section \<open>The record\<close>

definition kBufferListHeaderSize :: u32 where "kBufferListHeaderSize = 36"
definition kCounterListOffset :: nat where "kCounterListOffset = 20"

lemmas list_consts [simp] = kBufferListHeaderSize_def kCounterListOffset_def

record buffer_list =
  bl_size :: nat
  bl_cap :: nat
  bl_head :: nat
  bl_tail :: nat
  bl_cap_per_buffer :: nat
  bl_counter :: nat
  bl_region :: nat
  bl_region_len :: u32
  bl_region_offset_in_shm :: u32
  bl_offset_in_shm :: u32

definition count_buffer_list_mem_size :: "u32 \<Rightarrow> u32 \<Rightarrow> u32" where
  "count_buffer_list_mem_size n c = kBufferListHeaderSize + n * (c + kBufferHeaderSize)"

definition size_load :: "mem \<Rightarrow> buffer_list \<Rightarrow> int" where
  "size_load m bl = sint (load_u32 m (bl_size bl))"

definition cap_load :: "mem \<Rightarrow> buffer_list \<Rightarrow> u32" where
  "cap_load m bl = load_u32 m (bl_cap bl)"

definition head_load :: "mem \<Rightarrow> buffer_list \<Rightarrow> u32" where
  "head_load m bl = load_u32 m (bl_head bl)"

definition tail_load :: "mem \<Rightarrow> buffer_list \<Rightarrow> u32" where
  "tail_load m bl = load_u32 m (bl_tail bl)"

definition counter_load :: "mem \<Rightarrow> buffer_list \<Rightarrow> int" where
  "counter_load m bl = sint (load_u32 m (bl_counter bl))"

definition cap_per_buffer :: "mem \<Rightarrow> buffer_list \<Rightarrow> u32" where
  "cap_per_buffer m bl = load_u32 m (bl_cap_per_buffer bl)"

definition list_remain :: "mem \<Rightarrow> buffer_list \<Rightarrow> int" where
  "list_remain m bl = size_load m bl - 1"

text \<open>\<open>fetch_add\<close> on a 32-bit atomic.\<close>

definition fetch_add :: "mem \<Rightarrow> nat \<Rightarrow> u32 \<Rightarrow> mem" where
  "fetch_add m p v = store_u32 m p (load_u32 m p + v)"

section \<open>Creation and mapping\<close>

definition msg_list_zero :: "u32 \<Rightarrow> u32 \<Rightarrow> string" where
  "msg_list_zero n c = ''buffer_num:'' @ dec (unat n) @ '' and cap_per_buffer:'' @ dec (unat c)
     @ '' could not be 0''"

definition msg_list_small :: "u32 \<Rightarrow> nat \<Rightarrow> u32 \<Rightarrow> string" where
  "msg_list_small off len sz = ''mem's size is at least:'' @ dec (unat (off + sz)) @ '' but:''
     @ dec len @ '' offset_in_mem:'' @ dec (unat off) @ '' at_least_size:'' @ dec (unat sz)"

definition msg_list_bounds :: "u32 \<Rightarrow> u32 \<Rightarrow> string" where
  "msg_list_bounds a b = ''buffer_region_start:'' @ dec (unat a) @ '' buffer_region_end:''
     @ dec (unat b) @ '' slice bounds out of range''"

text \<open>One round of the loop that writes the buffer headers; the state is \<open>(memory, current)\<close>.\<close>

definition init_buffer :: "nat \<Rightarrow> u32 \<Rightarrow> u32 \<Rightarrow> nat \<Rightarrow> mem \<times> u32 \<Rightarrow> mem \<times> u32" where
  "init_buffer region n c i st =
     (let (m, current) = st;
          nxt = current + c + kBufferHeaderSize;
          p = region + unat current;
          m1 = store_u32 m p c;
          m2 = store_u32 m1 (p + kBufferSizeOffset) 0;
          m3 = store_u32 m2 (p + kBufferDataStartOffset) 0;
          m4 = (if i < unat (n - 1)
                then let k1 = store_u32 m3 (p + kNextBufferOffset) nxt;
                         k2 = store_u32 k1 (p + kBufferFlagOffset) 0
                     in k2(p + kBufferFlagOffset := k2 (p + kBufferFlagOffset) OR kHasNextBufferFlag)
                else m3)
      in (m4, nxt))"

definition list_at :: "u32 \<Rightarrow> u32 \<Rightarrow> buffer_list" where
  "list_at off at_least_size =
     (let offset = unat off in
      \<lparr>bl_size = offset, bl_cap = offset + 4, bl_head = offset + 8, bl_tail = offset + 12,
       bl_cap_per_buffer = offset + 16, bl_counter = offset + kCounterListOffset,
       bl_region = offset + unat kBufferListHeaderSize,
       bl_region_len = at_least_size - kBufferListHeaderSize,
       bl_region_offset_in_shm = off + kBufferListHeaderSize,
       bl_offset_in_shm = off\<rparr>)"

definition list_create ::
  "u32 \<Rightarrow> u32 \<Rightarrow> mem \<Rightarrow> nat \<Rightarrow> u32 \<Rightarrow> mem \<times> buffer_list result" where
  "list_create n c m mem_len off =
     (if n = 0 \<or> c = 0 then (m, Inl (other_error (msg_list_zero n c)))
      else
        let at_least_size_64 = (ucast kBufferListHeaderSize :: u64)
              + ucast n * (ucast c + ucast kBufferHeaderSize)
        in if at_least_size_64 > 0xFFFFFFFF
           then (m, Inl (other_error
                  ''buffer list size overflow: buffer_num/cap_per_buffer too large''))
           else
             let at_least_size = (ucast at_least_size_64 :: u32);
                 mem_len32 = (of_nat mem_len :: u32)
             in if mem_len < unat off + unat at_least_size \<or> off > mem_len32
                  \<or> at_least_size > mem_len32
                then (m, Inl (other_error (msg_list_small off mem_len at_least_size)))
                else
                  let region_start = off + kBufferListHeaderSize;
                      region_end = off + at_least_size
                  in if region_end \<le> region_start
                     then (m, Inl (other_error (msg_list_bounds region_start region_end)))
                     else
                       let b = list_at off at_least_size;
                           m1 = store_u32 m (bl_size b) n;
                           m2 = store_u32 m1 (bl_cap b) n;
                           m3 = store_u32 m2 (bl_head b) 0;
                           m4 = store_u32 m3 (bl_tail b) ((n - 1) * (c + kBufferHeaderSize));
                           m5 = store_u32 m4 (bl_cap_per_buffer b) c;
                           m6 = store_u32 m5 (bl_counter b) 0;
                           m7 = fst (fold (init_buffer (bl_region b) n c) [0 ..< unat n] (m6, 0));
                           tail = bl_region b + unat (load_u32 m7 (bl_tail b));
                           m8 = store_u32 m7 (tail + kBufferFlagOffset) 0
                       in (m8, Inr b))"

definition msg_map_short :: "u32 \<Rightarrow> string" where
  "msg_map_short off = ''mapping buffer list failed, mem's size is at least ''
     @ dec (unat (off + kBufferListHeaderSize))"

definition idec :: "int \<Rightarrow> string" where
  "idec i = (if i < 0 then ''-'' @ dec (nat (- i)) else dec (nat i))"

definition msg_map_small :: "mem \<Rightarrow> buffer_list \<Rightarrow> u32 \<Rightarrow> nat \<Rightarrow> string" where
  "msg_map_small m b need len = ''mapping buffer list failed, size:'' @ idec (size_load m b)
     @ '' cap:'' @ dec (unat (cap_load m b)) @ '' head:'' @ dec (unat (head_load m b))
     @ '' tail:'' @ dec (unat (tail_load m b)) @ '' cap_per_buffer:''
     @ dec (unat (cap_per_buffer m b)) @ '' err: mem's size is at least '' @ dec (unat need)
     @ '' but:'' @ dec len"

definition list_mapping :: "mem \<Rightarrow> nat \<Rightarrow> u32 \<Rightarrow> buffer_list result" where
  "list_mapping m mem_len off =
     (if mem_len < unat off + unat kBufferListHeaderSize
      then Inl (other_error (msg_map_short off))
      else
        let b0 = list_at off 0;
            need_size_64 = (ucast kBufferListHeaderSize :: u64)
              + ucast (cap_load m b0) * (ucast (cap_per_buffer m b0) + ucast kBufferHeaderSize)
        in if need_size_64 > 0xFFFFFFFF
           then Inl (other_error ''mapping buffer list failed: corrupted header (size overflow)'')
           else
             let need_size = (ucast need_size_64 :: u32)
             in if unat (off + need_size) > mem_len
                  \<or> off + need_size < off + kBufferListHeaderSize
                then Inl (other_error (msg_map_small m b0 need_size mem_len))
                else Inr (list_at off need_size))"

section \<open>Push and pop\<close>

definition list_push :: "buffer_list \<Rightarrow> mem \<Rightarrow> buffer_slice \<Rightarrow> mem" where
  "list_push bl m buffer =
     (let (m0, buffer') = reset m buffer;
          old_tail = load_u32 m0 (bl_tail bl);
          new_tail = bs_offset_in_shm buffer' - bl_region_offset_in_shm bl;
          m1 = store_u32 m0 (bl_tail bl) new_tail;
          m2 = link_next m1 (bl_region bl + unat old_tail) new_tail;
          m3 = fetch_add m2 (bl_size bl) 1
      in fetch_add m3 (bl_counter bl) (- 1))"

fun pop_loop :: "nat \<Rightarrow> buffer_list \<Rightarrow> mem \<Rightarrow> u32 \<Rightarrow> mem \<times> buffer_slice result" where
  "pop_loop 0 bl m old_head = (fetch_add m (bl_size bl) 1, Inl (Error KNoMoreBuffer))"
| "pop_loop (Suc retries) bl m old_head =
     (let bh = bl_region bl + unat old_head in
      if has_next m bh
      then if load_u32 m (bl_head bl) = old_head
           then let m1 = store_u32 m (bl_head bl) (next_buffer_offset m bh);
                    h = bl_region bl + unat old_head;
                    m2 = clear_flag m1 h;
                    m3 = set_in_used m2 h;
                    m4 = fetch_add m3 (bl_counter bl) 1
                in (m4, Inr (new_slice m4 (Some h)
                          (bl_region bl + unat old_head + unat kBufferHeaderSize)
                          (unat (cap_per_buffer m4 bl))
                          (old_head + bl_region_offset_in_shm bl) True))
           else pop_loop retries bl m (load_u32 m (bl_head bl))
      else if size_load m bl \<le> 1
           then (fetch_add m (bl_size bl) 1, Inl (Error KNoMoreBuffer))
           else pop_loop retries bl m (load_u32 m (bl_head bl)))"

definition list_pop :: "buffer_list \<Rightarrow> mem \<Rightarrow> mem \<times> buffer_slice result" where
  "list_pop bl m =
     (let old_head = load_u32 m (bl_head bl);
          remain = size_load m bl;
          m1 = fetch_add m (bl_size bl) (- 1)
      in if remain \<le> 1
            \<or> old_head + kBufferHeaderSize + cap_per_buffer m1 bl > bl_region_len bl
         then (fetch_add m1 (bl_size bl) 1, Inl (Error KNoMoreBuffer))
         else pop_loop 200 bl m1 old_head)"

section \<open>Geometry\<close>

text \<open>
  A list at offset \<open>off\<close> with \<open>n\<close> buffers of capacity \<open>c\<close>: buffer \<open>k\<close>
  starts at address \<open>node off c k\<close>, and all of it lies below 2^32.
\<close>

definition unit_size :: "u32 \<Rightarrow> nat" where
  "unit_size c = unat c + 20"

definition slot_off :: "u32 \<Rightarrow> nat \<Rightarrow> u32" where
  "slot_off c k = of_nat (k * unit_size c)"

definition node :: "u32 \<Rightarrow> u32 \<Rightarrow> nat \<Rightarrow> nat" where
  "node off c k = unat off + 36 + k * unit_size c"

definition geometry :: "u32 \<Rightarrow> u32 \<Rightarrow> u32 \<Rightarrow> bool" where
  "geometry off n c \<longleftrightarrow> 0 < unat n \<and> 0 < unat c
     \<and> unat off + 36 + unat n * unit_size c < 4294967296"

definition the_list :: "u32 \<Rightarrow> u32 \<Rightarrow> u32 \<Rightarrow> buffer_list" where
  "the_list off n c = list_at off (36 + n * (c + 20))"

definition slot_slice :: "u32 \<Rightarrow> u32 \<Rightarrow> nat \<Rightarrow> buffer_slice" where
  "slot_slice off c k =
     \<lparr>bs_buffer_header = Some (node off c k), bs_data = ShmData (node off c k + 20), bs_cap = c,
      bs_start = 0, bs_offset_in_shm = of_nat (node off c k), bs_read_index = 0,
      bs_write_index = 0, bs_is_from_shm = True\<rparr>"

lemma the_list_simps [simp]:
  "bl_size (the_list off n c) = unat off" "bl_cap (the_list off n c) = unat off + 4"
  "bl_head (the_list off n c) = unat off + 8" "bl_tail (the_list off n c) = unat off + 12"
  "bl_cap_per_buffer (the_list off n c) = unat off + 16"
  "bl_counter (the_list off n c) = unat off + 20" "bl_region (the_list off n c) = unat off + 36"
  "bl_region_len (the_list off n c) = n * (c + 20)"
  "bl_region_offset_in_shm (the_list off n c) = off + 36"
  "bl_offset_in_shm (the_list off n c) = off"
  by (simp_all add: the_list_def list_at_def Let_def)

lemma node_mono:
  assumes "k < k'"
  shows "node off c k + unit_size c \<le> node off c k'"
proof -
  have "Suc k * unit_size c \<le> k' * unit_size c" using assms by (intro mult_le_mono1) simp
  then show ?thesis by (simp add: node_def)
qed

lemma node_disjoint:
  "k \<noteq> k' \<Longrightarrow> node off c k + unit_size c \<le> node off c k' \<or> node off c k' + unit_size c \<le> node off c k"
  using node_mono [of k k' off c] node_mono [of k' k off c] by linarith

lemma unit_size_ge: "20 \<le> unit_size c"
  by (simp add: unit_size_def)

lemma node_ge: "unat off + 36 \<le> node off c k"
  by (simp add: node_def)

lemma node_end:
  assumes "k < unat n"
  shows "node off c k + unit_size c \<le> unat off + 36 + unat n * unit_size c"
  using node_mono [OF assms, of off c] by (simp add: node_def)

lemma geometry_words:
  assumes g: "geometry off n c" and k: "k < unat n"
  shows "unat (slot_off c k) = k * unit_size c"
    and "unat (of_nat (node off c k) :: u32) = node off c k"
    and "slot_off c k + (off + 36) = of_nat (node off c k)"
    and "(of_nat (node off c k) :: u32) - (off + 36) = slot_off c k"
proof -
  have "node off c k + unit_size c < 4294967296"
    using node_end [OF k, of off c] g by (simp add: geometry_def)
  then have n: "node off c k < 4294967296" by simp
  then show "unat (of_nat (node off c k) :: u32) = node off c k" by (rule unat_of_nat_u32)
  have "k * unit_size c < 4294967296" using n by (simp add: node_def)
  then show "unat (slot_off c k) = k * unit_size c"
    unfolding slot_off_def by (rule unat_of_nat_u32)
  show e: "slot_off c k + (off + 36) = of_nat (node off c k)"
    by (simp add: node_def slot_off_def)
  show "(of_nat (node off c k) :: u32) - (off + 36) = slot_off c k"
    by (simp add: e [symmetric])
qed

lemma geometry_region:
  assumes g: "geometry off n c"
  shows "unat (n * (c + 20)) = unat n * unit_size c" "unat (c + 20) = unit_size c"
    "unat n < 204522253"
proof -
  have b: "unat n * unit_size c < 4294967296" and n: "0 < unat n" using g by (auto simp: geometry_def)
  have "unit_size c \<le> unat n * unit_size c" using n by simp
  then have "unit_size c < 4294967296" using b by (rule le_less_trans)
  then show u: "unat (c + 20) = unit_size c"
    by (subst unat_add_u32) (simp_all add: unit_size_def)
  then show "unat (n * (c + 20)) = unat n * unit_size c"
    using b by (subst unat_mult_u32) simp_all
  have "unat n * 21 \<le> unat n * unit_size c"
    using g by (intro mult_le_mono2) (simp add: unit_size_def geometry_def)
  then have "unat n * 21 < 4294967296" using b by (rule le_less_trans)
  then show "unat n < 204522253" by simp
qed

section \<open>The free list as a list of buffer numbers\<close>

fun chain :: "mem \<Rightarrow> u32 \<Rightarrow> u32 \<Rightarrow> nat list \<Rightarrow> bool" where
  "chain m off c [] = True"
| "chain m off c [k] = (\<not> has_next m (node off c k))"
| "chain m off c (k # k' # ks) =
     (has_next m (node off c k) \<and> next_buffer_offset m (node off c k) = slot_off c k'
      \<and> chain m off c (k' # ks))"

text \<open>
  The words of the list header, the chain from head to tail, and the state of the buffer
  headers: every header has the capacity, and the free ones are clean.
\<close>

definition free_inv :: "u32 \<Rightarrow> u32 \<Rightarrow> u32 \<Rightarrow> mem \<Rightarrow> nat list \<Rightarrow> bool" where
  "free_inv off n c m ks \<longleftrightarrow>
     ks \<noteq> [] \<and> distinct ks \<and> set ks \<subseteq> {..<unat n}
     \<and> load_u32 m (unat off) = of_nat (length ks) \<and> load_u32 m (unat off + 4) = n
     \<and> load_u32 m (unat off + 8) = slot_off c (hd ks)
     \<and> load_u32 m (unat off + 12) = slot_off c (last ks)
     \<and> load_u32 m (unat off + 16) = c
     \<and> load_u32 m (unat off + 20) = of_nat (unat n - length ks)
     \<and> chain m off c ks
     \<and> (\<forall>k < unat n. header_cap m (node off c k) = c)
     \<and> (\<forall>k \<in> set ks. header_size m (node off c k) = 0 \<and> header_start m (node off c k) = 0
          \<and> \<not> is_in_used m (node off c k))"

lemma free_inv_length: "free_inv off n c m ks \<Longrightarrow> length ks \<le> unat n"
  using card_mono [of "{..<unat n}" "set ks"] distinct_card [of ks]
  by (simp add: free_inv_def)

lemma chain_cong:
  assumes "\<And>k x. k \<in> set ks \<Longrightarrow> node off c k \<le> x \<Longrightarrow> x < node off c k + 20 \<Longrightarrow> m x = m' x"
  shows "chain m off c ks = chain m' off c ks"
  using assms
proof (induction ks)
  case (Cons k ks)
  from Cons.prems [of k] have "has_next m (node off c k) = has_next m' (node off c k)"
    "next_buffer_offset m (node off c k) = next_buffer_offset m' (node off c k)"
    by (intro header_cong; simp)+
  moreover have "chain m off c ks = chain m' off c ks"
    by (rule Cons.IH) (rule Cons.prems, auto)
  ultimately show ?case by (cases ks) simp_all
qed simp

text \<open>
  The invariant reads the first 24 bytes of the list header, the headers of the free
  buffers and the capacity field of every buffer.
\<close>

lemma free_inv_cong:
  assumes inv: "free_inv off n c m ks"
    and hdr: "\<And>x. unat off \<le> x \<Longrightarrow> x < unat off + 24 \<Longrightarrow> m' x = m x"
    and free: "\<And>k x. k \<in> set ks \<Longrightarrow> node off c k \<le> x \<Longrightarrow> x < node off c k + 20 \<Longrightarrow> m' x = m x"
    and caps: "\<And>k x. k < unat n \<Longrightarrow> node off c k \<le> x \<Longrightarrow> x < node off c k + 4 \<Longrightarrow> m' x = m x"
  shows "free_inv off n c m' ks"
proof -
  have w: "load_u32 m' (unat off + j) = load_u32 m (unat off + j)" if "j \<le> 20" for j
    using that by (intro load_u32_cong hdr) auto
  have "header_cap m' (node off c k) = header_cap m (node off c k)" if "k < unat n" for k
    using that by (auto simp: header_cap_def intro!: load_u32_cong caps)
  moreover have "header_size m' (node off c k) = header_size m (node off c k)"
    "header_start m' (node off c k) = header_start m (node off c k)"
    "is_in_used m' (node off c k) = is_in_used m (node off c k)" if "k \<in> set ks" for k
    using free [OF that] by (intro header_cong; simp)+
  moreover have "chain m' off c ks = chain m off c ks"
    by (rule chain_cong) (simp add: free)
  ultimately show ?thesis
    using inv w [of 0] w [of 4] w [of 8] w [of 12] w [of 16] w [of 20]
    by (simp add: free_inv_def)
qed

text \<open>A holder of buffer \<open>k\<close> may write everything in it but the capacity field.\<close>

definition private_area :: "u32 \<Rightarrow> u32 \<Rightarrow> nat \<Rightarrow> nat \<Rightarrow> bool" where
  "private_area off c k x \<longleftrightarrow> node off c k + 4 \<le> x \<and> x < node off c k + unit_size c"

lemma free_inv_private:
  assumes inv: "free_inv off n c m ks"
    and same: "\<And>x. m' x \<noteq> m x \<Longrightarrow> \<exists>k. k \<notin> set ks \<and> private_area off c k x"
  shows "free_inv off n c m' ks"
proof (rule free_inv_cong [OF inv])
  fix x assume "unat off \<le> x" "x < unat off + 24"
  then show "m' x = m x" using same [of x] node_ge [of off c]
    by (fastforce simp: private_area_def node_def)
next
  fix k x assume k: "k \<in> set ks" and x: "node off c k \<le> x" "x < node off c k + 20"
  show "m' x = m x"
  proof (rule ccontr)
    assume "m' x \<noteq> m x"
    from same [OF this] obtain j where "j \<notin> set ks" "private_area off c j x" by blast
    with k x node_disjoint [of j k off c] unit_size_ge [of c] show False
      by (cases "j = k") (auto simp: private_area_def)
  qed
next
  fix k x assume x: "node off c k \<le> x" "x < node off c k + 4"
  show "m' x = m x"
  proof (rule ccontr)
    assume "m' x \<noteq> m x"
    from same [OF this] obtain j where "private_area off c j x" by blast
    with x node_disjoint [of j k off c] unit_size_ge [of c] show False
      by (cases "j = k") (auto simp: private_area_def)
  qed
qed

section \<open>Pop\<close>

lemma fetch_add_back: "fetch_add (fetch_add m p v) p (- v) = m"
  by (simp add: fetch_add_def)

lemma list_pop_last:
  assumes "free_inv off n c m [k]"
  shows "list_pop (the_list off n c) m = (m, Inl (Error KNoMoreBuffer))"
  using assms fetch_add_back [of m "unat off" "- 1"]
  by (simp add: list_pop_def Let_def size_load_def free_inv_def)

lemma load_u32_header_setters [mem_simps]:
  assumes "a + 4 \<le> p \<or> p + 20 \<le> a"
  shows "load_u32 (link_next m p n) a = load_u32 m a" "load_u32 (clear_flag m p) a = load_u32 m a"
    "load_u32 (set_in_used m p) a = load_u32 m a" "load_u32 (set_size m p v) a = load_u32 m a"
    "load_u32 (set_start m p v) a = load_u32 m a"
  using assms by (auto intro!: load_u32_cong simp: header_setters_other)

lemma fetch_add_other [mem_simps]: "x < p \<or> p + 4 \<le> x \<Longrightarrow> fetch_add m p v x = m x"
  by (simp add: fetch_add_def store_u32_other)

lemma load_u32_fetch_add [mem_simps]:
  "load_u32 (fetch_add m p v) p = load_u32 m p + v"
  "b + 4 \<le> p \<or> p + 4 \<le> b \<Longrightarrow> load_u32 (fetch_add m p v) b = load_u32 m b"
  by (simp_all add: fetch_add_def load_u32_store_u32_other)

text \<open>The memory after a successful pop of buffer \<open>k\<close> with successor \<open>nxt\<close>.\<close>

definition popped :: "u32 \<Rightarrow> u32 \<Rightarrow> mem \<Rightarrow> nat \<Rightarrow> u32 \<Rightarrow> mem" where
  "popped off c m k nxt =
     fetch_add (set_in_used (clear_flag (store_u32 (fetch_add m (unat off) (- 1)) (unat off + 8) nxt)
       (node off c k)) (node off c k)) (unat off + 20) 1"

lemma popped_frame:
  assumes "x < unat off \<or> unat off + 24 \<le> x" "x < node off c k \<or> node off c k + 20 \<le> x"
  shows "popped off c m k nxt x = m x"
  using assms by (auto simp: popped_def mem_simps)

lemma popped_words:
  fixes off c k
  defines "h \<equiv> node off c k"
  shows "load_u32 (popped off c m k nxt) (unat off) = load_u32 m (unat off) - 1"
    "load_u32 (popped off c m k nxt) (unat off + 4) = load_u32 m (unat off + 4)"
    "load_u32 (popped off c m k nxt) (unat off + 8) = nxt"
    "load_u32 (popped off c m k nxt) (unat off + 12) = load_u32 m (unat off + 12)"
    "load_u32 (popped off c m k nxt) (unat off + 16) = load_u32 m (unat off + 16)"
    "load_u32 (popped off c m k nxt) (unat off + 20) = load_u32 m (unat off + 20) + 1"
  using node_ge [of off c k]
  by (simp_all add: popped_def mem_simps)

lemma popped_header:
  fixes off c k
  defines "h \<equiv> node off c k"
  shows "header_cap (popped off c m k nxt) h = header_cap m h"
    "header_size (popped off c m k nxt) h = header_size m h"
    "header_start (popped off c m k nxt) h = header_start m h"
    "is_in_used (popped off c m k nxt) h" "\<not> has_next (popped off c m k nxt) h"
proof -
  let ?s = "store_u32 (fetch_add m (unat off) (- 1)) (unat off + 8) nxt"
  let ?t = "set_in_used (clear_flag ?s h) h"
  have h: "unat off + 36 \<le> h" by (simp add: h_def node_ge)
  have 1: "popped off c m k nxt x = ?t x" if "h \<le> x" for x
    using that h by (simp add: popped_def h_def [symmetric] mem_simps)
  have 2: "?s x = m x" if "h \<le> x" for x
    using that h by (simp add: mem_simps)
  note a = header_cong [of h "popped off c m k nxt" ?t, OF 1]
  note b = header_cong [of h ?s m, OF 2]
  show "header_cap (popped off c m k nxt) h = header_cap m h"
    "header_size (popped off c m k nxt) h = header_size m h"
    "header_start (popped off c m k nxt) h = header_start m h"
    "is_in_used (popped off c m k nxt) h" "\<not> has_next (popped off c m k nxt) h"
    by (simp_all add: a b hdr_simps)
qed

lemma free_inv_popped:
  assumes inv: "free_inv off n c m (k # k' # ks)"
  shows "free_inv off n c (popped off c m k (slot_off c k')) (k' # ks)"
proof -
  let ?m = "popped off c m k (slot_off c k')"
  have other: "?m x = m x" if "j \<noteq> k" "node off c j \<le> x" "x < node off c j + 20" for j x
    using that node_disjoint [of j k off c] unit_size_ge [of c] node_ge [of off c j]
    by (intro popped_frame) auto
  have "header_cap ?m (node off c j) = c" if "j < unat n" for j
  proof (cases "j = k")
    case True
    with inv that popped_header(1) [of off c m k] show ?thesis by (simp add: free_inv_def)
  next
    case False
    have "header_cap ?m (node off c j) = header_cap m (node off c j)"
      by (rule header_cong) (rule other [OF False])
    with inv that show ?thesis by (simp add: free_inv_def)
  qed
  moreover have "header_size ?m (node off c j) = header_size m (node off c j)"
    "header_start ?m (node off c j) = header_start m (node off c j)"
    "is_in_used ?m (node off c j) = is_in_used m (node off c j)" if "j \<in> set (k' # ks)" for j
    using that inv by (intro header_cong other; auto simp: free_inv_def)+
  moreover have "chain ?m off c (k' # ks) = chain m off c (k' # ks)"
    using inv by (intro chain_cong other) (auto simp: free_inv_def)
  moreover have "(of_nat (Suc (Suc (length ks))) :: u32) - 1 = of_nat (Suc (length ks))"
    by simp
  moreover have "(of_nat (unat n - Suc (Suc (length ks))) :: u32) + 1
      = of_nat (unat n - Suc (length ks))"
    using free_inv_length [OF inv]
    by (metis Suc_diff_Suc Suc_le_eq length_Cons of_nat_Suc add.commute)
  ultimately show ?thesis
    using inv by (simp add: free_inv_def popped_words del: of_nat_Suc)
qed

lemma list_pop_ok:
  assumes g: "geometry off n c" and inv: "free_inv off n c m (k # k' # ks)"
  shows "list_pop (the_list off n c) m
    = (popped off c m k (slot_off c k'), Inr (slot_slice off c k))"
proof -
  let ?bl = "the_list off n c" and ?h = "node off c k"
  let ?m1 = "fetch_add m (unat off) (- 1)" and ?m4 = "popped off c m k (slot_off c k')"
  have k: "k < unat n" and kk: "Suc (Suc (length ks)) \<le> unat n"
    using inv free_inv_length [OF inv] by (auto simp: free_inv_def)
  note gw = geometry_words [OF g k] and gr = geometry_region [OF g]
  have h: "unat off + 36 + unat (slot_off c k) = ?h" by (simp add: gw node_def)
  have head: "load_u32 m (unat off + 8) = slot_off c k"
    and size: "load_u32 m (unat off) = of_nat (Suc (Suc (length ks)))"
    and cap: "load_u32 m (unat off + 16) = c"
    and nxt: "has_next m ?h" "next_buffer_offset m ?h = slot_off c k'"
    and clean: "header_cap m ?h = c" "header_size m ?h = 0" "header_start m ?h = 0"
    using inv k by (auto simp: free_inv_def)
  have sz: "size_load m ?bl = int (Suc (Suc (length ks)))"
    using kk gr(3) by (simp add: size_load_def size sint_of_nat_u32 del: of_nat_Suc)
  have m1: "?m1 x = m x" if "?h \<le> x" for x
    using that node_ge [of off c k] by (simp add: fetch_add_other)
  have nxt1: "has_next ?m1 ?h" "next_buffer_offset ?m1 ?h = slot_off c k'"
    using nxt header_cong(1,3) [of ?h ?m1 m] m1 by simp_all
  have e: "slot_off c k + (20 + c) = of_nat (k * unit_size c + unit_size c)"
    by (simp add: slot_off_def unit_size_def)
  have "k * unit_size c + unit_size c \<le> unat n * unit_size c"
    using k by (metis Suc_leI add.commute mult_Suc mult_le_mono1)
  moreover from this have "k * unit_size c + unit_size c < 4294967296"
    using g by (auto simp: geometry_def)
  ultimately have fit: "\<not> slot_off c k + 20 + c > n * (c + 20)"
    by (simp add: word_less_nat_alt gr e add.assoc unat_of_nat_u32 del: of_nat_add of_nat_mult)
  have slice: "new_slice ?m4 (Some ?h) (?h + 20) (unat (cap_per_buffer ?m4 ?bl))
      (slot_off c k + (off + 36)) True = slot_slice off c k"
    by (simp add: new_slice_def slot_slice_def popped_header clean gw)
  have "pop_loop (Suc 199) ?bl ?m1 (slot_off c k) = (?m4, Inr (slot_slice off c k))"
    using nxt1 slice unfolding pop_loop.simps
    by (simp add: Let_def h popped_def load_u32_fetch_add head)
  then have loop: "pop_loop 200 ?bl ?m1 (slot_off c k) = (?m4, Inr (slot_slice off c k))"
    by simp
  show ?thesis
    using loop fit
    by (simp add: list_pop_def Let_def head sz cap cap_per_buffer_def load_u32_fetch_add)
qed

section \<open>Push\<close>

text \<open>The memory after buffer \<open>k\<close> is pushed behind buffer \<open>t\<close>.\<close>

definition pushed :: "u32 \<Rightarrow> u32 \<Rightarrow> mem \<Rightarrow> nat \<Rightarrow> nat \<Rightarrow> mem" where
  "pushed off c m t k =
     fetch_add (fetch_add (link_next (store_u32
       (clear_flag (set_start (set_size m (node off c k) 0) (node off c k) 0) (node off c k))
       (unat off + 12) (slot_off c k)) (node off c t) (slot_off c k)) (unat off) 1)
       (unat off + 20) (- 1)"

lemma pushed_frame:
  assumes "x < unat off \<or> unat off + 24 \<le> x" "x < node off c k \<or> node off c k + 20 \<le> x"
    "x < node off c t \<or> node off c t + 20 \<le> x"
  shows "pushed off c m t k x = m x"
  using assms by (auto simp: pushed_def mem_simps)

lemma pushed_words:
  shows "load_u32 (pushed off c m t k) (unat off) = load_u32 m (unat off) + 1"
    "load_u32 (pushed off c m t k) (unat off + 4) = load_u32 m (unat off + 4)"
    "load_u32 (pushed off c m t k) (unat off + 8) = load_u32 m (unat off + 8)"
    "load_u32 (pushed off c m t k) (unat off + 12) = slot_off c k"
    "load_u32 (pushed off c m t k) (unat off + 16) = load_u32 m (unat off + 16)"
    "load_u32 (pushed off c m t k) (unat off + 20) = load_u32 m (unat off + 20) - 1"
  using node_ge [of off c k] node_ge [of off c t]
  by (simp_all add: pushed_def mem_simps)

lemma pushed_headers:
  fixes off c :: u32 and m :: mem
  assumes "t \<noteq> k"
  defines "m' \<equiv> pushed off c m t k"
  shows "header_cap m' (node off c k) = header_cap m (node off c k)"
    "header_size m' (node off c k) = 0" "header_start m' (node off c k) = 0"
    "\<not> is_in_used m' (node off c k)" "\<not> has_next m' (node off c k)"
    "has_next m' (node off c t)" "next_buffer_offset m' (node off c t) = slot_off c k"
    "header_cap m' (node off c t) = header_cap m (node off c t)"
    "header_size m' (node off c t) = header_size m (node off c t)"
    "header_start m' (node off c t) = header_start m (node off c t)"
    "is_in_used m' (node off c t) = is_in_used m (node off c t)"
proof -
  let ?k = "node off c k" and ?t = "node off c t"
  let ?c = "clear_flag (set_start (set_size m ?k 0) ?k 0) ?k"
  let ?s = "store_u32 ?c (unat off + 12) (slot_off c k)"
  have ge: "unat off + 36 \<le> ?k" "unat off + 36 \<le> ?t" by (simp_all add: node_ge)
  have dis: "?t + 20 \<le> ?k \<or> ?k + 20 \<le> ?t"
    using node_disjoint [OF assms(1), of off c] unit_size_ge [of c] by auto
  have 1: "m' x = ?c x" if "?k \<le> x" "x < ?k + 20" for x
    using that ge dis by (auto simp: m'_def pushed_def mem_simps)
  have 2: "m' x = link_next ?s ?t (slot_off c k) x" if "?t \<le> x" for x
    using that ge by (simp add: m'_def pushed_def mem_simps)
  have 3: "?s x = m x" if "?t \<le> x" "x < ?t + 20" for x
    using that ge dis by (auto simp: mem_simps)
  note a = header_cong [of ?k m' ?c, OF 1] and b = header_cong [of ?t m' _, OF 2]
    and d = header_cong [of ?t ?s m, OF 3]
  show "header_cap m' ?k = header_cap m ?k" "header_size m' ?k = 0" "header_start m' ?k = 0"
    "\<not> is_in_used m' ?k" "\<not> has_next m' ?k"
    by (simp_all add: a hdr_simps)
  show "has_next m' ?t" "next_buffer_offset m' ?t = slot_off c k"
    "header_cap m' ?t = header_cap m ?t" "header_size m' ?t = header_size m ?t"
    "header_start m' ?t = header_start m ?t" "is_in_used m' ?t = is_in_used m ?t"
    by (simp_all add: b d hdr_simps)
qed

lemma chain_snoc:
  assumes "ks \<noteq> []" and "chain m off c ks"
    and "\<And>j. j \<in> set (butlast ks) \<Longrightarrow> has_next m' (node off c j) = has_next m (node off c j)
      \<and> next_buffer_offset m' (node off c j) = next_buffer_offset m (node off c j)"
    and "has_next m' (node off c (last ks))"
    and "next_buffer_offset m' (node off c (last ks)) = slot_off c k"
    and "\<not> has_next m' (node off c k)"
  shows "chain m' off c (ks @ [k])"
  using assms
proof (induction ks)
  case (Cons j js)
  show ?case
  proof (cases js)
    case Nil
    with Cons.prems show ?thesis by simp
  next
    case js: (Cons i ls)
    have "chain m' off c (js @ [k])"
      by (rule Cons.IH) (use Cons.prems js in auto)
    with Cons.prems js show ?thesis by simp
  qed
qed simp

lemma free_inv_pushed:
  assumes inv: "free_inv off n c m ks" and k: "k < unat n" "k \<notin> set ks"
  shows "free_inv off n c (pushed off c m (last ks) k) (ks @ [k])"
proof -
  let ?t = "last ks" and ?m = "pushed off c m (last ks) k"
  have ne: "ks \<noteq> []" and d: "distinct ks" and t: "?t \<in> set ks" "?t \<noteq> k"
    using inv k by (auto simp: free_inv_def)
  note h = pushed_headers [OF t(2), of off c m]
  have other: "?m x = m x" if "j \<noteq> k" "j \<noteq> ?t" "node off c j \<le> x" "x < node off c j + 20" for j x
    using that node_disjoint [of j k off c] node_disjoint [of j ?t off c] unit_size_ge [of c]
      node_ge [of off c j]
    by (intro pushed_frame) auto
  have cap: "header_cap ?m (node off c j) = header_cap m (node off c j)" for j
    using h by (cases "j = k"; cases "j = ?t") (auto intro!: header_cong other)
  have free: "header_size ?m (node off c j) = header_size m (node off c j)"
    "header_start ?m (node off c j) = header_start m (node off c j)"
    "is_in_used ?m (node off c j) = is_in_used m (node off c j)" if "j \<in> set ks" for j
    using that k h by (cases "j = ?t"; auto intro!: header_cong other)+
  have "chain ?m off c (ks @ [k])"
  proof (rule chain_snoc [of ks m])
    fix j assume j: "j \<in> set (butlast ks)"
    have "j \<in> set ks" using j by (rule in_set_butlastD)
    moreover have "j \<noteq> ?t" using j d ne by (metis append_butlast_last_id distinct_append
          disjoint_insert(1) list.simps(15))
    ultimately show "has_next ?m (node off c j) = has_next m (node off c j)
        \<and> next_buffer_offset ?m (node off c j) = next_buffer_offset m (node off c j)"
      using k by (intro conjI header_cong other) auto
  qed (use inv ne h in \<open>auto simp: free_inv_def\<close>)
  moreover have "length ks < unat n"
  proof -
    have "card (insert k (set ks)) \<le> card {..<unat n}"
      using inv k by (intro card_mono) (auto simp: free_inv_def)
    with k d show ?thesis by (simp add: distinct_card)
  qed
  then have "(of_nat (unat n - length ks) :: u32) - 1 = of_nat (unat n - Suc (length ks))"
    by (metis Suc_diff_Suc add_diff_cancel_left' of_nat_Suc)
  ultimately show ?thesis
    using inv k h cap free
    by (auto simp: free_inv_def pushed_words hd_append add.commute)
qed

lemma list_push_ok:
  assumes g: "geometry off n c" and inv: "free_inv off n c m ks" and k: "k < unat n"
    and s: "bs_buffer_header s = Some (node off c k)" "bs_offset_in_shm s = of_nat (node off c k)"
    and nk: "k \<notin> set ks"
  shows "list_push (the_list off n c) m s = pushed off c m (last ks) k"
proof -
  have t: "last ks < unat n" using inv by (auto simp: free_inv_def dest: last_in_set)
  have tail: "load_u32 m (unat off + 12) = slot_off c (last ks)"
    using inv by (simp add: free_inv_def)
  have "unat off + 36 + unat (slot_off c (last ks)) = node off c (last ks)"
    by (simp add: geometry_words [OF g t] node_def)
  then show ?thesis
    using node_ge [of off c k]
    by (simp add: list_push_def reset_def s Let_def pushed_def mem_simps tail
        geometry_words(4) [OF g k])
qed

section \<open>Creation\<close>

definition written :: "u32 \<Rightarrow> u32 \<Rightarrow> u32 \<Rightarrow> mem \<Rightarrow> nat \<Rightarrow> bool" where
  "written off n c m j \<longleftrightarrow>
     header_cap m (node off c j) = c \<and> header_size m (node off c j) = 0
     \<and> header_start m (node off c j) = 0
     \<and> (Suc j < unat n \<longrightarrow> has_next m (node off c j)
          \<and> next_buffer_offset m (node off c j) = slot_off c (Suc j)
          \<and> \<not> is_in_used m (node off c j))"

lemma written_cong:
  assumes "\<And>x. node off c j \<le> x \<Longrightarrow> x < node off c j + 20 \<Longrightarrow> m x = m' x"
  shows "written off n c m j = written off n c m' j"
  by (simp add: written_def header_cong [OF assms])

lemma init_buffer_step:
  fixes m :: mem
  assumes g: "geometry off n c" and j: "j < unat n"
  defines "r \<equiv> init_buffer (unat off + 36) n c j (m, slot_off c j)"
  shows "snd r = slot_off c (Suc j)" and "written off n c (fst r) j"
    and "\<And>x. x < node off c j \<or> node off c j + 20 \<le> x \<Longrightarrow> fst r x = m x"
proof -
  have p: "unat off + 36 + unat (slot_off c j) = node off c j"
    by (simp add: geometry_words [OF g j] node_def)
  have nx: "slot_off c j + c + 20 = slot_off c (Suc j)"
    by (simp add: slot_off_def unit_size_def algebra_simps)
  have "unat (1 :: u32) \<le> unat n" using j by simp
  then have n1: "unat (n - 1) = unat n - 1"
    by (simp add: unat_sub word_le_nat_alt)
  show "snd r = slot_off c (Suc j)"
    by (simp add: r_def init_buffer_def Let_def nx)
  show "written off n c (fst r) j"
    using j
    by (auto simp: r_def init_buffer_def Let_def p nx n1 written_def header_getters mem_simps)
  show "fst r x = m x" if "x < node off c j \<or> node off c j + 20 \<le> x" for x
    using that
    by (auto simp: r_def init_buffer_def Let_def p store_u32_other)
qed

lemma init_buffers_ok:
  assumes g: "geometry off n c" and i: "i \<le> unat n"
  shows "\<exists>m'. fold (init_buffer (unat off + 36) n c) [0 ..< i] (m, 0) = (m', slot_off c i)
    \<and> (\<forall>j < i. written off n c m' j)
    \<and> (\<forall>x. (\<forall>j < i. x < node off c j \<or> node off c j + 20 \<le> x) \<longrightarrow> m' x = m x)"
  using i
proof (induction i)
  case 0
  then show ?case by (simp add: slot_off_def)
next
  case (Suc i)
  then obtain m' where f: "fold (init_buffer (unat off + 36) n c) [0 ..< i] (m, 0)
      = (m', slot_off c i)"
    and w: "\<forall>j < i. written off n c m' j"
    and fr: "\<forall>x. (\<forall>j < i. x < node off c j \<or> node off c j + 20 \<le> x) \<longrightarrow> m' x = m x"
    by auto
  define r where "r = init_buffer (unat off + 36) n c i (m', slot_off c i)"
  note st = init_buffer_step [OF g, where j = i and m = m', folded r_def]
  have i: "i < unat n" using Suc.prems by simp
  have "written off n c (fst r) j" if "j < Suc i" for j
  proof (cases "j = i")
    case True
    then show ?thesis using st(2) [OF i] by simp
  next
    case False
    have "written off n c (fst r) j = written off n c m' j"
      by (rule written_cong)
        (use st(3) [OF i] node_disjoint [OF False, of off c] unit_size_ge [of c] in auto)
    with w False that show ?thesis by simp
  qed
  moreover have "fst r x = m x" if "\<forall>j < Suc i. x < node off c j \<or> node off c j + 20 \<le> x" for x
    using that st(3) [OF i, of x] fr by (auto simp: less_Suc_eq)
  moreover have "fold (init_buffer (unat off + 36) n c) [0 ..< Suc i] (m, 0) = (fst r, slot_off c (Suc i))"
    using st(1) [OF i] by (simp add: f r_def prod_eq_iff)
  ultimately show ?case by blast
qed

lemma chain_upt:
  assumes "i < N" and "\<And>j. i \<le> j \<Longrightarrow> Suc j < N \<Longrightarrow> has_next m (node off c j)
      \<and> next_buffer_offset m (node off c j) = slot_off c (Suc j)"
    and "\<not> has_next m (node off c (N - 1))"
  shows "chain m off c [i ..< N]"
  using assms
proof (induction "N - i" arbitrary: i)
  case (Suc d)
  show ?case
  proof (cases "Suc i < N")
    case True
    have "chain m off c [Suc i ..< N]"
      by (rule Suc.hyps(1)) (use Suc True in auto)
    moreover have "[i ..< N] = i # Suc i # [Suc (Suc i) ..< N]" "[Suc i ..< N] = Suc i # [Suc (Suc i) ..< N]"
      using True by (simp_all add: upt_conv_Cons)
    ultimately show ?thesis using Suc.prems(2) [of i] True by simp
  next
    case False
    with Suc.prems have "N = Suc i" by simp
    with Suc.prems show ?thesis by simp
  qed
qed simp

definition list_end :: "u32 \<Rightarrow> u32 \<Rightarrow> u32 \<Rightarrow> nat" where
  "list_end off n c = unat off + 36 + unat n * unit_size c"

lemma geometry_end: "geometry off n c \<longleftrightarrow> 0 < unat n \<and> 0 < unat c \<and> list_end off n c < 4294967296"
  by (simp add: geometry_def list_end_def)

text \<open>The 64-bit size is the true size when the whole list lies below 2^32.\<close>

lemma geometry_size_64:
  assumes g: "geometry off n c"
  defines "w \<equiv> (36 :: u64) + ucast n * (ucast c + 20)"
  shows "unat w = 36 + unat n * unit_size c" and "\<not> w > 0xFFFFFFFF"
    and "(ucast w :: u32) = 36 + n * (c + 20)"
proof -
  have b: "36 + unat n * unit_size c < 4294967296" using g by (simp add: geometry_def)
  have u: "unat (ucast c + 20 :: u64) = unit_size c"
    using less_trans [OF unat_u32_less [of c], of "18446744073709551596"]
    by (subst unat_add_u64) (simp_all add: unit_size_def)
  then have p: "unat (ucast n * (ucast c + 20) :: u64) = unat n * unit_size c"
    using b by (subst unat_mult_u64) simp_all
  then show w: "unat w = 36 + unat n * unit_size c"
    unfolding w_def using b by (subst unat_add_u64) simp_all
  then show "\<not> w > 0xFFFFFFFF" using b by (simp add: word_less_nat_alt)
  have "unat (ucast w :: u32) = 36 + unat n * unit_size c"
    using w b by (simp add: unat_ucast_64_32)
  also have "\<dots> = unat (36 + n * (c + 20) :: u32)"
    using b geometry_region [OF g] by (subst unat_add_u32) simp_all
  finally show "(ucast w :: u32) = 36 + n * (c + 20)" by (metis word_of_nat_unat)
qed

lemma list_create_memory:
  fixes m :: mem
  assumes g: "geometry off n c"
  defines "m6 \<equiv> store_u32 (store_u32 (store_u32 (store_u32 (store_u32 (store_u32 m (unat off) n)
       (unat off + 4) n) (unat off + 8) 0) (unat off + 12) ((n - 1) * (c + 20))) (unat off + 16) c)
       (unat off + 20) 0"
  defines "m7 \<equiv> fst (fold (init_buffer (unat off + 36) n c) [0 ..< unat n] (m6, 0))"
  defines "m8 \<equiv> store_u32 m7 (unat off + 36 + unat (load_u32 m7 (unat off + 12)) + 16) 0"
  shows "free_inv off n c m8 [0 ..< unat n]"
    and "\<And>x. x < unat off \<or> list_end off n c \<le> x \<Longrightarrow> m8 x = m x"
proof -
  let ?N = "unat n"
  have N: "0 < ?N" using g by (simp add: geometry_def)
  have "n - 1 = of_nat (?N - 1)" using N by (simp add: of_nat_diff)
  moreover have "c + 20 = of_nat (unit_size c)" by (simp add: unit_size_def)
  ultimately have tl: "(n - 1) * (c + 20) = slot_off c (?N - 1)" by (simp add: slot_off_def)
  obtain m' where f: "m7 = m'" and w: "\<forall>j < ?N. written off n c m' j"
    and fr: "\<forall>x. (\<forall>j < ?N. x < node off c j \<or> node off c j + 20 \<le> x) \<longrightarrow> m' x = m6 x"
    using init_buffers_ok [OF g order_refl, of m6] by (auto simp: m7_def)
  have hd7: "m7 x = m6 x" if "x < unat off + 36" for x
    using fr that node_ge [of off c] unfolding f by (meson less_le_trans)
  have tail7: "load_u32 m7 (unat off + 12) = slot_off c (?N - 1)"
  proof -
    have "load_u32 m7 (unat off + 12) = load_u32 m6 (unat off + 12)"
      by (rule load_u32_cong) (simp add: hd7)
    then show ?thesis by (simp add: m6_def mem_simps tl)
  qed
  have N1: "?N - 1 < ?N" using N by simp
  have "unat off + 36 + unat (slot_off c (?N - 1)) = node off c (?N - 1)"
    by (simp only: geometry_words(1) [OF g N1] node_def)
  then have m8: "m8 = store_u32 m7 (node off c (?N - 1) + 16) 0"
    unfolding m8_def tail7 by simp
  have oth: "m8 x = m7 x" if "j \<noteq> ?N - 1" "node off c j \<le> x" "x < node off c j + 20" for j x
    using that node_disjoint [OF that(1), of off c] unit_size_ge [of c]
    unfolding m8 by (intro store_u32_other) auto
  have hd8: "m8 x = m6 x" if "x < unat off + 36" for x
    using that node_ge [of off c "?N - 1"] hd7 [of x]
    unfolding m8 by (simp add: store_u32_other)
  have last8: "header_cap m8 (node off c (?N - 1)) = c" "header_size m8 (node off c (?N - 1)) = 0"
    "header_start m8 (node off c (?N - 1)) = 0" "\<not> has_next m8 (node off c (?N - 1))"
    "\<not> is_in_used m8 (node off c (?N - 1))"
    using w [rule_format, OF N1]
    by (simp_all add: m8 f written_def header_getters mem_simps)
  have w8: "written off n c m8 j" if "j < ?N" "j \<noteq> ?N - 1" for j
    using written_cong [of off c j m8 m7 n] oth [OF that(2)] w that by (simp add: f)
  have clean: "header_cap m8 (node off c j) = c" "header_size m8 (node off c j) = 0"
    "header_start m8 (node off c j) = 0" "\<not> is_in_used m8 (node off c j)" if "j < ?N" for j
    using last8 w8 [of j] that by (cases "j = ?N - 1"; auto simp: written_def)+
  have words: "load_u32 m8 (unat off + i) = load_u32 m6 (unat off + i)" if "i \<le> 32" for i
    using that by (intro load_u32_cong hd8) simp
  show "free_inv off n c m8 [0 ..< ?N]"
    unfolding free_inv_def
  proof (intro conjI allI impI ballI)
    show "chain m8 off c [0 ..< ?N]"
      using N last8(4) w8 by (intro chain_upt) (auto simp: written_def)
    show "load_u32 m8 (unat off) = of_nat (length [0 ..< ?N])"
      using words [of 0] by (simp add: m6_def mem_simps)
    show "load_u32 m8 (unat off + 8) = slot_off c (hd [0 ..< ?N])"
      using words [of 8] N by (simp add: m6_def mem_simps slot_off_def)
    show "load_u32 m8 (unat off + 12) = slot_off c (last [0 ..< ?N])"
      using words [of 12] N by (simp add: m6_def mem_simps tl)
    show "load_u32 m8 (unat off + 4) = n" "load_u32 m8 (unat off + 16) = c"
      "load_u32 m8 (unat off + 20) = of_nat (?N - length [0 ..< ?N])"
      using words [of 4] words [of 16] words [of 20] by (simp_all add: m6_def mem_simps)
  qed (use N clean in auto)
  show "m8 x = m x" if "x < unat off \<or> list_end off n c \<le> x" for x
  proof -
    have e: "node off c j + 20 \<le> list_end off n c" if "j < ?N" for j
      using node_end [OF that, of off c] unit_size_ge [of c] by (simp add: list_end_def)
    have "m8 x = m7 x"
      using that e [OF N1] node_ge [of off c "?N - 1"] unfolding m8 by (intro store_u32_other) auto
    also have "\<dots> = m6 x"
      unfolding f using that e node_ge [of off c] by (intro fr [rule_format]) (meson less_le_trans
          add_leD1 le_trans)
    also have "\<dots> = m x"
      using that by (auto simp: m6_def store_u32_other list_end_def)
    finally show ?thesis .
  qed
qed

lemma geometry_region_end:
  assumes g: "geometry off n c"
  shows "unat (off + (36 + n * (c + 20))) = list_end off n c" "unat (off + 36) = unat off + 36"
    "unat (36 + n * (c + 20)) = 36 + unat n * unit_size c"
proof -
  have b: "unat off + 36 + unat n * unit_size c < 4294967296" using g by (simp add: geometry_def)
  show a: "unat (36 + n * (c + 20)) = 36 + unat n * unit_size c"
    using b geometry_region [OF g] by (subst unat_add_u32) simp_all
  show "unat (off + (36 + n * (c + 20))) = list_end off n c"
    using b a by (subst unat_add_u32) (simp_all add: list_end_def)
  show "unat (off + 36) = unat off + 36" using b by (subst unat_add_u32) simp_all
qed

lemma list_create_ok:
  assumes g: "geometry off n c" and fits: "list_end off n c \<le> mem_len" "mem_len < 4294967296"
  shows "\<exists>m'. list_create n c m mem_len off = (m', Inr (the_list off n c))
    \<and> free_inv off n c m' [0 ..< unat n]
    \<and> (\<forall>x. x < unat off \<or> list_end off n c \<le> x \<longrightarrow> m' x = m x)"
proof -
  note s64 = geometry_size_64 [OF g] and re = geometry_region_end [OF g]
  have nz: "n \<noteq> 0" "c \<noteq> 0" using g by (auto simp: geometry_def)
  have len: "unat (of_nat mem_len :: u32) = mem_len" using fits by (simp add: unat_of_nat_u32)
  have pos: "0 < unat n * unit_size c" using g by (simp add: geometry_def unit_size_def)
  have c1: "\<not> (mem_len < unat off + unat (36 + n * (c + 20)) \<or> off > of_nat mem_len
      \<or> 36 + n * (c + 20) > of_nat mem_len)"
    using fits by (simp add: word_less_nat_alt len re(3) list_end_def)
  have c2: "\<not> off + (36 + n * (c + 20)) \<le> off + 36"
    using pos by (simp add: word_le_nat_alt re list_end_def)
  define m6 where "m6 = store_u32 (store_u32 (store_u32 (store_u32 (store_u32 (store_u32 m (unat off) n)
       (unat off + 4) n) (unat off + 8) 0) (unat off + 12) ((n - 1) * (c + 20))) (unat off + 16) c)
       (unat off + 20) 0"
  define m7 where "m7 = fst (fold (init_buffer (unat off + 36) n c) [0 ..< unat n] (m6, 0))"
  define m8 where "m8 = store_u32 m7 (unat off + 36 + unat (load_u32 m7 (unat off + 12)) + 16) 0"
  have "list_create n c m mem_len off = (m8, Inr (the_list off n c))"
    using nz s64(2,3) c1 c2
    by (simp add: list_create_def Let_def m8_def m7_def m6_def list_at_def the_list_def)
  with list_create_memory [OF g, where m = m] show ?thesis
    unfolding m8_def m7_def m6_def by blast
qed

lemma list_mapping_ok:
  assumes g: "geometry off n c" and inv: "free_inv off n c m ks"
    and fits: "list_end off n c \<le> mem_len"
  shows "list_mapping m mem_len off = Inr (the_list off n c)"
proof -
  note s64 = geometry_size_64 [OF g] and re = geometry_region_end [OF g]
  have l: "cap_load m (list_at off 0) = n" "cap_per_buffer m (list_at off 0) = c"
    using inv by (simp_all add: cap_load_def cap_per_buffer_def list_at_def Let_def free_inv_def)
  have pos: "0 < unat n * unit_size c" using g by (simp add: geometry_def unit_size_def)
  have "\<not> mem_len < unat off + 36" using fits by (simp add: list_end_def)
  moreover have "\<not> (unat (off + (36 + n * (c + 20))) > mem_len
      \<or> off + (36 + n * (c + 20)) < off + 36)"
    using fits by (simp add: word_less_nat_alt re list_end_def)
  ultimately show ?thesis
    using s64(2,3) by (simp add: list_mapping_def Let_def l the_list_def)
qed

section \<open>The contract of a buffer pool\<close>

text \<open>
  What the users of a free list rely on. A run is a list of operations on a state and the
  handles the user has at that moment, in the order it got them: take a buffer and keep whatever
  handle comes back, return a held handle, or use one (write through it, move its indices).
\<close>

datatype 'u pool_op = Take | Give nat | Use nat 'u

fun pool_do ::
  "('s \<Rightarrow> 's \<times> 'b result) \<Rightarrow> ('s \<Rightarrow> 'b \<Rightarrow> 's) \<Rightarrow> ('u \<Rightarrow> 's \<Rightarrow> 'b \<Rightarrow> 's \<times> 'b)
     \<Rightarrow> 'u pool_op \<Rightarrow> 's \<times> 'b list \<Rightarrow> 's \<times> 'b list" where
  "pool_do take_buf give_buf use_buf Take (s, held) =
     (case take_buf s of (s', Inr b) \<Rightarrow> (s', held @ [b]) | (s', Inl e) \<Rightarrow> (s', held))"
| "pool_do take_buf give_buf use_buf (Give i) (s, held) =
     (if i < length held then (give_buf s (held ! i), take i held @ drop (Suc i) held) else (s, held))"
| "pool_do take_buf give_buf use_buf (Use i u) (s, held) =
     (if i < length held
      then let (s', b) = use_buf u s (held ! i) in (s', held[i := b])
      else (s, held))"

text \<open>Removing or replacing one of two related lists' elements, and the multiset that is left.\<close>

lemma list_all2_drop_nth:
  "list_all2 P xs ys \<Longrightarrow> list_all2 P (take i xs @ drop (Suc i) xs) (take i ys @ drop (Suc i) ys)"
  by (simp add: list_all2_appendI)

lemma mset_drop_nth: "i < length ys \<Longrightarrow> add_mset (ys ! i) (mset (take i ys @ drop (Suc i) ys)) = mset ys"
  by (subst (3) id_take_nth_drop [of i ys]) simp_all

lemma list_all2_replace: "list_all2 P xs ys \<Longrightarrow> P x (ys ! i) \<Longrightarrow> list_all2 P (xs[i := x]) ys"
  using list_all2_update_cong [of P xs ys x "ys ! i" i] by simp

text \<open>
  Buffers have numbers below \<open>total\<close>; \<open>is_buf b k\<close> says that handle \<open>b\<close> stands
  for buffer \<open>k\<close>. In a conserved state every handle stands for a buffer, and
  the free buffers and the held ones together are all buffers, each once.
\<close>

locale fifo_pool =
  fixes take_buf :: "'s \<Rightarrow> 's \<times> 'b result" and give_buf :: "'s \<Rightarrow> 'b \<Rightarrow> 's"
    and use_buf :: "'u \<Rightarrow> 's \<Rightarrow> 'b \<Rightarrow> 's \<times> 'b"
    and free :: "'s \<Rightarrow> nat list \<Rightarrow> bool" and is_buf :: "'b \<Rightarrow> nat \<Rightarrow> bool" and total :: nat
  assumes free_wf: "free s ks \<Longrightarrow> ks \<noteq> []"
    and take_some: "free s (k # k' # ks) \<Longrightarrow>
      \<exists>s' b. take_buf s = (s', Inr b) \<and> is_buf b k \<and> free s' (k' # ks)"
    and take_last: "free s [k] \<Longrightarrow> take_buf s = (s, Inl (Error KNoMoreBuffer))"
    and give_free: "free s ks \<Longrightarrow> k \<notin> set ks \<Longrightarrow> is_buf b k \<Longrightarrow> free (give_buf s b) (ks @ [k])"
    and use_free: "free s ks \<Longrightarrow> k \<notin> set ks \<Longrightarrow> is_buf b k \<Longrightarrow> use_buf u s b = (s', b') \<Longrightarrow>
      free s' ks \<and> is_buf b' k"
begin

definition conserved :: "'s \<times> 'b list \<Rightarrow> nat list \<Rightarrow> nat list \<Rightarrow> bool" where
  "conserved st ks hs \<longleftrightarrow> free (fst st) ks \<and> list_all2 is_buf (snd st) hs
     \<and> mset ks + mset hs = mset [0 ..< total]"

lemma conserved_sets:
  assumes "conserved st ks hs"
  shows "distinct (ks @ hs)" "set ks \<union> set hs = {..<total}" "length ks + length hs = total"
    "length (snd st) = length hs"
proof -
  have e: "mset (ks @ hs) = mset [0 ..< total]" using assms by (simp add: conserved_def)
  show "distinct (ks @ hs)" "set ks \<union> set hs = {..<total}" "length ks + length hs = total"
    using mset_eq_setD [OF e] mset_eq_length [OF e] mset_eq_imp_distinct_iff [OF e]
    by (simp_all add: atLeast0LessThan)
  show "length (snd st) = length hs" using assms by (auto simp: conserved_def dest: list_all2_lengthD)
qed

lemma take_cases:
  assumes f: "free s ks"
  obtains (last) k where "ks = [k]" "take_buf s = (s, Inl (Error KNoMoreBuffer))"
  | (more) k k' ls s' b where "ks = k # k' # ls" "take_buf s = (s', Inr b)" "is_buf b k"
      "free s' (k' # ls)"
proof -
  have "ks \<noteq> []" using free_wf [OF f] .
  then obtain k ls where ks: "ks = k # ls" by (metis neq_Nil_conv)
  show thesis
  proof (cases ls)
    case Nil
    with ks f have "free s [k]" by (simp only:)
    from take_last [OF this] ks Nil show thesis by (intro last) simp_all
  next
    case (Cons k' ls')
    with ks f have "free s (k # k' # ls')" by (simp only:)
    from take_some [OF this] obtain s' b
      where "take_buf s = (s', Inr b)" "is_buf b k" "free s' (k' # ls')" by (elim exE conjE)
    with ks Cons show thesis by (intro more) simp_all
  qed
qed

lemma conserved_take:
  assumes c: "conserved (s, held) ks hs" and t: "take_buf s = (s', Inr b)"
  shows "\<exists>ks' hs'. conserved (s', held @ [b]) ks' hs'"
proof -
  have f: "free s ks" using c by (simp add: conserved_def)
  from f show ?thesis
  proof (cases rule: take_cases)
    case (more k k' ls s1 b1)
    then have "conserved (s', held @ [b]) (k' # ls) (hs @ [k])"
      using c t by (simp add: conserved_def list_all2_appendI)
    then show ?thesis by blast
  qed (use t in simp)
qed

lemma held_nth:
  assumes "conserved (s, held) ks hs" "i < length held"
  shows "hs ! i \<notin> set ks" "is_buf (held ! i) (hs ! i)" "i < length hs"
  using assms conserved_sets [OF assms(1)] by (auto simp: conserved_def list_all2_conv_all_nth)

lemma conserved_give:
  assumes c: "conserved (s, held) ks hs" and i: "i < length held"
  shows "conserved (give_buf s (held ! i), take i held @ drop (Suc i) held) (ks @ [hs ! i])
    (take i hs @ drop (Suc i) hs)"
proof -
  note h = held_nth [OF c i]
  have f: "free s ks" and l: "list_all2 is_buf held hs" and e: "mset ks + mset hs = mset [0 ..< total]"
    using c by (simp_all add: conserved_def)
  have "mset (ks @ [hs ! i]) + mset (take i hs @ drop (Suc i) hs) = mset ks + mset hs"
    unfolding mset_drop_nth [OF h(3), symmetric] by simp
  with e give_free [OF f h(1,2)] list_all2_drop_nth [OF l] show ?thesis
    unfolding conserved_def fst_conv snd_conv by (simp only: simp_thms)
qed

lemma conserved_use:
  assumes c: "conserved (s, held) ks hs" and i: "i < length held" and u: "use_buf u s (held ! i) = (s', b)"
  shows "conserved (s', held[i := b]) ks hs"
  using use_free [OF _ held_nth(1,2) [OF c i] u] list_all2_replace [of is_buf held hs b i] c
  by (simp add: conserved_def)

lemma conserved_do:
  assumes c: "conserved (s, held) ks hs"
  shows "\<exists>ks' hs'. conserved (pool_do take_buf give_buf use_buf p (s, held)) ks' hs'"
proof (cases p)
  case Take
  obtain s' r where t: "take_buf s = (s', r)" by fastforce
  show ?thesis
  proof (cases r)
    case (Inl e)
    have "free s ks" using c by (simp add: conserved_def)
    then have "s' = s" using t Inl by (cases rule: take_cases) auto
    with c t Inl Take show ?thesis by auto
  next
    case (Inr b)
    with conserved_take [OF c, of s' b] t Take show ?thesis by simp
  qed
next
  case (Give i)
  with conserved_give [OF c, of i] c show ?thesis by auto
next
  case (Use i u)
  obtain s' b where "use_buf u s (held ! i) = (s', b)" by fastforce
  with conserved_use [OF c, of i u s' b] c Use show ?thesis by auto
qed

lemma conserved_run:
  "conserved st ks hs \<Longrightarrow> \<exists>ks' hs'. conserved (fold (pool_do take_buf give_buf use_buf) ops st) ks' hs'"
proof (induction ops arbitrary: st ks hs)
  case (Cons p ops)
  obtain s held where "st = (s, held)" by fastforce
  with conserved_do [of s held ks hs p] Cons show ?case by (simp only: fold.simps comp_def) blast
qed auto

lemma take_succeeds_iff:
  assumes "conserved (s, held) ks hs"
  shows "(\<exists>s' b. take_buf s = (s', Inr b)) \<longleftrightarrow> Suc (length held) < total"
proof -
  have f: "free s ks" and len: "length ks + length held = total"
    using assms conserved_sets [OF assms] by (simp_all add: conserved_def)
  from f show ?thesis
  proof (cases rule: take_cases)
    case (last k)
    with len show ?thesis by simp
  next
    case (more k k' ls s' b)
    with len show ?thesis by auto
  qed
qed

end

definition is_slot :: "u32 \<Rightarrow> u32 \<Rightarrow> u32 \<Rightarrow> buffer_slice \<Rightarrow> nat \<Rightarrow> bool" where
  "is_slot off n c b k \<longleftrightarrow> k < unat n \<and> bs_buffer_header b = Some (node off c k)
     \<and> bs_offset_in_shm b = of_nat (node off c k)"

definition is_handle :: "u32 \<Rightarrow> u32 \<Rightarrow> u32 \<Rightarrow> buffer_slice \<Rightarrow> nat \<Rightarrow> bool" where
  "is_handle off n c b k \<longleftrightarrow> is_slot off n c b k \<and> bs_cap b = c \<and> bs_data b = ShmData (node off c k + 20)"

lemma node_inject [simp]: "node off c k = node off c k' \<longleftrightarrow> k = k'"
  using node_disjoint [of k k' off c] unit_size_ge [of c] by (cases "k = k'") auto

lemma is_slot_slot_slice: "k < unat n \<Longrightarrow> is_slot off n c (slot_slice off c k) k"
  by (simp add: is_slot_def slot_slice_def)

text \<open>
  What a holder does with a slice: it stores a byte into the data, into the size, start or next word of the
  header, links the next buffer, or moves the indices. All addresses come from the slice.
\<close>

datatype slice_use = Put_byte nat u8 | Link_to u32 | Set_indices nat nat

definition holder_may_write :: "buffer_slice \<Rightarrow> nat \<Rightarrow> bool" where
  "holder_may_write b x \<longleftrightarrow>
     (case bs_buffer_header b of None \<Rightarrow> False
      | Some p \<Rightarrow> p + kBufferSizeOffset \<le> x \<and> x < p + kBufferFlagOffset)
     \<or> (case bs_data b of ShmData q \<Rightarrow> q \<le> x \<and> x < q + unat (bs_cap b) | _ \<Rightarrow> False)"

fun use_slice :: "slice_use \<Rightarrow> mem \<Rightarrow> buffer_slice \<Rightarrow> mem \<times> buffer_slice" where
  "use_slice (Put_byte x v) m b = (if holder_may_write b x then m(x := v) else m, b)"
| "use_slice (Link_to nxt) m b =
     (case bs_buffer_header b of None \<Rightarrow> m | Some p \<Rightarrow> link_next m p nxt, b)"
| "use_slice (Set_indices r w) m b = (m, b\<lparr>bs_read_index := r, bs_write_index := w\<rparr>)"

lemma link_next_other: "x < p + 12 \<or> p + 17 \<le> x \<Longrightarrow> link_next m p nxt x = m x"
  by (auto simp: link_next_def Let_def store_u32_other)

lemma use_slice_frame:
  assumes h: "is_handle off n c b k" and u: "use_slice u m b = (m', b')"
  shows "is_handle off n c b' k" "m' x \<noteq> m x \<Longrightarrow> private_area off c k x"
proof -
  have b: "bs_buffer_header b = Some (node off c k)" "bs_data b = ShmData (node off c k + 20)" "bs_cap b = c"
    using h by (simp_all add: is_handle_def is_slot_def)
  have w: "holder_may_write b y \<Longrightarrow> private_area off c k y" for y
    by (auto simp: holder_may_write_def private_area_def unit_size_def b)
  show "is_handle off n c b' k" using h u by (cases u) (auto simp: is_handle_def is_slot_def)
  show "private_area off c k x" if "m' x \<noteq> m x"
  proof (cases u)
    case (Put_byte y v)
    with u that w [of x] show ?thesis by (auto split: if_splits)
  next
    case (Link_to nxt)
    with u b have "m' = link_next m (node off c k) nxt" by simp
    with that link_next_other [of x "node off c k" m nxt]
    have "node off c k + 12 \<le> x" "x < node off c k + 17" by fastforce+
    then show ?thesis by (simp add: private_area_def unit_size_def)
  next
    case (Set_indices r w)
    with u that show ?thesis by simp
  qed
qed

interpretation pool: fifo_pool "list_pop (the_list off n c)" "list_push (the_list off n c)" use_slice
  "\<lambda>m ks. geometry off n c \<and> free_inv off n c m ks" "is_handle off n c" "unat n"
proof (unfold_locales, goal_cases)
  case (1 m ks)
  then show ?case by (simp add: free_inv_def)
next
  case (2 m k k' ks)
  then have "is_handle off n c (slot_slice off c k) k"
    by (simp add: is_handle_def is_slot_slot_slice free_inv_def) (simp add: slot_slice_def)
  with 2 list_pop_ok [of off n c m k k' ks] free_inv_popped [of off n c m k k' ks] show ?case by blast
next
  case (3 m k)
  then show ?case by (blast intro: list_pop_last)
next
  case (4 m ks k b)
  then show ?case
    using free_inv_pushed [of off n c m ks k] list_push_ok [of off n c m ks k b]
    by (auto simp: is_handle_def is_slot_def)
next
  case (5 m ks k b u m' b')
  then show ?case
    using free_inv_private [of off n c m ks m'] use_slice_frame [of off n c b k u m m' b'] by blast
qed

section \<open>Properties\<close>

definition fresh_list :: "u32 \<Rightarrow> u32 \<Rightarrow> u32 \<Rightarrow> mem \<Rightarrow> nat \<Rightarrow> mem" where
  "fresh_list off n c m mem_len = fst (list_create n c m mem_len off)"

text \<open>A user of one list: every operation runs the code of the list.\<close>

definition list_run :: "buffer_list \<Rightarrow> slice_use pool_op list \<Rightarrow> mem \<Rightarrow> mem \<times> buffer_slice list" where
  "list_run bl ops m = fold (pool_do (list_pop bl) (list_push bl) use_slice) ops (m, [])"

lemma fresh_list_run:
  assumes g: "geometry off n c" "list_end off n c \<le> mem_len" "mem_len < 4294967296"
  shows "\<exists>ks hs. pool.conserved off n c (list_run (the_list off n c) ops (fresh_list off n c m mem_len)) ks hs"
proof -
  have "pool.conserved off n c (fresh_list off n c m mem_len, []) [0 ..< unat n] []"
    unfolding pool.conserved_def using list_create_ok [OF g, of m] g(1) by (auto simp: fresh_list_def)
  from pool.conserved_run [OF this, of ops] show ?thesis by (simp only: list_run_def)
qed

text \<open>
  Property C14. However buffers of a freshly created list are popped, used by their
  holders and pushed back, in any order: every slice a pop has returned is a slice of one of the \<open>n\<close> buffers, walking
  the list from its head finds the free ones, and the free and the held buffers together are
  exactly the \<open>n\<close> buffers, each once; so no buffer is handed out twice and none is lost. The size word is the
  number of free ones, the counter word the number of held ones, and a pop succeeds exactly
  while more than one buffer is free.
\<close>

theorem free_list_conserves_buffers:
  assumes "geometry off n c" and "list_end off n c \<le> mem_len" "mem_len < 4294967296"
    and "list_run (the_list off n c) ops (fresh_list off n c m mem_len) = (m', held)"
  shows "(\<exists>ks hs. list_all2 (is_handle off n c) held hs \<and> free_inv off n c m' ks
       \<and> mset ks + mset hs = mset [0 ..< unat n])
    \<and> size_load m' (the_list off n c) = int (unat n - length held)
    \<and> counter_load m' (the_list off n c) = int (length held)
    \<and> ((\<exists>m'' s. list_pop (the_list off n c) m' = (m'', Inr s)) \<longleftrightarrow> Suc (length held) < unat n)"
proof -
  obtain ks hs where con: "pool.conserved off n c (m', held) ks hs"
    using fresh_list_run [OF assms(1-3), of ops m] assms(4) by auto
  have f: "free_inv off n c m' ks" and h: "list_all2 (is_handle off n c) held hs"
    and ms: "mset ks + mset hs = mset [0 ..< unat n]" and len: "length ks + length held = unat n"
    using con pool.conserved_sets [OF con] by (simp_all add: pool.conserved_def)
  have small: "unat n < 2147483648" using geometry_region(3) [OF assms(1)] by simp
  have e: "unat n - length held = length ks" "unat n - length ks = length held"
    using len by simp_all
  have "load_u32 m' (unat off) = of_nat (length ks)" "load_u32 m' (unat off + 20) = of_nat (length held)"
    using f [unfolded free_inv_def e] by blast+
  with small len have "size_load m' (the_list off n c) = int (unat n - length held)"
    "counter_load m' (the_list off n c) = int (length held)"
    unfolding e by (simp_all add: size_load_def counter_load_def sint_of_nat_u32)
  with f h ms pool.take_succeeds_iff [OF con] show ?thesis by blast
qed

lemma sample_geometry: "geometry 8 3 16" "list_end 8 3 16 = 152"
  by (simp_all add: geometry_def list_end_def unit_size_def)

lemma list_run_snoc: "list_run bl (ops @ [p]) m = pool_do (list_pop bl) (list_push bl) use_slice p (list_run bl ops m)"
  by (simp add: list_run_def)

theorem free_list_conserves_buffers_witness:
  "geometry 8 3 16 \<and> list_end 8 3 16 \<le> 200
   \<and> (\<exists>m1 m2 m3 a b. list_run (the_list 8 3 16) [Take] (fresh_list 8 3 16 (\<lambda>_. 0) 200) = (m1, [a])
      \<and> list_run (the_list 8 3 16) [Take, Take] (fresh_list 8 3 16 (\<lambda>_. 0) 200) = (m2, [a, b])
      \<and> list_run (the_list 8 3 16) [Take, Take, Give 0] (fresh_list 8 3 16 (\<lambda>_. 0) 200) = (m3, [b])
      \<and> size_load m2 (the_list 8 3 16) = 1 \<and> size_load m3 (the_list 8 3 16) = 2)"
proof -
  let ?bl = "the_list 8 3 16" and ?m = "fresh_list 8 3 16 (\<lambda>_. 0) 200"
  note t = free_list_conserves_buffers [OF sample_geometry(1), of 200 _ "\<lambda>_. 0"]
  have g: "list_end 8 3 16 \<le> 200" "(200 :: nat) < 4294967296" by (simp_all add: sample_geometry)
  obtain m1 a where 1: "list_run ?bl [Take] ?m = (m1, [a])"
    using t [OF g, of "[]" ?m "[]"] by (auto simp: list_run_def)
  obtain m2 b where 2: "list_run ?bl [Take, Take] ?m = (m2, [a, b])"
    using t [OF g 1] list_run_snoc [of ?bl "[Take]" Take ?m] 1 by auto
  obtain m3 where 3: "list_run ?bl [Take, Take, Give 0] ?m = (m3, [b])"
    using list_run_snoc [of ?bl "[Take, Take]" "Give 0" ?m] 2 by simp
  from 1 2 3 t [OF g 2] t [OF g 3] sample_geometry show ?thesis by auto
qed

text \<open>
  The list the peer maps is the list the creator made: \<open>mapping\<close> on the
  creator's memory, at any later point of its life, returns the same record of addresses.
\<close>

theorem list_mapping_agrees:
  assumes "geometry off n c" and "list_end off n c \<le> mem_len" "mem_len < 4294967296"
    and "list_run (the_list off n c) ops (fresh_list off n c m mem_len) = (m', held)"
  shows "list_mapping m' mem_len off = snd (list_create n c m mem_len off)"
proof -
  obtain ks hs where "pool.conserved off n c (m', held) ks hs"
    using fresh_list_run [OF assms(1-3), of ops m] assms(4) by auto
  then have "free_inv off n c m' ks" by (simp add: pool.conserved_def)
  from list_mapping_ok [OF assms(1) this assms(2)] list_create_ok [OF assms(1-3), of m]
  show ?thesis by auto
qed

theorem list_mapping_agrees_witness:
  "geometry 8 3 16 \<and> list_end 8 3 16 \<le> 200
   \<and> list_mapping (fst (list_run (the_list 8 3 16) [Take, Take] (fresh_list 8 3 16 (\<lambda>_. 0) 200))) 200 8
      = snd (list_create 3 16 (\<lambda>_. 0) 200 8)"
  using list_mapping_agrees [OF sample_geometry(1) _ _ prod.collapse [symmetric], of 200 "[Take, Take]" "\<lambda>_. 0"]
    sample_geometry
  by simp

text \<open>
  Held buffers never overlap: the bytes a holder may write in one buffer are
  disjoint from those of every other buffer and from the words of the list header.
\<close>

theorem held_buffers_disjoint:
  assumes "k \<noteq> k'"
  shows "\<not> (private_area off c k x \<and> private_area off c k' x)
    \<and> (private_area off c k x \<longrightarrow> unat off + kCounterListOffset + 4 \<le> x)
    \<and> (\<forall>pos < unat c. private_area off c k (node off c k + 20 + pos))"
  using node_disjoint [OF assms, of off c] unit_size_ge [of c] node_ge [of off c k]
  by (auto simp: private_area_def unit_size_def)

theorem held_buffers_disjoint_witness:
  "(0::nat) \<noteq> 1 \<and> \<not> (private_area 8 16 0 60 \<and> private_area 8 16 1 60)"
  using held_buffers_disjoint [of 0 1 8 16 60] by simp

text \<open>
  The guard against overflow in \<open>create\<close> can itself overflow: the 64-bit
  product of two 32-bit values plus the header wraps for these arguments, so a request for
  over four thousand million buffers of nearly 4 GiB passes the check as a list of
  4294967290 bytes.
\<close>

theorem list_create_guard_wraps:
  "snd (list_create 4294967290 4294967283 m 4294967295 0) = Inr (list_at 0 4294967290)
   \<and> unat (bl_region_len (list_at 0 4294967290)) < unit_size 4294967283"
  by (simp add: list_create_def Let_def list_at_def unit_size_def)

end
