(* ===== verification/Slice_List.thy ===== *)
theory Slice_List
  imports Slice
begin

text \<open>
  \<open>SliceList\<close> of \<open>slice.hpp\<close> and \<open>slice.cpp\<close>: the owning chain of slices with its
  \<open>front_\<close>, \<open>write_\<close> and \<open>back_\<close> pointers. The heap nodes are pairs of an
  identity (the address \<open>make_unique\<close> returns, drawn from a counter) and a slice, in
  chain order, so a pointer is an identity, it is null when it is \<open>None\<close>, and it
  dangles when its identity is not in the chain.
\<close>

section \<open>The chain\<close>

type_synonym chain = "(nat \<times> buffer_slice) list"

record slice_list =
  sl_nodes :: chain
  sl_front :: "nat option"
  sl_write :: "nat option"
  sl_back :: "nat option"
  sl_len :: nat
  sl_fresh :: nat

definition empty_slice_list :: slice_list where
  "empty_slice_list = \<lparr>sl_nodes = [], sl_front = None, sl_write = None, sl_back = None,
     sl_len = 0, sl_fresh = 0\<rparr>"

text \<open>What follows a node, and the chain up to and including it.\<close>

fun after :: "nat \<Rightarrow> chain \<Rightarrow> chain" where
  "after i [] = []"
| "after i ((j, s) # xs) = (if i = j then xs else after i xs)"

fun upto_node :: "nat \<Rightarrow> chain \<Rightarrow> chain" where
  "upto_node i [] = []"
| "upto_node i ((j, s) # xs) = (if i = j then [(j, s)] else (j, s) # upto_node i xs)"

definition head_id :: "chain \<Rightarrow> nat option" where
  "head_id xs = (case xs of [] \<Rightarrow> None | x # _ \<Rightarrow> Some (fst x))"

text \<open>Reading and writing a node through a pointer, and \<open>next()\<close>.\<close>

definition deref :: "slice_list \<Rightarrow> nat option \<Rightarrow> buffer_slice option" where
  "deref sl p = (case p of None \<Rightarrow> None | Some i \<Rightarrow> map_of (sl_nodes sl) i)"

definition set_slice :: "slice_list \<Rightarrow> nat \<Rightarrow> buffer_slice \<Rightarrow> slice_list" where
  "set_slice sl i s = sl\<lparr>sl_nodes := map (\<lambda>(j, t). if j = i then (j, s) else (j, t)) (sl_nodes sl)\<rparr>"

definition next_of :: "slice_list \<Rightarrow> nat \<Rightarrow> nat option" where
  "next_of sl i = head_id (after i (sl_nodes sl))"

definition set_write :: "slice_list \<Rightarrow> nat option \<Rightarrow> slice_list" where
  "set_write sl p = sl\<lparr>sl_write := p\<rparr>"

definition push_back :: "slice_list \<Rightarrow> buffer_slice \<Rightarrow> slice_list" where
  "push_back sl s =
     (let raw = sl_fresh sl;
          sl1 = (case sl_back sl of
              Some b \<Rightarrow> sl\<lparr>sl_nodes := upto_node b (sl_nodes sl) @ [(raw, s)]\<rparr>
            | None \<Rightarrow> sl\<lparr>sl_nodes := [(raw, s)], sl_front := Some raw\<rparr>)
      in sl1\<lparr>sl_back := Some raw, sl_len := sl_len sl + 1, sl_fresh := Suc raw\<rparr>)"

definition pop_front :: "slice_list \<Rightarrow> slice_list \<times> buffer_slice option" where
  "pop_front sl =
     (case sl_front sl of
        None \<Rightarrow> (sl, None)
      | Some f \<Rightarrow>
          let len' = usub (sl_len sl) 1;
              nodes' = tl (sl_nodes sl);
              sl1 = sl\<lparr>sl_len := len', sl_nodes := nodes', sl_front := head_id nodes'\<rparr>;
              sl2 = (if len' = 0 then sl1\<lparr>sl_back := None\<rparr> else sl1)
          in (sl2, Some (snd (hd (sl_nodes sl)))))"

text \<open>The detached chain; the empty list is \<open>std::nullopt\<close>.\<close>

definition split_from_write :: "slice_list \<Rightarrow> slice_list \<times> buffer_slice list" where
  "split_from_write sl =
     (case sl_write sl of
        None \<Rightarrow> (sl, [])
      | Some w \<Rightarrow>
          let next_chain = after w (sl_nodes sl)
          in (sl\<lparr>sl_nodes := upto_node w (sl_nodes sl), sl_back := Some w,
                sl_len := usub (sl_len sl) (length next_chain)\<rparr>,
              map snd next_chain))"

section \<open>Invariant\<close>

text \<open>
  The pointers and the length agree with the chain; the write cursor is checked apart,
  because \<open>pop_front\<close> can leave it dangling.
\<close>

definition ids :: "slice_list \<Rightarrow> nat list" where
  "ids sl = map fst (sl_nodes sl)"

definition slices :: "slice_list \<Rightarrow> buffer_slice list" where
  "slices sl = map snd (sl_nodes sl)"

definition last_id :: "chain \<Rightarrow> nat option" where
  "last_id xs = (if xs = [] then None else Some (fst (last xs)))"

definition sl_inv :: "slice_list \<Rightarrow> bool" where
  "sl_inv sl \<longleftrightarrow> distinct (ids sl) \<and> (\<forall>i \<in> set (ids sl). i < sl_fresh sl)
     \<and> sl_front sl = head_id (sl_nodes sl) \<and> sl_back sl = last_id (sl_nodes sl)
     \<and> sl_len sl = length (sl_nodes sl)"

definition write_valid :: "slice_list \<Rightarrow> bool" where
  "write_valid sl \<longleftrightarrow> (case sl_write sl of None \<Rightarrow> True | Some w \<Rightarrow> w \<in> set (ids sl))"

lemma upto_after: "i \<in> set (map fst xs) \<Longrightarrow> upto_node i xs @ after i xs = xs"
  by (induction xs rule: after.induct) auto

lemma upto_last: "xs \<noteq> [] \<Longrightarrow> distinct (map fst xs) \<Longrightarrow> upto_node (fst (last xs)) xs = xs"
  by (induction xs rule: induct_list012) (auto simp: image_iff rev_image_eqI last_in_set)

lemma after_last: "xs \<noteq> [] \<Longrightarrow> distinct (map fst xs) \<Longrightarrow> after (fst (last xs)) xs = []"
  by (induction xs rule: induct_list012) (auto simp: image_iff rev_image_eqI last_in_set)

lemma empty_slice_list_inv [simp]: "sl_inv empty_slice_list" "slices empty_slice_list = []"
  by (simp_all add: sl_inv_def empty_slice_list_def ids_def head_id_def last_id_def slices_def)

lemma set_write_simps [simp]:
  "sl_inv (set_write sl w) = sl_inv sl" "slices (set_write sl w) = slices sl"
  "ids (set_write sl w) = ids sl" "sl_len (set_write sl w) = sl_len sl"
  "sl_front (set_write sl w) = sl_front sl" "sl_back (set_write sl w) = sl_back sl"
  "sl_nodes (set_write sl w) = sl_nodes sl" "deref (set_write sl w) = deref sl"
  "next_of (set_write sl w) = next_of sl" "sl_write (set_write sl w) = w"
  by (auto simp: set_write_def sl_inv_def slices_def ids_def deref_def next_of_def fun_eq_iff
      split: option.splits)

lemma push_back_nodes:
  assumes "sl_inv sl"
  shows "sl_nodes (push_back sl s) = sl_nodes sl @ [(sl_fresh sl, s)]"
  using assms upto_last [of "sl_nodes sl"]
  by (auto simp: push_back_def Let_def sl_inv_def ids_def last_id_def split: option.splits if_splits)

lemma push_back_inv:
  assumes "sl_inv sl"
  shows "sl_inv (push_back sl s)" and "slices (push_back sl s) = slices sl @ [s]"
    and "sl_write (push_back sl s) = sl_write sl" and "sl_back (push_back sl s) = Some (sl_fresh sl)"
    and "ids (push_back sl s) = ids sl @ [sl_fresh sl]"
    and "sl_len (push_back sl s) = Suc (sl_len sl)"
proof -
  note n = push_back_nodes [OF assms, of s]
  have f: "sl_front (push_back sl s) = head_id (sl_nodes (push_back sl s))"
    using assms unfolding n
    by (auto simp: push_back_def Let_def sl_inv_def head_id_def last_id_def split: option.splits
        if_splits list.splits)
  have l: "sl_len (push_back sl s) = Suc (sl_len sl)" "sl_fresh (push_back sl s) = Suc (sl_fresh sl)"
    by (simp_all add: push_back_def Let_def split: option.splits)
  show w: "sl_write (push_back sl s) = sl_write sl" "sl_back (push_back sl s) = Some (sl_fresh sl)"
    by (simp_all add: push_back_def Let_def split: option.splits)
  show "slices (push_back sl s) = slices sl @ [s]" "ids (push_back sl s) = ids sl @ [sl_fresh sl]"
    by (simp_all add: slices_def ids_def n)
  show "sl_inv (push_back sl s)"
    using assms f l w n by (auto simp: sl_inv_def ids_def last_id_def)
  show "sl_len (push_back sl s) = Suc (sl_len sl)" by (rule l)
qed

lemma pop_front_empty: "sl_inv sl \<Longrightarrow> slices sl = [] \<Longrightarrow> pop_front sl = (sl, None)"
  by (simp add: pop_front_def sl_inv_def slices_def head_id_def)

lemma pop_front_cons:
  assumes inv: "sl_inv sl" and s: "slices sl = s # ss"
  shows "snd (pop_front sl) = Some s" and "sl_inv (fst (pop_front sl))"
    and "slices (fst (pop_front sl)) = ss" and "sl_write (fst (pop_front sl)) = sl_write sl"
    and "ids (fst (pop_front sl)) = tl (ids sl)" and "sl_len (fst (pop_front sl)) = length ss"
    and "sl_fresh (fst (pop_front sl)) = sl_fresh sl"
proof -
  obtain i ns where n: "sl_nodes sl = (i, s) # ns" and ss: "ss = map snd ns"
    using s by (auto simp: slices_def map_eq_Cons_conv)
  have f: "sl_front sl = Some i" and len: "sl_len sl = Suc (length ns)"
    using inv n by (simp_all add: sl_inv_def head_id_def)
  have p: "pop_front sl = (let sl1 = sl\<lparr>sl_len := length ns, sl_nodes := ns, sl_front := head_id ns\<rparr>
      in (if ns = [] then sl1\<lparr>sl_back := None\<rparr> else sl1, Some s))"
    by (simp add: pop_front_def f n len Let_def)
  show "snd (pop_front sl) = Some s" "slices (fst (pop_front sl)) = ss"
    "sl_write (fst (pop_front sl)) = sl_write sl" "ids (fst (pop_front sl)) = tl (ids sl)"
    "sl_len (fst (pop_front sl)) = length ss" "sl_fresh (fst (pop_front sl)) = sl_fresh sl"
    by (simp_all add: p Let_def slices_def ss ids_def n)
  show "sl_inv (fst (pop_front sl))"
    using inv by (auto simp: p Let_def sl_inv_def ids_def n last_id_def head_id_def)
qed

text \<open>A chain split at a node, and what the pointers through that node see.\<close>

lemma set_slice_inv:
  "sl_inv sl \<Longrightarrow> sl_inv (set_slice sl i s)" "ids (set_slice sl i s) = ids sl"
  "sl_write (set_slice sl i s) = sl_write sl" "sl_front (set_slice sl i s) = sl_front sl"
  "sl_back (set_slice sl i s) = sl_back sl" "sl_fresh (set_slice sl i s) = sl_fresh sl"
  "sl_len (set_slice sl i s) = sl_len sl"
proof -
  let ?f = "\<lambda>(j, t). if j = i then (j, s) else (j, t)"
  have f: "fst (?f x) = fst x" for x by (cases x) simp
  then have m: "map fst (map ?f xs) = map fst xs" for xs by (simp add: comp_def)
  show "ids (set_slice sl i s) = ids sl" using m by (simp add: set_slice_def ids_def)
  then show "sl_inv sl \<Longrightarrow> sl_inv (set_slice sl i s)"
    using f by (auto simp: sl_inv_def set_slice_def head_id_def last_id_def last_map
        split: list.splits prod.splits)
qed (simp_all add: set_slice_def)

lemma node_split:
  assumes "i \<in> set (ids sl)"
  obtains xs s ys where "sl_nodes sl = xs @ (i, s) # ys" "i \<notin> set (map fst xs)"
proof -
  obtain xs ys where "ids sl = xs @ i # ys" "i \<notin> set xs"
    using split_list_first [OF assms] by blast
  then show thesis
    unfolding ids_def using that by (auto simp: map_eq_append_conv map_eq_Cons_conv)
qed

lemma set_slice_split:
  assumes "sl_inv sl" "sl_nodes sl = xs @ (i, t) # ys"
  shows "sl_nodes (set_slice sl i s) = xs @ (i, s) # ys"
proof -
  have "distinct (map fst xs @ i # map fst ys)" using assms by (simp add: sl_inv_def ids_def)
  then have "i \<notin> set (map fst xs)" "i \<notin> set (map fst ys)" by auto
  moreover have "map (\<lambda>(j, t). if j = i then (j, s) else (j, t)) zs = zs"
    if "i \<notin> set (map fst zs)" for zs :: chain
    using that by (induction zs) auto
  ultimately show ?thesis by (simp add: set_slice_def assms(2))
qed

lemma deref_split:
  assumes "sl_inv sl" "sl_nodes sl = xs @ (i, t) # ys"
  shows "deref sl (Some i) = Some t"
proof -
  have "distinct (map fst xs @ i # map fst ys)" using assms by (simp add: sl_inv_def ids_def)
  then have "i \<notin> fst ` set xs" by auto
  then have "map_of xs i = None" by (simp add: map_of_eq_None_iff)
  then show ?thesis by (simp add: deref_def assms(2) map_add_def)
qed

lemma after_split:
  assumes "sl_inv sl" "sl_nodes sl = xs @ (i, t) # ys"
  shows "after i (sl_nodes sl) = ys" "upto_node i (sl_nodes sl) = xs @ [(i, t)]"
proof -
  have "i \<notin> set (map fst xs)" using assms by (auto simp: sl_inv_def ids_def)
  then have "after i (xs @ (i, t) # ys) = ys \<and> upto_node i (xs @ (i, t) # ys) = xs @ [(i, t)]"
    by (induction xs) auto
  then show "after i (sl_nodes sl) = ys" "upto_node i (sl_nodes sl) = xs @ [(i, t)]"
    using assms(2) by simp_all
qed

lemma next_of_split:
  assumes "sl_inv sl" "sl_nodes sl = xs @ (i, t) # ys"
  shows "next_of sl i = head_id ys"
  using after_split [OF assms] by (simp add: next_of_def)

lemma front_cons:
  assumes "sl_inv sl" "slices sl = s # ss"
  obtains i ns where "sl_nodes sl = (i, s) # ns" "sl_front sl = Some i" "ss = map snd ns"
    "deref sl (sl_front sl) = Some s"
proof -
  obtain i ns where n: "sl_nodes sl = (i, s) # ns" and ss: "ss = map snd ns"
    using assms(2) by (auto simp: slices_def map_eq_Cons_conv)
  moreover have "sl_front sl = Some i" using assms(1) n by (simp add: sl_inv_def head_id_def)
  moreover from this have "deref sl (sl_front sl) = Some s" by (simp add: deref_def n)
  ultimately show thesis using that by blast
qed

lemma front_nil:
  assumes "sl_inv sl" "slices sl = []"
  shows "sl_front sl = None" "sl_len sl = 0" "sl_back sl = None"
  using assms by (auto simp: sl_inv_def slices_def head_id_def last_id_def)

lemma foldl_push_back:
  assumes "sl_inv sl"
  shows "sl_inv (foldl push_back sl ss) \<and> slices (foldl push_back sl ss) = slices sl @ ss
    \<and> sl_write (foldl push_back sl ss) = sl_write sl
    \<and> (\<exists>ns. sl_nodes (foldl push_back sl ss) = sl_nodes sl @ ns)"
  using assms
proof (induction ss arbitrary: sl)
  case (Cons s ss)
  note p = push_back_inv [OF Cons.prems, of s]
  from Cons.IH [OF p(1)] p push_back_nodes [OF Cons.prems, of s] show ?case by auto
qed simp

end
