(* ===== verification/Buffer_Manager.thy ===== *)
theory Buffer_Manager
  imports Buffer_List Slice_List Os_Interface
begin

text \<open>
  \<open>src/buffer/manager.cpp\<close> and \<open>include/shmipc/buffer/manager.hpp\<close>: the buffer manager,
  which splits one mapping into several free lists of ascending buffer size, hands out and
  takes back slices, and is registered process-wide under its path with a reference count.
  Loops whose end depends on the contents of shared memory are \<open>partial_function (option)\<close>;
  \<open>None\<close> is a loop that does not return or a dereferenced null header.
\<close>

section \<open>The manager\<close>

text \<open>The reference count is a 32-bit atomic, read as a signed number.\<close>

record buffer_manager =
  bm_lists :: "buffer_list list"
  bm_mem_len :: nat
  bm_min_slice_size :: u32
  bm_max_slice_size :: u32
  bm_ref_count :: u32
  bm_mem_map_type :: mem_map_type
  bm_path :: string
  bm_memfd :: int

definition msg_bm_small :: "u32 \<Rightarrow> nat \<Rightarrow> string" where
  "msg_bm_small off len = ''mem's size is at least: '' @ dec (unat (off + 1)) @ '', but: '' @ dec len"

fun create_lists ::
  "u64 \<Rightarrow> nat \<Rightarrow> mem \<Rightarrow> u32 \<Rightarrow> u32 \<Rightarrow> size_percent_pair list
     \<Rightarrow> mem \<times> (buffer_list list \<times> u32) result" where
  "create_lists region_cap mem_len m used tot [] = (m, Inr ([], used))"
| "create_lists region_cap mem_len m used tot (p # ps) =
     (let tot' = tot + spp_percent p in
      if tot' > 100
      then (m, Inl (other_error ''the sum of all size_percent_pairs's percent must be equals 100''))
      else
        let buffer_num = (ucast (region_cap * ucast (spp_percent p) div 100
                            div (ucast (spp_size p) + ucast kBufferHeaderSize)) :: u32);
            need_size = count_buffer_list_mem_size buffer_num (spp_size p)
        in case list_create buffer_num (spp_size p) m mem_len used of
             (m1, Inl e) \<Rightarrow> (m1, Inl e)
           | (m1, Inr b) \<Rightarrow>
               (case create_lists region_cap mem_len m1 (used + need_size) tot' ps of
                  (m2, Inl e) \<Rightarrow> (m2, Inl e)
                | (m2, Inr (bs, used')) \<Rightarrow> (m2, Inr (b # bs, used'))))"

text \<open>
  \<open>BufferManager::create\<close>. With no pairs at all the code reads \<open>front()\<close> of an empty
  span, which is undefined, as \<open>hd []\<close> is here; \<open>Config::verify\<close> rules it out.
\<close>

definition bm_create ::
  "size_percent_pair list \<Rightarrow> string \<Rightarrow> mem \<Rightarrow> nat \<Rightarrow> u32 \<Rightarrow> mem \<times> buffer_manager result" where
  "bm_create pairs path m mem_len offset =
     (if mem_len \<le> unat offset then (m, Inl (other_error (msg_bm_small offset mem_len)))
      else
        let region_cap = (of_nat mem_len :: u64) - ucast offset
              - ucast kBufferListHeaderSize * of_nat (length pairs) - ucast kBufferManagerHeaderSize;
            m1 = store_u16 m (unat offset) (of_nat (length pairs));
            had_used_offset = kBufferManagerHeaderSize + offset
        in case create_lists region_cap mem_len m1 had_used_offset 0 pairs of
             (m2, Inl e) \<Rightarrow> (m2, Inl e)
           | (m2, Inr (bls, used)) \<Rightarrow>
               (store_u32 m2 (unat offset + unat kBmCapOffset) (used - kBufferManagerHeaderSize),
                Inr \<lparr>bm_lists = bls, bm_mem_len = mem_len,
                     bm_min_slice_size = spp_size (hd pairs),
                     bm_max_slice_size = spp_size (last pairs), bm_ref_count = 1,
                     bm_mem_map_type = KMemFd, bm_path = path, bm_memfd = 0\<rparr>))"

definition msg_bm_map_small :: "u32 \<Rightarrow> nat \<Rightarrow> string" where
  "msg_bm_map_small off len = ''mem's size is at least:'' @ dec (unat (off + kBmCapOffset + 1))
     @ '' but:'' @ dec len @ '' buffer_region_start_offset:'' @ dec (unat off)"

definition msg_bm_map_broken :: "u16 \<Rightarrow> u32 \<Rightarrow> nat \<Rightarrow> string" where
  "msg_bm_map_broken n length32 len = ''could not mapping buffer manager ,list_num:'' @ dec (unat n)
     @ '' len(mem) at least:'' @ dec (unat (kBufferManagerHeaderSize + length32)) @ '' but:'' @ dec len"

fun mapping_lists :: "mem \<Rightarrow> nat \<Rightarrow> u32 \<Rightarrow> nat \<Rightarrow> u32 \<Rightarrow> buffer_list list result" where
  "mapping_lists m mem_len start 0 used = Inr []"
| "mapping_lists m mem_len start (Suc i) used =
     (case list_mapping m mem_len (start + used) of
        Inl e \<Rightarrow> Inl e
      | Inr l \<Rightarrow>
          let sz = count_buffer_list_mem_size (cap_load m l) (cap_per_buffer m l)
          in case mapping_lists m mem_len start i (used + sz) of
               Inl e \<Rightarrow> Inl e
             | Inr ls \<Rightarrow> Inr (l # ls))"

definition bm_mapping :: "string \<Rightarrow> mem \<Rightarrow> nat \<Rightarrow> u32 \<Rightarrow> buffer_manager result" where
  "bm_mapping path m mem_len start =
     (if mem_len \<le> unat start + unat kBmCapOffset \<or> mem_len \<le> unat start
      then Inl (other_error (msg_bm_map_small start mem_len))
      else
        let list_num = load_u16 m (unat start);
            length32 = load_u32 m (unat start + unat kBmCapOffset)
        in if mem_len < unat (kBufferManagerHeaderSize + length32) \<or> list_num = 0
           then Inl (other_error (msg_bm_map_broken list_num length32 mem_len))
           else case mapping_lists m mem_len start (unat list_num) kBufferManagerHeaderSize of
                  Inl e \<Rightarrow> Inl e
                | Inr ls \<Rightarrow>
                    Inr \<lparr>bm_lists = ls, bm_mem_len = mem_len,
                         bm_min_slice_size = cap_per_buffer m (hd ls),
                         bm_max_slice_size = cap_per_buffer m (last ls), bm_ref_count = 1,
                         bm_mem_map_type = KMemFd, bm_path = path, bm_memfd = 0\<rparr>)"

section \<open>Allocation and recycling\<close>

definition remain_size :: "buffer_manager \<Rightarrow> mem \<Rightarrow> u32" where
  "remain_size bm m =
     fold (\<lambda>l acc. let remain = size_load m l * int (unat (cap_per_buffer m l))
                   in if remain > 0 then acc + of_int remain else acc) (bm_lists bm) 0"

fun alloc_from :: "buffer_list list \<Rightarrow> mem \<Rightarrow> u32 \<Rightarrow> mem \<times> buffer_slice result" where
  "alloc_from [] m sz = (m, Inl (Error KNoMoreBuffer))"
| "alloc_from (l # ls) m sz =
     (if sz \<le> cap_per_buffer m l then list_pop l m else alloc_from ls m sz)"

definition alloc_shm_buffer :: "buffer_manager \<Rightarrow> mem \<Rightarrow> u32 \<Rightarrow> mem \<times> buffer_slice result" where
  "alloc_shm_buffer bm m sz =
     (if sz \<le> bm_max_slice_size bm then alloc_from (bm_lists bm) m sz
      else (m, Inl (Error KNoMoreBuffer)))"

text \<open>The inner loop of \<open>alloc_shm_buffers\<close>: pop from one list while bytes are missing.\<close>

partial_function (option) alloc_while ::
  "buffer_list \<Rightarrow> mem \<Rightarrow> slice_list \<Rightarrow> int \<Rightarrow> int \<Rightarrow> (mem \<times> slice_list \<times> int \<times> int) option" where
  "alloc_while l m sl remain alloc_size =
     (if remain > 0
      then case list_pop l m of (m1, r) \<Rightarrow>
             (case r of
                Inl e \<Rightarrow> Some (m1, sl, remain, alloc_size)
              | Inr buf \<Rightarrow>
                  alloc_while l m1 (push_back sl buf) (remain - int (unat (bs_cap buf)))
                    (alloc_size + int (unat (bs_cap buf))))
      else Some (m, sl, remain, alloc_size))"

fun alloc_lists ::
  "buffer_list list \<Rightarrow> mem \<Rightarrow> slice_list \<Rightarrow> int \<Rightarrow> int \<Rightarrow> (mem \<times> slice_list \<times> int) option" where
  "alloc_lists [] m sl remain alloc_size = Some (m, sl, alloc_size)"
| "alloc_lists (l # ls) m sl remain alloc_size =
     (if remain > 0
      then case alloc_while l m sl remain alloc_size of
             None \<Rightarrow> None
           | Some (m1, sl1, remain1, alloc_size1) \<Rightarrow>
               alloc_lists ls m1 sl1 remain1 alloc_size1
      else Some (m, sl, alloc_size))"

definition alloc_shm_buffers ::
  "buffer_manager \<Rightarrow> mem \<Rightarrow> slice_list \<Rightarrow> u32 \<Rightarrow> (mem \<times> slice_list \<times> int) option" where
  "alloc_shm_buffers bm m sl sz =
     alloc_lists (rev (bm_lists bm)) m sl (int (unat sz)) 0"

fun push_to :: "buffer_list list \<Rightarrow> mem \<Rightarrow> buffer_slice \<Rightarrow> mem" where
  "push_to [] m s = m"
| "push_to (l # ls) m s =
     (if bs_cap s = cap_per_buffer m l then list_push l m s else push_to ls m s)"

definition recycle_buffer :: "buffer_manager \<Rightarrow> mem \<Rightarrow> buffer_slice \<Rightarrow> mem" where
  "recycle_buffer bm m s =
     (if bs_is_from_shm s
      then case bs_buffer_header s of
             None \<Rightarrow> m
           | Some h \<Rightarrow> if \<not> is_in_used m h then m else push_to (bm_lists bm) m s
      else m)"

definition bm_slice_size :: "buffer_manager \<Rightarrow> mem \<Rightarrow> int" where
  "bm_slice_size bm m = sum_list (map (size_load m) (bm_lists bm))"

definition msg_bad_offset :: "u32 \<Rightarrow> nat \<Rightarrow> string" where
  "msg_bad_offset off len = ''broken share memory. readBufferSlice unexpect offset:''
     @ dec (unat off) @ '' buffers cap:'' @ dec len"

definition msg_bad_end :: "u32 \<Rightarrow> u32 \<Rightarrow> nat \<Rightarrow> string" where
  "msg_bad_end e off len = ''broken share memory. readBufferSlice unexpect buffer_end_offset:''
     @ dec (unat e) @ '' buffer_start_offset:'' @ dec (unat off) @ '' buffers cap:'' @ dec len"

definition read_buffer_slice :: "buffer_manager \<Rightarrow> mem \<Rightarrow> u32 \<Rightarrow> buffer_slice result" where
  "read_buffer_slice bm m offset =
     (if unat offset + unat kBufferHeaderSize \<ge> bm_mem_len bm
      then Inl (other_error (msg_bad_offset offset (bm_mem_len bm)))
      else
        let buf_cap = load_u32 m (unat offset + kBufferCapOffset);
            buf_end_offset = offset + kBufferHeaderSize + buf_cap
        in if unat buf_end_offset > bm_mem_len bm
           then Inl (other_error (msg_bad_end buf_end_offset offset (bm_mem_len bm)))
           else Inr (new_slice m (Some (unat offset)) (unat offset + unat kBufferHeaderSize)
                  (unat (buf_end_offset - (offset + kBufferHeaderSize))) offset True))"

partial_function (option) recycle_chain :: "buffer_manager \<Rightarrow> mem \<Rightarrow> buffer_slice \<Rightarrow> mem option" where
  "recycle_chain bm m s =
     (case bs_buffer_header s of
        None \<Rightarrow> None
      | Some h \<Rightarrow>
          if \<not> has_next m h then Some (recycle_buffer bm m s)
          else
            let next_slice_offset = next_buffer_offset m h;
                m1 = recycle_buffer bm m s
            in (case read_buffer_slice bm m1 next_slice_offset of
                  Inl e \<Rightarrow> Some m1
                | Inr nxt \<Rightarrow> recycle_chain bm m1 nxt))"

definition recycle_buffers :: "buffer_manager \<Rightarrow> mem \<Rightarrow> buffer_slice \<Rightarrow> mem option" where
  "recycle_buffers bm m s = (if \<not> bs_is_from_shm s then Some m else recycle_chain bm m s)"

definition check_buffer_returned :: "buffer_manager \<Rightarrow> mem \<Rightarrow> bool" where
  "check_buffer_returned bm m =
     list_all (\<lambda>l. size_load m l = sint (cap_load m l) \<and> counter_load m l = 0) (bm_lists bm)"

text \<open>
  \<open>unmap\<close>: the polling loop only delays; then the mapping goes and the file is removed or
  the descriptor closed.
\<close>

definition bm_unmap :: "buffer_manager \<Rightarrow> buffer_manager \<times> os_event list" where
  "bm_unmap bm =
     (bm\<lparr>bm_mem_len := 0\<rparr>,
      [EvUnmap] @ (if bm_mem_map_type bm = KDevShmFile then [EvUnlink (bm_path bm)]
                   else [EvClose (bm_memfd bm)]))"

section \<open>Layout of the lists\<close>

text \<open>
  The lists of a manager lie one behind the other: each has an offset, a number of buffers
  and a capacity per buffer.
\<close>

record list_spec =
  ls_off :: u32
  ls_num :: u32
  ls_cap :: u32

definition spec_list :: "list_spec \<Rightarrow> buffer_list" where
  "spec_list g = the_list (ls_off g) (ls_num g) (ls_cap g)"

definition spec_end :: "list_spec \<Rightarrow> nat" where
  "spec_end g = list_end (ls_off g) (ls_num g) (ls_cap g)"

fun laid_out :: "nat \<Rightarrow> list_spec list \<Rightarrow> nat \<Rightarrow> bool" where
  "laid_out u [] e = (u \<le> e)"
| "laid_out u (g # gs) e = (unat (ls_off g) = u \<and> geometry (ls_off g) (ls_num g) (ls_cap g)
     \<and> laid_out (spec_end g) gs e)"

definition specs_inv :: "list_spec list \<Rightarrow> mem \<Rightarrow> nat list list \<Rightarrow> bool" where
  "specs_inv gs m kss \<longleftrightarrow> length kss = length gs
     \<and> (\<forall>i < length gs. free_inv (ls_off (gs ! i)) (ls_num (gs ! i)) (ls_cap (gs ! i)) m (kss ! i))"

lemma spec_end_gt: "unat (ls_off g) + 36 \<le> spec_end g"
  by (simp add: spec_end_def list_end_def)

lemma laid_out_le: "laid_out u gs e \<Longrightarrow> u \<le> e"
proof (induction gs arbitrary: u)
  case (Cons g gs)
  then have "spec_end g \<le> e" "u = unat (ls_off g)" by auto
  with spec_end_gt [of g] show ?case by simp
qed simp

lemma laid_out_nth:
  "laid_out u gs e \<Longrightarrow> i < length gs \<Longrightarrow> geometry (ls_off (gs ! i)) (ls_num (gs ! i)) (ls_cap (gs ! i))
     \<and> u \<le> unat (ls_off (gs ! i)) \<and> spec_end (gs ! i) \<le> e"
proof (induction gs arbitrary: u i)
  case (Cons g gs)
  show ?case
  proof (cases i)
    case 0
    with Cons.prems show ?thesis using laid_out_le [of "spec_end g" gs e] by auto
  next
    case (Suc j)
    with Cons.prems Cons.IH [of "spec_end g" j] spec_end_gt [of g] show ?thesis by auto
  qed
qed simp

lemma laid_out_order:
  "laid_out u gs e \<Longrightarrow> i < j \<Longrightarrow> j < length gs \<Longrightarrow> spec_end (gs ! i) \<le> unat (ls_off (gs ! j))"
proof (induction gs arbitrary: u i j)
  case (Cons g gs)
  then obtain j' where j: "j = Suc j'" by (cases j) auto
  show ?case
  proof (cases i)
    case 0
    with Cons.prems j laid_out_nth [of "spec_end g" gs e j'] show ?thesis by auto
  next
    case (Suc i')
    with Cons.prems Cons.IH [of "spec_end g" i' j'] j show ?thesis by auto
  qed
qed simp

lemma free_inv_region:
  assumes "free_inv off n c m ks"
    and "\<And>x. unat off \<le> x \<Longrightarrow> x < list_end off n c \<Longrightarrow> m' x = m x"
  shows "free_inv off n c m' ks"
proof -
  have e: "node off c k + 20 \<le> list_end off n c" if "k < unat n" for k
    using node_end [OF that, of off c] unit_size_ge [of c] by (simp add: list_end_def)
  have ks: "k < unat n" if "k \<in> set ks" for k using assms(1) that by (auto simp: free_inv_def)
  show ?thesis
  proof (rule free_inv_cong [OF assms(1)])
    show "m' x = m x" if "unat off \<le> x" "x < unat off + 24" for x
      using that by (intro assms(2)) (auto simp: list_end_def)
    show "m' x = m x" if "k \<in> set ks" "node off c k \<le> x" "x < node off c k + 20" for k x
      using that ks [OF that(1)] e [of k] node_ge [of off c k] by (intro assms(2)) auto
    show "m' x = m x" if "k < unat n" "node off c k \<le> x" "x < node off c k + 4" for k x
      using that e [of k] node_ge [of off c k] by (intro assms(2)) auto
  qed
qed

text \<open>A change inside one list leaves the invariants of the others alone.\<close>

lemma specs_inv_update:
  assumes lay: "laid_out u gs e" and inv: "specs_inv gs m kss" and i: "i < length gs"
    and new: "free_inv (ls_off (gs ! i)) (ls_num (gs ! i)) (ls_cap (gs ! i)) m' ks'"
    and frame: "\<And>x. x < unat (ls_off (gs ! i)) \<or> spec_end (gs ! i) \<le> x \<Longrightarrow> m' x = m x"
  shows "specs_inv gs m' (kss[i := ks'])"
  unfolding specs_inv_def
proof (intro conjI allI impI)
  show "length (kss[i := ks']) = length gs" using inv by (simp add: specs_inv_def)
  fix j assume j: "j < length gs"
  show "free_inv (ls_off (gs ! j)) (ls_num (gs ! j)) (ls_cap (gs ! j)) m' (kss[i := ks'] ! j)"
  proof (cases "j = i")
    case True
    with new inv i show ?thesis by (simp add: specs_inv_def)
  next
    case False
    have "free_inv (ls_off (gs ! j)) (ls_num (gs ! j)) (ls_cap (gs ! j)) m (kss ! j)"
      using inv j by (simp add: specs_inv_def)
    moreover have "m' x = m x" if "unat (ls_off (gs ! j)) \<le> x"
      "x < list_end (ls_off (gs ! j)) (ls_num (gs ! j)) (ls_cap (gs ! j))" for x
      using that laid_out_order [OF lay, of i j] laid_out_order [OF lay, of j i] i j False
      by (intro frame) (auto simp: spec_end_def neq_iff)
    ultimately show ?thesis using False by (auto intro: free_inv_region)
  qed
qed

section \<open>Held buffers\<close>

text \<open>
  A buffer is named by the number of its list and its number there. \<open>held\<close> is the list
  of the buffers someone holds; in every list the free and the held buffers are all its
  buffers.
\<close>

definition held_in :: "nat \<Rightarrow> (nat \<times> nat) list \<Rightarrow> nat list" where
  "held_in i held = map snd (filter (\<lambda>h. fst h = i) held)"

definition pool_inv :: "list_spec list \<Rightarrow> nat \<Rightarrow> mem \<Rightarrow> (nat \<times> nat) list \<Rightarrow> bool" where
  "pool_inv gs e m held \<longleftrightarrow> (\<exists>u kss. laid_out u gs e \<and> specs_inv gs m kss
     \<and> (\<forall>h \<in> set held. fst h < length gs)
     \<and> (\<forall>i < length gs. mset (kss ! i) + mset (held_in i held) = mset [0 ..< unat (ls_num (gs ! i))]))"

definition area :: "list_spec list \<Rightarrow> nat \<times> nat \<Rightarrow> nat set" where
  "area gs h = {x. private_area (ls_off (gs ! fst h)) (ls_cap (gs ! fst h)) (snd h) x}"

definition names :: "list_spec list \<Rightarrow> buffer_slice \<Rightarrow> nat \<times> nat \<Rightarrow> bool" where
  "names gs s h \<longleftrightarrow> fst h < length gs
     \<and> is_slot (ls_off (gs ! fst h)) (ls_num (gs ! fst h)) (ls_cap (gs ! fst h)) s (snd h)
     \<and> bs_cap s = ls_cap (gs ! fst h) \<and> bs_is_from_shm s
     \<and> bs_data s = ShmData (node (ls_off (gs ! fst h)) (ls_cap (gs ! fst h)) (snd h) + 20)"

definition hdr_addr :: "list_spec list \<Rightarrow> nat \<times> nat \<Rightarrow> nat" where
  "hdr_addr gs h = node (ls_off (gs ! fst h)) (ls_cap (gs ! fst h)) (snd h)"

lemma held_in_simps [simp]:
  "held_in i [] = []"
  "held_in i (h # hs) = (if fst h = i then snd h # held_in i hs else held_in i hs)"
  by (simp_all add: held_in_def)

lemma set_held_in: "k \<in> set (held_in i held) \<longleftrightarrow> (i, k) \<in> set held"
  by (force simp: held_in_def)

lemma held_in_remove1:
  "h \<in> set held \<Longrightarrow> mset (held_in i (remove1 h held))
     = (if fst h = i then mset (held_in i held) - {#snd h#} else mset (held_in i held))"
proof (induction held)
  case (Cons g gs)
  show ?case
  proof (cases "g = h")
    case True
    then show ?thesis by simp
  next
    case False
    with Cons have ih: "mset (held_in i (remove1 h gs))
        = (if fst h = i then mset (held_in i gs) - {#snd h#} else mset (held_in i gs))"
      and m: "h \<in> set gs" by auto
    have "snd h \<in># mset (held_in i gs)" if "fst h = i"
      using m that set_held_in [of "snd h" i gs] by (cases h) auto
    with False ih show ?thesis by auto
  qed
qed simp

lemma pool_invE:
  assumes "pool_inv gs e m held"
  obtains u kss where "laid_out u gs e" "specs_inv gs m kss" "\<forall>h \<in> set held. fst h < length gs"
    "\<forall>i < length gs. mset (kss ! i) + mset (held_in i held) = mset [0 ..< unat (ls_num (gs ! i))]"
  using assms unfolding pool_inv_def by blast

lemma pool_list:
  assumes "laid_out u gs e" "specs_inv gs m kss" "i < length gs"
    "mset (kss ! i) + mset (held_in i held) = mset [0 ..< unat (ls_num (gs ! i))]"
  shows "geometry (ls_off (gs ! i)) (ls_num (gs ! i)) (ls_cap (gs ! i))"
    "free_inv (ls_off (gs ! i)) (ls_num (gs ! i)) (ls_cap (gs ! i)) m (kss ! i)"
    "distinct (kss ! i @ held_in i held)"
    "set (kss ! i) \<union> set (held_in i held) = {..<unat (ls_num (gs ! i))}"
    "length (kss ! i) + length (held_in i held) = unat (ls_num (gs ! i))"
proof -
  show "geometry (ls_off (gs ! i)) (ls_num (gs ! i)) (ls_cap (gs ! i))"
    "free_inv (ls_off (gs ! i)) (ls_num (gs ! i)) (ls_cap (gs ! i)) m (kss ! i)"
    using laid_out_nth [OF assms(1,3)] assms(2,3) by (simp_all add: specs_inv_def)
  have e: "mset (kss ! i @ held_in i held) = mset [0 ..< unat (ls_num (gs ! i))]"
    using assms(4) by simp
  show "distinct (kss ! i @ held_in i held)"
    "set (kss ! i) \<union> set (held_in i held) = {..<unat (ls_num (gs ! i))}"
    "length (kss ! i) + length (held_in i held) = unat (ls_num (gs ! i))"
    using mset_eq_setD [OF e] mset_eq_length [OF e] mset_eq_imp_distinct_iff [OF e]
    by (simp_all add: atLeast0LessThan)
qed

lemma pool_held_distinct:
  assumes "pool_inv gs e m held"
  shows "distinct held"
proof -
  obtain u kss where p: "laid_out u gs e" "specs_inv gs m kss" "\<forall>h \<in> set held. fst h < length gs"
    "\<forall>i < length gs. mset (kss ! i) + mset (held_in i held) = mset [0 ..< unat (ls_num (gs ! i))]"
    using assms by (rule pool_invE)
  have "distinct (held_in (fst h) held)" if "h \<in> set held" for h
    using pool_list(3) [OF p(1,2), of "fst h" held] p(3,4) that by auto
  then show ?thesis
  proof (induction held)
    case (Cons g hs)
    have "g \<notin> set hs"
      using Cons.prems [of g] set_held_in [of "snd g" "fst g" hs] by auto
    moreover have "distinct (held_in (fst h) hs)" if "h \<in> set hs" for h
      using Cons.prems [of h] that by (auto split: if_splits)
    ultimately show ?case using Cons.IH by simp
  qed simp
qed

lemma area_inside:
  assumes "pool_inv gs e m held" and "h \<in> set held" "x \<in> area gs h"
  shows "unat (ls_off (gs ! fst h)) + 36 \<le> x" "x < spec_end (gs ! fst h)"
    "fst h < length gs" "snd h < unat (ls_num (gs ! fst h))"
proof -
  obtain u kss where p: "laid_out u gs e" "specs_inv gs m kss" "\<forall>h \<in> set held. fst h < length gs"
    "\<forall>i < length gs. mset (kss ! i) + mset (held_in i held) = mset [0 ..< unat (ls_num (gs ! i))]"
    using assms(1) by (rule pool_invE)
  show "fst h < length gs" using p(3) assms(2) by blast
  with pool_list(4) [OF p(1,2), of "fst h" held] p(4) assms(2) set_held_in [of "snd h" "fst h" held]
  show k: "snd h < unat (ls_num (gs ! fst h))" by auto
  from node_end [OF k, of "ls_off (gs ! fst h)" "ls_cap (gs ! fst h)"] assms(3)
  show "unat (ls_off (gs ! fst h)) + 36 \<le> x" "x < spec_end (gs ! fst h)"
    using node_ge [of "ls_off (gs ! fst h)" "ls_cap (gs ! fst h)" "snd h"]
    by (simp_all add: area_def private_area_def spec_end_def list_end_def)
qed

lemma area_disjoint:
  assumes "pool_inv gs e m held" and "h \<in> set held" "h' \<in> set held" "h \<noteq> h'"
  shows "area gs h \<inter> area gs h' = {}"
proof -
  obtain u kss where p: "laid_out u gs e" "specs_inv gs m kss" "\<forall>h \<in> set held. fst h < length gs"
    "\<forall>i < length gs. mset (kss ! i) + mset (held_in i held) = mset [0 ..< unat (ls_num (gs ! i))]"
    using assms(1) by (rule pool_invE)
  have inside: "unat (ls_off (gs ! fst h)) \<le> x \<and> x < spec_end (gs ! fst h)"
    if "h \<in> set held" "x \<in> area gs h" for h x
    using area_inside(1,2) [OF assms(1) that] by simp
  show ?thesis
  proof (cases "fst h = fst h'")
    case True
    with assms(4) have "snd h \<noteq> snd h'" by (simp add: prod_eq_iff)
    from node_disjoint [OF this, of "ls_off (gs ! fst h')" "ls_cap (gs ! fst h')"] show ?thesis
      unfolding area_def private_area_def True by auto
  next
    case False
    with laid_out_order [OF p(1), of "fst h" "fst h'"] laid_out_order [OF p(1), of "fst h'" "fst h"]
      p(3) assms(2,3) have "spec_end (gs ! fst h) \<le> unat (ls_off (gs ! fst h'))
        \<or> spec_end (gs ! fst h') \<le> unat (ls_off (gs ! fst h))"
      by (cases "fst h < fst h'") auto
    then have "x \<notin> area gs h'" if "x \<in> area gs h" for x
      using inside [of h x] inside [of h' x] assms(2,3) that by auto
    then show ?thesis by blast
  qed
qed

text \<open>The order of the held buffers does not matter.\<close>

lemma pool_inv_perm:
  assumes "pool_inv gs e m held" and e: "mset held = mset held'"
  shows "pool_inv gs e m held'"
proof -
  have "mset (held_in i held) = mset (held_in i held')" for i
    using e by (simp add: held_in_def mset_map mset_filter)
  moreover have "set held = set held'" using e by (rule mset_eq_setD)
  ultimately show ?thesis using assms(1) by (simp add: pool_inv_def)
qed

lemma pool_inv_write:
  assumes inv: "pool_inv gs e m held" and h: "h \<in> set held"
    and w: "\<And>x. m' x \<noteq> m x \<Longrightarrow> x \<in> area gs h"
  shows "pool_inv gs e m' held"
proof -
  obtain u kss where p: "laid_out u gs e" "specs_inv gs m kss" "\<forall>h \<in> set held. fst h < length gs"
    "\<forall>i < length gs. mset (kss ! i) + mset (held_in i held) = mset [0 ..< unat (ls_num (gs ! i))]"
    using inv by (rule pool_invE)
  let ?i = "fst h" and ?g = "gs ! fst h"
  have i: "?i < length gs" using p(3) h by blast
  note l = pool_list [OF p(1,2) i p(4) [rule_format, OF i]]
  have k: "snd h \<in> set (held_in ?i held)" using h set_held_in [of "snd h" ?i held] by simp
  have "free_inv (ls_off ?g) (ls_num ?g) (ls_cap ?g) m' (kss ! ?i)"
    using l(2)
  proof (rule free_inv_private)
    fix x assume "m' x \<noteq> m x"
    with w have "private_area (ls_off ?g) (ls_cap ?g) (snd h) x" by (simp add: area_def)
    moreover have "snd h \<notin> set (kss ! ?i)" using k l(3) by auto
    ultimately show "\<exists>k. k \<notin> set (kss ! ?i) \<and> private_area (ls_off ?g) (ls_cap ?g) k x" by blast
  qed
  moreover have "m' x = m x" if "x < unat (ls_off ?g) \<or> spec_end ?g \<le> x" for x
  proof (rule ccontr)
    assume "m' x \<noteq> m x"
    with w have "private_area (ls_off ?g) (ls_cap ?g) (snd h) x" by (simp add: area_def)
    moreover have "snd h < unat (ls_num ?g)" using k l(4) by auto
    ultimately show False
      using that node_end [of "snd h" "ls_num ?g" "ls_off ?g" "ls_cap ?g"]
        node_ge [of "ls_off ?g" "ls_cap ?g" "snd h"]
      by (auto simp: private_area_def spec_end_def list_end_def)
  qed
  ultimately have "specs_inv gs m' (kss[?i := kss ! ?i])"
    by (intro specs_inv_update [OF p(1,2) i]) auto
  with p show ?thesis by (auto simp: pool_inv_def)
qed

definition fresh_slice :: "buffer_slice \<Rightarrow> bool" where
  "fresh_slice s \<longleftrightarrow> slice_ok s \<and> bs_read_index s = 0 \<and> bs_write_index s = 0 \<and> bs_start s = 0
     \<and> 0 < unat (bs_cap s)"

definition header_used :: "mem \<Rightarrow> buffer_slice \<Rightarrow> bool" where
  "header_used m s \<longleftrightarrow> (case bs_buffer_header s of None \<Rightarrow> False
     | Some h \<Rightarrow> is_in_used m h \<and> \<not> has_next m h)"

text \<open>
  \<open>grants\<close>: the step from \<open>m\<close> to \<open>m'\<close> handed out the fresh slices \<open>ss\<close>
  of the buffers \<open>hs\<close> and left everything held before untouched.
\<close>

definition grants ::
  "(mem \<Rightarrow> 'h list \<Rightarrow> bool) \<Rightarrow> ('h \<Rightarrow> nat set) \<Rightarrow> (buffer_slice \<Rightarrow> 'h \<Rightarrow> bool)
     \<Rightarrow> mem \<Rightarrow> 'h list \<Rightarrow> mem \<Rightarrow> buffer_slice list \<Rightarrow> 'h list \<Rightarrow> bool" where
  "grants iv ar nm m held m' ss hs \<longleftrightarrow> list_all2 nm ss hs \<and> iv m' (hs @ held)
     \<and> (\<forall>s \<in> set ss. fresh_slice s \<and> header_used m' s)
     \<and> (\<forall>g \<in> set held. \<forall>x \<in> ar g. m' x = m x)"

lemma area_outside:
  assumes inv: "pool_inv gs e m held" and h: "h \<in> set held" and g: "g \<in> set held" "g \<noteq> h"
    and x: "x \<in> area gs g"
  shows "x < unat (ls_off (gs ! fst h)) \<or> unat (ls_off (gs ! fst h)) + 24 \<le> x"
    and "x < hdr_addr gs h \<or> hdr_addr gs h + unit_size (ls_cap (gs ! fst h)) \<le> x"
proof -
  obtain u kss where p: "laid_out u gs e" "\<forall>h \<in> set held. fst h < length gs"
    using inv by (rule pool_invE)
  note ig = area_inside [OF inv g(1) x]
  have k: "snd h < unat (ls_num (gs ! fst h))"
  proof -
    obtain y where "y \<in> area gs h"
      using unit_size_ge [of "ls_cap (gs ! fst h)"]
      by (auto simp: area_def private_area_def
          intro!: that [of "node (ls_off (gs ! fst h)) (ls_cap (gs ! fst h)) (snd h) + 4"])
    then show ?thesis by (rule area_inside(4) [OF inv h])
  qed
  have "(x < unat (ls_off (gs ! fst h)) \<or> unat (ls_off (gs ! fst h)) + 24 \<le> x)
    \<and> (x < hdr_addr gs h \<or> hdr_addr gs h + unit_size (ls_cap (gs ! fst h)) \<le> x)"
  proof (cases "fst g = fst h")
    case True
    with g(2) have "snd g \<noteq> snd h" by (simp add: prod_eq_iff)
    from node_disjoint [OF this, of "ls_off (gs ! fst h)" "ls_cap (gs ! fst h)"] x ig(1) True
    show ?thesis by (auto simp: area_def private_area_def hdr_addr_def)
  next
    case False
    with laid_out_order [OF p(1), of "fst g" "fst h"] laid_out_order [OF p(1), of "fst h" "fst g"]
      p(2) g h have "spec_end (gs ! fst g) \<le> unat (ls_off (gs ! fst h))
        \<or> spec_end (gs ! fst h) \<le> unat (ls_off (gs ! fst g))"
      by (cases "fst g < fst h") auto
    with ig node_end [OF k, of "ls_off (gs ! fst h)" "ls_cap (gs ! fst h)"]
      node_ge [of "ls_off (gs ! fst h)" "ls_cap (gs ! fst h)" "snd h"]
    show ?thesis by (auto simp: hdr_addr_def spec_end_def list_end_def)
  qed
  then show "x < unat (ls_off (gs ! fst h)) \<or> unat (ls_off (gs ! fst h)) + 24 \<le> x"
    "x < hdr_addr gs h \<or> hdr_addr gs h + unit_size (ls_cap (gs ! fst h)) \<le> x" by blast+
qed

lemma node_private:
  "0 < unat c \<Longrightarrow> x \<in> {node off c k + 4 ..< node off c k + 20 + unat c} \<Longrightarrow> private_area off c k x"
  by (simp add: private_area_def unit_size_def)

lemma pool_alloc:
  assumes inv: "pool_inv gs e m held" and i: "i < length gs"
    and pop: "list_pop (spec_list (gs ! i)) m = (m', Inr s)"
  shows "\<exists>h. fst h = i \<and> bs_cap s = ls_cap (gs ! i)
    \<and> grants (pool_inv gs e) (area gs) (names gs) m held m' [s] [h]"
proof -
  obtain u kss where p: "laid_out u gs e" "specs_inv gs m kss" "\<forall>h \<in> set held. fst h < length gs"
    "\<forall>i < length gs. mset (kss ! i) + mset (held_in i held) = mset [0 ..< unat (ls_num (gs ! i))]"
    using inv by (rule pool_invE)
  let ?g = "gs ! i"
  note l = pool_list [OF p(1,2) i p(4) [rule_format, OF i]]
  have "\<not> (\<exists>k. kss ! i = [k])"
    using list_pop_last [of "ls_off ?g" "ls_num ?g" "ls_cap ?g" m] l(2) pop by (auto simp: spec_list_def)
  moreover have "kss ! i \<noteq> []" using l(2) by (simp add: free_inv_def)
  ultimately obtain k k' ks where ks: "kss ! i = k # k' # ks" by (metis neq_Nil_conv)
  note l2 = l(2) [unfolded ks]
  have s: "s = slot_slice (ls_off ?g) (ls_cap ?g) k"
    and m': "m' = popped (ls_off ?g) (ls_cap ?g) m k (slot_off (ls_cap ?g) k')"
    using list_pop_ok [OF l(1) l2] pop by (simp_all add: spec_list_def)
  have k: "k < unat (ls_num ?g)" using l(4) ks by auto
  have fr: "m' x = m x" if "x < unat (ls_off ?g) \<or> spec_end ?g \<le> x" for x
    using that node_end [OF k, of "ls_off ?g" "ls_cap ?g"] node_ge [of "ls_off ?g" "ls_cap ?g" k]
      unit_size_ge [of "ls_cap ?g"]
    unfolding m' by (intro popped_frame) (auto simp: spec_end_def list_end_def)
  have "specs_inv gs m' (kss[i := k' # ks])"
    using free_inv_popped [OF l2] fr unfolding m'
    by (intro specs_inv_update [OF p(1,2) i]) auto
  moreover have "mset (kss[i := k' # ks] ! j) + mset (held_in j ((i, k) # held))
      = mset [0 ..< unat (ls_num (gs ! j))]" if "j < length gs" for j
    using p(2,4) that ks by (cases "j = i") (auto simp: specs_inv_def)
  ultimately have inv': "pool_inv gs e m' ((i, k) # held)"
    using p(1,3) i unfolding pool_inv_def by (intro exI [of _ u] exI [of _ "kss[i := k' # ks]"]) auto
  have "m' x = m x" if g: "g \<in> set held" "x \<in> area gs g" for g x
  proof -
    have "g \<noteq> (i, k)" using g(1) pool_held_distinct [OF inv'] by auto
    with area_outside [OF inv', of "(i, k)" g x] g unit_size_ge [of "ls_cap ?g"] show ?thesis
      unfolding m' by (intro popped_frame) (auto simp: hdr_addr_def)
  qed
  moreover have "0 < unat (ls_cap ?g)" using l(1) by (simp add: geometry_def)
  then have "fresh_slice s" by (simp add: s fresh_slice_def slot_slice_def slice_ok_def)
  moreover have "header_used m' s"
    unfolding s m' by (simp add: header_used_def slot_slice_def popped_header)
  moreover have "names gs s (i, k)" and "bs_cap s = ls_cap ?g"
    using i k is_slot_slot_slice [OF k, of "ls_off ?g" "ls_cap ?g"]
    by (simp_all add: names_def s) (simp_all add: slot_slice_def)
  ultimately show ?thesis
    using inv' by (intro exI [of _ "(i, k)"]) (simp add: grants_def)
qed

lemma pool_alloc_fail:
  assumes inv: "pool_inv gs e m held" and i: "i < length gs"
    and pop: "list_pop (spec_list (gs ! i)) m = (m', Inl err)"
  shows "m' = m \<and> err = Error KNoMoreBuffer \<and> Suc (length (held_in i held)) = unat (ls_num (gs ! i))"
proof -
  obtain u kss where p: "laid_out u gs e" "specs_inv gs m kss" "\<forall>h \<in> set held. fst h < length gs"
    "\<forall>i < length gs. mset (kss ! i) + mset (held_in i held) = mset [0 ..< unat (ls_num (gs ! i))]"
    using inv by (rule pool_invE)
  let ?g = "gs ! i"
  note l = pool_list [OF p(1,2) i p(4) [rule_format, OF i]]
  have "\<not> (\<exists>k k' ks. kss ! i = k # k' # ks)"
    using list_pop_ok [OF l(1), of m] l(2) pop by (auto simp: spec_list_def)
  moreover have "kss ! i \<noteq> []" using l(2) by (simp add: free_inv_def)
  ultimately obtain k where ks: "kss ! i = [k]" by (metis neq_Nil_conv)
  with list_pop_last [of "ls_off ?g" "ls_num ?g" "ls_cap ?g" m k] l(2,5) pop
  show ?thesis by (simp add: spec_list_def)
qed

lemma pool_recycle:
  assumes inv: "pool_inv gs e m held" and h: "h \<in> set held" and s: "names gs s h"
  shows "pool_inv gs e (list_push (spec_list (gs ! fst h)) m s) (remove1 h held)"
    and "\<And>g x. g \<in> set (remove1 h held) \<Longrightarrow> x \<in> area gs g \<Longrightarrow>
      list_push (spec_list (gs ! fst h)) m s x = m x"
proof -
  obtain u kss where p: "laid_out u gs e" "specs_inv gs m kss" "\<forall>h \<in> set held. fst h < length gs"
    "\<forall>i < length gs. mset (kss ! i) + mset (held_in i held) = mset [0 ..< unat (ls_num (gs ! i))]"
    using inv by (rule pool_invE)
  let ?i = "fst h" and ?k = "snd h" and ?g = "gs ! fst h"
  have i: "?i < length gs" using p(3) h by blast
  note l = pool_list [OF p(1,2) i p(4) [rule_format, OF i]]
  have kh: "?k \<in> set (held_in ?i held)" using h set_held_in [of ?k ?i held] by simp
  then have k: "?k < unat (ls_num ?g)" "?k \<notin> set (kss ! ?i)" using l(3,4) by auto
  let ?t = "last (kss ! ?i)" and ?m = "pushed (ls_off ?g) (ls_cap ?g) m (last (kss ! ?i)) ?k"
  have m: "list_push (spec_list ?g) m s = ?m"
    using list_push_ok [OF l(1,2) k(1) _ _ k(2), of s] s by (simp add: names_def is_slot_def spec_list_def)
  have t: "?t \<in> set (kss ! ?i)" using l(2) by (auto simp: free_inv_def)
  then have tn: "?t < unat (ls_num ?g)" using l(4) by auto
  have fr: "?m x = m x" if "x < unat (ls_off ?g) \<or> spec_end ?g \<le> x" for x
    using that node_end [OF k(1), of "ls_off ?g" "ls_cap ?g"] unit_size_ge [of "ls_cap ?g"]
      node_end [OF tn, of "ls_off ?g" "ls_cap ?g"] node_ge [of "ls_off ?g" "ls_cap ?g" ?k]
      node_ge [of "ls_off ?g" "ls_cap ?g" ?t]
    by (intro pushed_frame) (auto simp: spec_end_def list_end_def)
  have "specs_inv gs ?m (kss[?i := kss ! ?i @ [?k]])"
    using free_inv_pushed [OF l(2) k] fr by (intro specs_inv_update [OF p(1,2) i]) auto
  moreover have "mset (kss[?i := kss ! ?i @ [?k]] ! j) + mset (held_in j (remove1 h held))
      = mset [0 ..< unat (ls_num (gs ! j))]" if "j < length gs" for j
  proof (cases "j = ?i")
    case True
    have "mset (kss ! ?i @ [?k]) + mset (held_in ?i (remove1 h held))
        = mset (kss ! ?i) + mset (held_in ?i held)"
      using kh by (simp add: held_in_remove1 [OF h])
    with p(2,4) that True show ?thesis by (simp add: specs_inv_def)
  next
    case False
    with p(4) that show ?thesis by (simp add: held_in_remove1 [OF h])
  qed
  ultimately have "pool_inv gs e ?m (remove1 h held)"
    using p(1,3) unfolding pool_inv_def
    by (intro exI [of _ u] exI [of _ "kss[?i := kss ! ?i @ [?k]]"]) (auto dest: notin_set_remove1)
  then show "pool_inv gs e (list_push (spec_list ?g) m s) (remove1 h held)" by (simp only: m)
  show "list_push (spec_list ?g) m s x = m x"
    if g: "g \<in> set (remove1 h held)" and x: "x \<in> area gs g" for g x
  proof -
    have gh: "g \<in> set held" "g \<noteq> h"
      using g pool_held_distinct [OF inv] by (auto dest: notin_set_remove1)
    have "x < node (ls_off ?g) (ls_cap ?g) ?t \<or> node (ls_off ?g) (ls_cap ?g) ?t + 20 \<le> x"
    proof (cases "fst g = ?i")
      case True
      have "snd g \<in> set (held_in ?i held)" using gh(1) True by (metis prod.collapse set_held_in)
      with t l(3) have "snd g \<noteq> ?t" by auto
      from node_disjoint [OF this, of "ls_off ?g" "ls_cap ?g"] x True unit_size_ge [of "ls_cap ?g"]
      show ?thesis by (auto simp: area_def private_area_def)
    next
      case False
      with laid_out_order [OF p(1), of "fst g" ?i] laid_out_order [OF p(1), of ?i "fst g"]
        p(3) gh h have "spec_end (gs ! fst g) \<le> unat (ls_off ?g) \<or> spec_end ?g \<le> unat (ls_off (gs ! fst g))"
        by (cases "fst g < ?i") auto
      with area_inside(1,2) [OF inv gh(1) x] node_end [OF tn, of "ls_off ?g" "ls_cap ?g"]
        node_ge [of "ls_off ?g" "ls_cap ?g" ?t] unit_size_ge [of "ls_cap ?g"]
      show ?thesis by (auto simp: spec_end_def list_end_def)
    qed
    with area_outside [OF inv h gh x] unit_size_ge [of "ls_cap ?g"] show ?thesis
      unfolding m by (intro pushed_frame) (auto simp: hdr_addr_def)
  qed
qed

section \<open>The operations of the manager on its pool\<close>

lemma pool_cap_per_buffer:
  assumes "pool_inv gs e m held" and "i < length gs"
  shows "cap_per_buffer m (spec_list (gs ! i)) = ls_cap (gs ! i)"
  using assms by (auto simp: pool_inv_def specs_inv_def free_inv_def cap_per_buffer_def spec_list_def)

definition cap_sum :: "buffer_slice list \<Rightarrow> int" where
  "cap_sum ss = sum_list (map (\<lambda>s. int (unat (bs_cap s))) ss)"

lemma cap_sum_simps [simp]:
  "cap_sum [] = 0" "cap_sum (s # ss) = int (unat (bs_cap s)) + cap_sum ss"
  "cap_sum (ss @ ss') = cap_sum ss + cap_sum ss'"
  by (simp_all add: cap_sum_def)

text \<open>Slices taken for \<open>r\<close> missing bytes: all but the last did not suffice.\<close>

definition frugal :: "buffer_slice list \<Rightarrow> int \<Rightarrow> bool" where
  "frugal ss r \<longleftrightarrow> (ss \<noteq> [] \<longrightarrow> cap_sum (butlast ss) < r)"

lemma frugal_nil [simp]: "frugal [] r"
  by (simp add: frugal_def)

lemma frugal_Cons: "0 < r \<Longrightarrow> frugal ss (r - int (unat (bs_cap s))) \<Longrightarrow> frugal (s # ss) r"
  by (cases "ss = []") (auto simp: frugal_def)

lemma frugal_append: "frugal ss r \<Longrightarrow> frugal ss' (r - cap_sum ss) \<Longrightarrow> frugal (ss @ ss') r"
  by (auto simp: frugal_def butlast_append)

lemma grants_nil: "iv m held \<Longrightarrow> grants iv ar nm m held m [] []"
  by (simp add: grants_def)

lemma names_flag_area:
  assumes "names gs s h" and "bs_buffer_header s = Some p"
  shows "{p + 4 ..< p + 20} \<subseteq> area gs h"
  using assms unit_size_ge [of "ls_cap (gs ! fst h)"]
  by (auto simp: names_def is_slot_def area_def private_area_def)

lemma flag_cong:
  "m (p + 16) = m' (p + 16) \<Longrightarrow> is_in_used m p = is_in_used m' p"
  "m (p + 16) = m' (p + 16) \<Longrightarrow> has_next m p = has_next m' p"
  by (simp_all add: is_in_used_def has_next_def)

lemma grants_frame: "grants iv ar nm m held m' ss hs \<Longrightarrow> g \<in> set held \<Longrightarrow> x \<in> ar g \<Longrightarrow> m' x = m x"
  unfolding grants_def by blast

lemma list_all2_partner: "list_all2 P xs ys \<Longrightarrow> x \<in> set xs \<Longrightarrow> \<exists>y \<in> set ys. P x y"
  by (induction rule: list_all2_induct) auto

lemma grants_append:
  assumes a: "grants (pool_inv gs e) (area gs) (names gs) m held m1 ss hs"
    and b: "grants (pool_inv gs e) (area gs) (names gs) m1 (hs @ held) m2 ss' hs'"
  shows "grants (pool_inv gs e) (area gs) (names gs) m held m2 (ss @ ss') (hs @ hs')"
proof -
  have "header_used m2 s" if "s \<in> set ss" for s
  proof -
    have u: "header_used m1 s" using a that by (simp add: grants_def)
    then obtain p where p: "bs_buffer_header s = Some p"
      by (auto simp: header_used_def split: option.splits)
    have "list_all2 (names gs) ss hs" using a by (simp add: grants_def)
    from list_all2_partner [OF this that] obtain h where h: "h \<in> set hs" "names gs s h" by blast
    have "p + 16 \<in> area gs h" using names_flag_area [OF h(2) p] by auto
    with b h(1) have "m2 (p + 16) = m1 (p + 16)" by (auto simp: grants_def)
    with u p flag_cong [of m2 p m1] show ?thesis by (simp add: header_used_def)
  qed
  moreover have "pool_inv gs e m2 ((hs @ hs') @ held)"
    by (rule pool_inv_perm [of gs e m2 "hs' @ hs @ held"]) (use b in \<open>auto simp: grants_def\<close>)
  moreover have "m2 x = m x" if "g \<in> set held" "x \<in> area gs g" for g x
    using grants_frame [OF a that] grants_frame [OF b, of g x] that by simp
  ultimately show ?thesis
    using a b by (auto simp: grants_def list_all2_appendI)
qed

lemma alloc_from_ok:
  assumes "pool_inv gs e m held" and "drop j gs = gs'"
  shows "case alloc_from (map spec_list gs') m sz of
      (m', Inl err) \<Rightarrow> m' = m \<and> err = Error KNoMoreBuffer
    | (m', Inr s) \<Rightarrow> unat sz \<le> unat (bs_cap s)
        \<and> (\<exists>h. grants (pool_inv gs e) (area gs) (names gs) m held m' [s] [h])"
  using assms(2)
proof (induction gs' arbitrary: j)
  case (Cons g gs')
  have j: "j < length gs" and g: "gs ! j = g" and d: "drop (Suc j) gs = gs'"
    using Cons.prems by (metis drop_all linorder_not_le list.simps(3), metis drop_eq_Nil2
        linorder_not_le list.distinct(1) nth_via_drop, metis drop_Suc list.sel(3) tl_drop)
  have cap: "cap_per_buffer m (spec_list g) = ls_cap g"
    using pool_cap_per_buffer [OF assms(1) j] g by simp
  show ?case
  proof (cases "sz \<le> ls_cap g")
    case True
    obtain m' r where r: "list_pop (spec_list g) m = (m', r)" by (cases "list_pop (spec_list g) m")
    show ?thesis
    proof (cases r)
      case (Inl err)
      with pool_alloc_fail [OF assms(1) j, of m' err] r g True cap show ?thesis by simp
    next
      case (Inr s)
      with pool_alloc [OF assms(1) j, of m' s] r g True cap show ?thesis
        by (auto simp: word_le_nat_alt)
    qed
  next
    case False
    with Cons.IH [OF d] cap show ?thesis by simp
  qed
qed simp

lemma alloc_while_ok:
  assumes "pool_inv gs e m held" and "i < length gs"
  shows "\<exists>m' ss hs. alloc_while (spec_list (gs ! i)) m sl r t
      = Some (m', foldl push_back sl ss, r - cap_sum ss,
              t + cap_sum ss)
    \<and> grants (pool_inv gs e) (area gs) (names gs) m held m' ss hs \<and> frugal ss r"
  using assms(1)
proof (induction "unat (ls_num (gs ! i)) - length (held_in i held)" arbitrary: m held sl r t
    rule: less_induct)
  case less
  obtain m1 x where pop: "list_pop (spec_list (gs ! i)) m = (m1, x)"
    by (cases "list_pop (spec_list (gs ! i)) m")
  note u = alloc_while.simps [of "spec_list (gs ! i)" m sl r t]
  show ?case
  proof (cases "r > 0")
    case False
    then have "alloc_while (spec_list (gs ! i)) m sl r t = Some (m, sl, r, t)" using u by simp
    with less.prems show ?thesis
      by (intro exI [of _ m] exI [of _ "[]"]) (simp add: grants_nil)
  next
    case r: True
    show ?thesis
    proof (cases x)
      case (Inl err)
      with pool_alloc_fail [OF less.prems assms(2), of m1 err] pop have m1: "m1 = m" by simp
      have "alloc_while (spec_list (gs ! i)) m sl r t = Some (m, sl, r, t)"
        using u r pop Inl m1 by simp
      with less.prems show ?thesis
        by (intro exI [of _ m] exI [of _ "[]"]) (simp add: grants_nil)
    next
      case (Inr s)
      with pool_alloc [OF less.prems assms(2), of m1 s] pop obtain h where h: "fst h = i"
        and gr: "grants (pool_inv gs e) (area gs) (names gs) m held m1 [s] [h]" by auto
      have inv1: "pool_inv gs e m1 (h # held)" using gr by (simp add: grants_def)
      have "length (held_in i (h # held)) \<le> unat (ls_num (gs ! i))"
        using inv1 assms(2) pool_list(5) [where gs = gs and e = e and m = m1]
        by (metis le_add2 pool_invE)
      then have "unat (ls_num (gs ! i)) - length (held_in i (h # held))
          < unat (ls_num (gs ! i)) - length (held_in i held)"
        using h by simp
      from less.hyps [OF this inv1, of "push_back sl s" "r - int (unat (bs_cap s))"
          "t + int (unat (bs_cap s))"]
      obtain m' ss hs where w: "alloc_while (spec_list (gs ! i)) m1 (push_back sl s)
            (r - int (unat (bs_cap s))) (t + int (unat (bs_cap s)))
          = Some (m', foldl push_back (push_back sl s) ss,
              r - int (unat (bs_cap s)) - cap_sum ss,
              t + int (unat (bs_cap s)) + cap_sum ss)"
        and gr2: "grants (pool_inv gs e) (area gs) (names gs) m1 (h # held) m' ss hs"
        and fr: "frugal ss (r - int (unat (bs_cap s)))" by blast
      have "grants (pool_inv gs e) (area gs) (names gs) m held m' (s # ss) (h # hs)"
        using grants_append [OF gr, of m' ss hs] gr2 by simp
      with u r pop Inr w frugal_Cons [OF r fr] show ?thesis
        by (intro exI [of _ m'] exI [of _ "s # ss"] exI [of _ "h # hs"]) (simp add: algebra_simps)
    qed
  qed
qed

lemma alloc_lists_ok:
  assumes "pool_inv gs e m held" and "\<forall>g \<in> set gs'. \<exists>i < length gs. g = gs ! i"
  shows "\<exists>m' ss hs. alloc_lists (map spec_list gs') m sl r t
      = Some (m', foldl push_back sl ss, t + cap_sum ss)
    \<and> grants (pool_inv gs e) (area gs) (names gs) m held m' ss hs \<and> frugal ss r"
  using assms
proof (induction gs' arbitrary: m held sl r t)
  case Nil
  then show ?case by (intro exI [of _ m] exI [of _ "[]"]) (simp add: grants_nil)
next
  case (Cons g gs')
  show ?case
  proof (cases "r > 0")
    case False
    with Cons.prems show ?thesis by (intro exI [of _ m] exI [of _ "[]"]) (simp add: grants_nil)
  next
    case True
    obtain i where i: "i < length gs" "g = gs ! i" using Cons.prems(2) by auto
    obtain m1 ss hs where w: "alloc_while (spec_list g) m sl r t
        = Some (m1, foldl push_back sl ss, r - cap_sum ss,
              t + cap_sum ss)"
      and gr: "grants (pool_inv gs e) (area gs) (names gs) m held m1 ss hs" and fr: "frugal ss r"
      using alloc_while_ok [OF Cons.prems(1) i(1), of sl r t] i(2) by auto
    have "pool_inv gs e m1 (hs @ held)" using gr by (simp add: grants_def)
    from Cons.IH [OF this, of "foldl push_back sl ss" "r - cap_sum ss"
        "t + cap_sum ss"] Cons.prems(2)
    obtain m2 ss' hs' where w2: "alloc_lists (map spec_list gs') m1 (foldl push_back sl ss)
          (r - cap_sum ss) (t + cap_sum ss)
        = Some (m2, foldl push_back (foldl push_back sl ss) ss',
            t + cap_sum ss + cap_sum ss')"
      and gr2: "grants (pool_inv gs e) (area gs) (names gs) m1 (hs @ held) m2 ss' hs'"
      and fr2: "frugal ss' (r - cap_sum ss)"
      by auto
    have "alloc_lists (map spec_list (g # gs')) m sl r t
        = Some (m2, foldl push_back sl (ss @ ss'), t + cap_sum (ss @ ss'))"
      using True w w2 by (simp add: add.assoc)
    with grants_append [OF gr gr2] frugal_append [OF fr fr2] show ?thesis by blast
  qed
qed

text \<open>A manager over the lists \<open>gs\<close>; recycling needs the capacities to be distinct.\<close>

definition manages :: "buffer_manager \<Rightarrow> list_spec list \<Rightarrow> nat \<Rightarrow> bool" where
  "manages bm gs e \<longleftrightarrow> bm_lists bm = map spec_list gs \<and> gs \<noteq> [] \<and> distinct (map ls_cap gs)
     \<and> e \<le> bm_mem_len bm \<and> bm_mem_len bm < 4294967296
     \<and> bm_max_slice_size bm = ls_cap (last gs)"

definition managed :: "buffer_manager \<Rightarrow> list_spec list \<Rightarrow> nat \<Rightarrow> mem \<Rightarrow> (nat \<times> nat) list \<Rightarrow> bool" where
  "managed bm gs e m held \<longleftrightarrow> manages bm gs e \<and> pool_inv gs e m held"

lemma push_to_ok:
  assumes inv: "pool_inv gs e m held" and d: "distinct (map ls_cap gs)" and i: "i < length gs"
    and s: "bs_cap s = ls_cap (gs ! i)" and j: "j \<le> i"
  shows "push_to (map spec_list (drop j gs)) m s = list_push (spec_list (gs ! i)) m s"
  using j
proof (induction "i - j" arbitrary: j)
  case 0
  with i have "j = i" by simp
  with i s pool_cap_per_buffer [OF inv i] show ?case by (simp add: Cons_nth_drop_Suc [symmetric])
next
  case (Suc x)
  then have j: "j < length gs" "j \<noteq> i" using i by auto
  have "ls_cap (gs ! j) \<noteq> ls_cap (gs ! i)"
    using nth_eq_iff_index_eq [OF d, of j i] i j by simp
  with Suc pool_cap_per_buffer [OF inv j(1)] s j show ?case
    by (simp add: Cons_nth_drop_Suc [symmetric])
qed

lemma recycle_buffer_ok:
  assumes man: "managed bm gs e m held" and h: "h \<in> set held" and s: "names gs s h"
    and used: "is_in_used m (hdr_addr gs h)"
  shows "recycle_buffer bm m s = list_push (spec_list (gs ! fst h)) m s"
proof -
  have i: "fst h < length gs" and c: "bs_cap s = ls_cap (gs ! fst h)"
    and b: "bs_buffer_header s = Some (hdr_addr gs h)" "bs_is_from_shm s"
    using s by (simp_all add: names_def is_slot_def hdr_addr_def)
  have "push_to (map spec_list (drop 0 gs)) m s = list_push (spec_list (gs ! fst h)) m s"
    using man by (intro push_to_ok [OF _ _ i c]) (auto simp: managed_def manages_def)
  with used b man show ?thesis by (simp add: recycle_buffer_def managed_def manages_def)
qed

section \<open>The contract the linked buffer relies on\<close>

text \<open>
  A source of slices: it hands out fresh slices of buffers nobody holds, leaves the bytes
  of held buffers alone, takes a buffer back when its header says it is in use, and does
  not mind what the holder of a buffer writes into it.
\<close>

locale buffer_source =
  fixes alloc_one :: "mem \<Rightarrow> u32 \<Rightarrow> mem \<times> buffer_slice result"
    and alloc_many :: "mem \<Rightarrow> slice_list \<Rightarrow> u32 \<Rightarrow> (mem \<times> slice_list \<times> int) option"
    and take_back :: "mem \<Rightarrow> buffer_slice \<Rightarrow> mem"
    and owned :: "mem \<Rightarrow> 'h list \<Rightarrow> bool"
    and ar :: "'h \<Rightarrow> nat set"
    and nm :: "buffer_slice \<Rightarrow> 'h \<Rightarrow> bool"
  assumes alloc_one_ok: "owned m held \<Longrightarrow> alloc_one m n = (m', Inr s) \<Longrightarrow>
      unat n \<le> unat (bs_cap s) \<and> (\<exists>h. grants owned ar nm m held m' [s] [h])"
    and alloc_one_fail: "owned m held \<Longrightarrow> alloc_one m n = (m', Inl err) \<Longrightarrow> m' = m"
    and alloc_many_ok: "owned m held \<Longrightarrow> \<exists>m' ss hs.
      alloc_many m sl n = Some (m', foldl push_back sl ss, cap_sum ss)
      \<and> grants owned ar nm m held m' ss hs \<and> frugal ss (int (unat n))"
    and take_back_ok: "owned m held \<Longrightarrow> h \<in> set held \<Longrightarrow> nm s h \<Longrightarrow>
      bs_buffer_header s = Some p \<Longrightarrow> is_in_used m p \<Longrightarrow> owned (take_back m s) (remove1 h held)"
    and take_back_frame: "owned m held \<Longrightarrow> h \<in> set held \<Longrightarrow> nm s h \<Longrightarrow>
      g \<in> set held \<Longrightarrow> g \<noteq> h \<Longrightarrow> x \<in> ar g \<Longrightarrow> take_back m s x = m x"
    and owned_write: "owned m held \<Longrightarrow> h \<in> set held \<Longrightarrow> (\<And>x. m' x \<noteq> m x \<Longrightarrow> x \<in> ar h) \<Longrightarrow>
      owned m' held"
    and owned_perm: "owned m held \<Longrightarrow> mset held = mset held' \<Longrightarrow> owned m held'"
    and owned_distinct: "owned m held \<Longrightarrow> distinct held"
    and owned_disjoint: "owned m held \<Longrightarrow> h \<in> set held \<Longrightarrow> g \<in> set held \<Longrightarrow> h \<noteq> g \<Longrightarrow> ar h \<inter> ar g = {}"
    and nm_shape: "nm s h \<Longrightarrow> \<exists>p. bs_buffer_header s = Some p \<and> bs_data s = ShmData (p + 20)
      \<and> bs_is_from_shm s \<and> {p + 4 ..< p + 20 + unat (bs_cap s)} \<subseteq> ar h"
    and nm_fields: "nm s h \<Longrightarrow> bs_buffer_header s' = bs_buffer_header s \<Longrightarrow> bs_data s' = bs_data s \<Longrightarrow>
      bs_cap s' = bs_cap s \<Longrightarrow> bs_offset_in_shm s' = bs_offset_in_shm s \<Longrightarrow>
      bs_is_from_shm s' = bs_is_from_shm s \<Longrightarrow> nm s' h"

lemma grants_managed:
  "manages bm gs e \<Longrightarrow> grants (managed bm gs e) ar nm m held m' ss hs
     = grants (pool_inv gs e) ar nm m held m' ss hs"
  by (simp add: grants_def managed_def)

interpretation src: buffer_source "alloc_shm_buffer bm" "alloc_shm_buffers bm" "recycle_buffer bm"
  "managed bm gs e" "area gs" "names gs"
proof (unfold_locales, goal_cases)
  case (1 m held n m' s)
  then show ?case
    using alloc_from_ok [of gs e m held 0 gs n]
    by (auto simp: managed_def manages_def alloc_shm_buffer_def grants_managed [of bm gs e]
        split: if_splits)
next
  case (2 m held n m' err)
  then show ?case
    using alloc_from_ok [of gs e m held 0 gs n]
    by (auto simp: managed_def manages_def alloc_shm_buffer_def split: if_splits)
next
  case (3 m held sl n)
  then have man: "manages bm gs e" and inv: "pool_inv gs e m held" by (simp_all add: managed_def)
  have "\<forall>g \<in> set (rev gs). \<exists>i < length gs. g = gs ! i" by (auto simp: in_set_conv_nth)
  from alloc_lists_ok [OF inv this, of sl "int (unat n)" 0] man show ?case
    by (simp add: alloc_shm_buffers_def manages_def rev_map grants_managed [of bm gs e])
next
  case (4 m held h s p)
  then have "p = hdr_addr gs h" by (simp add: names_def is_slot_def hdr_addr_def)
  with 4 recycle_buffer_ok [OF 4(1-3)] pool_recycle(1) [of gs e m held h s] show ?case
    by (simp add: managed_def)
next
  case (5 m held h s g x)
  show ?case
  proof (cases "is_in_used m (hdr_addr gs h)")
    case True
    have "g \<in> set (remove1 h held)" using 5 by (simp add: in_set_remove1)
    with 5 recycle_buffer_ok [OF 5(1-3) True] pool_recycle(2) [of gs e m held h s g x] show ?thesis
      by (simp add: managed_def)
  next
    case False
    with 5(3) show ?thesis by (simp add: recycle_buffer_def names_def is_slot_def hdr_addr_def)
  qed
next
  case (6 m held h m')
  then show ?case using pool_inv_write [of gs e m held h m'] by (simp add: managed_def)
next
  case (7 m held held')
  then show ?case using pool_inv_perm [of gs e m held held'] by (simp add: managed_def)
next
  case (8 m held)
  then show ?case using pool_held_distinct [of gs e m held] by (simp add: managed_def)
next
  case (9 m held h g)
  then show ?case using area_disjoint [of gs e m held h g] by (simp add: managed_def)
next
  case (10 s h)
  then show ?case
    by (auto simp: names_def is_slot_def area_def private_area_def unit_size_def)
next
  case (11 s h s')
  then show ?case by (simp add: names_def is_slot_def)
qed

end
