(* ===== verification/Buffer_Setup.thy ===== *)
theory Buffer_Setup
  imports Buffer_Manager
begin

text \<open>
  Setting up a buffer manager: what \<open>BufferManager::create\<close> makes of the size and percent
  pairs, that the peer's \<open>BufferManager::mapping\<close> of the same memory finds the same
  lists, and the factory functions \<open>get_with_memfd\<close>, \<open>get_with_file\<close> and
  \<open>add_global_buffer_manager_ref_count\<close> over the process-wide registry.
\<close>

section \<open>The lists of a created manager\<close>

definition bnum :: "nat \<Rightarrow> size_percent_pair \<Rightarrow> nat" where
  "bnum region_cap p = region_cap * unat (spp_percent p) div 100 div (unat (spp_size p) + 20)"

fun specs_for :: "nat \<Rightarrow> u32 \<Rightarrow> size_percent_pair list \<Rightarrow> list_spec list" where
  "specs_for region_cap used [] = []"
| "specs_for region_cap used (p # ps) =
     (let n = (of_nat (bnum region_cap p) :: u32)
      in \<lparr>ls_off = used, ls_num = n, ls_cap = spp_size p\<rparr>
           # specs_for region_cap (used + count_buffer_list_mem_size n (spp_size p)) ps)"

definition need :: "nat \<Rightarrow> size_percent_pair list \<Rightarrow> nat" where
  "need region_cap ps = sum_list (map (\<lambda>p. 36 + bnum region_cap p * (unat (spp_size p) + 20)) ps)"

definition percents :: "size_percent_pair list \<Rightarrow> nat" where
  "percents ps = sum_list (map (\<lambda>p. unat (spp_percent p)) ps)"

lemma need_simps [simp]:
  "need r [] = 0" "need r (p # ps) = 36 + bnum r p * (unat (spp_size p) + 20) + need r ps"
  by (simp_all add: need_def)

lemma percents_simps [simp]:
  "percents [] = 0" "percents (p # ps) = unat (spp_percent p) + percents ps"
  by (simp_all add: percents_def)

text \<open>The lists fit: what the percentages give never exceeds the region.\<close>

lemma need_le:
  "need r ps \<le> 36 * length ps + r * percents ps div 100"
proof (induction ps)
  case (Cons p ps)
  have "bnum r p * (unat (spp_size p) + 20) \<le> r * unat (spp_percent p) div 100"
    unfolding bnum_def by (rule div_times_less_eq_dividend)
  moreover have "r * unat (spp_percent p) div 100 + r * percents ps div 100
      \<le> (r * unat (spp_percent p) + r * percents ps) div 100"
    using div_add1_eq [of "r * unat (spp_percent p)" "r * percents ps" 100] by linarith
  moreover have "r * unat (spp_percent p) + r * percents ps = r * percents (p # ps)"
    by (simp add: distrib_left)
  ultimately show ?case using Cons by simp
qed simp

lemma bnum_word:
  assumes r: "r < 4294967296" and pct: "unat (spp_percent p) \<le> 100"
  shows "(ucast ((of_nat r :: u64) * ucast (spp_percent p) div 100
      div (ucast (spp_size p) + ucast kBufferHeaderSize)) :: u32) = of_nat (bnum r p)"
proof -
  have "r * unat (spp_percent p) \<le> r * 100" using pct by (rule mult_le_mono2)
  also have "r * 100 < 18446744073709551616" using r by simp
  finally have b: "r * unat (spp_percent p) < 18446744073709551616" .
  have r64: "unat (of_nat r :: u64) = r" using r by (simp add: unat_of_nat_u64)
  have m: "unat ((of_nat r :: u64) * ucast (spp_percent p)) = r * unat (spp_percent p)"
    using b by (subst unat_mult_u64) (simp_all add: r64)
  have s: "unat (ucast (spp_size p) + 20 :: u64) = unat (spp_size p) + 20"
    using less_trans [OF unat_u32_less [of "spp_size p"], of "18446744073709551596"]
    by (subst unat_add_u64) simp_all
  define w where "w = (of_nat r :: u64) * ucast (spp_percent p)"
  define v where "v = (ucast (spp_size p) + 20 :: u64)"
  have "unat (w div 100 div v) = bnum r p"
    using m s unfolding w_def [symmetric] v_def [symmetric] by (simp add: unat_div bnum_def)
  then have "(ucast (w div 100 div v) :: u32) = of_nat (bnum r p)"
    by (simp only: ucast_unat)
  then show ?thesis by (simp add: w_def v_def)
qed

definition all_free :: "list_spec list \<Rightarrow> nat list list" where
  "all_free gs = map (\<lambda>g. [0 ..< unat (ls_num g)]) gs"

lemma specs_inv_outside:
  assumes "laid_out u gs e" "specs_inv gs m kss" "\<And>x. u \<le> x \<Longrightarrow> x < e \<Longrightarrow> m' x = m x"
  shows "specs_inv gs m' kss"
  unfolding specs_inv_def
proof (intro conjI allI impI)
  show "length kss = length gs" using assms(2) by (simp add: specs_inv_def)
  fix i assume i: "i < length gs"
  with assms(2) have "free_inv (ls_off (gs ! i)) (ls_num (gs ! i)) (ls_cap (gs ! i)) m (kss ! i)"
    by (simp add: specs_inv_def)
  then show "free_inv (ls_off (gs ! i)) (ls_num (gs ! i)) (ls_cap (gs ! i)) m' (kss ! i)"
    by (rule free_inv_region)
      (use laid_out_nth [OF assms(1) i] in \<open>auto intro!: assms(3) simp: spec_end_def\<close>)
qed

lemma specs_inv_Cons:
  assumes "free_inv (ls_off g) (ls_num g) (ls_cap g) m ks" "specs_inv gs m kss"
  shows "specs_inv (g # gs) m (ks # kss)"
  using assms by (auto simp: specs_inv_def nth_Cons split: nat.splits)

lemma create_lists_ok:
  assumes "r < 4294967296" "mem_len < 4294967296" "unat tot + percents ps \<le> 100"
    and "unat used + need r ps \<le> mem_len"
    and "\<forall>p \<in> set ps. 0 < unat (spp_size p) \<and> 0 < bnum r p"
  shows "\<exists>m'. create_lists (of_nat r) mem_len m used tot ps
      = (m', Inr (map spec_list (specs_for r used ps), of_nat (unat used + need r ps)))
    \<and> laid_out (unat used) (specs_for r used ps) (unat used + need r ps)
    \<and> specs_inv (specs_for r used ps) m' (all_free (specs_for r used ps))
    \<and> (\<forall>x < unat used. m' x = m x)"
  using assms
proof (induction ps arbitrary: m used tot)
  case Nil
  then show ?case by (auto simp: specs_inv_def all_free_def)
next
  case (Cons p ps)
  let ?n = "of_nat (bnum r p) :: u32" and ?c = "spp_size p"
  let ?g = "\<lparr>ls_off = used, ls_num = ?n, ls_cap = ?c\<rparr>"
  have fit: "unat used + 36 + bnum r p * unit_size ?c + need r ps \<le> mem_len"
    using Cons.prems(4) by (simp add: unit_size_def)
  have "bnum r p \<le> bnum r p * unit_size ?c" by (simp add: unit_size_def)
  then have bn: "unat ?n = bnum r p" using fit Cons.prems(2) by (intro unat_of_nat_u32) linarith
  have g: "geometry used ?n ?c"
    using fit Cons.prems(2,5) by (auto simp: geometry_def bn)
  have e: "list_end used ?n ?c = unat used + 36 + bnum r p * unit_size ?c"
    by (simp add: list_end_def bn)
  let ?used = "used + count_buffer_list_mem_size ?n ?c"
  have used: "unat ?used = list_end used ?n ?c"
    using geometry_region_end(1) [OF g] by (simp add: count_buffer_list_mem_size_def)
  have tot: "unat (tot + spp_percent p) = unat tot + unat (spp_percent p)"
    using Cons.prems(3) by (intro unat_add_u32) simp
  then have nt: "\<not> tot + spp_percent p > 100"
    using Cons.prems(3) by (simp add: word_less_nat_alt)
  obtain m1 where c: "list_create ?n ?c m mem_len used = (m1, Inr (the_list used ?n ?c))"
    and f: "free_inv used ?n ?c m1 [0 ..< unat ?n]"
    and fr: "\<forall>x. x < unat used \<or> list_end used ?n ?c \<le> x \<longrightarrow> m1 x = m x"
    using list_create_ok [OF g, of mem_len m] fit e Cons.prems(2) by auto
  obtain m2 where r: "create_lists (of_nat r) mem_len m1 ?used (tot + spp_percent p) ps
      = (m2, Inr (map spec_list (specs_for r ?used ps), of_nat (unat ?used + need r ps)))"
    and lay: "laid_out (unat ?used) (specs_for r ?used ps) (unat ?used + need r ps)"
    and inv: "specs_inv (specs_for r ?used ps) m2 (all_free (specs_for r ?used ps))"
    and fr2: "\<forall>x < unat ?used. m2 x = m1 x"
    using Cons.IH [of "tot + spp_percent p" ?used m1] Cons.prems fit tot used e by auto
  have w: "(ucast ((of_nat r :: u64) * ucast (spp_percent p) div 100
      div (ucast ?c + ucast kBufferHeaderSize)) :: u32) = ?n"
    using Cons.prems(1,3) by (intro bnum_word) simp_all
  have total: "unat ?used + need r ps = unat used + need r (p # ps)"
    using used e by (simp add: unit_size_def)
  have "create_lists (of_nat r) mem_len m used tot (p # ps)
      = (m2, Inr (map spec_list (specs_for r used (p # ps)), of_nat (unat used + need r (p # ps))))"
    using nt c r w total
    by (simp only: create_lists.simps Let_def specs_for.simps list.map if_False prod.case sum.case
        spec_list_def list_spec.simps)
  moreover have "laid_out (unat used) (specs_for r used (p # ps)) (unat used + need r (p # ps))"
    using lay g used total by (simp add: Let_def spec_end_def add.assoc)
  moreover have "free_inv used ?n ?c m2 [0 ..< unat ?n]"
    using f by (rule free_inv_region) (use fr2 used in auto)
  then have "specs_inv (specs_for r used (p # ps)) m2 (all_free (specs_for r used (p # ps)))"
    using inv specs_inv_Cons [of ?g m2 "[0 ..< unat ?n]"] by (simp add: Let_def all_free_def)
  moreover have "m2 x = m x" if "x < unat used" for x
    using that fr2 fr used e by simp
  ultimately show ?case by blast
qed

text \<open>The state of a freshly created manager, and the peer's view of it.\<close>

definition region_of :: "size_percent_pair list \<Rightarrow> nat \<Rightarrow> u32 \<Rightarrow> nat" where
  "region_of pairs mem_len offset = mem_len - unat offset - 36 * length pairs - 8"

definition creatable :: "size_percent_pair list \<Rightarrow> nat \<Rightarrow> u32 \<Rightarrow> bool" where
  "creatable pairs mem_len offset \<longleftrightarrow> pairs \<noteq> [] \<and> length pairs < 65536
     \<and> mem_len < 4294967296 \<and> unat offset + 36 * length pairs + 8 \<le> mem_len
     \<and> percents pairs \<le> 100
     \<and> (\<forall>p \<in> set pairs. 0 < unat (spp_size p) \<and> 0 < bnum (region_of pairs mem_len offset) p)"

definition created_specs :: "size_percent_pair list \<Rightarrow> nat \<Rightarrow> u32 \<Rightarrow> list_spec list" where
  "created_specs pairs mem_len offset =
     specs_for (region_of pairs mem_len offset) (kBufferManagerHeaderSize + offset) pairs"

lemma specs_for_shape:
  "length (specs_for r used ps) = length ps" "map ls_cap (specs_for r used ps) = map spp_size ps"
  by (induction ps arbitrary: used) (simp_all add: Let_def)

lemma creatable_offset:
  assumes "creatable pairs mem_len offset"
  shows "unat (8 + offset) = 8 + unat offset"
    "unat (8 + offset) + need (region_of pairs mem_len offset) pairs \<le> mem_len"
proof -
  have b: "unat offset + 36 * length pairs + 8 \<le> mem_len" "mem_len < 4294967296"
    using assms by (simp_all add: creatable_def)
  show u: "unat (8 + offset) = 8 + unat offset" using b by (subst unat_add_u32) simp_all
  let ?r = "region_of pairs mem_len offset"
  have "?r * percents pairs \<le> ?r * 100" using assms by (intro mult_le_mono2) (simp add: creatable_def)
  then have "?r * percents pairs div 100 \<le> ?r" by linarith
  with need_le [of ?r pairs] have "need ?r pairs \<le> 36 * length pairs + ?r" by linarith
  with b u show "unat (8 + offset) + need ?r pairs \<le> mem_len" by (simp add: region_of_def)
qed

lemma region_word:
  assumes "creatable pairs mem_len offset"
  shows "(of_nat mem_len :: u64) - ucast offset - ucast kBufferListHeaderSize * of_nat (length pairs)
      - ucast kBufferManagerHeaderSize = of_nat (region_of pairs mem_len offset)"
proof -
  have "mem_len = region_of pairs mem_len offset + unat offset + 36 * length pairs + 8"
    using assms by (simp add: creatable_def region_of_def)
  then have "(of_nat mem_len :: u64) = of_nat (region_of pairs mem_len offset + unat offset
      + 36 * length pairs + 8)" by simp
  also have "\<dots> = of_nat (region_of pairs mem_len offset) + ucast offset + 36 * of_nat (length pairs) + 8"
    by (simp add: ucast_unat)
  finally show ?thesis by simp
qed

lemma bm_create_shape:
  assumes c: "creatable pairs mem_len offset"
  defines "gs \<equiv> created_specs pairs mem_len offset"
  defines "e \<equiv> unat (8 + offset) + need (region_of pairs mem_len offset) pairs"
  shows "\<exists>m'. bm_create pairs path m mem_len offset = (m', Inr
      \<lparr>bm_lists = map spec_list gs, bm_mem_len = mem_len,
       bm_min_slice_size = spp_size (hd pairs), bm_max_slice_size = spp_size (last pairs),
       bm_ref_count = 1, bm_mem_map_type = KMemFd, bm_path = path, bm_memfd = 0\<rparr>)
    \<and> laid_out (unat (8 + offset)) gs e \<and> specs_inv gs m' (all_free gs) \<and> e \<le> mem_len
    \<and> load_u16 m' (unat offset) = of_nat (length pairs)
    \<and> load_u32 m' (unat offset + 4) = of_nat e - 8"
proof -
  let ?r = "region_of pairs mem_len offset"
  have len: "\<not> mem_len \<le> unat offset" "?r < 4294967296" "mem_len < 4294967296"
    using c by (auto simp: creatable_def region_of_def)
  define m1 where "m1 = store_u16 m (unat offset) (of_nat (length pairs))"
  note co = creatable_offset [OF c]
  obtain m2 where r: "create_lists (of_nat ?r) mem_len m1 (8 + offset) 0 pairs
      = (m2, Inr (map spec_list gs, of_nat e))"
    and lay: "laid_out (unat (8 + offset)) gs e" and inv: "specs_inv gs m2 (all_free gs)"
    and fr: "\<forall>x < unat (8 + offset). m2 x = m1 x"
    using create_lists_ok [OF len(2,3), of 0 pairs "8 + offset" m1] co c
    by (auto simp: creatable_def gs_def created_specs_def e_def)
  define m3 where "m3 = store_u32 m2 (unat offset + 4) (of_nat e - 8)"
  have "bm_create pairs path m mem_len offset = (m3, Inr
      \<lparr>bm_lists = map spec_list gs, bm_mem_len = mem_len,
       bm_min_slice_size = spp_size (hd pairs), bm_max_slice_size = spp_size (last pairs),
       bm_ref_count = 1, bm_mem_map_type = KMemFd, bm_path = path, bm_memfd = 0\<rparr>)"
    using len(1) r region_word [OF c]
    by (simp add: bm_create_def Let_def m1_def [symmetric] m3_def)
  moreover have "specs_inv gs m3 (all_free gs)"
    by (rule specs_inv_outside [OF lay inv]) (simp add: m3_def store_u32_other co)
  moreover have "load_u16 m3 (unat offset) = of_nat (length pairs)"
  proof -
    have "load_u16 m3 (unat offset) = load_u16 m1 (unat offset)"
      using fr co by (simp add: m3_def load_u16_def store_u32_other)
    then show ?thesis by (simp add: m1_def)
  qed
  moreover have "load_u32 m3 (unat offset + 4) = of_nat e - 8" by (simp add: m3_def)
  ultimately show ?thesis using lay co unfolding e_def by blast
qed

lemma word_eq_unat: "unat a = unat b \<Longrightarrow> a = (b :: u32)"
  by (metis word_of_nat_unat)

lemma mapping_lists_ok:
  assumes "laid_out u gs e" "specs_inv gs m kss" "e \<le> mem_len" "mem_len < 4294967296"
    and "unat (start + used) = u"
  shows "mapping_lists m mem_len start (length gs) used = Inr (map spec_list gs)"
  using assms(1,2,5)
proof (induction gs arbitrary: u used kss)
  case (Cons g gs)
  have off: "ls_off g = start + used" using Cons.prems by (intro word_eq_unat) simp
  have g: "geometry (ls_off g) (ls_num g) (ls_cap g)" and lay: "laid_out (spec_end g) gs e"
    using Cons.prems(1) by simp_all
  have inv0: "free_inv (ls_off g) (ls_num g) (ls_cap g) m (kss ! 0)"
    and inv: "specs_inv gs m (tl kss)"
    using Cons.prems(2) by (force simp: specs_inv_def nth_tl)+
  have "list_end (ls_off g) (ls_num g) (ls_cap g) \<le> mem_len"
    using laid_out_le [OF lay] assms(3) by (simp add: spec_end_def)
  from list_mapping_ok [OF g inv0 this]
  have l: "list_mapping m mem_len (start + used) = Inr (spec_list g)"
    by (simp add: spec_list_def off)
  have sz: "count_buffer_list_mem_size (cap_load m (spec_list g)) (cap_per_buffer m (spec_list g))
      = 36 + ls_num g * (ls_cap g + 20)"
    using inv0 by (simp add: count_buffer_list_mem_size_def cap_load_def cap_per_buffer_def
        spec_list_def free_inv_def)
  have "unat (start + (used + (36 + ls_num g * (ls_cap g + 20)))) = spec_end g"
    using geometry_region_end(1) [OF g] by (simp add: off spec_end_def add.assoc)
  from Cons.IH [OF lay inv this] l sz show ?case by (simp add: Let_def)
qed simp

lemma bm_mapping_ok:
  assumes c: "creatable pairs mem_len offset" and b: "bm_create pairs path m mem_len offset = (m', Inr bm)"
  shows "bm_mapping path m' mem_len offset = Inr bm"
proof -
  define gs where "gs = created_specs pairs mem_len offset"
  define e where "e = unat (8 + offset) + need (region_of pairs mem_len offset) pairs"
  note sh = bm_create_shape [OF c, of path m, folded gs_def e_def]
  have bm: "bm = \<lparr>bm_lists = map spec_list gs, bm_mem_len = mem_len,
       bm_min_slice_size = spp_size (hd pairs), bm_max_slice_size = spp_size (last pairs),
       bm_ref_count = 1, bm_mem_map_type = KMemFd, bm_path = path, bm_memfd = 0\<rparr>"
    and lay: "laid_out (unat (8 + offset)) gs e" and inv: "specs_inv gs m' (all_free gs)"
    and em: "e \<le> mem_len" and n: "load_u16 m' (unat offset) = of_nat (length pairs)"
    and u: "load_u32 m' (unat offset + 4) = of_nat e - 8"
    using sh b by auto
  have ml: "mem_len < 4294967296" "unat offset + 36 * length pairs + 8 \<le> mem_len" "pairs \<noteq> []"
    "length pairs < 65536"
    using c by (simp_all add: creatable_def)
  have lg: "length gs = length pairs" and caps: "map ls_cap gs = map spp_size pairs"
    by (simp_all add: gs_def created_specs_def specs_for_shape)
  have gne: "gs \<noteq> []" using ml(3) lg by auto
  have ln: "unat (of_nat (length pairs) :: u16) = length pairs"
    using ml(4) by (simp add: unat_of_nat)
  have "unat (8 + (of_nat e - 8) :: u32) \<le> mem_len"
    using em ml(1) by (simp add: unat_of_nat_u32)
  moreover have "(of_nat (length pairs) :: u16) \<noteq> 0" using ln ml(3) by (metis length_0_conv unat_0)
  moreover have "mapping_lists m' mem_len offset (length pairs) 8 = Inr (map spec_list gs)"
    using mapping_lists_ok [OF lay inv em ml(1), of offset 8] lg by (simp add: add.commute)
  moreover have "cap_per_buffer m' (hd (map spec_list gs)) = spp_size (hd pairs)"
    "cap_per_buffer m' (last (map spec_list gs)) = spp_size (last pairs)"
  proof -
    have cp: "cap_per_buffer m' (spec_list (gs ! i)) = ls_cap (gs ! i)" if "i < length gs" for i
      using inv that by (simp add: specs_inv_def free_inv_def cap_per_buffer_def spec_list_def)
    have "cap_per_buffer m' (spec_list (hd gs)) = ls_cap (hd gs)"
      "cap_per_buffer m' (spec_list (last gs)) = ls_cap (last gs)"
      using cp [of 0] cp [of "length gs - 1"] gne by (simp_all add: hd_conv_nth last_conv_nth)
    moreover have "ls_cap (hd gs) = spp_size (hd pairs)" "ls_cap (last gs) = spp_size (last pairs)"
      using caps gne ml(3) by (metis hd_map, metis last_map)
    ultimately show "cap_per_buffer m' (hd (map spec_list gs)) = spp_size (hd pairs)"
      "cap_per_buffer m' (last (map spec_list gs)) = spp_size (last pairs)"
      using gne by (simp_all add: hd_map last_map)
  qed
  ultimately show ?thesis
    using ml n u ln by (simp add: bm_mapping_def Let_def bm)
qed

lemma bm_create_managed:
  assumes c: "creatable pairs mem_len offset" and d: "distinct (map spp_size pairs)"
    and b: "bm_create pairs path m mem_len offset = (m', Inr bm)"
  defines "gs \<equiv> created_specs pairs mem_len offset"
  shows "managed bm gs mem_len m' []"
proof -
  note sh = bm_create_shape [OF c, of path m, folded gs_def]
  have lg: "length gs = length pairs" and caps: "map ls_cap gs = map spp_size pairs"
    by (simp_all add: gs_def created_specs_def specs_for_shape)
  have gne: "gs \<noteq> []" using c lg by (auto simp: creatable_def)
  have "ls_cap (last gs) = spp_size (last pairs)"
    using caps gne c by (metis creatable_def last_map)
  moreover have "pool_inv gs mem_len m' []"
  proof -
    have "laid_out u gs e \<Longrightarrow> e \<le> e' \<Longrightarrow> laid_out u gs e'" for u e e'
      by (induction gs arbitrary: u) auto
    with sh b obtain u where "laid_out u gs mem_len" "specs_inv gs m' (all_free gs)" by auto
    then show ?thesis unfolding pool_inv_def
      by (intro exI [of _ u] exI [of _ "all_free gs"]) (simp add: all_free_def)
  qed
  ultimately show ?thesis
    using sh b d caps gne c by (auto simp: managed_def manages_def creatable_def)
qed

section \<open>The registry and the factory functions\<close>

text \<open>
  The process-wide table of managers by path. A factory function gets the memory the new
  mapping would show; it returns the events, the table, the pairs (which \<open>std::sort\<close>
  reorders in place), the memory and the manager.
\<close>

type_synonym registry = "string \<Rightarrow> buffer_manager option"

definition emplace :: "registry \<Rightarrow> string \<Rightarrow> buffer_manager \<Rightarrow> registry" where
  "emplace reg path bm = (if reg path = None then reg(path \<mapsto> bm) else reg)"

text \<open>\<open>std::sort\<close> by size; it leaves open the order of pairs of one size, which this sort keeps.\<close>

definition sort_pairs :: "size_percent_pair list \<Rightarrow> size_percent_pair list" where
  "sort_pairs ps = sort_key (\<lambda>p. unat (spp_size p)) ps"

definition create_or_map ::
  "bool \<Rightarrow> size_percent_pair list \<Rightarrow> string \<Rightarrow> mem \<Rightarrow> u32
     \<Rightarrow> size_percent_pair list \<times> mem \<times> buffer_manager result" where
  "create_or_map create pairs path m capacity =
     (if create
      then let ps = sort_pairs pairs; r = bm_create ps path m (unat capacity) 0
           in (ps, fst r, snd r)
      else (pairs, m, bm_mapping path m (unat capacity) 0))"

definition msg_memfd_size :: "int \<Rightarrow> string" where
  "msg_memfd_size n = ''BufferManager get_with_memfd invalid share memory size: '' @ idec n"

definition memfd_source ::
  "os \<Rightarrow> string \<Rightarrow> int \<Rightarrow> u32 \<Rightarrow> bool \<Rightarrow> os_event list \<times> (int \<times> u32) result" where
  "memfd_source os path memfd capacity create =
     (if create
      then let fd = os_memfd_create os (''shmipc'' @ path) in
           if fd < 0
           then ([], Inl (other_error
                  (''BufferManager get_with_memfd memfd_create failed: '' @ os_strerror os)))
           else if os_ftruncate os fd (unat capacity) \<noteq> 0
           then ([EvOpen fd, EvClose fd], Inl (other_error
                  (''BufferManager get_with_memfd truncate share memory failed: ''
                     @ os_strerror os)))
           else ([EvOpen fd], Inr (fd, capacity))
      else case os_fstat os memfd of
             None \<Rightarrow> ([], Inl (other_error
                  (''BufferManager get_with_memfd mapping failed: '' @ os_strerror os)))
           | Some st_size \<Rightarrow>
               if st_size < 0 \<or> st_size > 0xFFFFFFFF
               then ([], Inl (other_error (msg_memfd_size st_size)))
               else ([], Inr (memfd, of_int st_size)))"

definition get_with_memfd ::
  "os \<Rightarrow> registry \<Rightarrow> string \<Rightarrow> int \<Rightarrow> u32 \<Rightarrow> bool \<Rightarrow> size_percent_pair list \<Rightarrow> mem
     \<Rightarrow> os_event list \<times> registry \<times> size_percent_pair list \<times> mem \<times> buffer_manager result" where
  "get_with_memfd os reg path memfd capacity create pairs m =
     (case reg path of
        Some bm \<Rightarrow>
          let bm' = bm\<lparr>bm_ref_count := bm_ref_count bm + 1\<rparr>
          in (if memfd > 0 \<and> \<not> create then [EvClose memfd] else [], reg(path \<mapsto> bm'), pairs, m,
              Inr bm')
      | None \<Rightarrow>
          (case memfd_source os path memfd capacity create of
             (evs, Inl e) \<Rightarrow> (evs, reg, pairs, m, Inl e)
           | (evs, Inr (fd, cap)) \<Rightarrow>
               if \<not> os_mmap_ok os fd (unat cap)
               then (evs @ (if \<not> create then [] else [EvClose fd]), reg, pairs, m,
                     Inl (other_error (''BufferManager get_with_memfd mmap failed: ''
                            @ message (from_errno os))))
               else
                 (case create_or_map create pairs path m cap of
                    (ps, m1, Inl e) \<Rightarrow>
                      (evs @ [EvMap fd (unat cap), EvUnmap], reg, ps, m1, Inl e)
                  | (ps, m1, Inr bm) \<Rightarrow>
                      let bm' = bm\<lparr>bm_memfd := fd, bm_mem_map_type := KMemFd\<rparr>
                      in (evs @ [EvMap fd (unat cap)], emplace reg path bm', ps, m1, Inr bm'))))"

definition msg_file_size :: "int \<Rightarrow> string" where
  "msg_file_size n = ''get_global_buffer_manager invalid share memory size: '' @ idec n"

definition file_source ::
  "os \<Rightarrow> string \<Rightarrow> u32 \<Rightarrow> bool \<Rightarrow> os_event list \<times> (int \<times> u32) result" where
  "file_source os path capacity create =
     (if create
      then if \<not> can_create_on_dev_shm os (ucast capacity) path
           then ([], Inl (other_error ''get_global_buffer_manager can not create on dev shm''))
           else
             let fd = os_open_create os path in
             if fd < 0 then ([], Inl (from_errno os))
             else if os_fchmod os fd \<noteq> 0 \<or> os_ftruncate os fd (unat capacity) \<noteq> 0
             then ([EvOpen fd, EvClose fd], Inl (from_errno os))
             else ([EvOpen fd], Inr (fd, capacity))
      else
        let fd = os_open os path in
        if fd < 0 then ([], Inl (from_errno os))
        else case os_fstat os fd of
               None \<Rightarrow> ([EvOpen fd, EvClose fd], Inl (other_error
                 (''get_global_buffer_manager mapping failed, '' @ os_strerror os)))
             | Some st_size \<Rightarrow>
                 if st_size < 0 \<or> st_size > 0xFFFFFFFF
                 then ([EvOpen fd, EvClose fd], Inl (other_error (msg_file_size st_size)))
                 else ([EvOpen fd], Inr (fd, of_int st_size)))"

definition get_with_file ::
  "os \<Rightarrow> registry \<Rightarrow> string \<Rightarrow> u32 \<Rightarrow> bool \<Rightarrow> size_percent_pair list \<Rightarrow> mem
     \<Rightarrow> os_event list \<times> registry \<times> size_percent_pair list \<times> mem \<times> buffer_manager result" where
  "get_with_file os reg path capacity create pairs m =
     (case reg path of
        Some bm \<Rightarrow>
          let bm' = bm\<lparr>bm_ref_count := bm_ref_count bm + 1\<rparr>
          in ([], reg(path \<mapsto> bm'), pairs, m, Inr bm')
      | None \<Rightarrow>
          let pre = [EvMkdirs (parent_dir path), EvChmod path] in
          (case file_source os path capacity create of
             (evs, Inl e) \<Rightarrow> (pre @ evs, reg, pairs, m, Inl e)
           | (evs, Inr (fd, cap)) \<Rightarrow>
               if \<not> os_mmap_ok os fd (unat cap)
               then (pre @ evs @ [EvClose fd], reg, pairs, m, Inl (from_errno os))
               else
                 let evs' = pre @ evs @ [EvMap fd (unat cap), EvClose fd] in
                 (case create_or_map create pairs path m cap of
                    (ps, m1, Inl e) \<Rightarrow> (evs' @ [EvUnmap], reg, ps, m1, Inl e)
                  | (ps, m1, Inr bm) \<Rightarrow>
                      let bm' = bm\<lparr>bm_mem_map_type := KDevShmFile\<rparr>
                      in (evs', emplace reg path bm', ps, m1, Inr bm'))))"

definition add_global_buffer_manager_ref_count ::
  "registry \<Rightarrow> string \<Rightarrow> u32 \<Rightarrow> os_event list \<times> registry" where
  "add_global_buffer_manager_ref_count reg path c =
     (case reg path of
        None \<Rightarrow> ([], reg)
      | Some bm \<Rightarrow>
          let reg1 = reg(path := None);
              old = bm_ref_count bm;
              bm' = bm\<lparr>bm_ref_count := old + c\<rparr>
          in if sint (old + c) \<le> 0 then (snd (bm_unmap bm'), reg1)
             else ([], emplace reg1 path bm'))"

section \<open>Runs of a manager\<close>

text \<open>
  The buffers of a manager as its users see them: a run allocates, recycles held slices and
  uses them as their holders do, and every operation runs the code of the manager.
\<close>

datatype bm_op = Alloc u32 | Recycle nat | Hold nat slice_use

fun bm_do :: "buffer_manager \<Rightarrow> bm_op \<Rightarrow> mem \<times> buffer_slice list \<Rightarrow> mem \<times> buffer_slice list" where
  "bm_do bm (Alloc n) (m, held) =
     (case alloc_shm_buffer bm m n of (m', Inr s) \<Rightarrow> (m', held @ [s]) | (m', Inl e) \<Rightarrow> (m', held))"
| "bm_do bm (Recycle i) (m, held) =
     (if i < length held then (recycle_buffer bm m (held ! i), take i held @ drop (Suc i) held) else (m, held))"
| "bm_do bm (Hold i u) (m, held) =
     (if i < length held then let (m', s) = use_slice u m (held ! i) in (m', held[i := s]) else (m, held))"

definition bm_run :: "buffer_manager \<Rightarrow> bm_op list \<Rightarrow> mem \<Rightarrow> mem \<times> buffer_slice list" where
  "bm_run bm ops m = fold (bm_do bm) ops (m, [])"

lemma bm_run_snoc: "bm_run bm (ops @ [p]) m = bm_do bm p (bm_run bm ops m)"
  by (simp add: bm_run_def)

text \<open>What holds between the operations: every held slice stands for a buffer whose in-use flag is set.\<close>

definition users_ok ::
  "buffer_manager \<Rightarrow> list_spec list \<Rightarrow> nat \<Rightarrow> mem \<times> buffer_slice list \<Rightarrow> (nat \<times> nat) list \<Rightarrow> bool" where
  "users_ok bm gs e st hs \<longleftrightarrow> managed bm gs e (fst st) hs \<and> list_all2 (names gs) (snd st) hs
     \<and> (\<forall>h \<in> set hs. is_in_used (fst st) (hdr_addr gs h))"

lemma hdr_flag_area: "hdr_addr gs h + 16 \<in> area gs h"
  by (simp add: hdr_addr_def area_def private_area_def unit_size_def)

lemma is_in_used_cong: "m' (p + 16) = m (p + 16) \<Longrightarrow> is_in_used m' p = is_in_used m p"
  by (simp add: is_in_used_def)

lemma names_handle:
  "names gs s h \<longleftrightarrow> fst h < length gs \<and> bs_is_from_shm s
     \<and> is_handle (ls_off (gs ! fst h)) (ls_num (gs ! fst h)) (ls_cap (gs ! fst h)) s (snd h)"
  by (auto simp: names_def is_handle_def)

lemma use_slice_keeps_used:
  assumes "bs_buffer_header s = Some p" "bs_data s = ShmData (p + 20)" "use_slice u m s = (m', s')"
    "is_in_used m p"
  shows "is_in_used m' p"
proof (cases u)
  case (Put_byte x v)
  with assms show ?thesis by (auto simp: is_in_used_def holder_may_write_def split: if_splits)
next
  case (Link_to nxt)
  have "(b OR 1) AND 2 = b AND (2 :: u8)" for b :: u8 by (simp add: bit.conj_disj_distrib2)
  with Link_to assms show ?thesis by (auto simp: is_in_used_def link_next_def Let_def store_u32_other)
qed (use assms in auto)

lemma users_okD:
  assumes "users_ok bm gs e (m, held) hs"
  shows "managed bm gs e m hs" "list_all2 (names gs) held hs" "length held = length hs"
    "h \<in> set hs \<Longrightarrow> is_in_used m (hdr_addr gs h)"
  using assms by (auto simp: users_ok_def dest: list_all2_lengthD)

lemma users_nth:
  assumes "users_ok bm gs e (m, held) hs" "i < length held"
  shows "hs ! i \<in> set hs" "names gs (held ! i) (hs ! i)" "i < length hs"
    "bs_buffer_header (held ! i) = Some (hdr_addr gs (hs ! i))"
    "bs_data (held ! i) = ShmData (hdr_addr gs (hs ! i) + 20)"
proof -
  show i: "hs ! i \<in> set hs" "i < length hs" using assms users_okD(3) [OF assms(1)] by auto
  show "names gs (held ! i) (hs ! i)"
    using users_okD(2) [OF assms(1)] assms(2) by (rule list_all2_nthD)
  then show "bs_buffer_header (held ! i) = Some (hdr_addr gs (hs ! i))"
    "bs_data (held ! i) = ShmData (hdr_addr gs (hs ! i) + 20)"
    by (simp_all add: names_def is_slot_def hdr_addr_def)
qed

text \<open>A flag keeps its value when the byte of the flag does.\<close>

lemma users_frame:
  assumes ok: "users_ok bm gs e (m, held) hs" and h: "h \<in> set hs"
    and fr: "\<And>x. x \<in> area gs h \<Longrightarrow> m' x = m x"
  shows "is_in_used m' (hdr_addr gs h)"
  using users_okD(4) [OF ok h] fr [OF hdr_flag_area] is_in_used_cong [of m' "hdr_addr gs h" m] by simp

lemma users_alloc:
  assumes ok: "users_ok bm gs e (m, held) hs" and a: "alloc_shm_buffer bm m n = (m', Inr s)"
  shows "\<exists>hs'. users_ok bm gs e (m', held @ [s]) hs'"
proof -
  obtain h where g: "grants (managed bm gs e) (area gs) (names gs) m hs m' [s] [h]"
    using src.alloc_one_ok [OF users_okD(1) [OF ok] a] by auto
  have s: "names gs s h" "header_used m' s" and man: "managed bm gs e m' (h # hs)"
    using g by (simp_all add: grants_def)
  have "is_in_used m' (hdr_addr gs h')" if "h' \<in> set hs" for h'
    by (rule users_frame [OF ok that]) (rule grants_frame [OF g that])
  moreover have "is_in_used m' (hdr_addr gs h)"
    using s by (simp add: header_used_def names_def is_slot_def hdr_addr_def)
  moreover have "managed bm gs e m' (hs @ [h])" by (rule src.owned_perm [OF man]) simp
  ultimately have "users_ok bm gs e (m', held @ [s]) (hs @ [h])"
    using users_okD(2) [OF ok] s(1) by (simp add: users_ok_def list_all2_appendI)
  then show ?thesis ..
qed

lemma users_recycle:
  assumes ok: "users_ok bm gs e (m, held) hs" and i: "i < length held"
  shows "users_ok bm gs e (recycle_buffer bm m (held ! i), take i held @ drop (Suc i) held)
    (take i hs @ drop (Suc i) hs)"
proof -
  let ?h = "hs ! i" and ?hs = "take i hs @ drop (Suc i) hs" and ?m = "recycle_buffer bm m (held ! i)"
  note man = users_okD(1) [OF ok] and h = users_nth [OF ok i]
  have ms: "add_mset ?h (mset ?hs) = mset hs" by (rule mset_drop_nth [OF h(3)])
  have "managed bm gs e ?m (remove1 ?h hs)"
    by (rule src.take_back_ok [OF man h(1,2,4) users_okD(4) [OF ok h(1)]])
  moreover have "mset (remove1 ?h hs) = mset ?hs" by (simp add: ms [symmetric] del: mset_append)
  ultimately have man': "managed bm gs e ?m ?hs" by (rule src.owned_perm)
  have "mset (?h # ?hs) = mset hs" using ms by simp
  then have "distinct (?h # ?hs)" "set (?h # ?hs) = set hs"
    using src.owned_distinct [OF man] mset_eq_imp_distinct_iff mset_eq_setD by blast+
  then have g: "g \<noteq> ?h" "g \<in> set hs" if "g \<in> set ?hs" for g using that by auto
  have "is_in_used ?m (hdr_addr gs g)" if "g \<in> set ?hs" for g
    by (rule users_frame [OF ok g(2) [OF that]])
      (rule src.take_back_frame [OF man h(1,2) g(2) [OF that] g(1) [OF that]])
  with man' list_all2_drop_nth [OF users_okD(2) [OF ok]] show ?thesis by (simp add: users_ok_def)
qed

lemma users_hold:
  assumes ok: "users_ok bm gs e (m, held) hs" and i: "i < length held"
    and u: "use_slice u m (held ! i) = (m', s)"
  shows "users_ok bm gs e (m', held[i := s]) hs"
proof -
  let ?h = "hs ! i"
  note man = users_okD(1) [OF ok] and h = users_nth [OF ok i]
  have ih: "is_handle (ls_off (gs ! fst ?h)) (ls_num (gs ! fst ?h)) (ls_cap (gs ! fst ?h)) (held ! i) (snd ?h)"
    using h(2) by (simp add: names_handle)
  have fr: "\<And>x. m' x \<noteq> m x \<Longrightarrow> x \<in> area gs ?h" using use_slice_frame(2) [OF ih u] by (simp add: area_def)
  have "bs_is_from_shm s = bs_is_from_shm (held ! i)" using u by (cases u) auto
  with use_slice_frame(1) [OF ih u] h(2) have s: "names gs s ?h" by (simp add: names_handle)
  have "is_in_used m' (hdr_addr gs g)" if g: "g \<in> set hs" for g
  proof (cases "g = ?h")
    case True
    with use_slice_keeps_used [OF h(4,5) u users_okD(4) [OF ok h(1)]] show ?thesis by simp
  next
    case False
    have "m' x = m x" if "x \<in> area gs g" for x
      using fr [of x] src.owned_disjoint [OF man g h(1) False] that by blast
    then show ?thesis by (rule users_frame [OF ok g])
  qed
  with src.owned_write [OF man h(1) fr] list_all2_replace [OF users_okD(2) [OF ok] s] show ?thesis
    by (simp add: users_ok_def)
qed

lemma users_do:
  assumes ok: "users_ok bm gs e (m, held) hs"
  shows "\<exists>hs'. users_ok bm gs e (bm_do bm p (m, held)) hs'"
proof (cases p)
  case (Alloc n)
  obtain m' r where a: "alloc_shm_buffer bm m n = (m', r)" by fastforce
  show ?thesis
  proof (cases r)
    case (Inl err)
    with src.alloc_one_fail [OF users_okD(1) [OF ok], of n m' err] a Alloc ok show ?thesis by auto
  next
    case (Inr s)
    with users_alloc [OF ok, of n m' s] a Alloc show ?thesis by auto
  qed
next
  case (Recycle i)
  with users_recycle [OF ok, of i] ok show ?thesis by auto
next
  case (Hold i u)
  obtain m' s where "use_slice u m (held ! i) = (m', s)" by fastforce
  with users_hold [OF ok, of i u m' s] ok Hold show ?thesis by auto
qed

lemma users_run:
  "users_ok bm gs e st hs \<Longrightarrow> \<exists>hs'. users_ok bm gs e (fold (bm_do bm) ops st) hs'"
proof (induction ops arbitrary: st hs)
  case (Cons p ops)
  obtain m held where "st = (m, held)" by fastforce
  with users_do [of bm gs e m held hs p] Cons show ?case by (simp only: fold.simps comp_def) blast
qed auto

lemma check_buffer_returned_iff:
  assumes "managed bm gs e m held"
  shows "check_buffer_returned bm m \<longleftrightarrow> held = []"
proof -
  have bl: "bm_lists bm = map spec_list gs" and inv: "pool_inv gs e m held"
    using assms by (simp_all add: managed_def manages_def)
  obtain u kss where p: "laid_out u gs e" "specs_inv gs m kss" "\<forall>h \<in> set held. fst h < length gs"
    "\<forall>i < length gs. mset (kss ! i) + mset (held_in i held) = mset [0 ..< unat (ls_num (gs ! i))]"
    using inv by (rule pool_invE)
  have one: "(size_load m (spec_list (gs ! i)) = sint (cap_load m (spec_list (gs ! i)))
      \<and> counter_load m (spec_list (gs ! i)) = 0) \<longleftrightarrow> held_in i held = []" if i: "i < length gs" for i
  proof -
    let ?g = "gs ! i"
    note l = pool_list [OF p(1,2) i p(4) [rule_format, OF i]]
    have b: "unat (ls_num ?g) < 2147483648" using geometry_region(3) [OF l(1)] by simp
    have "load_u32 m (unat (ls_off ?g)) = of_nat (length (kss ! i))"
      "load_u32 m (unat (ls_off ?g) + 4) = ls_num ?g"
      "load_u32 m (unat (ls_off ?g) + 20) = of_nat (unat (ls_num ?g) - length (kss ! i))"
      using l(2) unfolding free_inv_def by blast+
    moreover have "unat (ls_num ?g) - length (kss ! i) = length (held_in i held)" using l(5) by simp
    ultimately have "size_load m (spec_list ?g) = int (length (kss ! i))"
      "sint (cap_load m (spec_list ?g)) = int (unat (ls_num ?g))"
      "counter_load m (spec_list ?g) = int (length (held_in i held))"
      using b l(5) by (simp_all add: size_load_def cap_load_def counter_load_def spec_list_def
          sint_of_nat_u32 sint_small_u32)
    with l(5) show ?thesis by auto
  qed
  have "check_buffer_returned bm m \<longleftrightarrow> (\<forall>i < length gs. held_in i held = [])"
    using one by (auto simp: check_buffer_returned_def bl list_all_length)
  also have "\<dots> \<longleftrightarrow> held = []"
  proof
    assume a: "\<forall>i < length gs. held_in i held = []"
    show "held = []"
    proof (rule ccontr)
      assume "held \<noteq> []"
      then obtain h where "h \<in> set held" by (meson last_in_set)
      with a p(3) have "held_in (fst h) held = []" by blast
      with \<open>h \<in> set held\<close> set_held_in [of "snd h" "fst h" held] show False by simp
    qed
  qed simp
  finally show ?thesis .
qed

lemma alloc_from_list:
  assumes inv: "pool_inv gs e m held" and i: "i < length gs" "n \<le> ls_cap (gs ! i)"
    and small: "\<forall>j < i. ls_cap (gs ! j) < n" and j: "j \<le> i"
  shows "alloc_from (map spec_list (drop j gs)) m n = list_pop (spec_list (gs ! i)) m"
  using j
proof (induction "i - j" arbitrary: j)
  case 0
  with i have "j = i" by simp
  with i pool_cap_per_buffer [OF inv i(1)] show ?case by (simp add: Cons_nth_drop_Suc [symmetric])
next
  case (Suc x)
  then have j: "j < length gs" "j < i" using i by auto
  with small have "\<not> n \<le> ls_cap (gs ! j)" by (simp add: not_le)
  with Suc pool_cap_per_buffer [OF inv j(1)] j show ?case
    by (simp add: Cons_nth_drop_Suc [symmetric])
qed

lemma alloc_succeeds_iff:
  assumes man: "managed bm gs e m held" and i: "i < length gs" "n \<le> ls_cap (gs ! i)"
    and small: "\<forall>j < i. ls_cap (gs ! j) < n" and mx: "n \<le> bm_max_slice_size bm"
  shows "(\<exists>m' s. alloc_shm_buffer bm m n = (m', Inr s))
    \<longleftrightarrow> Suc (length (held_in i held)) < unat (ls_num (gs ! i))"
proof -
  have inv: "pool_inv gs e m held" and bl: "bm_lists bm = map spec_list gs"
    using man by (simp_all add: managed_def manages_def)
  have a: "alloc_shm_buffer bm m n = list_pop (spec_list (gs ! i)) m"
    using alloc_from_list [OF inv i small, of 0] mx by (simp add: alloc_shm_buffer_def bl)
  obtain u kss where p: "laid_out u gs e" "specs_inv gs m kss"
    "\<forall>i < length gs. mset (kss ! i) + mset (held_in i held) = mset [0 ..< unat (ls_num (gs ! i))]"
    using inv by (rule pool_invE)
  note l = pool_list [OF p(1,2) i(1) p(3) [rule_format, OF i(1)]]
  show ?thesis
  proof (cases "Suc (length (held_in i held)) < unat (ls_num (gs ! i))")
    case True
    with l(5) have "2 \<le> length (kss ! i)" by linarith
    then obtain k k' ks where "kss ! i = k # k' # ks"
      by (metis Suc_le_length_iff numeral_2_eq_2)
    with l(2) list_pop_ok [OF l(1), of m k k' ks] a True show ?thesis by (auto simp: spec_list_def)
  next
    case False
    have "kss ! i \<noteq> []" using l(2) by (simp add: free_inv_def)
    with False l(5) obtain k where "kss ! i = [k]" by (cases "kss ! i"; cases "tl (kss ! i)") auto
    with l(2) list_pop_last [of _ _ _ m k] a False show ?thesis by (simp add: spec_list_def)
  qed
qed

lemma sint_eq_iff: "sint a = sint b \<longleftrightarrow> a = (b :: u32)"
  by (auto intro: signed_word_eqI)

lemma sint_minus_one: "0 < sint a \<Longrightarrow> sint (a - 1 :: u32) = sint a - 1"
  using sint_range_size [of a] by (simp add: sint_word_ariths signed_take_bit_int_eq_self word_size)

section \<open>Properties\<close>

text \<open>
  Property C16. For every set of size and percent pairs that fits the mapping, the client's
  \<open>create\<close> succeeds, and the server's \<open>mapping\<close> of the same bytes yields exactly the
  same manager: the same lists at the same addresses with the same slice sizes.
\<close>

theorem manager_create_then_mapping:
  assumes "creatable pairs mem_len offset"
  shows "\<exists>m' bm. bm_create pairs path m mem_len offset = (m', Inr bm)
    \<and> bm_mapping path m' mem_len offset = Inr bm
    \<and> map (cap_per_buffer m') (bm_lists bm) = map spp_size pairs"
proof -
  define gs where "gs = created_specs pairs mem_len offset"
  obtain m' bm where b: "bm_create pairs path m mem_len offset = (m', Inr bm)"
    and l: "bm_lists bm = map spec_list gs" and inv: "specs_inv gs m' (all_free gs)"
    using bm_create_shape [OF assms, of path m] by (auto simp: gs_def)
  have caps: "map ls_cap gs = map spp_size pairs"
    by (simp add: gs_def created_specs_def specs_for_shape)
  have "cap_per_buffer m' (spec_list (gs ! i)) = ls_cap (gs ! i)" if "i < length gs" for i
    using inv that by (simp add: specs_inv_def free_inv_def cap_per_buffer_def spec_list_def)
  then have "map (cap_per_buffer m') (bm_lists bm) = map ls_cap gs"
    by (intro nth_equalityI) (simp_all add: l)
  with b caps bm_mapping_ok [OF assms b] show ?thesis by auto
qed

definition sample_os :: os where
  "sample_os = \<lparr>os_memfd_create = \<lambda>_. 5, os_open = \<lambda>_. 6, os_open_create = \<lambda>_. 7,
     os_fchmod = \<lambda>_. 0, os_ftruncate = \<lambda>_ _. 0, os_fstat = \<lambda>_. Some 1000,
     os_mmap_ok = \<lambda>_ _. True, os_exists = \<lambda>_. False, os_statvfs = Some (4096, 4096),
     os_strerror = ''Bad file descriptor''\<rparr>"

definition sample_pairs :: "size_percent_pair list" where
  "sample_pairs = [\<lparr>spp_size = 16, spp_percent = 50\<rparr>, \<lparr>spp_size = 64, spp_percent = 50\<rparr>]"

lemma sample_creatable: "creatable sample_pairs 1000 0" "distinct (map spp_size sample_pairs)"
  by (simp_all add: creatable_def sample_pairs_def region_of_def bnum_def percents_def)

theorem manager_create_then_mapping_witness:
  "creatable sample_pairs 1000 0
   \<and> (\<exists>m' bm. bm_create sample_pairs ''p'' (\<lambda>_. 0) 1000 0 = (m', Inr bm)
      \<and> bm_mapping ''p'' m' 1000 0 = Inr bm)"
  using manager_create_then_mapping [OF sample_creatable(1), of "''p''" "\<lambda>_. 0"]
    sample_creatable(1)
  by blast

lemma sample_managed:
  obtains m0 bm where "bm_create sample_pairs ''p'' (\<lambda>_. 0) 1000 0 = (m0, Inr bm)"
    "managed bm (created_specs sample_pairs 1000 0) 1000 m0 []" "bm_max_slice_size bm = 64"
proof -
  obtain m0 bm where b: "bm_create sample_pairs ''p'' (\<lambda>_. 0) 1000 0 = (m0, Inr bm)"
    and "bm_max_slice_size bm = 64"
    using bm_create_shape [OF sample_creatable(1), of "''p''" "\<lambda>_. 0"] by (auto simp: sample_pairs_def)
  with that bm_create_managed [OF sample_creatable b] show thesis by blast
qed

lemma sample_spec0: "created_specs sample_pairs 1000 0 ! 0 = \<lparr>ls_off = 8, ls_num = 12, ls_cap = 16\<rparr>"
  "0 < length (created_specs sample_pairs 1000 0)"
  by (simp_all add: created_specs_def sample_pairs_def region_of_def bnum_def Let_def)

text \<open>
  Property C13. From creation on, through any sequence of allocations, recyclings of held
  slices and uses of held slices by their holders: every slice in the users' hands stands for a buffer of the manager;
  in each list, the buffers found by walking it from its head and the held ones together are all its
  buffers, each once, so none is handed out twice and none is lost; the bytes of two held buffers never overlap;
  and \<open>check_buffer_returned\<close> answers true exactly when nothing is held.
\<close>

theorem manager_runs_safely:
  assumes "creatable pairs mem_len offset" and "distinct (map spp_size pairs)"
    and "bm_create pairs path m mem_len offset = (m0, Inr bm)" and "bm_run bm ops m0 = (m', held)"
    and "gs = created_specs pairs mem_len offset"
  shows "\<exists>kss hs. list_all2 (names gs) held hs \<and> specs_inv gs m' kss
    \<and> (\<forall>i < length gs. mset (kss ! i) + mset (held_in i hs) = mset [0 ..< unat (ls_num (gs ! i))])
    \<and> distinct hs \<and> (\<forall>h \<in> set hs. \<forall>g \<in> set hs. h \<noteq> g \<longrightarrow> area gs h \<inter> area gs g = {})
    \<and> (check_buffer_returned bm m' \<longleftrightarrow> held = [])"
proof -
  have "users_ok bm gs mem_len (m0, []) []"
    using bm_create_managed [OF assms(1-3)] assms(5) by (simp add: users_ok_def)
  from users_run [OF this, of ops] obtain hs where ok: "users_ok bm gs mem_len (m', held) hs"
    using assms(4) by (auto simp: bm_run_def)
  note m = users_okD(1) [OF ok]
  have "hs = [] \<longleftrightarrow> held = []" using users_okD(3) [OF ok] by auto
  moreover obtain u kss where "specs_inv gs m' kss"
    "\<forall>i < length gs. mset (kss ! i) + mset (held_in i hs) = mset [0 ..< unat (ls_num (gs ! i))]"
    using m unfolding managed_def by (elim conjE pool_invE)
  ultimately show ?thesis
    using users_okD(2) [OF ok] src.owned_distinct [OF m] src.owned_disjoint [OF m]
      check_buffer_returned_iff [OF m]
    by blast
qed

theorem manager_runs_safely_witness:
  "\<exists>m0 bm m1 m2 s. bm_create sample_pairs ''p'' (\<lambda>_. 0) 1000 0 = (m0, Inr bm)
     \<and> bm_run bm [Alloc 10] m0 = (m1, [s]) \<and> bm_run bm [Alloc 10, Recycle 0] m0 = (m2, [])
     \<and> \<not> check_buffer_returned bm m1 \<and> check_buffer_returned bm m2
     \<and> (\<exists>h. names (created_specs sample_pairs 1000 0) s h)"
proof -
  let ?gs = "created_specs sample_pairs 1000 0"
  obtain m0 bm where b: "bm_create sample_pairs ''p'' (\<lambda>_. 0) 1000 0 = (m0, Inr bm)"
    and m: "managed bm ?gs 1000 m0 []" and x: "bm_max_slice_size bm = 64"
    by (rule sample_managed)
  obtain m1 s where "alloc_shm_buffer bm m0 10 = (m1, Inr s)"
    using alloc_succeeds_iff [OF m sample_spec0(2), of 10] x by (auto simp: sample_spec0)
  then have r: "bm_run bm [Alloc 10] m0 = (m1, [s])" by (simp add: bm_run_def)
  obtain m2 where r2: "bm_run bm [Alloc 10, Recycle 0] m0 = (m2, [])"
    using bm_run_snoc [of bm "[Alloc 10]" "Recycle 0" m0] r by simp
  note t = manager_runs_safely [OF sample_creatable b _ refl]
  have "\<exists>h. names ?gs s h" using t [OF r] by (auto simp: list_all2_Cons1)
  with b r r2 t [OF r] t [OF r2] show ?thesis by blast
qed

text \<open>
  An allocation that succeeds returns an empty slice at least as large as
  asked, of a buffer nobody held, and changes no byte of a held buffer.
\<close>

theorem alloc_shm_buffer_fresh:
  assumes "managed bm gs e m held" and "alloc_shm_buffer bm m n = (m', Inr s)"
  shows "unat n \<le> slice_capacity s \<and> fresh_slice s
    \<and> (\<exists>h. h \<notin> set held \<and> names gs s h \<and> managed bm gs e m' (h # held))
    \<and> (\<forall>g \<in> set held. \<forall>x \<in> area gs g. m' x = m x)"
proof -
  obtain h where n: "unat n \<le> unat (bs_cap s)"
    and g: "grants (managed bm gs e) (area gs) (names gs) m held m' [s] [h]"
    using src.alloc_one_ok [OF assms] by blast
  have inv: "managed bm gs e m' (h # held)" using g by (simp add: grants_def)
  have "h \<notin> set held" using src.owned_distinct [OF inv] by simp
  moreover have "names gs s h" "fresh_slice s" "\<forall>g \<in> set held. \<forall>x \<in> area gs g. m' x = m x"
    using g by (simp_all add: grants_def)
  ultimately show ?thesis using n inv unfolding slice_capacity_def by blast
qed

theorem alloc_shm_buffer_fresh_witness:
  "\<exists>bm m0 m' s. bm_create sample_pairs ''p'' (\<lambda>_. 0) 1000 0 = (m0, Inr bm)
     \<and> alloc_shm_buffer bm m0 10 = (m', Inr s) \<and> 10 \<le> slice_capacity s"
proof -
  obtain m0 bm where b: "bm_create sample_pairs ''p'' (\<lambda>_. 0) 1000 0 = (m0, Inr bm)"
    and m: "managed bm (created_specs sample_pairs 1000 0) 1000 m0 []" and x: "bm_max_slice_size bm = 64"
    by (rule sample_managed)
  obtain m' s where a: "alloc_shm_buffer bm m0 10 = (m', Inr s)"
    using alloc_succeeds_iff [OF m sample_spec0(2), of 10] x by (auto simp: sample_spec0)
  from alloc_shm_buffer_fresh [OF m a] a b show ?thesis by auto
qed

text \<open>
  \<open>get_with_file\<close> closes every file descriptor it opens, on success and on
  every error path.
\<close>

theorem get_with_file_closes_fds:
  "closed (fst (get_with_file os reg path capacity create pairs m))
     = opened (fst (get_with_file os reg path capacity create pairs m))"
  by (auto simp: get_with_file_def file_source_def Let_def split: option.splits sum.splits
      prod.splits)

text \<open>
  Property C22. \<open>get_with_memfd\<close> and \<open>get_with_file\<close> of a registered path return the registered manager
  with one more reference, and the table then has it so; they open nothing, map nothing and change neither
  memory nor pairs, and the only thing \<open>get_with_memfd\<close> does to the system is to close the
  received descriptor of a peer. A release of one of several references takes one off and keeps the manager
  registered and mapped; the release of the last one unmaps it and removes it from the table. No other path is touched.
\<close>

theorem registry_reference_counting:
  assumes "reg path = Some bm" and "0 < sint (bm_ref_count bm)"
  defines "gained \<equiv> bm\<lparr>bm_ref_count := bm_ref_count bm + 1\<rparr>"
    and "released \<equiv> bm\<lparr>bm_ref_count := bm_ref_count bm - 1\<rparr>"
  shows "get_with_file os reg path capacity create pairs m = ([], reg(path \<mapsto> gained), pairs, m, Inr gained)
    \<and> get_with_memfd os reg path fd capacity create pairs m
      = (if 0 < fd \<and> \<not> create then [EvClose fd] else [], reg(path \<mapsto> gained), pairs, m, Inr gained)
    \<and> (bm_ref_count bm \<noteq> 1 \<longrightarrow>
         add_global_buffer_manager_ref_count reg path (- 1) = ([], reg(path \<mapsto> released)))
    \<and> (bm_ref_count bm = 1 \<longrightarrow>
         EvUnmap \<in> set (fst (add_global_buffer_manager_ref_count reg path (- 1)))
         \<and> snd (add_global_buffer_manager_ref_count reg path (- 1)) = reg(path := None))"
proof -
  have "sint (bm_ref_count bm - 1) = sint (bm_ref_count bm) - 1" using assms(2) by (rule sint_minus_one)
  moreover have "sint (bm_ref_count bm) = 1 \<longleftrightarrow> bm_ref_count bm = 1"
    using sint_eq_iff [of "bm_ref_count bm" 1] by simp
  ultimately have "sint (bm_ref_count bm - 1) \<le> 0 \<longleftrightarrow> bm_ref_count bm = 1" using assms(2) by auto
  with assms show ?thesis
    by (auto simp: get_with_file_def get_with_memfd_def add_global_buffer_manager_ref_count_def
        Let_def bm_unmap_def emplace_def)
qed

theorem registry_reference_counting_witness:
  "\<exists>bm m0. bm_create sample_pairs ''p'' (\<lambda>_. 0) 1000 0 = (m0, Inr bm)
     \<and> snd (add_global_buffer_manager_ref_count [''p'' \<mapsto> bm] ''p'' (- 1)) ''p'' = None
     \<and> fst (snd (get_with_memfd sample_os [''p'' \<mapsto> bm] ''p'' 9 1000 False [] m0))
        = [''p'' \<mapsto> bm\<lparr>bm_ref_count := 2\<rparr>]"
proof -
  obtain m0 bm where b: "bm_create sample_pairs ''p'' (\<lambda>_. 0) 1000 0 = (m0, Inr bm)"
    and r: "bm_ref_count bm = 1"
    using bm_create_shape [OF sample_creatable(1), of "''p''" "\<lambda>_. 0"] by auto
  from registry_reference_counting [of "[''p'' \<mapsto> bm]" "''p''" bm sample_os 1000 False "[]" m0 9] b r
  show ?thesis by simp
qed

text \<open>
  \<open>get_with_memfd\<close> leaks its descriptor when the manager cannot be created:
  with a configuration \<open>create\<close> rejects, the memfd it made is opened and mapped, but
  never closed, although no manager owns it.
\<close>

theorem get_with_memfd_leaks_on_error:
  assumes "reg path = None" and "os_memfd_create os (''shmipc'' @ path) = fd" "0 \<le> fd"
    and "os_ftruncate os fd (unat capacity) = 0" and "os_mmap_ok os fd (unat capacity)"
    and "snd (bm_create (sort_pairs pairs) path m (unat capacity) 0) = Inl e"
  shows "opened (fst (get_with_memfd os reg path memfd capacity True pairs m)) = [fd]
    \<and> closed (fst (get_with_memfd os reg path memfd capacity True pairs m)) = []
    \<and> snd (snd (snd (snd (get_with_memfd os reg path memfd capacity True pairs m)))) = Inl e"
  using assms
  by (auto simp: get_with_memfd_def memfd_source_def create_or_map_def Let_def split: prod.splits)

theorem get_with_memfd_leaks_on_error_witness:
  "\<exists>e. snd (bm_create (sort_pairs [\<lparr>spp_size = 64, spp_percent = 101\<rparr>]) ''p'' (\<lambda>_. 0) 1000 0) = Inl e
    \<and> closed (fst (get_with_memfd sample_os (\<lambda>_. None) ''p'' (- 1) 1000 True
        [\<lparr>spp_size = 64, spp_percent = 101\<rparr>] (\<lambda>_. 0))) = []"
proof -
  have b: "snd (bm_create (sort_pairs [\<lparr>spp_size = 64, spp_percent = 101\<rparr>]) ''p'' (\<lambda>_. 0) (unat (1000 :: u32)) 0)
      = Inl (other_error ''the sum of all size_percent_pairs's percent must be equals 100'')"
    by (simp add: bm_create_def sort_pairs_def Let_def)
  show ?thesis
    using get_with_memfd_leaks_on_error [of "\<lambda>_. None" "''p''" sample_os 5 1000
        "[\<lparr>spp_size = 64, spp_percent = 101\<rparr>]" "\<lambda>_. 0", OF _ _ _ _ _ b] b
    by (simp add: sample_os_def)
qed

end
