(* ===== verification/Handshake.thy ===== *)
theory Handshake
  imports Protocol Queue_Manager Buffer_Setup
begin

text \<open>
  The handshake that sets up a session: \<open>src/protocol/initializer.cpp\<close>, \<open>adapter.cpp\<close>,
  \<open>protocol.cpp\<close> and the descriptor passing of \<open>block_io.cpp\<close>. A side of the handshake is a
  value of type \<open>io\<close>: a tree whose nodes are the blocking calls on the connection, each
  with a continuation for every result the call may have, so that every early return of the
  source is a branch. Two such trees run against each other over a pair of byte streams; the
  theorems say that every interleaving ends and that both sides then agree.
\<close>

section \<open>Programs that talk on the connection\<close>

text \<open>
  \<open>Undef\<close> stands for an uncaught exception or an access out of bounds. \<open>RecvBytes n\<close> is
  \<open>block_read_full\<close> and \<open>SendBytes\<close> is \<open>block_write_full\<close>; \<open>SockType\<close> is
  \<open>getsockopt(SO_TYPE)\<close>, true for a datagram socket; \<open>SendMsg\<close> and \<open>RecvMsg\<close> are
  \<open>sendmsg\<close> and \<open>recvmsg\<close> with a payload of the given number of bytes, where the receiver
  gets the descriptors of the \<open>SCM_RIGHTS\<close> message if there is one.
\<close>

datatype 'a io =
    Ret 'a
  | Undef
  | RecvBytes nat "bytes result \<Rightarrow> 'a io"
  | SendBytes bytes "unit result \<Rightarrow> 'a io"
  | SockType "bool result \<Rightarrow> 'a io"
  | SendMsg nat "int list" "unit result \<Rightarrow> 'a io"
  | RecvMsg nat "int list option result \<Rightarrow> 'a io"
  | Effect "os_event list" "'a io"

primrec bind_io :: "'a io \<Rightarrow> ('a \<Rightarrow> 'b io) \<Rightarrow> 'b io" where
  "bind_io (Ret x) f = f x"
| "bind_io Undef f = Undef"
| "bind_io (RecvBytes n k) f = RecvBytes n (\<lambda>r. bind_io (k r) f)"
| "bind_io (SendBytes bs k) f = SendBytes bs (\<lambda>r. bind_io (k r) f)"
| "bind_io (SockType k) f = SockType (\<lambda>r. bind_io (k r) f)"
| "bind_io (SendMsg n fds k) f = SendMsg n fds (\<lambda>r. bind_io (k r) f)"
| "bind_io (RecvMsg n k) f = RecvMsg n (\<lambda>r. bind_io (k r) f)"
| "bind_io (Effect evs p) f = Effect evs (bind_io p f)"

text \<open>Go on with the value, return the error.\<close>

definition try_io :: "'a result io \<Rightarrow> ('a \<Rightarrow> 'b result io) \<Rightarrow> 'b result io" where
  "try_io p f = bind_io p (\<lambda>r. case r of Inl e \<Rightarrow> Ret (Inl e) | Inr x \<Rightarrow> f x)"

section \<open>Descriptor passing\<close>

definition send_fd :: "int list \<Rightarrow> unit result io" where
  "send_fd fds =
     (if fds = [] then SendMsg 0 [] Ret
      else SockType (\<lambda>r. case r of
             Inl e \<Rightarrow> Ret (Inl e)
           | Inr dgram \<Rightarrow> SendMsg (if dgram then 0 else 1) fds Ret))"

definition block_read_out_of_bound_for_fd :: "int list result io" where
  "block_read_out_of_bound_for_fd =
     SockType (\<lambda>r. case r of
       Inl e \<Rightarrow> Ret (Inl e)
     | Inr dgram \<Rightarrow>
         RecvMsg (if dgram then 0 else 1) (\<lambda>r. case r of
           Inl e \<Rightarrow> Ret (Inl (io_error (''try recv fd from peer failed, reason:'' @ message e)))
         | Inr (Some fds) \<Rightarrow> Ret (Inr fds)
         | Inr None \<Rightarrow> Ret (Inl (other_error ''parse socket control message ret is nil''))))"

section \<open>Shared helpers\<close>

definition block_read_event_header :: "bytes result io" where
  "block_read_event_header =
     RecvBytes kHeaderSize (\<lambda>r. case r of
       Inl e \<Rightarrow> Ret (Inl e)
     | Inr h \<Rightarrow> (case check_event_valid h of Inl e \<Rightarrow> Ret (Inl e) | Inr _ \<Rightarrow> Ret (Inr h)))"

definition msg_expect :: "event_type \<Rightarrow> event_type \<Rightarrow> string" where
  "msg_expect t t' = take 159 (''expect event_type:'' @ dec (unat t) @ '' '' @ event_type_name t
     @ '', but:'' @ event_type_name t')"

definition wait_event_header :: "event_type \<Rightarrow> bytes result io" where
  "wait_event_header t =
     try_io block_read_event_header (\<lambda>h.
       if hdr_msg_type h \<noteq> t then Ret (Inl (other_error (msg_expect t (hdr_msg_type h))))
       else Ret (Inr h))"

definition handle_exchange_version :: "unit result io" where
  "handle_exchange_version = SendBytes (header_event kMaxSupportProtoVersion kExchangeProtoVersion) Ret"

text \<open>
  The process a side of the handshake runs in: its architecture, kernel and registry of
  buffer managers, and the memory behind each descriptor and file it may map.
\<close>

record host =
  h_arch :: arch
  h_os :: os
  h_registry :: registry
  h_fd_mem :: "int \<Rightarrow> mem"
  h_file_mem :: "string \<Rightarrow> mem"

record managers =
  mg_buffer_manager :: buffer_manager
  mg_queue_manager :: queue_manager

type_synonym init_result = "(registry \<times> managers option) result"

text \<open>A body length below the header's own size makes the vector's constructor throw.\<close>

definition handle_share_memory_by_memfd :: "host \<Rightarrow> bytes \<Rightarrow> u8 \<Rightarrow> init_result io" where
  "handle_share_memory_by_memfd hs h version =
     (if unat (hdr_length h) < kHeaderSize then Undef
      else RecvBytes (unat (hdr_length h) - kHeaderSize) (\<lambda>r. case r of
        Inl e \<Rightarrow> Ret (Inl (other_error (''read shm metadata failed, reason:'' @ message e)))
      | Inr body \<Rightarrow>
          (case extract_shm_metadata body of
             None \<Rightarrow> Undef
           | Some (buffer_path, qpath) \<Rightarrow>
               SendBytes (header_event version kAckReadyRecvFd) (\<lambda>r. case r of
                 Inl e \<Rightarrow> Ret (Inl (other_error
                   (''send ack TypeAckReadyRecvFD failed reason:'' @ message e)))
               | Inr _ \<Rightarrow>
                   try_io block_read_out_of_bound_for_fd (\<lambda>fds.
                     if length fds < kMemfdCount
                     then Ret (Inl (other_error ''the number of memfd received is wrong''))
                     else
                       let buffer_fd = fds ! 0; queue_fd = fds ! 1 in
                       (case mapping_with_memfd (h_arch hs) (h_os hs) qpath queue_fd
                               (h_fd_mem hs queue_fd) of
                          (evs, Inl e) \<Rightarrow> Effect evs (Ret (Inl e))
                        | (evs, Inr qm) \<Rightarrow>
                            (case get_with_memfd (h_os hs) (h_registry hs) buffer_path buffer_fd 0
                                    False [] (h_fd_mem hs buffer_fd) of
                               (evs', reg, ps, m, Inl e) \<Rightarrow>
                                 Effect (evs @ evs' @ qm_unmap qm) (Ret (Inl e))
                             | (evs', reg, ps, m, Inr bm) \<Rightarrow>
                                 Effect (evs @ evs') (Ret (Inr (reg, Some
                                   \<lparr>mg_buffer_manager = bm, mg_queue_manager = qm\<rparr>))))))))))"

definition msg_map_failed :: "string \<Rightarrow> string \<Rightarrow> string \<Rightarrow> error \<Rightarrow> string" where
  "msg_map_failed what lab path e = take 511 (''handle_share_memory_by_file_path '' @ what
     @ '' failed,'' @ lab @ dec (length path) @ '' path:'' @ path @ '' err='' @ message e)"

definition handle_share_memory_by_file_path :: "host \<Rightarrow> bytes \<Rightarrow> init_result io" where
  "handle_share_memory_by_file_path hs h =
     (if unat (hdr_length h) < kHeaderSize then Undef
      else RecvBytes (unat (hdr_length h) - kHeaderSize) (\<lambda>r. case r of
        Inl e \<Rightarrow> Ret (Inl e)
      | Inr body \<Rightarrow>
          (case extract_shm_metadata body of
             None \<Rightarrow> Undef
           | Some (buffer_path, qpath) \<Rightarrow>
               (case mapping_with_file (h_arch hs) (h_os hs) qpath (h_file_mem hs qpath) of
                  (evs, Inl e) \<Rightarrow> Effect evs (Ret (Inl (other_error
                    (msg_map_failed ''mappingQueueManager'' ''queuePathLen:'' qpath e))))
                | (evs, Inr qm) \<Rightarrow>
                    (case get_with_file (h_os hs) (h_registry hs) buffer_path 0 False []
                            (h_file_mem hs buffer_path) of
                       (evs', reg, ps, m, Inl e) \<Rightarrow>
                         Effect (evs @ evs' @ qm_unmap qm) (Ret (Inl (other_error
                           (msg_map_failed ''mapping_buffer_manager'' '' buffer_path_len:'' buffer_path e))))
                     | (evs', reg, ps, m, Inr bm) \<Rightarrow>
                         Effect (evs @ evs') (Ret (Inr (reg, Some
                           \<lparr>mg_buffer_manager = bm, mg_queue_manager = qm\<rparr>))))))))"

definition send_share_memory_by_file_path :: "string \<Rightarrow> string \<Rightarrow> u8 \<Rightarrow> unit result io" where
  "send_share_memory_by_file_path buffer_path qpath version =
     SendBytes (generate_shm_metadata kShareMemoryByFilePath buffer_path qpath version) Ret"

definition send_memfd_to_peer :: "string \<Rightarrow> int \<Rightarrow> string \<Rightarrow> int \<Rightarrow> u8 \<Rightarrow> unit result io" where
  "send_memfd_to_peer buffer_path buffer_fd qpath queue_fd version =
     SendBytes (generate_shm_metadata kShareMemoryByMemfd buffer_path qpath version) (\<lambda>r. case r of
       Inl e \<Rightarrow> Ret (Inl e)
     | Inr _ \<Rightarrow> try_io (wait_event_header kAckReadyRecvFd) (\<lambda>_. send_fd [buffer_fd, queue_fd]))"

section \<open>The four initializers\<close>

datatype protocol_initializer =
    V2Client string string
  | V2Server bytes
  | V3Client mem_map_type string string int int
  | V3Server bytes

definition msg_first_event :: "string \<Rightarrow> event_type \<Rightarrow> bytes \<Rightarrow> string" where
  "msg_first_event v t first_event = take 191 (''ProtocolInitializer'' @ v @ '' expect first event is:''
     @ dec (unat t) @ ''('' @ event_type_name t @ ''),but:''
     @ event_type_name (hdr_msg_type first_event))"

definition msg_expect_share :: "event_type \<Rightarrow> string" where
  "msg_expect_share t = take 219 (''expect event type is TypeShareMemoryByFilePath or TypeShareMemoryByMemfd, but:''
     @ dec (unat t) @ ''('' @ event_type_name t @ '')'')"

definition v2_client_init :: "string \<Rightarrow> string \<Rightarrow> registry \<Rightarrow> init_result io" where
  "v2_client_init buffer_path qpath reg =
     try_io (send_share_memory_by_file_path buffer_path qpath 2) (\<lambda>_. Ret (Inr (reg, None)))"

definition v2_server_init :: "host \<Rightarrow> bytes \<Rightarrow> init_result io" where
  "v2_server_init hs first_event =
     (if hdr_msg_type first_event \<noteq> kShareMemoryByFilePath
      then Ret (Inl (other_error (msg_first_event ''V2'' kShareMemoryByFilePath first_event)))
      else handle_share_memory_by_file_path hs first_event)"

definition v3_client_init ::
  "mem_map_type \<Rightarrow> string \<Rightarrow> string \<Rightarrow> int \<Rightarrow> int \<Rightarrow> registry \<Rightarrow> init_result io" where
  "v3_client_init ty buffer_path qpath buffer_fd queue_fd reg =
     try_io (if ty = KDevShmFile then send_share_memory_by_file_path buffer_path qpath 3
             else send_memfd_to_peer buffer_path buffer_fd qpath queue_fd 3) (\<lambda>_.
       try_io (wait_event_header kAckShareMemory) (\<lambda>_. Ret (Inr (reg, None))))"

definition v3_server_init :: "host \<Rightarrow> bytes \<Rightarrow> init_result io" where
  "v3_server_init hs first_event =
     (if kExchangeProtoVersion \<noteq> hdr_msg_type first_event
      then Ret (Inl (other_error (msg_first_event ''V3'' kExchangeProtoVersion first_event)))
      else bind_io handle_exchange_version (\<lambda>r. case r of
        Inl e \<Rightarrow> Ret (Inl (other_error
          (''ProtocolInitializerV3 exchange_version failed, reason:'' @ message e)))
      | Inr _ \<Rightarrow>
          bind_io block_read_event_header (\<lambda>r. case r of
            Inl e \<Rightarrow> Ret (Inl (other_error
              (''ProtocolInitializerV3 block_read_event_header failed, reason:'' @ message e)))
          | Inr h \<Rightarrow>
              try_io
                (if hdr_msg_type h = kShareMemoryByFilePath then handle_share_memory_by_file_path hs h
                 else if hdr_msg_type h = kShareMemoryByMemfd then handle_share_memory_by_memfd hs h 3
                 else Ret (Inl (other_error (msg_expect_share (hdr_msg_type h)))))
                (\<lambda>res. SendBytes (header_event 3 kAckShareMemory) (\<lambda>wr. case wr of
                   Inl e \<Rightarrow> Ret (Inl e) | Inr _ \<Rightarrow> Ret (Inr res))))))"

fun pi_init :: "host \<Rightarrow> protocol_initializer \<Rightarrow> init_result io" where
  "pi_init hs (V2Client b q) = v2_client_init b q (h_registry hs)"
| "pi_init hs (V2Server h) = v2_server_init hs h"
| "pi_init hs (V3Client ty b q bfd qfd) = v3_client_init ty b q bfd qfd (h_registry hs)"
| "pi_init hs (V3Server h) = v3_server_init hs h"

fun pi_version :: "protocol_initializer \<Rightarrow> u8" where
  "pi_version (V2Client b q) = 2"
| "pi_version (V2Server h) = 2"
| "pi_version (V3Client ty b q bfd qfd) = 3"
| "pi_version (V3Server h) = 3"

section \<open>Adapters and entry points\<close>

definition msg_not_support :: "u8 \<Rightarrow> string" where
  "msg_not_support v = ''not support the protocol version:'' @ dec (unat v)
     @ '', max_support_version is '' @ dec (unat kMaxSupportProtoVersion)"

definition client_get_initializer ::
  "mem_map_type \<Rightarrow> string \<Rightarrow> string \<Rightarrow> int \<Rightarrow> int \<Rightarrow> protocol_initializer result io" where
  "client_get_initializer ty buffer_path qpath buffer_fd queue_fd =
     (if ty = KDevShmFile then Ret (Inr (V2Client buffer_path qpath))
      else
        let client_version = kMaxSupportProtoVersion in
        SendBytes (header_event client_version kExchangeProtoVersion) (\<lambda>r. case r of
          Inl e \<Rightarrow> Ret (Inl e)
        | Inr _ \<Rightarrow>
            bind_io (wait_event_header kExchangeProtoVersion) (\<lambda>r. case r of
              Inl e \<Rightarrow> Ret (Inl (other_error
                (''protrocol_initializer_v3 client_init failed, reason:'' @ message e)))
            | Inr h \<Rightarrow>
                let v = min client_version (hdr_version h) in
                if v = 2 then Ret (Inr (V2Client buffer_path qpath))
                else if v = 3 then Ret (Inr (V3Client ty buffer_path qpath buffer_fd queue_fd))
                else Ret (Inl (other_error (msg_not_support v))))))"

definition server_get_initializer :: "protocol_initializer result io" where
  "server_get_initializer =
     try_io block_read_event_header (\<lambda>h.
       if hdr_version h = 2 then Ret (Inr (V2Server h))
       else if hdr_version h = 3 then Ret (Inr (V3Server h))
       else Ret (Inl (other_error (msg_not_support (hdr_version h)))))"

definition init_client_protocol ::
  "host \<Rightarrow> string \<Rightarrow> int \<Rightarrow> string \<Rightarrow> int \<Rightarrow> mem_map_type \<Rightarrow> u8 result io" where
  "init_client_protocol hs buffer_path buffer_memfd qpath queue_memfd ty =
     try_io (client_get_initializer ty buffer_path qpath buffer_memfd queue_memfd) (\<lambda>i.
       try_io (pi_init hs i) (\<lambda>_. Ret (Inr (pi_version i))))"

definition init_server_protocol ::
  "host \<Rightarrow> (registry \<times> buffer_manager \<times> queue_manager \<times> u8) result io" where
  "init_server_protocol hs =
     try_io server_get_initializer (\<lambda>i.
       try_io (pi_init hs i) (\<lambda>(reg, ms). case ms of
         None \<Rightarrow> Ret (Inl (other_error ''server protocol init returned no managers''))
       | Some mg \<Rightarrow> Ret (Inr (reg, mg_buffer_manager mg, mg_queue_manager mg, pi_version i))))"

definition kBufferPathSuffix :: string where "kBufferPathSuffix = ''_buffer''"

text \<open>
  \<open>init_manager\<close>, the client's side before the handshake: the events, the registry, the
  configuration with the pairs as the manager's constructor leaves them, the memory of the
  buffers, the memory of the queues, and the result.
\<close>

definition init_manager ::
  "arch \<Rightarrow> os \<Rightarrow> registry \<Rightarrow> config \<Rightarrow> mem \<Rightarrow> mem \<Rightarrow>
     os_event list \<times> registry \<times> config \<times> mem \<times> mem \<times> (buffer_manager \<times> queue_manager) result" where
  "init_manager a os reg c bmem qmem =
     (let buffer_path = share_memory_path_prefix c @ kBufferPathSuffix;
          msg_b = (\<lambda>e. ''create share memory buffer manager failed, error='' @ message e);
          msg_q = (\<lambda>e. ''create share memory queue manager failed, error='' @ message e) in
      if mem_map_type c = KDevShmFile
      then (case get_with_file os reg buffer_path (share_memory_buffer_cap c) True
                   (buffer_slice_sizes c) bmem of
              (evs, reg1, ps, bmem1, Inl e) \<Rightarrow>
                (evs @ [EvRemove buffer_path], reg1, c\<lparr>buffer_slice_sizes := ps\<rparr>, bmem1, qmem,
                 Inl (other_error (msg_b e)))
            | (evs, reg1, ps, bmem1, Inr bm) \<Rightarrow>
                (case create_with_file a os (queue_path c) (queue_cap c) qmem of
                   (evs', qmem1, Inl e) \<Rightarrow>
                     (evs @ evs' @ [EvRemove (queue_path c)], reg1, c\<lparr>buffer_slice_sizes := ps\<rparr>,
                      bmem1, qmem1, Inl (other_error (msg_q e)))
                 | (evs', qmem1, Inr qm) \<Rightarrow>
                     (evs @ evs', reg1, c\<lparr>buffer_slice_sizes := ps\<rparr>, bmem1, qmem1, Inr (bm, qm))))
      else (case get_with_memfd os reg buffer_path 0 (share_memory_buffer_cap c) True
                   (buffer_slice_sizes c) bmem of
              (evs, reg1, ps, bmem1, Inl e) \<Rightarrow>
                (evs, reg1, c\<lparr>buffer_slice_sizes := ps\<rparr>, bmem1, qmem, Inl (other_error (msg_b e)))
            | (evs, reg1, ps, bmem1, Inr bm) \<Rightarrow>
                (case create_with_memfd a os (queue_path c) (queue_cap c) qmem of
                   (evs', qmem1, Inl e) \<Rightarrow>
                     (evs @ evs', reg1, c\<lparr>buffer_slice_sizes := ps\<rparr>, bmem1, qmem1,
                      Inl (other_error (msg_q e)))
                 | (evs', qmem1, Inr qm) \<Rightarrow>
                     (evs @ evs', reg1, c\<lparr>buffer_slice_sizes := ps\<rparr>, bmem1, qmem1, Inr (bm, qm)))))"

section \<open>Two sides on one connection\<close>

text \<open>
  A stream socket carries bytes; descriptors travel attached to a byte. The kernel gives the
  receiver new descriptors for the ones it is sent: \<open>dup\<close>. One call of a side, given what
  has arrived for it, yields the rest of the side, what is left of the arrivals, what it sends
  and its effects; \<open>None\<close> is a side that has ended or waits.
\<close>

type_synonym wire = "(u8 \<times> int list) list"

definition plain :: "bytes \<Rightarrow> wire" where
  "plain bs = map (\<lambda>b. (b, [])) bs"

definition with_fds :: "nat \<Rightarrow> int list \<Rightarrow> wire" where
  "with_fds n fds = (case n of 0 \<Rightarrow> [] | Suc k \<Rightarrow> (0, fds) # plain (replicate k 0))"

fun act :: "(int \<Rightarrow> int) \<Rightarrow> 'a io \<Rightarrow> wire \<Rightarrow> ('a io \<times> wire \<times> wire \<times> os_event list) option" where
  "act dup (Ret x) w = None"
| "act dup Undef w = None"
| "act dup (RecvBytes n k) w =
     (if n \<le> length w then Some (k (Inr (map fst (take n w))), drop n w, [], []) else None)"
| "act dup (SendBytes bs k) w = Some (k (Inr ()), w, plain bs, [])"
| "act dup (SockType k) w = Some (k (Inr False), w, [], [])"
| "act dup (SendMsg n fds k) w = Some (k (Inr ()), w, with_fds n fds, [])"
| "act dup (RecvMsg n k) w =
     (case w of
        [] \<Rightarrow> None
      | (b, fds) # w' \<Rightarrow> Some (k (Inr (if fds = [] then None else Some (map dup fds))), w', [], []))"
| "act dup (Effect evs p) w = Some (p, w, [], evs)"

record ('a, 'b) conn =
  cn_client :: "'a io"
  cn_server :: "'b io"
  cn_to_client :: wire
  cn_to_server :: wire
  cn_client_events :: "os_event list"
  cn_server_events :: "os_event list"

definition client_acts :: "(int \<Rightarrow> int) \<Rightarrow> ('a, 'b) conn \<Rightarrow> ('a, 'b) conn option" where
  "client_acts dup c =
     (case act dup (cn_client c) (cn_to_client c) of
        None \<Rightarrow> None
      | Some (p, w, out, evs) \<Rightarrow> Some (c\<lparr>cn_client := p, cn_to_client := w,
          cn_to_server := cn_to_server c @ out, cn_client_events := cn_client_events c @ evs\<rparr>))"

definition server_acts :: "(int \<Rightarrow> int) \<Rightarrow> ('a, 'b) conn \<Rightarrow> ('a, 'b) conn option" where
  "server_acts dup c =
     (case act dup (cn_server c) (cn_to_server c) of
        None \<Rightarrow> None
      | Some (p, w, out, evs) \<Rightarrow> Some (c\<lparr>cn_server := p, cn_to_server := w,
          cn_to_client := cn_to_client c @ out, cn_server_events := cn_server_events c @ evs\<rparr>))"

inductive conn_step :: "(int \<Rightarrow> int) \<Rightarrow> ('a, 'b) conn \<Rightarrow> ('a, 'b) conn \<Rightarrow> bool" for dup where
  client_step: "client_acts dup c = Some c' \<Longrightarrow> conn_step dup c c'"
| server_step: "server_acts dup c = Some c' \<Longrightarrow> conn_step dup c c'"

inductive_simps conn_step_simps: "conn_step dup c c'"

definition start_conn :: "'a io \<Rightarrow> 'b io \<Rightarrow> ('a, 'b) conn" where
  "start_conn p q = \<lparr>cn_client = p, cn_server = q, cn_to_client = [], cn_to_server = [],
     cn_client_events = [], cn_server_events = []\<rparr>"

text \<open>A side that can go on can go on in the same way when more has arrived.\<close>

lemma act_more:
  "act dup p w = Some (p', w', out, evs) \<Longrightarrow> act dup p (w @ v) = Some (p', w' @ v, out, evs)"
  by (cases p) (auto split: if_splits list.splits)

text \<open>The steps of the two sides commute.\<close>

lemma sides_commute:
  assumes "client_acts dup c = Some x" "server_acts dup c = Some y"
  shows "\<exists>z. server_acts dup x = Some z \<and> client_acts dup y = Some z"
  using assms act_more [of dup "cn_client c" "cn_to_client c"] act_more [of dup "cn_server c" "cn_to_server c"]
  by (auto simp: client_acts_def server_acts_def split: option.splits prod.splits)

lemma conn_diamond:
  assumes "conn_step dup c x" "conn_step dup c y"
  shows "x = y \<or> (\<exists>z. conn_step dup x z \<and> conn_step dup y z)"
  using assms sides_commute [of dup c] by (auto simp: conn_step_simps)

text \<open>So a connection whose one run ends has only runs that end, all in the same state.\<close>

lemma runs_agree:
  assumes dia: "\<And>c x y. r c x \<Longrightarrow> r c y \<Longrightarrow> x = y \<or> (\<exists>z. r x z \<and> r y z)"
    and fin: "\<And>y. \<not> r f y"
  shows "(r ^^ n) c f \<Longrightarrow> (r ^^ k) c d \<Longrightarrow> k \<le> n \<and> (r ^^ (n - k)) d f"
proof (induction n arbitrary: c k d)
  case 0
  then have "c = f" by simp
  moreover have "k = 0"
  proof (rule ccontr)
    assume "k \<noteq> 0"
    then obtain j where "(r ^^ Suc j) f d" using 0 \<open>c = f\<close> by (metis not0_implies_Suc)
    then show False using fin by (meson relpowp_Suc_D2)
  qed
  ultimately show ?case using 0 by simp
next
  case (Suc n)
  obtain x where x: "r c x" "(r ^^ n) x f" using Suc.prems(1) by (meson relpowp_Suc_D2)
  show ?case
  proof (cases k)
    case 0
    with Suc.prems show ?thesis by simp
  next
    case (Suc j)
    obtain y where y: "r c y" "(r ^^ j) y d" using Suc.prems(2) Suc by (meson relpowp_Suc_D2)
    have yf: "(r ^^ n) y f"
    proof (cases "x = y")
      case False
      then obtain z where z: "r x z" "r y z" using dia [OF x(1) y(1)] by blast
      have "(r ^^ Suc 0) x z" using z(1) by (simp add: relcompp.simps)
      from Suc.IH [OF x(2) this] have "Suc 0 \<le> n" "(r ^^ (n - Suc 0)) z f" by simp_all
      then show ?thesis using relpowp_Suc_I2 [where P = r and x = y and y = z and z = f and n = "n - Suc 0"] z(2) by simp
    qed (use x in simp)
    from Suc.IH [OF yf y(2)] Suc show ?thesis by simp
  qed
qed

section \<open>One schedule\<close>

fun run_conn :: "(int \<Rightarrow> int) \<Rightarrow> nat \<Rightarrow> ('a, 'b) conn \<Rightarrow> ('a, 'b) conn option" where
  "run_conn dup 0 c = Some c"
| "run_conn dup (Suc n) c =
     (case client_acts dup c of
        Some c' \<Rightarrow> run_conn dup n c'
      | None \<Rightarrow> (case server_acts dup c of Some c' \<Rightarrow> run_conn dup n c' | None \<Rightarrow> None))"

lemma run_conn_steps: "run_conn dup n c = Some d \<Longrightarrow> (conn_step dup ^^ n) c d"
proof (induction n arbitrary: c)
  case (Suc n)
  then obtain c' where "conn_step dup c c'" "run_conn dup n c' = Some d"
    by (auto simp: conn_step_simps split: option.splits)
  with Suc.IH show ?case by (meson relpowp_Suc_I2)
qed simp

definition ended :: "('a, 'b) conn \<Rightarrow> bool" where
  "ended c \<longleftrightarrow> (case (cn_client c, cn_server c) of (Ret x, Ret y) \<Rightarrow> True | _ \<Rightarrow> False)"

lemma ended_no_step: "ended c \<Longrightarrow> \<not> conn_step dup c d"
  by (auto simp: ended_def conn_step_simps client_acts_def server_acts_def split: io.splits)

lemma every_run_ends:
  assumes "run_conn dup n c = Some f" "ended f" "(conn_step dup ^^ k) c d"
  shows "k \<le> n \<and> (conn_step dup ^^ (n - k)) d f"
  using runs_agree [of "conn_step dup" f n c k d] conn_diamond ended_no_step [OF assms(2)]
    run_conn_steps [OF assms(1)] assms(3) by blast

lemma plain_simps [simp]:
  "length (plain bs) = length bs" "map fst (plain bs) = bs" "plain (xs @ ys) = plain xs @ plain ys"
  "plain [] = []"
  "map (fst \<circ> (\<lambda>b. (b, []))) bs = bs"
  by (simp_all add: plain_def comp_def)

lemma check_encoded [simp]:
  "8 \<le> length p \<Longrightarrow> v \<noteq> 0 \<Longrightarrow> t \<le> 9 \<Longrightarrow> check_event_valid (hdr_encode p l v t) = Inr ()"
  "v \<noteq> 0 \<Longrightarrow> t \<le> 9 \<Longrightarrow> check_event_valid (header_event v t) = Inr ()"
  by (auto simp: check_event_valid_def event_type_consts)

lemma metadata_length:
  "length b < 65536 \<Longrightarrow> length q < 65536 \<Longrightarrow>
     unat (of_nat (12 + length b + length q) :: u32) = 12 + length b + length q"
  "length (metadata_body b q) = 4 + length b + length q"
  by (intro unat_of_nat_u32) (simp_all add: metadata_body_def)

text \<open>The number of calls: seven of the client, nine of the server.\<close>

lemma run_conn_numeral:
  "run_conn dup (numeral k) c =
     (case client_acts dup c of
        Some c' \<Rightarrow> run_conn dup (pred_numeral k) c'
      | None \<Rightarrow> (case server_acts dup c of Some c' \<Rightarrow> run_conn dup (pred_numeral k) c' | None \<Rightarrow> None))"
  by (simp add: numeral_eq_Suc)

lemma memfd_handshake_run:
  assumes l: "length bp < 65536" "length qp < 65536"
    and q: "mapping_with_memfd (h_arch hs) (h_os hs) qp (dup qfd) (h_fd_mem hs (dup qfd)) = (evs, Inr qm)"
    and b: "get_with_memfd (h_os hs) (h_registry hs) bp (dup bfd) 0 False [] (h_fd_mem hs (dup bfd))
      = (evs', reg, ps, m, Inr bm)"
  shows "run_conn dup 16 (start_conn (init_client_protocol hc bp bfd qp qfd KMemFd) (init_server_protocol hs))
    = Some \<lparr>cn_client = Ret (Inr 3), cn_server = Ret (Inr (reg, bm, qm, 3)), cn_to_client = [],
        cn_to_server = [], cn_client_events = [], cn_server_events = evs @ evs'\<rparr>"
proof -
  note len = metadata_length [where b = bp and q = qp]
  show ?thesis
    using l q b len extract_metadata_body [of bp qp]
    by (simp add: run_conn_numeral start_conn_def init_client_protocol_def
        init_server_protocol_def try_io_def client_get_initializer_def server_get_initializer_def
        client_acts_def server_acts_def block_read_event_header_def wait_event_header_def
        kHeaderSize_def v3_server_init_def v3_client_init_def handle_exchange_version_def
        send_memfd_to_peer_def handle_share_memory_by_memfd_def send_fd_def
        block_read_out_of_bound_for_fd_def with_fds_def generate_shm_metadata_layout
        event_type_consts kMaxSupportProtoVersion_def kMemfdCount_def Let_def)
qed

lemma file_handshake_run:
  assumes l: "length bp < 65536" "length qp < 65536"
    and q: "mapping_with_file (h_arch hs) (h_os hs) qp (h_file_mem hs qp) = (evs, Inr qm)"
    and b: "get_with_file (h_os hs) (h_registry hs) bp 0 False [] (h_file_mem hs bp)
      = (evs', reg, ps, m, Inr bm)"
  shows "run_conn dup 4 (start_conn (init_client_protocol hc bp bfd qp qfd KDevShmFile) (init_server_protocol hs))
    = Some \<lparr>cn_client = Ret (Inr 2), cn_server = Ret (Inr (reg, bm, qm, 2)), cn_to_client = [],
        cn_to_server = [], cn_client_events = [], cn_server_events = evs @ evs'\<rparr>"
proof -
  note len = metadata_length [where b = bp and q = qp]
  show ?thesis
    using l q b len extract_metadata_body [of bp qp]
    by (simp add: run_conn_numeral start_conn_def init_client_protocol_def
        init_server_protocol_def try_io_def client_get_initializer_def server_get_initializer_def
        client_acts_def server_acts_def block_read_event_header_def
        kHeaderSize_def v2_server_init_def v2_client_init_def send_share_memory_by_file_path_def
        handle_share_memory_by_file_path_def generate_shm_metadata_layout
        event_type_consts kMaxSupportProtoVersion_def Let_def)
qed

section \<open>What the client has created before\<close>

lemma init_manager_memfd:
  assumes i: "init_manager a os reg c bmem qmem = (evs, reg1, c1, bmem1, qmem1, Inr (bm, qm))"
    and ty: "mem_map_type c = KMemFd" and r: "reg (share_memory_path_prefix c @ kBufferPathSuffix) = None"
  shows "qm_create a qmem (count_queue_mem_size (queue_cap c) * kQueueCount) (queue_cap c) (queue_path c)
      KMemFd (qm_memfd qm) = (qmem1, qm)"
    "\<exists>bm0. bm_create (sort_pairs (buffer_slice_sizes c)) (share_memory_path_prefix c @ kBufferPathSuffix) bmem
      (unat (share_memory_buffer_cap c)) 0 = (bmem1, Inr bm0)
      \<and> bm = bm0\<lparr>bm_memfd := bm_memfd bm, bm_mem_map_type := KMemFd\<rparr>"
proof -
  obtain e1 ps e2 where
    g: "get_with_memfd os reg (share_memory_path_prefix c @ kBufferPathSuffix) 0 (share_memory_buffer_cap c) True
        (buffer_slice_sizes c) bmem = (e1, reg1, ps, bmem1, Inr bm)"
    and k: "create_with_memfd a os (queue_path c) (queue_cap c) qmem = (e2, qmem1, Inr qm)"
    using i ty by (auto simp: init_manager_def Let_def split: prod.splits sum.splits)
  show "qm_create a qmem (count_queue_mem_size (queue_cap c) * kQueueCount) (queue_cap c) (queue_path c)
      KMemFd (qm_memfd qm) = (qmem1, qm)"
    using create_with_memfd_cases [OF k] qm_create_memfd by metis
  show "\<exists>bm0. bm_create (sort_pairs (buffer_slice_sizes c)) (share_memory_path_prefix c @ kBufferPathSuffix) bmem
      (unat (share_memory_buffer_cap c)) 0 = (bmem1, Inr bm0)
      \<and> bm = bm0\<lparr>bm_memfd := bm_memfd bm, bm_mem_map_type := KMemFd\<rparr>"
    using g r by (auto simp: get_with_memfd_def memfd_source_def create_or_map_def Let_def
        split: prod.splits sum.splits if_splits intro!: exI)
qed

text \<open>
  The kernel of the server, as the client's kernel has left things: the descriptors it receives
  refer to objects of the sizes the client gave them, can be mapped, and show the client's
  memory.
\<close>

definition sees ::
  "(int \<Rightarrow> int) \<Rightarrow> host \<Rightarrow> config \<Rightarrow> buffer_manager \<Rightarrow> queue_manager \<Rightarrow> mem \<Rightarrow> mem \<Rightarrow> bool" where
  "sees dup hs c bm qm bmem qmem \<longleftrightarrow>
     os_fstat (h_os hs) (dup (bm_memfd bm)) = Some (int (unat (share_memory_buffer_cap c)))
     \<and> os_fstat (h_os hs) (dup (qm_memfd qm)) = Some (int (count_queue_mem_size (queue_cap c) * kQueueCount))
     \<and> os_mmap_ok (h_os hs) (dup (bm_memfd bm)) (unat (share_memory_buffer_cap c))
     \<and> os_mmap_ok (h_os hs) (dup (qm_memfd qm)) (count_queue_mem_size (queue_cap c) * kQueueCount)
     \<and> h_fd_mem hs (dup (bm_memfd bm)) = bmem \<and> h_fd_mem hs (dup (qm_memfd qm)) = qmem"

lemma queue_size_mod16:
  "even (unat c) \<Longrightarrow> count_queue_mem_size c * kQueueCount mod 16 = 0"
  by (auto simp: count_queue_mem_size_def kQueueHeaderLength_def kQueueElementLen_def kQueueCount_def
      elim!: evenE)

lemma qm_create_path: "qm_create a m n qc path ty fd = (m', qm) \<Longrightarrow> qm_path qm = path"
  by (auto simp: qm_create_def Let_def split: prod.splits)

lemma server_maps_queue:
  assumes k: "qm_create a qmem0 (count_queue_mem_size qc * kQueueCount) qc path KMemFd fd0 = (qmem, qm)"
    and s: "os_fstat os fd = Some (int (count_queue_mem_size qc * kQueueCount))"
      "os_mmap_ok os fd (count_queue_mem_size qc * kQueueCount)"
    and al: "a = X86_64 \<or> even (unat qc)"
  shows "\<exists>qm'. mapping_with_memfd a os path fd qmem = ([EvMap fd (count_queue_mem_size qc * kQueueCount)], Inr qm')
    \<and> qm_send_queue qm' = qm_recv_queue qm \<and> qm_recv_queue qm' = qm_send_queue qm"
proof -
  have o: "qm_send_queue qm = queue_layout a 0 qc" "qm_recv_queue qm = queue_layout a (half qc) qc"
    "load_u32 qmem 0 = qc" "load_u32 qmem (half qc) = qc"
    using qm_create_ok [OF k, of 0 0] by simp_all
  have "mapping_with_memfd a os path fd qmem = ([EvMap fd (count_queue_mem_size qc * kQueueCount)],
      Inr (qm_mapping a qmem (count_queue_mem_size qc * kQueueCount) path KMemFd fd))"
    unfolding mapping_with_memfd_def s option.case mem_size_u64 Let_def
    using s(2) al queue_size_mod16 [of qc] by auto
  then show ?thesis using o qm_mapping_ok [OF o(3,4)] by auto
qed

lemma server_maps_buffers:
  fixes cap :: u32
  assumes c: "creatable ps (unat cap) 0" and k: "bm_create ps path bmem0 (unat cap) 0 = (bmem, Inr bm0)"
    and s: "os_fstat os fd = Some (int (unat cap))" "os_mmap_ok os fd (unat cap)" and r: "reg path = None"
  shows "get_with_memfd os reg path fd 0 False [] bmem
      = ([EvMap fd (unat cap)], emplace reg path (bm0\<lparr>bm_memfd := fd, bm_mem_map_type := KMemFd\<rparr>), [], bmem,
         Inr (bm0\<lparr>bm_memfd := fd, bm_mem_map_type := KMemFd\<rparr>))"
proof -
  have "unat cap < 4294967296" by (metis unat_u32_less)
  then have "\<not> int (unat cap) > 0xFFFFFFFF" by linarith
  moreover have "(of_int (int (unat cap)) :: u32) = cap" by simp
  ultimately have "memfd_source os path fd 0 False = ([], Inr (fd, cap))"
    by (simp add: memfd_source_def s)
  then show ?thesis
    using r s(2) bm_mapping_ok [OF c k] by (simp add: get_with_memfd_def create_or_map_def Let_def)
qed

section \<open>Properties\<close>

text \<open>
  Property C4. Setting up a session over memfds works, however the two processes interleave. The
  client has made its managers with \<open>init_manager\<close>; the server's kernel shows it the client's memory
  behind the descriptors it receives. Then every sequence of calls of the two sides of the handshake
  has at most 16 calls and can be continued to the end, where the client has agreed on
  version 3, the server has agreed on version 3 and has managers whose buffer lists are the
  client's, whose send queue is the client's receive queue and whose receive queue is the client's
  send queue, and nothing is left on the wire. In particular the handshake never deadlocks.
\<close>

theorem memfd_setup_connects:
  assumes "init_manager a os reg c bmem0 qmem0 = (evs, reg1, c1, bmem, qmem, Inr (bm, qm))"
    and "mem_map_type c = KMemFd" and "reg (share_memory_path_prefix c @ kBufferPathSuffix) = None"
    and "creatable (sort_pairs (buffer_slice_sizes c)) (unat (share_memory_buffer_cap c)) 0"
    and "a = X86_64 \<or> even (unat (queue_cap c))"
    and "length (bm_path bm) < 2 ^ 16" and "length (qm_path qm) < 2 ^ 16"
    and "h_arch hs = a" and "h_registry hs (bm_path bm) = None" and "sees dup hs c bm qm bmem qmem"
  shows "\<exists>reg' bm' qm' evs'. bm_lists bm' = bm_lists bm \<and> bm_mem_len bm' = bm_mem_len bm
    \<and> qm_send_queue qm' = qm_recv_queue qm \<and> qm_recv_queue qm' = qm_send_queue qm
    \<and> (\<forall>k d. (conn_step dup ^^ k) (start_conn
          (init_client_protocol hc (bm_path bm) (bm_memfd bm) (qm_path qm) (qm_memfd qm) KMemFd)
          (init_server_protocol hs)) d
        \<longrightarrow> k \<le> 16 \<and> (conn_step dup ^^ (16 - k)) d
          \<lparr>cn_client = Ret (Inr 3), cn_server = Ret (Inr (reg', bm', qm', 3)), cn_to_client = [],
           cn_to_server = [], cn_client_events = [], cn_server_events = evs'\<rparr>)"
proof -
  let ?bp = "share_memory_path_prefix c @ kBufferPathSuffix"
  obtain bm0 where q: "qm_create a qmem0 (count_queue_mem_size (queue_cap c) * kQueueCount) (queue_cap c)
      (queue_path c) KMemFd (qm_memfd qm) = (qmem, qm)"
    and b: "bm_create (sort_pairs (buffer_slice_sizes c)) ?bp bmem0 (unat (share_memory_buffer_cap c)) 0
      = (bmem, Inr bm0)" and bm: "bm = bm0\<lparr>bm_memfd := bm_memfd bm, bm_mem_map_type := KMemFd\<rparr>"
    using init_manager_memfd [OF assms(1-3)] by blast
  have "qm_path qm = queue_path c" by (rule qm_create_path [OF q])
  moreover have "bm_path bm0 = ?bp" using b bm_create_shape [OF assms(4), of ?bp bmem0] by auto
  moreover have "bm_path bm = bm_path bm0" by (subst bm) simp
  ultimately have paths: "qm_path qm = queue_path c" "bm_path bm = ?bp" by simp_all
  obtain qm' where qm': "mapping_with_memfd (h_arch hs) (h_os hs) (qm_path qm) (dup (qm_memfd qm))
      (h_fd_mem hs (dup (qm_memfd qm))) = ([EvMap (dup (qm_memfd qm))
        (count_queue_mem_size (queue_cap c) * kQueueCount)], Inr qm')"
    "qm_send_queue qm' = qm_recv_queue qm" "qm_recv_queue qm' = qm_send_queue qm"
    using server_maps_queue [OF q _ _ assms(5)] assms(8,10) paths(1) unfolding sees_def by metis
  have rn: "h_registry hs ?bp = None" using assms(9) paths by simp
  let ?fd = "dup (bm_memfd bm)"
  let ?bm' = "bm0\<lparr>bm_memfd := ?fd, bm_mem_map_type := KMemFd\<rparr>"
  have gb: "get_with_memfd (h_os hs) (h_registry hs) (bm_path bm) ?fd 0 False [] (h_fd_mem hs ?fd)
      = ([EvMap ?fd (unat (share_memory_buffer_cap c))], emplace (h_registry hs) ?bp ?bm', [], bmem, Inr ?bm')"
    using server_maps_buffers [where reg = "h_registry hs" and path = ?bp, OF assms(4) b _ _ rn] assms(10) paths
    unfolding sees_def by metis
  have "length (bm_path bm) < 65536" "length (qm_path qm) < 65536" using assms(6,7) by simp_all
  note run = memfd_handshake_run [where dup = dup and qfd = "qm_memfd qm" and bfd = "bm_memfd bm" and hc = hc,
      OF this qm'(1) gb]
  have "bm_lists ?bm' = bm_lists bm" "bm_mem_len ?bm' = bm_mem_len bm" by (subst bm, simp)+
  with qm'(2,3) every_run_ends [OF run] show ?thesis
    by (intro exI [of _ "emplace (h_registry hs) ?bp ?bm'"] exI [of _ ?bm'] exI [of _ qm'] exI)
      (auto simp: ended_def)
qed

text \<open>
  A concrete pair of processes: the client's kernel hands out descriptor 8 for the queue's memfd and
  7 for the buffers', and the descriptors the server gets are 10 higher.
\<close>

definition sample_config :: config where
  "sample_config = default_config\<lparr>queue_cap := 2, share_memory_buffer_cap := 1000,
     buffer_slice_sizes := sample_pairs\<rparr>"

definition client_os :: os where
  "client_os = queue_os\<lparr>os_memfd_create :=
     (\<lambda>name. if name = ''shmipc/dev/shm/shmipc_queue'' then 8 else 7)\<rparr>"

definition server_host :: "mem \<Rightarrow> mem \<Rightarrow> host" where
  "server_host bmem qmem = \<lparr>h_arch = X86_64,
     h_os = queue_os\<lparr>os_fstat := (\<lambda>fd. if fd = 18 then Some 96 else Some 1000)\<rparr>,
     h_registry = (\<lambda>_. None), h_fd_mem = (\<lambda>fd. if fd = 18 then qmem else bmem),
     h_file_mem = (\<lambda>p. if p = ''/dev/shm/shmipc_queue'' then qmem else bmem)\<rparr>"

lemma sort_sample_pairs: "sort_pairs sample_pairs = sample_pairs"
  by (simp add: sort_pairs_def sample_pairs_def)

lemma sample_init_manager:
  obtains evs reg1 c1 bmem qmem bm qm where
    "init_manager X86_64 client_os (\<lambda>_. None) sample_config (\<lambda>_. 0) (\<lambda>_. 0)
      = (evs, reg1, c1, bmem, qmem, Inr (bm, qm))"
    "bm_memfd bm = 7" "qm_memfd qm = 8" "bm_path bm = ''/dev/shm/shmipc_buffer''"
    "qm_path qm = ''/dev/shm/shmipc_queue''"
proof -
  obtain m' bm0 where b: "bm_create sample_pairs ''/dev/shm/shmipc_buffer'' (\<lambda>_. 0) 1000 0 = (m', Inr bm0)"
    "bm_path bm0 = ''/dev/shm/shmipc_buffer''"
    using bm_create_shape [OF sample_creatable(1), of "''/dev/shm/shmipc_buffer''" "\<lambda>_. 0"] by auto
  obtain qmem qm where q: "qm_create X86_64 (\<lambda>_. 0) (count_queue_mem_size 2 * kQueueCount) 2
      ''/dev/shm/shmipc_queue'' KMemFd 8 = (qmem, qm)" by fastforce
  have "init_manager X86_64 client_os (\<lambda>_. None) sample_config (\<lambda>_. 0) (\<lambda>_. 0)
      = (fst (init_manager X86_64 client_os (\<lambda>_. None) sample_config (\<lambda>_. 0) (\<lambda>_. 0)),
         emplace (\<lambda>_. None) ''/dev/shm/shmipc_buffer'' (bm0\<lparr>bm_memfd := 7, bm_mem_map_type := KMemFd\<rparr>),
         sample_config, m', qmem, Inr (bm0\<lparr>bm_memfd := 7, bm_mem_map_type := KMemFd\<rparr>, qm))"
    using b q by (simp add: init_manager_def sample_config_def default_config_def get_with_memfd_def
        memfd_source_def create_or_map_def sort_sample_pairs client_os_def queue_os_def Let_def
        kBufferPathSuffix_def create_with_memfd_def)
  then show thesis
    by (rule that) (use qm_create_memfd [OF q] qm_create_path [OF q] b(2) in simp_all)
qed

theorem memfd_setup_connects_witness:
  "\<exists>(bm :: buffer_manager) (qm :: queue_manager) bmem qmem bm' qm' reg' evs'.
     qm_send_queue qm' = qm_recv_queue qm \<and> bm_lists bm' = bm_lists bm
     \<and> (conn_step (\<lambda>fd. fd + 10) ^^ 16) (start_conn
          (init_client_protocol (server_host bmem qmem) ''/dev/shm/shmipc_buffer'' 7
             ''/dev/shm/shmipc_queue'' 8 KMemFd)
          (init_server_protocol (server_host bmem qmem)))
          \<lparr>cn_client = Ret (Inr 3), cn_server = Ret (Inr (reg', bm', qm', 3)), cn_to_client = [],
           cn_to_server = [], cn_client_events = [], cn_server_events = evs'\<rparr>"
proof -
  obtain evs reg1 c1 bmem qmem bm qm where i: "init_manager X86_64 client_os (\<lambda>_. None) sample_config
      (\<lambda>_. 0) (\<lambda>_. 0) = (evs, reg1, c1, bmem, qmem, Inr (bm, qm))"
    and f: "bm_memfd bm = 7" "qm_memfd qm = 8" "bm_path bm = ''/dev/shm/shmipc_buffer''"
      "qm_path qm = ''/dev/shm/shmipc_queue''" by (rule sample_init_manager)
  have c: "mem_map_type sample_config = KMemFd"
    "creatable (sort_pairs (buffer_slice_sizes sample_config)) (unat (share_memory_buffer_cap sample_config)) 0"
    using sample_creatable(1) by (simp_all add: sample_config_def default_config_def sort_sample_pairs)
  have sz: "int (count_queue_mem_size 2 * kQueueCount) = 96"
    by (simp add: count_queue_mem_size_def kQueueHeaderLength_def kQueueElementLen_def kQueueCount_def)
  have s: "sees (\<lambda>fd. fd + 10) (server_host bmem qmem) sample_config bm qm bmem qmem"
    using f sz by (simp add: sees_def server_host_def sample_config_def default_config_def queue_os_def)
  have l: "length (bm_path bm) < 2 ^ 16" "length (qm_path qm) < 2 ^ 16" using f by simp_all
  have h: "h_arch (server_host bmem qmem) = X86_64" "h_registry (server_host bmem qmem) (bm_path bm) = None"
    by (simp_all add: server_host_def)
  obtain reg' bm' qm' evs' where x: "bm_lists bm' = bm_lists bm" "qm_send_queue qm' = qm_recv_queue qm"
    and run: "\<forall>k d. (conn_step (\<lambda>fd. fd + 10) ^^ k) (start_conn (init_client_protocol (server_host bmem qmem)
          (bm_path bm) (bm_memfd bm) (qm_path qm) (qm_memfd qm) KMemFd) (init_server_protocol (server_host bmem qmem))) d
        \<longrightarrow> k \<le> 16 \<and> (conn_step (\<lambda>fd. fd + 10) ^^ (16 - k)) d
          \<lparr>cn_client = Ret (Inr 3), cn_server = Ret (Inr (reg', bm', qm', 3)), cn_to_client = [],
           cn_to_server = [], cn_client_events = [], cn_server_events = evs'\<rparr>"
    using memfd_setup_connects [OF i c(1) refl c(2) disjI1 [OF refl] l h s, of "server_host bmem qmem"] by blast
  note r = conjunct2 [OF run [rule_format, OF relpowp_0_I], unfolded f diff_zero]
  show ?thesis by (intro exI conjI) (rule x(2), rule x(1), rule r)
qed

text \<open>
  Property C23. Setting up a session over files needs no answer from the server: the client sends the
  paths and agrees on version 2. When the server can map both files, every sequence of calls has at
  most 4 calls and can be continued to the end, where both sides have agreed on
  version 2 and the server has the managers it mapped.
\<close>

theorem file_handshake_completes:
  assumes "length bp < 2 ^ 16" and "length qp < 2 ^ 16"
    and "mapping_with_file (h_arch hs) (h_os hs) qp (h_file_mem hs qp) = (evs, Inr qm)"
    and "get_with_file (h_os hs) (h_registry hs) bp 0 False [] (h_file_mem hs bp) = (evs', reg, ps, m, Inr bm)"
    and "(conn_step dup ^^ k) (start_conn (init_client_protocol hc bp bfd qp qfd KDevShmFile)
      (init_server_protocol hs)) d"
  shows "k \<le> 4 \<and> (conn_step dup ^^ (4 - k)) d
    \<lparr>cn_client = Ret (Inr 2), cn_server = Ret (Inr (reg, bm, qm, 2)), cn_to_client = [],
     cn_to_server = [], cn_client_events = [], cn_server_events = evs @ evs'\<rparr>"
proof -
  have "length bp < 65536" "length qp < 65536" using assms(1,2) by simp_all
  from every_run_ends [OF file_handshake_run [OF this assms(3,4)] _ assms(5)] show ?thesis
    by (simp add: ended_def)
qed

theorem file_handshake_completes_witness:
  "\<exists>bmem qmem reg bm qm evs. (conn_step (\<lambda>fd. fd) ^^ 4)
     (start_conn (init_client_protocol (server_host bmem qmem) ''/dev/shm/shmipc_buffer'' 0
         ''/dev/shm/shmipc_queue'' 0 KDevShmFile) (init_server_protocol (server_host bmem qmem)))
     \<lparr>cn_client = Ret (Inr 2), cn_server = Ret (Inr (reg, bm, qm, 2)), cn_to_client = [],
      cn_to_server = [], cn_client_events = [], cn_server_events = evs\<rparr>"
proof -
  obtain bmem bm where b: "bm_create sample_pairs ''/dev/shm/shmipc_buffer'' (\<lambda>_. 0) 1000 0 = (bmem, Inr bm)"
    using bm_create_shape [OF sample_creatable(1), of "''/dev/shm/shmipc_buffer''" "\<lambda>_. 0"] by auto
  note mp = bm_mapping_ok [OF sample_creatable(1) b]
  let ?hs = "server_host bmem (\<lambda>_. 0)"
  obtain evs qm where q: "mapping_with_file (h_arch ?hs) (h_os ?hs) ''/dev/shm/shmipc_queue''
      (h_file_mem ?hs ''/dev/shm/shmipc_queue'') = (evs, Inr qm)"
    by (simp add: mapping_with_file_def server_host_def queue_os_def Let_def)
  obtain evs' reg ps m bm' where g: "get_with_file (h_os ?hs) (h_registry ?hs) ''/dev/shm/shmipc_buffer'' 0 False []
      (h_file_mem ?hs ''/dev/shm/shmipc_buffer'') = (evs', reg, ps, m, Inr bm')"
    using mp by (simp add: get_with_file_def server_host_def queue_os_def file_source_def create_or_map_def Let_def)
  have l: "length ''/dev/shm/shmipc_buffer'' < 2 ^ 16" "length ''/dev/shm/shmipc_queue'' < 2 ^ 16" by simp_all
  note r = file_handshake_completes [where dup = "\<lambda>fd. fd" and hc = ?hs and bfd = 0 and qfd = 0,
      OF l q g relpowp_0_I]
  show ?thesis by (intro exI) (rule conjunct2 [OF r, unfolded diff_zero])
qed

text \<open>
  Property C32. A client that finds a queue file at the configured path removes it. \<open>init_manager\<close>
  reports that the queue existed, and then deletes the file at that path, which belongs to
  whoever created it, while the buffer manager it had just made stays registered with a
  reference nobody will give back.
\<close>

theorem init_manager_removes_existing_queue:
  assumes "mem_map_type c = KDevShmFile" and "os_exists os (queue_path c)"
    and "get_with_file os reg (share_memory_path_prefix c @ kBufferPathSuffix) (share_memory_buffer_cap c) True
      (buffer_slice_sizes c) bmem = (evs, reg1, ps, bmem1, Inr bm)"
  shows "\<exists>evs' c'. init_manager a os reg c bmem qmem = (evs' @ [EvRemove (queue_path c)], reg1, c', bmem1, qmem,
      Inl (other_error (''create share memory queue manager failed, error=queue was existed, path:'' @ queue_path c)))"
  using assms by (simp add: init_manager_def create_with_file_def Let_def message_def other_error_def)

theorem init_manager_removes_existing_queue_witness:
  "\<exists>evs' reg1 c' bmem1 e. init_manager X86_64 (queue_os\<lparr>os_exists := (\<lambda>_. True)\<rparr>) (\<lambda>_. None)
     (sample_config\<lparr>mem_map_type := KDevShmFile\<rparr>) (\<lambda>_. 0) (\<lambda>_. 0)
     = (evs' @ [EvRemove ''/dev/shm/shmipc_queue''], reg1, c', bmem1, \<lambda>_. 0, Inl e)
     \<and> reg1 ''/dev/shm/shmipc_buffer'' \<noteq> None"
proof -
  let ?os = "queue_os\<lparr>os_exists := (\<lambda>_. True)\<rparr>" and ?c = "sample_config\<lparr>mem_map_type := KDevShmFile\<rparr>"
  let ?bp = "''/dev/shm/shmipc_buffer''"
  obtain bmem bm where b: "bm_create sample_pairs ?bp (\<lambda>_. 0) 1000 0 = (bmem, Inr bm)"
    using bm_create_shape [OF sample_creatable(1), of ?bp "\<lambda>_. 0"] by auto
  have can: "can_create_on_dev_shm ?os 1000 ?bp"
    by (simp add: can_create_on_dev_shm_def queue_os_def)
  have p: "share_memory_path_prefix ?c @ kBufferPathSuffix = ?bp" "queue_path ?c = ''/dev/shm/shmipc_queue''"
    "mem_map_type ?c = KDevShmFile" "os_exists ?os (queue_path ?c)"
    by (simp_all add: sample_config_def default_config_def kBufferPathSuffix_def)
  obtain evs ps where g: "get_with_file ?os (\<lambda>_. None) (share_memory_path_prefix ?c @ kBufferPathSuffix)
      (share_memory_buffer_cap ?c) True (buffer_slice_sizes ?c) (\<lambda>_. 0)
      = (evs, emplace (\<lambda>_. None) ?bp (bm\<lparr>bm_mem_map_type := KDevShmFile\<rparr>), ps, bmem,
         Inr (bm\<lparr>bm_mem_map_type := KDevShmFile\<rparr>))"
    unfolding p using b can
    by (simp add: get_with_file_def file_source_def create_or_map_def sort_sample_pairs sample_config_def
        default_config_def queue_os_def Let_def)
  have "emplace (\<lambda>_. None) ?bp (bm\<lparr>bm_mem_map_type := KDevShmFile\<rparr>) ?bp \<noteq> None" by (simp add: emplace_def)
  with init_manager_removes_existing_queue [OF p(3,4) g, of X86_64 "\<lambda>_. 0"] show ?thesis
    unfolding p(2) by blast
qed

end
