(* ===== verification/Free_List_Race.thy ===== *)
theory Free_List_Race
  imports Buffer_List
begin

text \<open>
  \<open>BufferList::push\<close> and \<open>BufferList::pop\<close> of \<open>src/buffer/list.cpp\<close> run by several threads of both processes: one step
  per access to the shared header of the list or to the header of a buffer. Buffers are numbered; a buffer's header has the flag
  \<open>has_next\<close> and the next offset, which stays when the flag is cleared. The counter of outstanding buffers only serves
  statistics and is left out, and so is the test of \<open>old_head\<close> against the length of the region, which a list that nobody else writes to passes.
\<close>

section \<open>Threads\<close>

text \<open>Where a thread is, with its local variables; the number is the count of retries left.\<close>

datatype list_pc =
    Idle
  | PushLoad nat
  | PushCas nat nat
  | PushLink nat nat
  | PushFlag nat nat
  | PushCount
  | PopSize nat
  | PopFlag nat nat
  | PopNext nat nat
  | PopCas nat nat nat
  | PopTake nat
  | PopRest nat
  | PopReload nat
  | PopBack

record shared_list =
  fl_head :: nat
  fl_tail :: nat
  fl_size :: int
  fl_has :: "nat \<Rightarrow> bool"
  fl_next :: "nat \<Rightarrow> nat"
  fl_held :: "nat list"
  fl_pcs :: "list_pc list"

text \<open>One access by a thread that is inside \<open>push\<close> or \<open>pop\<close>.\<close>

fun list_access :: "shared_list \<Rightarrow> list_pc \<Rightarrow> shared_list \<times> list_pc" where
  "list_access s Idle = (s, Idle)"
| "list_access s (PushLoad b) = (s, PushCas b (fl_tail s))"
| "list_access s (PushCas b old) = (if fl_tail s = old then (s\<lparr>fl_tail := b\<rparr>, PushLink b old) else (s, PushLoad b))"
| "list_access s (PushLink b old) = (s\<lparr>fl_next := (fl_next s)(old := b)\<rparr>, PushFlag b old)"
| "list_access s (PushFlag b old) = (s\<lparr>fl_has := (fl_has s)(old := True)\<rparr>, PushCount)"
| "list_access s PushCount = (s\<lparr>fl_size := fl_size s + 1\<rparr>, Idle)"
| "list_access s (PopSize h) = (s\<lparr>fl_size := fl_size s - 1\<rparr>, if fl_size s \<le> 1 then PopBack else PopFlag h 200)"
| "list_access s (PopFlag h 0) = (s\<lparr>fl_size := fl_size s + 1\<rparr>, Idle)"
| "list_access s (PopFlag h (Suc k)) = (s, if fl_has s h then PopNext h k else PopRest k)"
| "list_access s (PopNext h k) = (s, PopCas h (fl_next s h) k)"
| "list_access s (PopCas h nxt k) = (if fl_head s = h then (s\<lparr>fl_head := nxt\<rparr>, PopTake h) else (s, PopReload k))"
| "list_access s (PopTake h) = (s\<lparr>fl_has := (fl_has s)(h := False), fl_held := h # fl_held s\<rparr>, Idle)"
| "list_access s (PopRest k) = (s, if fl_size s \<le> 1 then PopBack else PopReload k)"
| "list_access s (PopReload k) = (s, PopFlag (fl_head s) k)"
| "list_access s PopBack = (s\<lparr>fl_size := fl_size s + 1\<rparr>, Idle)"

text \<open>
  What can happen next: a thread calls \<open>pop\<close>, a thread calls \<open>push\<close> with a buffer that somebody holds, a thread makes its next access, or
  the holder of a buffer writes its header. An event that is not possible changes nothing.
\<close>

datatype list_event =
    CallPop nat
  | CallPush nat nat
  | Access nat
  | WriteHeader nat bool nat

definition set_pc :: "nat \<Rightarrow> list_pc \<Rightarrow> shared_list \<Rightarrow> shared_list" where
  "set_pc t pc s = s\<lparr>fl_pcs := (fl_pcs s)[t := pc]\<rparr>"

fun list_do :: "list_event \<Rightarrow> shared_list \<Rightarrow> shared_list" where
  "list_do (CallPop t) s = (if t < length (fl_pcs s) \<and> fl_pcs s ! t = Idle then set_pc t (PopSize (fl_head s)) s else s)"
| "list_do (CallPush t b) s =
     (if t < length (fl_pcs s) \<and> fl_pcs s ! t = Idle \<and> b \<in> set (fl_held s)
      then set_pc t (PushLoad b) (s\<lparr>fl_has := (fl_has s)(b := False), fl_held := remove1 b (fl_held s)\<rparr>) else s)"
| "list_do (Access t) s =
     (if t < length (fl_pcs s) then let (s1, pc) = list_access s (fl_pcs s ! t) in set_pc t pc s1 else s)"
| "list_do (WriteHeader b has nxt) s =
     (if b \<in> set (fl_held s) then s\<lparr>fl_has := (fl_has s)(b := has), fl_next := (fl_next s)(b := nxt)\<rparr> else s)"

fun list_events :: "list_event list \<Rightarrow> shared_list \<Rightarrow> shared_list" where
  "list_events [] s = s"
| "list_events (e # es) s = list_events es (list_do e s)"

text \<open>A list of \<open>n\<close> buffers as \<open>create\<close> leaves it, and \<open>k\<close> threads.\<close>

definition fresh_shared_list :: "nat \<Rightarrow> nat \<Rightarrow> shared_list" where
  "fresh_shared_list n k = \<lparr>fl_head = 0, fl_tail = n - 1, fl_size = int n, fl_has = (\<lambda>b. b < n - 1), fl_next = Suc,
     fl_held = [], fl_pcs = replicate k Idle\<rparr>"

fun popping :: "list_pc \<Rightarrow> bool" where
  "popping (PopSize h) = True"
| "popping (PopFlag h k) = True"
| "popping (PopNext h k) = True"
| "popping (PopCas h nxt k) = True"
| "popping (PopTake h) = True"
| "popping (PopRest k) = True"
| "popping (PopReload k) = True"
| "popping PopBack = True"
| "popping pc = False"

text \<open>No call of \<open>pop\<close> begins while another one runs.\<close>

fun pops_alone :: "list_event list \<Rightarrow> shared_list \<Rightarrow> bool" where
  "pops_alone [] s = True"
| "pops_alone (e # es) s =
     ((case e of CallPop t \<Rightarrow> \<not> list_ex popping (fl_pcs s) | _ \<Rightarrow> True) \<and> pops_alone es (list_do e s))"

section \<open>Invariant\<close>

text \<open>The buffers a thread has for itself, the links it has still to set, and whether the size does not yet show what it did.\<close>

fun owned :: "list_pc \<Rightarrow> nat list" where
  "owned (PushLoad b) = [b]"
| "owned (PushCas b old) = [b]"
| "owned (PopTake h) = [h]"
| "owned pc = []"

fun missing_link :: "list_pc \<Rightarrow> (nat \<times> nat) list" where
  "missing_link (PushLink b old) = [(old, b)]"
| "missing_link (PushFlag b old) = [(old, b)]"
| "missing_link pc = []"

fun size_lag :: "list_pc \<Rightarrow> int" where
  "size_lag (PushLink b old) = 1"
| "size_lag (PushFlag b old) = 1"
| "size_lag PushCount = 1"
| "size_lag (PopFlag h k) = 1"
| "size_lag (PopNext h k) = 1"
| "size_lag (PopCas h nxt k) = 1"
| "size_lag (PopRest k) = 1"
| "size_lag (PopReload k) = 1"
| "size_lag PopBack = 1"
| "size_lag pc = 0"

text \<open>What a thread knows about the list \<open>ks\<close>.\<close>

fun knows_list :: "shared_list \<Rightarrow> nat list \<Rightarrow> list_pc \<Rightarrow> bool" where
  "knows_list s ks (PushLoad b) = (\<not> fl_has s b)"
| "knows_list s ks (PushCas b old) = (\<not> fl_has s b)"
| "knows_list s ks (PushFlag b old) = (fl_next s old = b)"
| "knows_list s ks (PopSize h) = (h = hd ks)"
| "knows_list s ks (PopFlag h k) = (h = hd ks)"
| "knows_list s ks (PopNext h k) = (h = hd ks \<and> fl_has s h)"
| "knows_list s ks (PopCas h nxt k) = (h = hd ks \<and> fl_has s h \<and> nxt = fl_next s h)"
| "knows_list s ks pc = True"

definition links :: "nat list \<Rightarrow> (nat \<times> nat) list" where
  "links ks = zip ks (tl ks)"

text \<open>
  The buffers in the order in which \<open>tail\<close> was set to them are \<open>ks\<close>. A link between neighbours is there, or a thread is about to set it.
\<close>

definition list_inv :: "nat \<Rightarrow> shared_list \<Rightarrow> nat list \<Rightarrow> bool" where
  "list_inv n s ks \<longleftrightarrow> ks \<noteq> [] \<and> fl_head s = hd ks \<and> fl_tail s = last ks
     \<and> mset ks + mset (fl_held s) + mset (concat (map owned (fl_pcs s))) = mset [0 ..< n]
     \<and> mset (filter (\<lambda>(x, y). \<not> fl_has s x) (links ks)) = mset (concat (map missing_link (fl_pcs s)))
     \<and> (\<forall>(x, y) \<in> set (links ks). fl_has s x \<longrightarrow> fl_next s x = y) \<and> \<not> fl_has s (last ks)
     \<and> fl_size s = int (length ks) - sum_list (map size_lag (fl_pcs s))
     \<and> length (filter popping (fl_pcs s)) \<le> 1
     \<and> (\<forall>pc \<in> set (fl_pcs s). knows_list s ks pc)"

lemma links_simps [simp]: "links [] = []" "links [x] = []" "links (x # y # ks) = (x, y) # links (y # ks)"
  by (simp_all add: links_def)

lemma map_fst_links: "map fst (links ks) = butlast ks"
  by (induction ks rule: induct_list012) simp_all

lemma links_in: "(x, y) \<in> set (links ks) \<Longrightarrow> x \<in> set ks \<and> y \<in> set ks"
  by (induction ks rule: induct_list012) auto

lemma links_snoc: "ks \<noteq> [] \<Longrightarrow> links (ks @ [b]) = links ks @ [(last ks, b)]"
  by (induction ks rule: induct_list012) simp_all

lemma links_unique: "distinct ks \<Longrightarrow> (x, y) \<in> set (links ks) \<Longrightarrow> (x, z) \<in> set (links ks) \<Longrightarrow> y = z"
  using eq_key_imp_eq_value [of "links ks" x y z] by (simp add: map_fst_links distinct_butlast)

lemma mset_concat_map: "mset (concat (map f xs)) = (\<Sum>x \<in># mset xs. mset (f x))"
  by (induction xs) simp_all

lemma sum_list_map_mset: "sum_list (map g xs) = (\<Sum>x \<in># mset xs. g x)" for g :: "'a \<Rightarrow> int"
  by (induction xs) simp_all

text \<open>The order of the threads does not matter.\<close>

lemma list_inv_perm:
  assumes "mset pcs = mset (fl_pcs s)"
  shows "list_inv n s ks \<longleftrightarrow> list_inv n (s\<lparr>fl_pcs := pcs\<rparr>) ks"
proof -
  have c: "mset (concat (map f pcs)) = mset (concat (map f (fl_pcs s)))" for f :: "list_pc \<Rightarrow> 'a list"
    unfolding mset_concat_map assms ..
  have l: "sum_list (map size_lag pcs) = sum_list (map size_lag (fl_pcs s))"
    unfolding sum_list_map_mset assms ..
  have f: "length (filter popping pcs) = length (filter popping (fl_pcs s))"
    using arg_cong [OF assms, of "\<lambda>m. size (filter_mset popping m)"] by (simp flip: mset_filter)
  have c2: "mset (concat (map missing_link pcs)) = mset (concat (map missing_link (fl_pcs s)))"
    unfolding mset_concat_map assms ..
  have k: "knows_list (s\<lparr>fl_pcs := pcs\<rparr>) ks pc = knows_list s ks pc" for pc by (cases pc) simp_all
  have sel: "fl_head (s\<lparr>fl_pcs := pcs\<rparr>) = fl_head s" "fl_tail (s\<lparr>fl_pcs := pcs\<rparr>) = fl_tail s" "fl_size (s\<lparr>fl_pcs := pcs\<rparr>) = fl_size s"
    "fl_has (s\<lparr>fl_pcs := pcs\<rparr>) = fl_has s" "fl_next (s\<lparr>fl_pcs := pcs\<rparr>) = fl_next s" "fl_held (s\<lparr>fl_pcs := pcs\<rparr>) = fl_held s"
    "fl_pcs (s\<lparr>fl_pcs := pcs\<rparr>) = pcs" by simp_all
  show ?thesis unfolding list_inv_def sel c c2 l f k mset_eq_setD [OF assms] ..
qed

text \<open>The state with one thread and the others apart.\<close>

definition with_thread :: "shared_list \<Rightarrow> list_pc \<Rightarrow> list_pc list \<Rightarrow> shared_list" where
  "with_thread s pc rest = s\<lparr>fl_pcs := pc # rest\<rparr>"

definition others_of :: "nat \<Rightarrow> shared_list \<Rightarrow> list_pc list" where
  "others_of t s = take t (fl_pcs s) @ drop (Suc t) (fl_pcs s)"

lemma others_of_subset: "set (others_of t s) \<subseteq> set (fl_pcs s)"
  by (simp add: others_of_def set_take_subset set_drop_subset)

lemma list_inv_thread:
  assumes "t < length (fl_pcs s)"
  shows "list_inv n s ks = list_inv n (with_thread s (fl_pcs s ! t) (others_of t s)) ks"
proof -
  have "mset (fl_pcs s ! t # others_of t s) = mset (fl_pcs s)"
    using arg_cong [OF id_take_nth_drop [OF assms], of mset] by (simp add: others_of_def)
  then show ?thesis unfolding with_thread_def by (rule list_inv_perm)
qed

lemma list_inv_set_pc:
  assumes "t < length (fl_pcs s)"
  shows "list_inv n (set_pc t pc s) ks = list_inv n (with_thread s pc (others_of t s)) ks"
proof -
  have "mset (pc # others_of t s) = mset (fl_pcs (set_pc t pc s))"
    using assms by (simp add: others_of_def set_pc_def upd_conv_take_nth_drop)
  from list_inv_perm [OF this] show ?thesis by (simp add: with_thread_def set_pc_def)
qed

lemma knows_with_thread [simp]: "knows_list (with_thread s pc rest) ks p = knows_list s ks p"
  by (cases p) (simp_all add: with_thread_def)

lemma list_inv_with_thread:
  "list_inv n (with_thread s pc rest) ks \<longleftrightarrow> ks \<noteq> [] \<and> fl_head s = hd ks \<and> fl_tail s = last ks
     \<and> mset ks + mset (fl_held s) + mset (owned pc) + mset (concat (map owned rest)) = mset [0 ..< n]
     \<and> mset (filter (\<lambda>(x, y). \<not> fl_has s x) (links ks)) = mset (missing_link pc) + mset (concat (map missing_link rest))
     \<and> (\<forall>(x, y) \<in> set (links ks). fl_has s x \<longrightarrow> fl_next s x = y) \<and> \<not> fl_has s (last ks)
     \<and> fl_size s = int (length ks) - size_lag pc - sum_list (map size_lag rest)
     \<and> length (filter popping (pc # rest)) \<le> 1
     \<and> knows_list s ks pc \<and> (\<forall>p \<in> set rest. knows_list s ks p)"
proof -
  have sel: "fl_head (with_thread s pc rest) = fl_head s" "fl_tail (with_thread s pc rest) = fl_tail s"
    "fl_size (with_thread s pc rest) = fl_size s" "fl_has (with_thread s pc rest) = fl_has s"
    "fl_next (with_thread s pc rest) = fl_next s" "fl_held (with_thread s pc rest) = fl_held s"
    "fl_pcs (with_thread s pc rest) = pc # rest" by (simp_all add: with_thread_def)
  show ?thesis unfolding list_inv_def sel knows_with_thread by (simp add: ac_simps algebra_simps)
qed

text \<open>What stays true for the other threads.\<close>

lemma rest_knows:
  assumes "\<forall>p \<in> set rest. knows_list s ks p"
    and "\<And>b. b \<in> set (concat (map owned rest)) \<Longrightarrow> fl_has s' b \<Longrightarrow> fl_has s b"
    and "\<And>x y. (x, y) \<in> set (concat (map missing_link rest)) \<Longrightarrow> fl_next s' x = fl_next s x"
    and "list_ex popping rest \<Longrightarrow> hd ks' = hd ks"
    and "list_ex popping rest \<Longrightarrow> fl_has s (hd ks) \<Longrightarrow> fl_has s' (hd ks) \<and> fl_next s' (hd ks) = fl_next s (hd ks)"
  shows "\<forall>p \<in> set rest. knows_list s' ks' p"
proof
  fix p assume p: "p \<in> set rest"
  have o: "fl_has s' b \<Longrightarrow> fl_has s b" if "b \<in> set (owned p)" for b using assms(2) [of b] p that by auto
  have m: "fl_next s' x = fl_next s x" if "(x, y) \<in> set (missing_link p)" for x y using assms(3) [of x y] p that by auto
  have q: "list_ex popping rest" if "popping p" using p that by (auto simp: list_ex_iff)
  from assms(1) p have "knows_list s ks p" by blast
  then show "knows_list s' ks' p"
    using o m q assms(4,5) by (cases p) auto
qed

lemma list_inv_distinct:
  assumes "list_inv n (with_thread s pc rest) ks"
  shows "distinct (ks @ fl_held s @ owned pc @ concat (map owned rest))"
proof -
  have "mset (ks @ fl_held s @ owned pc @ concat (map owned rest)) = mset [0 ..< n]"
    using assms by (simp add: list_inv_with_thread ac_simps)
  then show ?thesis using mset_eq_imp_distinct_iff distinct_upt by blast
qed

lemma missing_in_links:
  assumes "list_inv n (with_thread s pc rest) ks" "(x, y) \<in> set (missing_link pc) \<union> set (concat (map missing_link rest))"
  shows "(x, y) \<in> set (links ks)" "\<not> fl_has s x" "x \<in> set ks" "y \<in> set ks"
proof -
  have "mset (filter (\<lambda>(x, y). \<not> fl_has s x) (links ks)) = mset (missing_link pc @ concat (map missing_link rest))"
    using assms(1) by (simp add: list_inv_with_thread)
  from mset_eq_setD [OF this] assms(2) have "(x, y) \<in> set (filter (\<lambda>(x, y). \<not> fl_has s x) (links ks))" by simp
  then show "(x, y) \<in> set (links ks)" "\<not> fl_has s x" by simp_all
  then show "x \<in> set ks" "y \<in> set ks" using links_in by blast+
qed

section \<open>Steps\<close>

lemma knows_irrelevant [simp]:
  "knows_list (s\<lparr>fl_size := z\<rparr>) ks p = knows_list s ks p" "knows_list (s\<lparr>fl_tail := b\<rparr>) ks p = knows_list s ks p"
  "knows_list (s\<lparr>fl_head := b\<rparr>) ks p = knows_list s ks p" "knows_list (s\<lparr>fl_held := bs\<rparr>) ks p = knows_list s ks p"
  by (cases p, simp_all)+

lemma push_cas_inv:
  assumes inv: "list_inv n (with_thread s (PushCas b old) rest) ks" and "fl_tail s = old"
  shows "list_inv n (with_thread (s\<lparr>fl_tail := b\<rparr>) (PushLink b old) rest) (ks @ [b])"
proof -
  note i = inv [unfolded list_inv_with_thread]
  have k: "ks \<noteq> []" "old = last ks" "\<not> fl_has s (last ks)" "\<not> fl_has s b" using i assms(2) by auto
  have r: "\<forall>p \<in> set rest. knows_list s (ks @ [b]) p"
    by (rule rest_knows [of rest s ks]) (use i k in auto)
  show ?thesis
    using i k r by (simp add: list_inv_with_thread links_snoc ac_simps)
qed

lemma push_link_inv:
  assumes inv: "list_inv n (with_thread s (PushLink b old) rest) ks"
  shows "list_inv n (with_thread (s\<lparr>fl_next := (fl_next s)(old := b)\<rparr>) (PushFlag b old) rest) ks"
proof -
  let ?s = "s\<lparr>fl_next := (fl_next s)(old := b)\<rparr>"
  note i = inv [unfolded list_inv_with_thread]
  have o: "\<not> fl_has s old" "(old, b) \<in> set (links ks)" using missing_in_links [OF inv, of old b] by simp_all
  have d: "distinct (map fst (links ks))"
    using list_inv_distinct [OF inv] by (simp add: map_fst_links distinct_butlast)
  have "distinct (map fst (filter (\<lambda>(x, y). \<not> fl_has s x) (links ks)))" using d by (rule distinct_map_filter)
  moreover have "mset (map fst (filter (\<lambda>(x, y). \<not> fl_has s x) (links ks))) = mset (old # map fst (concat (map missing_link rest)))"
    using i by (simp add: mset_map)
  ultimately have "distinct (old # map fst (concat (map missing_link rest)))" using mset_eq_imp_distinct_iff by blast
  then have u: "x \<noteq> old" if "(x, y) \<in> set (concat (map missing_link rest))" for x y
    using that by (force simp: image_iff)
  have r: "\<forall>p \<in> set rest. knows_list ?s ks p"
    by (rule rest_knows [of rest s ks]) (use i o u in auto)
  have l: "\<forall>(x, y) \<in> set (links ks). fl_has s x \<longrightarrow> fl_next ?s x = y" using i o by auto
  show ?thesis using i r l by (simp add: list_inv_with_thread)
qed

lemma push_flag_inv:
  assumes inv: "list_inv n (with_thread s (PushFlag b old) rest) ks"
  shows "list_inv n (with_thread (s\<lparr>fl_has := (fl_has s)(old := True)\<rparr>) PushCount rest) ks"
proof -
  let ?s = "s\<lparr>fl_has := (fl_has s)(old := True)\<rparr>"
  note i = inv [unfolded list_inv_with_thread]
  note o = missing_in_links [OF inv, of old b, simplified]
  have d: "distinct ks" and own: "old \<notin> set (concat (map owned rest))"
    using list_inv_distinct [OF inv] o(3) by auto
  have l: "last ks \<noteq> old"
  proof -
    have "old \<in> set (butlast ks)" using o(1) map_fst_links [of ks] by (metis fst_conv image_eqI set_map)
    then show ?thesis using d i append_butlast_last_id [of ks] by (metis distinct_append disjoint_insert(1) list.simps(15))
  qed
  let ?F = "filter (\<lambda>(x, y). \<not> fl_has s x) (links ks)" and ?M = "concat (map missing_link rest)"
  have f: "mset ?F = mset ((old, b) # ?M)" using i by simp
  have "distinct ?F" using d by (simp add: links_def distinct_zipI1)
  then have m: "(old, b) \<notin> set ?M" using mset_eq_imp_distinct_iff [OF f] by simp
  have "filter (\<lambda>(x, y). \<not> fl_has ?s x) (links ks) = filter (\<lambda>z. z \<noteq> (old, b)) ?F"
    using links_unique [OF d o(1)] by (auto intro!: filter_cong split: if_splits)
  moreover have "mset (filter (\<lambda>z. z \<noteq> (old, b)) ?F) = mset (filter (\<lambda>z. z \<noteq> (old, b)) ((old, b) # ?M))"
    using arg_cong [OF f, of "filter_mset (\<lambda>z. z \<noteq> (old, b))"] unfolding mset_filter [symmetric] .
  ultimately have "mset (filter (\<lambda>(x, y). \<not> fl_has ?s x) (links ks)) = mset (filter (\<lambda>z. z \<noteq> (old, b)) ((old, b) # ?M))"
    by (rule trans [OF arg_cong [where f = mset]])
  also have "filter (\<lambda>z. z \<noteq> (old, b)) ((old, b) # ?M) = ?M" using m by (auto simp: filter_id_conv)
  finally have "mset (filter (\<lambda>(x, y). \<not> fl_has ?s x) (links ks)) = mset ?M" .
  moreover have "\<forall>(x, y) \<in> set (links ks). fl_has ?s x \<longrightarrow> fl_next s x = y"
    using i links_unique [OF d o(1)] by (auto split: if_splits)
  moreover have "\<forall>p \<in> set rest. knows_list ?s ks p"
    by (rule rest_knows [of rest s ks]) (use i own in \<open>auto split: if_splits\<close>)
  ultimately show ?thesis using i l by (simp add: list_inv_with_thread)
qed

lemma pop_cas_inv:
  assumes inv: "list_inv n (with_thread s (PopCas h nxt k) rest) ks" and "fl_head s = h"
  obtains ks' where "list_inv n (with_thread (s\<lparr>fl_head := nxt\<rparr>) (PopTake h) rest) ks'"
proof -
  note i = inv [unfolded list_inv_with_thread]
  from i have "knows_list s ks (PopCas h nxt k)" "length (filter popping (PopCas h nxt k # rest)) \<le> 1"
    and kn: "\<forall>p \<in> set rest. knows_list s ks p" and l: "ks \<noteq> []" "\<not> fl_has s (last ks)" by blast+
  then have h: "h = hd ks" "fl_has s h" "nxt = fl_next s h" and np: "\<not> list_ex popping rest"
    by (auto simp: filter_empty_conv list_ex_iff)
  obtain ys where ys: "ks = h # ys" using h(1) l(1) by (cases ks) simp_all
  obtain y ks' where y: "ys = y # ks'" using h(2) l(2) ys by (cases ys) simp_all
  note i' = i [unfolded ys y]
  from i' have "mset (h # y # ks') + mset (fl_held s) + mset (owned (PopCas h nxt k)) + mset (concat (map owned rest)) = mset [0 ..< n]"
    by (elim conjE)
  then have m: "mset (y # ks') + mset (fl_held s) + mset (owned (PopTake h)) + mset (concat (map owned rest)) = mset [0 ..< n]"
    by (simp add: add_mset_commute [of y h])
  from i' have "\<forall>(x, z) \<in> set (links (h # y # ks')). fl_has s x \<longrightarrow> fl_next s x = z" by (elim conjE)
  then have n: "nxt = y" and l': "\<forall>(x, z) \<in> set (links (y # ks')). fl_has s x \<longrightarrow> fl_next s x = z" using h(2,3) by simp_all
  from i' have "mset (filter (\<lambda>(x, y). \<not> fl_has s x) (links (h # y # ks')))
      = mset (missing_link (PopCas h nxt k)) + mset (concat (map missing_link rest))" by (elim conjE)
  then have f: "mset (filter (\<lambda>(x, y). \<not> fl_has s x) (links (y # ks'))) = mset (missing_link (PopTake h)) + mset (concat (map missing_link rest))"
    using h(2) by simp
  from i' have "fl_size s = int (length (h # y # ks')) - size_lag (PopCas h nxt k) - sum_list (map size_lag rest)" by (elim conjE)
  then have z: "fl_size s = int (length (y # ks')) - size_lag (PopTake h) - sum_list (map size_lag rest)" by simp
  from i' have t: "fl_tail s = last (y # ks')" by simp
  have r: "\<forall>p \<in> set rest. knows_list s (y # ks') p" by (rule rest_knows [OF kn]) (use np in simp_all)
  have p: "length (filter popping (PopTake h # rest)) \<le> 1" using np by (simp add: filter_empty_conv list_ex_iff)
  have "list_inv n (with_thread (s\<lparr>fl_head := nxt\<rparr>) (PopTake h) rest) (y # ks')"
    unfolding list_inv_with_thread using m l' f z t r p n l(2) ys y by simp
  then show ?thesis by (rule that)
qed

lemma pop_take_inv:
  assumes inv: "list_inv n (with_thread s (PopTake h) rest) ks"
  shows "list_inv n (with_thread (s\<lparr>fl_has := (fl_has s)(h := False), fl_held := h # fl_held s\<rparr>) Idle rest) ks"
proof -
  let ?s = "s\<lparr>fl_has := (fl_has s)(h := False)\<rparr>"
  note i = inv [unfolded list_inv_with_thread]
  have h: "h \<notin> set ks" using list_inv_distinct [OF inv] by auto
  have np: "\<not> list_ex popping rest" using i by (simp add: filter_empty_conv list_ex_iff)
  have r: "\<forall>p \<in> set rest. knows_list ?s ks p"
    by (rule rest_knows [of rest s ks]) (use i np in \<open>auto split: if_splits\<close>)
  have f: "filter (\<lambda>(x, y). \<not> fl_has ?s x) (links ks) = filter (\<lambda>(x, y). \<not> fl_has s x) (links ks)"
    using h links_in by (auto intro!: filter_cong split: if_splits)
  have l: "\<forall>(x, y) \<in> set (links ks). fl_has ?s x \<longrightarrow> fl_next s x = y" using i by (auto split: if_splits)
  show ?thesis using i r f l h by (simp add: list_inv_with_thread ac_simps)
qed

lemma list_access_pcs: "list_access s pc = (s1, pc1) \<Longrightarrow> fl_pcs s1 = fl_pcs s"
  by (cases "(s, pc)" rule: list_access.cases) (auto split: if_splits)

text \<open>Accesses that leave the list alone.\<close>

lemma quiet_access_inv:
  assumes "list_inv n (with_thread s pc rest) ks" "list_access s pc = (s1, pc1)"
    and "\<forall>b old. pc \<noteq> PushLink b old \<and> pc \<noteq> PushFlag b old \<and> (pc = PushCas b old \<longrightarrow> fl_tail s \<noteq> old)"
    and "\<forall>h nxt k. pc \<noteq> PopTake h \<and> (pc = PopCas h nxt k \<longrightarrow> fl_head s \<noteq> h)"
  shows "list_inv n (with_thread s1 pc1 rest) ks"
  using assms by (cases "(s, pc)" rule: list_access.cases) (auto simp: list_inv_with_thread split: if_splits)

lemma access_inv:
  assumes inv: "list_inv n (with_thread s pc rest) ks" and acc: "list_access s pc = (s1, pc1)"
  obtains ks' where "list_inv n (with_thread s1 pc1 rest) ks'"
proof -
  consider (cas) b where "pc = PushCas b (fl_tail s)" | (link) b old where "pc = PushLink b old" | (flag) b old where "pc = PushFlag b old"
    | (pop) nxt k where "pc = PopCas (fl_head s) nxt k" | (take) h where "pc = PopTake h"
    | (quiet) "\<forall>b old. pc \<noteq> PushLink b old \<and> pc \<noteq> PushFlag b old \<and> (pc = PushCas b old \<longrightarrow> fl_tail s \<noteq> old)"
        "\<forall>h nxt k. pc \<noteq> PopTake h \<and> (pc = PopCas h nxt k \<longrightarrow> fl_head s \<noteq> h)"
    by blast
  then show ?thesis
  proof cases
    case cas
    then show ?thesis using that push_cas_inv [of n s b "fl_tail s" rest ks] inv acc by simp
  next
    case link
    then show ?thesis using that push_link_inv [of n s b old rest ks] inv acc by simp
  next
    case flag
    then show ?thesis using that push_flag_inv [of n s b old rest ks] inv acc by simp
  next
    case pop
    with inv acc have "list_inv n (with_thread s (PopCas (fl_head s) nxt k) rest) ks" "s1 = s\<lparr>fl_head := nxt\<rparr>" "pc1 = PopTake (fl_head s)" by simp_all
    then show ?thesis using pop_cas_inv [of n s "fl_head s" nxt k rest ks] that by blast
  next
    case take
    then show ?thesis using that pop_take_inv [of n s h rest ks] inv acc by simp
  next
    case quiet
    then show ?thesis using that quiet_access_inv [OF inv acc] by blast
  qed
qed

text \<open>A thread that is not in the list.\<close>

lemma list_inv_idle: "list_inv n (with_thread s Idle (fl_pcs s)) ks = list_inv n s ks"
  unfolding list_inv_with_thread by (simp add: list_inv_def)

text \<open>Whoever holds a buffer may write its header: the buffer is not in the list and in no other thread's hands.\<close>

lemma held_header_inv:
  assumes inv: "list_inv n (with_thread s pc rest) ks" and b: "b \<in> set (fl_held s)" and pc: "pc = Idle"
  shows "list_inv n (with_thread (s\<lparr>fl_has := (fl_has s)(b := has), fl_next := (fl_next s)(b := nxt)\<rparr>) pc rest) ks"
proof -
  let ?s = "s\<lparr>fl_has := (fl_has s)(b := has), fl_next := (fl_next s)(b := nxt)\<rparr>"
  note i = inv [unfolded list_inv_with_thread]
  have d: "b \<notin> set ks" "b \<notin> set (concat (map owned rest))" using list_inv_distinct [OF inv] b by auto
  from i have kn: "\<forall>p \<in> set rest. knows_list s ks p" and k: "ks \<noteq> []" by blast+
  have m: "x \<noteq> b" if "(x, y) \<in> set (concat (map missing_link rest))" for x y
    using missing_in_links(3) [OF inv, of x y] that d(1) by auto
  have e: "x \<noteq> b" if "(x, y) \<in> set (links ks)" for x y using links_in [OF that] d(1) by auto
  have h: "hd ks \<noteq> b" "last ks \<noteq> b" using k d(1) hd_in_set [OF k] last_in_set [OF k] by blast+
  have r: "\<forall>p \<in> set rest. knows_list ?s ks p"
  proof (rule rest_knows [OF kn])
    show "fl_has s c" if "c \<in> set (concat (map owned rest))" "fl_has ?s c" for c using that d(2) by (auto split: if_splits)
    show "fl_next ?s x = fl_next s x" if "(x, y) \<in> set (concat (map missing_link rest))" for x y using m [OF that] by simp
  qed (use h in simp_all)
  have f: "filter (\<lambda>(x, y). \<not> fl_has ?s x) (links ks) = filter (\<lambda>(x, y). \<not> fl_has s x) (links ks)"
    using e by (intro filter_cong refl) (auto split: if_splits)
  have l: "\<forall>(x, y) \<in> set (links ks). fl_has ?s x \<longrightarrow> fl_next ?s x = y" using i e by auto
  show ?thesis using i r f l h(2) pc by (simp add: list_inv_with_thread)
qed

lemma call_push_inv:
  assumes inv: "list_inv n (with_thread s Idle rest) ks" and b: "b \<in> set (fl_held s)"
  shows "list_inv n (with_thread (s\<lparr>fl_has := (fl_has s)(b := False), fl_held := remove1 b (fl_held s)\<rparr>) (PushLoad b) rest) ks"
proof -
  let ?s = "s\<lparr>fl_has := (fl_has s)(b := False)\<rparr>"
  have "list_inv n (with_thread (s\<lparr>fl_has := (fl_has s)(b := False), fl_next := (fl_next s)(b := fl_next s b)\<rparr>) Idle rest) ks"
    by (rule held_header_inv [OF inv b refl])
  then have i: "list_inv n (with_thread ?s Idle rest) ks" by simp
  obtain M where "mset (fl_held s) = add_mset b M" using b multi_member_split [of b "mset (fl_held s)"] by auto
  then show ?thesis using i by (simp add: list_inv_with_thread)
qed

lemma call_pop_inv:
  assumes "list_inv n (with_thread s Idle rest) ks" "\<not> list_ex popping rest"
  shows "list_inv n (with_thread s (PopSize (fl_head s)) rest) ks"
  using assms by (simp add: list_inv_with_thread filter_empty_conv list_ex_iff)

lemma access_do_inv:
  assumes inv: "list_inv n s ks" and t: "t < length (fl_pcs s)"
  shows "\<exists>ks'. list_inv n (list_do (Access t) s) ks'"
proof -
  obtain s1 pc1 where a: "list_access s (fl_pcs s ! t) = (s1, pc1)" by fastforce
  have p: "fl_pcs s1 = fl_pcs s" by (rule list_access_pcs [OF a])
  have o: "others_of t s1 = others_of t s" by (simp add: others_of_def p)
  have "list_inv n (with_thread s (fl_pcs s ! t) (others_of t s)) ks" using inv list_inv_thread [OF t] by simp
  from access_inv [OF this a] obtain ks' where "list_inv n (with_thread s1 pc1 (others_of t s)) ks'" .
  then have "list_inv n (set_pc t pc1 s1) ks'" using list_inv_set_pc [of t s1 n pc1 ks'] t p o by simp
  then show ?thesis using a t by auto
qed

lemma list_do_inv:
  assumes inv: "list_inv n s ks" and alone: "\<And>t. e = CallPop t \<Longrightarrow> \<not> list_ex popping (fl_pcs s)"
  shows "\<exists>ks'. list_inv n (list_do e s) ks'"
proof (cases "list_do e s = s")
  case True
  then show ?thesis using inv by auto
next
  case False
  show ?thesis
  proof (cases e)
    case (CallPop t)
    with False have t: "t < length (fl_pcs s)" "fl_pcs s ! t = Idle" by (simp_all split: if_splits)
    have "\<not> list_ex popping (others_of t s)" using alone [OF CallPop] others_of_subset [of t s] by (auto simp: list_ex_iff)
    then have "list_inv n (set_pc t (PopSize (fl_head s)) s) ks"
      using call_pop_inv [of n s "others_of t s" ks] inv list_inv_thread [OF t(1), of n ks] list_inv_set_pc [OF t(1), of n] t(2) by simp
    then show ?thesis using CallPop t by auto
  next
    case (CallPush t b)
    let ?s = "s\<lparr>fl_has := (fl_has s)(b := False), fl_held := remove1 b (fl_held s)\<rparr>"
    from CallPush False have t: "t < length (fl_pcs s)" "fl_pcs s ! t = Idle" "b \<in> set (fl_held s)" by (simp_all split: if_splits)
    have "others_of t ?s = others_of t s" by (simp add: others_of_def)
    then have "list_inv n (set_pc t (PushLoad b) ?s) ks"
      using call_push_inv [of n s "others_of t s" ks b] inv list_inv_thread [OF t(1), of n ks] list_inv_set_pc [of t ?s n "PushLoad b" ks] t by simp
    then show ?thesis using CallPush t by auto
  next
    case (Access t)
    with False have "t < length (fl_pcs s)" by (simp split: if_splits)
    then show ?thesis unfolding Access by (rule access_do_inv [OF inv])
  next
    case (WriteHeader b has nxt)
    let ?s = "s\<lparr>fl_has := (fl_has s)(b := has), fl_next := (fl_next s)(b := nxt)\<rparr>"
    from WriteHeader False have b: "b \<in> set (fl_held s)" by (simp split: if_splits)
    have "list_inv n ?s ks"
      using held_header_inv [of n s Idle "fl_pcs s" ks b nxt has] list_inv_idle [of n s ks] list_inv_idle [of n ?s ks] inv b by simp
    then show ?thesis using WriteHeader b by auto
  qed
qed

lemma list_events_inv:
  "list_inv n s ks \<Longrightarrow> pops_alone es s \<Longrightarrow> \<exists>ks'. list_inv n (list_events es s) ks'"
proof (induction es arbitrary: s ks)
  case (Cons e es)
  have "\<not> list_ex popping (fl_pcs s)" if "e = CallPop t" for t using Cons.prems(2) that by simp
  then obtain ks' where "list_inv n (list_do e s) ks'" using list_do_inv [OF Cons.prems(1), of e] by blast
  with Cons show ?case by simp
qed auto

lemma all_idle:
  assumes "set pcs \<subseteq> {Idle}"
  shows "sum_list (map size_lag pcs) = 0" "concat (map missing_link pcs) = []"
  using assms by (induction pcs) auto

lemma links_upt: "(x, y) \<in> set (links [0 ..< n]) \<Longrightarrow> y = Suc x \<and> y < n"
  by (auto simp: links_def in_set_zip nth_tl)

lemma fresh_list_inv:
  assumes "0 < n"
  shows "list_inv n (fresh_shared_list n k) [0 ..< n]"
proof -
  have "filter (\<lambda>(x, y). \<not> x < n - 1) (links [0 ..< n]) = []" by (auto simp: filter_empty_conv dest!: links_upt)
  moreover have "\<forall>(x, y) \<in> set (links [0 ..< n]). x < n - 1 \<longrightarrow> Suc x = y" using links_upt by blast
  moreover have "concat (replicate k []) = ([] :: 'a list)" "filter popping (replicate k Idle) = []" "sum_list (replicate k (0 :: int)) = 0"
    by (induction k) simp_all
  ultimately show ?thesis using assms by (simp add: list_inv_def fresh_shared_list_def map_replicate_const)
qed

text \<open>In an idle list every link is set and the size is exact.\<close>

lemma idle_links:
  assumes "list_inv n s ks" "set (fl_pcs s) \<subseteq> {Idle}"
  shows "fl_size s = int (length ks)" "\<forall>(x, y) \<in> set (links ks). fl_has s x"
proof -
  note z = all_idle [OF assms(2)]
  from assms(1) [unfolded list_inv_def] have "fl_size s = int (length ks) - sum_list (map size_lag (fl_pcs s))" by (elim conjE)
  with z(1) show "fl_size s = int (length ks)" by simp
  from assms(1) [unfolded list_inv_def]
  have "mset (filter (\<lambda>(x, y). \<not> fl_has s x) (links ks)) = mset (concat (map missing_link (fl_pcs s)))" by (elim conjE)
  then have "filter (\<lambda>(x, y). \<not> fl_has s x) (links ks) = []" unfolding z(2) by (simp only: mset_zero_iff mset.simps(1))
  then show "\<forall>(x, y) \<in> set (links ks). fl_has s x" by (auto simp: filter_empty_conv)
qed

section \<open>Overlapping calls\<close>

text \<open>A call of a thread that nothing interrupts.\<close>

definition pop_by :: "nat \<Rightarrow> list_event list" where
  "pop_by t = CallPop t # replicate 5 (Access t)"

definition push_by :: "nat \<Rightarrow> nat \<Rightarrow> list_event list" where
  "push_by t b = CallPush t b # replicate 5 (Access t)"

lemma list_events_append: "list_events (es @ fs) s = list_events fs (list_events es s)"
  by (induction es arbitrary: s) simp_all

text \<open>The state after a call that nothing interrupts.\<close>

lemma pop_by_state:
  assumes "t < length (fl_pcs s)" "fl_pcs s ! t = Idle" "1 < fl_size s" "fl_has s (fl_head s)"
  shows "list_events (pop_by t) s = s\<lparr>fl_head := fl_next s (fl_head s), fl_size := fl_size s - 1,
    fl_has := (fl_has s)(fl_head s := False), fl_held := fl_head s # fl_held s\<rparr>"
  using assms list_update_id [of "fl_pcs s" t]
  by (simp add: pop_by_def numeral_eq_Suc set_pc_def Let_def)

lemma push_by_state:
  assumes "t < length (fl_pcs s)" "fl_pcs s ! t = Idle" "b \<in> set (fl_held s)" "fl_tail s \<noteq> b"
  shows "list_events (push_by t b) s = s\<lparr>fl_tail := b, fl_size := fl_size s + 1, fl_has := (fl_has s)(b := False, fl_tail s := True),
    fl_next := (fl_next s)(fl_tail s := b), fl_held := remove1 b (fl_held s)\<rparr>"
  using assms list_update_id [of "fl_pcs s" t]
  by (simp add: push_by_def numeral_eq_Suc set_pc_def Let_def)

text \<open>A list whose links are all set, with what is held, its size word and its threads.\<close>

definition linked :: "shared_list \<Rightarrow> nat list \<Rightarrow> nat list \<Rightarrow> int \<Rightarrow> list_pc list \<Rightarrow> bool" where
  "linked s ks hs c pcs \<longleftrightarrow> ks \<noteq> [] \<and> distinct (ks @ hs) \<and> fl_head s = hd ks \<and> fl_tail s = last ks
     \<and> (\<forall>(x, y) \<in> set (links ks). fl_has s x \<and> fl_next s x = y)
     \<and> fl_held s = hs \<and> fl_size s = c \<and> fl_pcs s = pcs"

lemma linked_pop:
  assumes l: "linked s (x # y # r) hs c pcs" and t: "t < length pcs" "pcs ! t = Idle" "1 < c"
  shows "linked (list_events (pop_by t) s) (y # r) (x # hs) (c - 1) pcs"
proof -
  have h: "fl_head s = x" "fl_has s x" "fl_next s x = y" "fl_pcs s = pcs" "fl_size s = c" "x \<notin> set (y # r)"
    using l by (auto simp: linked_def)
  have "\<forall>(u, v) \<in> set (links (y # r)). u \<noteq> x" using h(6) by (auto dest: links_in)
  then show ?thesis using l pop_by_state [of t s] t h by (auto simp: linked_def)
qed

lemma linked_push:
  assumes l: "linked s ks hs c pcs" and t: "t < length pcs" "pcs ! t = Idle" "b \<in> set hs"
  shows "linked (list_events (push_by t b) s) (ks @ [b]) (remove1 b hs) (c + 1) pcs"
proof -
  have d: "ks \<noteq> []" "distinct (ks @ hs)" "fl_tail s = last ks" "fl_pcs s = pcs" "fl_held s = hs" "fl_size s = c"
    "\<forall>(x, y) \<in> set (links ks). fl_has s x \<and> fl_next s x = y" "fl_head s = hd ks"
    using l by (simp_all add: linked_def)
  have b: "b \<notin> set ks" using d(2) t(3) by auto
  then have b': "last ks \<noteq> b" using last_in_set [OF d(1)] by auto
  have u: "x \<noteq> b \<and> (x = last ks \<longrightarrow> False)" if "(x, y) \<in> set (links ks)" for x y
  proof -
    have "x \<in> set (butlast ks)" using that map_fst_links [of ks] by (metis fst_conv in_set_zipE list.set_map rev_image_eqI)
    moreover have "last ks \<notin> set (butlast ks)" using d(1,2) by (metis append_butlast_last_id distinct_append not_distinct_conv_prefix)
    ultimately show ?thesis using b by (auto dest: in_set_butlastD)
  qed
  have "\<forall>(x, y) \<in> set (links (ks @ [b])). ((fl_has s)(b := False, last ks := True)) x \<and> ((fl_next s)(last ks := b)) x = y"
    using u d(7) by (auto simp: links_snoc [OF d(1)])
  moreover have "distinct ((ks @ [b]) @ remove1 b hs)" using d(2) b by auto
  ultimately show ?thesis using push_by_state [of t s b] d b b' t by (simp add: linked_def)
qed

text \<open>Taking the head and returning it, again and again.\<close>

definition turn_by :: "nat \<Rightarrow> nat list \<Rightarrow> list_event list" where
  "turn_by t xs = concat (map (\<lambda>x. pop_by t @ push_by t x) xs)"

lemma linked_turn:
  assumes t: "t < length pcs" "pcs ! t = Idle" "1 < c"
  shows "linked s (xs @ z # r) hs c pcs \<Longrightarrow> linked (list_events (turn_by t xs) s) (z # r @ xs) hs c pcs"
proof (induction xs arbitrary: s r)
  case (Cons x xs)
  obtain y r' where y: "xs @ z # r = y # r'" by (cases xs) auto
  have "linked (list_events (pop_by t) s) (xs @ z # r) (x # hs) (c - 1) pcs"
    using linked_pop [of s x y r'] Cons.prems t y by simp
  from linked_push [OF this t(1,2), of x] have "linked (list_events (pop_by t @ push_by t x) s) (xs @ z # r @ [x]) hs c pcs"
    by (simp add: list_events_append)
  from Cons.IH [OF this] show ?case by (simp add: turn_by_def list_events_append)
qed (simp add: turn_by_def)

text \<open>A call of \<open>pop\<close> up to the exchange of the head, and from there on.\<close>

lemma linked_park:
  assumes l: "linked s (x # y # r) hs c pcs" and t: "t < length pcs" "pcs ! t = Idle" "1 < c"
  shows "linked (list_events (take 4 (pop_by t)) s) (x # y # r) hs (c - 1) (pcs[t := PopCas x y 199])"
  using l t by (simp add: linked_def pop_by_def numeral_eq_Suc set_pc_def Let_def)

lemma finish_pop:
  assumes "t < length (fl_pcs s)" "fl_pcs s ! t = PopCas h y k" "fl_head s = h"
  shows "list_events (drop 4 (pop_by t)) s = s\<lparr>fl_head := y, fl_has := (fl_has s)(h := False), fl_held := h # fl_held s,
    fl_pcs := (fl_pcs s)[t := Idle]\<rparr>"
  using assms by (simp add: pop_by_def numeral_eq_Suc set_pc_def Let_def)

text \<open>
  Thread \<open>t\<close> is about to exchange the head \<open>h\<close> for its successor \<open>y\<close>. Thread \<open>u\<close> takes both, returns \<open>h\<close>, turns the rest \<open>r @ [z]\<close> of the
  list until \<open>z\<close> is at the head and takes that as well, so that \<open>h\<close> is the head again; \<open>t\<close> goes on. Then \<open>t\<close> returns \<open>h\<close>, the
  holder of \<open>y\<close> links it to the next buffer of its message, and \<open>u\<close> calls \<open>pop\<close>.
\<close>

definition overtake :: "nat \<Rightarrow> nat \<Rightarrow> nat \<Rightarrow> nat list \<Rightarrow> list_event list" where
  "overtake t u h r = take 4 (pop_by t) @ pop_by u @ pop_by u @ push_by u h @ turn_by u r @ pop_by u @ drop 4 (pop_by t)"

definition share_schedule :: "nat \<Rightarrow> nat \<Rightarrow> nat list \<Rightarrow> list_event list" where
  "share_schedule t u ks = (let h = ks ! 0; y = ks ! 1; r = butlast (drop 2 ks); z = last ks
     in overtake t u h r @ push_by t h @ [WriteHeader y True z] @ pop_by u)"

lemma overtake_state:
  assumes l: "linked s (h # y # r @ [z]) hs c pcs" and r: "r \<noteq> []" and c: "c = int (length r) + 3"
    and t: "t < length pcs" "pcs ! t = Idle" and u: "u < length pcs" "pcs ! u = Idle" "t \<noteq> u"
  obtains s' where "list_events (overtake t u h r) s = s'" "fl_head s' = y" "fl_held s' = h # z # y # hs" "fl_pcs s' = pcs"
    "fl_size s' = int (length r)" "fl_tail s' = last r"
proof -
  let ?p = "pcs[t := PopCas h y 199]"
  have p: "u < length ?p" "?p ! u = Idle" "t < length ?p" "?p ! t = PopCas h y 199" using t u by simp_all
  have q: "pcs[t := Idle] = pcs" using list_update_id [of pcs t] t(2) by simp
  have rl: "0 < length r" using r by simp
  obtain x r' where x: "r @ [z] = x # r'" by (cases r) auto
  define s1 where "s1 = list_events (take 4 (pop_by t)) s"
  define s3 where "s3 = list_events (pop_by u) (list_events (pop_by u) s1)"
  define s4 where "s4 = list_events (turn_by u r) (list_events (push_by u h) s3)"
  define s5 where "s5 = list_events (pop_by u) s4"
  have "linked s1 (h # y # r @ [z]) hs (c - 1) ?p" unfolding s1_def by (rule linked_park [OF l t]) (use c rl in simp)
  from linked_pop [OF this p(1,2)] have "linked (list_events (pop_by u) s1) (y # x # r') (h # hs) (c - 1 - 1) ?p"
    using c rl x by simp
  from linked_pop [OF this p(1,2)] have "linked s3 (r @ [z]) (y # h # hs) (c - 1 - 1 - 1) ?p"
    using c rl unfolding s3_def x by simp
  from linked_push [OF this p(1,2), of h]
  have "linked (list_events (push_by u h) s3) (r @ z # [h]) (remove1 h (y # h # hs)) (c - 2) ?p" by (simp add: algebra_simps)
  moreover have "y \<noteq> h" using l by (auto simp: linked_def)
  ultimately have "linked s4 (z # [h] @ r) (y # hs) (c - 2) ?p"
    unfolding s4_def by (intro linked_turn [OF p(1,2)]) (use c rl in simp_all)
  then have "linked s4 (z # h # r) (y # hs) (c - 2) ?p" by simp
  from linked_pop [OF this p(1,2)] have l5: "linked s5 (h # r) (z # y # hs) (c - 3) ?p"
    using c rl unfolding s5_def by (simp add: algebra_simps)
  have "list_events (overtake t u h r) s = list_events (drop 4 (pop_by t)) s5"
    by (simp add: overtake_def list_events_append s1_def s3_def s4_def s5_def)
  moreover let ?s = "s5\<lparr>fl_head := y, fl_has := (fl_has s5)(h := False), fl_held := h # z # y # hs, fl_pcs := pcs\<rparr>"
  have "list_events (drop 4 (pop_by t)) s5 = ?s"
    using finish_pop [of t s5 h y 199] l5 p q by (simp add: linked_def)
  ultimately show thesis using l5 c r by (intro that [of ?s]) (simp_all add: linked_def)
qed

lemma share_schedule_shares:
  assumes l: "linked s ks hs (int (length ks)) pcs" and n: "4 \<le> length ks"
    and t: "t < length pcs" "pcs ! t = Idle" and u: "u < length pcs" "pcs ! u = Idle" "t \<noteq> u"
  shows "count_list (fl_held (list_events (share_schedule t u ks) s)) (ks ! 1) = 2"
    "fl_pcs (list_events (share_schedule t u ks) s) = pcs"
proof -
  obtain h y ks' where k: "ks = h # y # ks'" "2 \<le> length ks'"
    using n by (cases ks; cases "tl ks") auto
  define r z where "r = butlast ks'" and "z = last ks'"
  have ks: "ks = h # y # r @ [z]" and r: "r \<noteq> []"
    using k by (auto simp: r_def z_def intro!: append_butlast_last_id [symmetric]) (cases ks'; cases "tl ks'"; simp)
  have sc: "share_schedule t u ks = overtake t u h r @ push_by t h @ [WriteHeader y True z] @ pop_by u"
    by (simp add: share_schedule_def ks Let_def)
  obtain s1 where s1: "list_events (overtake t u h r) s = s1" "fl_head s1 = y" "fl_held s1 = h # z # y # hs" "fl_pcs s1 = pcs"
    "fl_size s1 = int (length r)" "fl_tail s1 = last r"
    by (rule overtake_state [OF _ r _ t u, of s h y z hs "int (length ks)"]) (use l in \<open>simp_all add: ks\<close>)
  have d: "distinct (h # y # r @ [z])" "y \<notin> set hs" using l by (auto simp: linked_def ks)
  have "last r \<noteq> h" "last r \<noteq> y" using d(1) r by auto
  define s2 where "s2 = list_events (push_by t h) s1"
  have s2: "fl_head s2 = y" "fl_held s2 = z # y # hs" "fl_pcs s2 = pcs" "fl_size s2 = int (length r) + 1"
    using push_by_state [of t s1 h] s1 t \<open>last r \<noteq> h\<close> by (simp_all add: s2_def)
  define s3 where "s3 = list_do (WriteHeader y True z) s2"
  have s3: "fl_head s3 = y" "fl_held s3 = z # y # hs" "fl_pcs s3 = pcs" "fl_size s3 = int (length r) + 1" "fl_has s3 y"
    using s2 by (simp_all add: s3_def)
  have "0 < length r" using r by simp
  then have "list_events (pop_by u) s3 = s3\<lparr>fl_head := fl_next s3 y, fl_size := fl_size s3 - 1, fl_has := (fl_has s3)(y := False),
      fl_held := y # z # y # hs\<rparr>"
    using pop_by_state [of u s3] s3 u by simp
  moreover have "list_events (share_schedule t u ks) s = list_events (pop_by u) s3"
    by (simp add: sc list_events_append s1(1) s2_def s3_def)
  ultimately show "count_list (fl_held (list_events (share_schedule t u ks) s)) (ks ! 1) = 2"
    "fl_pcs (list_events (share_schedule t u ks) s) = pcs"
    using d s3(3) by (auto simp: ks count_list_0_iff)
qed

lemma idle_linked:
  assumes i: "list_inv n s ks" and z: "set (fl_pcs s) \<subseteq> {Idle}"
  shows "linked s ks (fl_held s) (int (length ks)) (fl_pcs s)" "fl_size s = int (length ks)" "distinct (fl_held s)"
proof -
  have "concat (map owned (fl_pcs s)) = []" using z by auto
  moreover have "mset ks + mset (fl_held s) + mset (concat (map owned (fl_pcs s))) = mset [0 ..< n]"
    using i unfolding list_inv_def by (elim conjE)
  ultimately have "mset (ks @ fl_held s) = mset [0 ..< n]" by (simp only: mset.simps(1) mset_append add_0_right)
  then have d: "distinct (ks @ fl_held s)" using mset_eq_imp_distinct_iff by fastforce
  then show "distinct (fl_held s)" by simp
  show sz: "fl_size s = int (length ks)" by (rule idle_links(1) [OF i z])
  show "linked s ks (fl_held s) (int (length ks)) (fl_pcs s)"
    using i idle_links [OF i z] d unfolding linked_def list_inv_def by fast
qed

lemma list_events_threads: "length (fl_pcs (list_events es s)) = length (fl_pcs s)"
proof (induction es arbitrary: s)
  case (Cons e es)
  have "length (fl_pcs (list_do e s)) = length (fl_pcs s)"
    by (cases e) (auto simp: set_pc_def Let_def split: prod.split dest: list_access_pcs)
  with Cons show ?case by simp
qed simp

section \<open>Properties\<close>

text \<open>
  Property C15. As long as no two calls of \<open>pop\<close> overlap, any number of threads that push, and one that pops, keep the free list of a buffer list
  whole, however their accesses interleave: every buffer is in the list, held by a user, or in the hands of one thread,
  and only in one place. When no call is running, the list from head to tail is linked and its size is exact.
\<close>

theorem separate_pops_keep_buffers:
  assumes "0 < n" "pops_alone es (fresh_shared_list n k)" "list_events es (fresh_shared_list n k) = s"
  shows "\<exists>ks. mset ks + mset (fl_held s) + mset (concat (map owned (fl_pcs s))) = mset [0 ..< n]
    \<and> ks \<noteq> [] \<and> fl_head s = hd ks \<and> fl_tail s = last ks
    \<and> (set (fl_pcs s) \<subseteq> {Idle} \<longrightarrow> fl_size s = int (length ks)
        \<and> (\<forall>(x, y) \<in> set (links ks). fl_has s x \<and> fl_next s x = y) \<and> \<not> fl_has s (last ks))"
proof -
  obtain ks where i: "list_inv n s ks" using list_events_inv [OF fresh_list_inv [OF assms(1)] assms(2)] assms(3) by blast
  have "fl_size s = int (length ks)" "\<forall>(x, y) \<in> set (links ks). fl_has s x" if "set (fl_pcs s) \<subseteq> {Idle}"
    using idle_links [OF i that] .
  then show ?thesis using i unfolding list_inv_def by (intro exI [of _ ks]) fast
qed

theorem separate_pops_keep_buffers_witness:
  "\<exists>ks. mset ks + mset (fl_held (list_events (pop_by 0 @ pop_by 1) (fresh_shared_list 4 2)))
      + mset (concat (map owned (fl_pcs (list_events (pop_by 0 @ pop_by 1) (fresh_shared_list 4 2))))) = mset [0 ..< 4]
    \<and> fl_head (list_events (pop_by 0 @ pop_by 1) (fresh_shared_list 4 2)) = hd ks"
proof -
  have "pops_alone (pop_by 0 @ pop_by 1) (fresh_shared_list 4 2)" by code_simp
  then show ?thesis using separate_pops_keep_buffers [of 4 "pop_by 0 @ pop_by 1" 2] by fastforce
qed

text \<open>
  Property C37. Two calls of \<open>pop\<close> that overlap can hand out a buffer twice: between the read of the next offset and the exchange of the head, other calls
  can take the head and its successor and bring the head back, and the exchange, which only compares the head, succeeds. This can happen at any time: however
  a list has been used before without overlapping calls, once no call runs and at least four buffers are free, two threads can come to hold
  the second buffer of the list both, by calls of \<open>pop\<close> and \<open>push\<close> with buffers they hold and one link the holder of that buffer sets in its header.
\<close>

theorem overlapping_pops_share_buffer:
  assumes "0 < n" "pops_alone es (fresh_shared_list n k)" "s = list_events es (fresh_shared_list n k)"
    and "set (fl_pcs s) \<subseteq> {Idle}" "4 \<le> fl_size s" "t < k" "u < k" "t \<noteq> u"
  shows "distinct (fl_held s) \<and> (\<exists>es' b. count_list (fl_held (list_events es' s)) b = 2 \<and> set (fl_pcs (list_events es' s)) \<subseteq> {Idle})"
proof -
  obtain ks where i: "list_inv n s ks"
    using list_events_inv [OF fresh_list_inv [OF assms(1)] assms(2)] assms(3) by blast
  note l = idle_linked [OF i assms(4)]
  have len: "length (fl_pcs s) = k" using list_events_threads [of es "fresh_shared_list n k"] assms(3) by (simp add: fresh_shared_list_def)
  have id: "fl_pcs s ! j = Idle" if "j < k" for j using that assms(4) len nth_mem by blast
  have "4 \<le> length ks" using l(2) assms(5) by simp
  with share_schedule_shares [OF l(1), of t u] len id assms(4,6-8) l(3) show ?thesis by metis
qed

theorem overlapping_pops_share_buffer_witness:
  "\<exists>es' b. count_list (fl_held (list_events es' (list_events (pop_by 0) (fresh_shared_list 5 2)))) b = 2"
proof -
  have "pops_alone (pop_by 0) (fresh_shared_list 5 2)" "set (fl_pcs (list_events (pop_by 0) (fresh_shared_list 5 2))) \<subseteq> {Idle}"
    "4 \<le> fl_size (list_events (pop_by 0) (fresh_shared_list 5 2))" by code_simp+
  from overlapping_pops_share_buffer [OF _ this(1) refl this(2,3), of 0 1] show ?thesis by auto
qed

end
