(* ===== verification/Sync.thy ===== *)
theory Sync
  imports Errors
begin

text \<open>
  \<open>include/shmipc/sync/channel.hpp\<close>, \<open>include/shmipc/sync/event.hpp\<close> and the promise that
  comes with every send request. An operation of a channel is what it does under its mutex once
  its wait is over; \<open>None\<close> means that it has to wait in this state. A thread
  that waits is woken by a later state, see \<open>awaited\<close> in \<open>Session_State\<close>.
\<close>

section \<open>Channel\<close>

record 'a channel =
  ch_queue :: "'a list"
  ch_cap :: nat
  ch_stopped :: bool

definition make_channel :: "nat \<Rightarrow> 'a channel" where
  "make_channel cap = \<lparr>ch_queue = [], ch_cap = cap, ch_stopped = False\<rparr>"

definition ch_is_full :: "'a channel \<Rightarrow> bool" where
  "ch_is_full c \<longleftrightarrow> ch_cap c \<noteq> 0 \<and> length (ch_queue c) \<ge> ch_cap c"

definition ch_push :: "'a channel \<Rightarrow> 'a \<Rightarrow> ('a channel \<times> bool) option" where
  "ch_push c v =
     (if \<not> (ch_stopped c \<or> \<not> ch_is_full c) then None
      else if ch_stopped c then Some (c, False)
      else Some (c\<lparr>ch_queue := ch_queue c @ [v]\<rparr>, True))"

text \<open>The state is the one in which the wait ended, by notification or by timeout.\<close>

definition ch_push_timeout :: "'a channel \<Rightarrow> 'a \<Rightarrow> 'a channel \<times> bool" where
  "ch_push_timeout c v =
     (if \<not> (ch_stopped c \<or> \<not> ch_is_full c) then (c, False)
      else if ch_stopped c then (c, False)
      else (c\<lparr>ch_queue := ch_queue c @ [v]\<rparr>, True))"

definition ch_pop :: "'a channel \<Rightarrow> ('a channel \<times> 'a option) option" where
  "ch_pop c =
     (if \<not> (ch_stopped c \<or> ch_queue c \<noteq> []) then None
      else case ch_queue c of
             [] \<Rightarrow> Some (c, None)
           | v # vs \<Rightarrow> Some (c\<lparr>ch_queue := vs\<rparr>, Some v))"

definition ch_stop :: "'a channel \<Rightarrow> 'a channel" where
  "ch_stop c = c\<lparr>ch_stopped := True\<rparr>"

section \<open>Promises\<close>

text \<open>A promise is set by the write loop or broken when its request is destroyed unsent.\<close>

datatype promise = Pending | Fulfilled | Broken

section \<open>Lemmas\<close>

lemma ch_push_sent: "ch_push c v = Some (c', True) \<longleftrightarrow> \<not> ch_stopped c \<and> \<not> ch_is_full c \<and> c' = c\<lparr>ch_queue := ch_queue c @ [v]\<rparr>"
  by (auto simp: ch_push_def)

lemma ch_push_timeout_push:
  "ch_push_timeout c v = (case ch_push c v of None \<Rightarrow> (c, False) | Some r \<Rightarrow> r)"
  by (simp add: ch_push_timeout_def ch_push_def)

lemma ch_pop_push:
  assumes "ch_push c v = Some (c', True)"
  shows "ch_pop c' = (case ch_queue c of
      [] \<Rightarrow> Some (c, Some v)
    | w # ws \<Rightarrow> Some (c\<lparr>ch_queue := ws @ [v]\<rparr>, Some w))"
  using assms by (cases c) (auto simp: ch_push_sent ch_pop_def split: list.splits)

text \<open>A stopped channel takes nothing more and still hands out what it holds.\<close>

lemma ch_stop_push: "ch_push (ch_stop c) v = Some (ch_stop c, False)"
  by (simp add: ch_push_def ch_stop_def)

lemma ch_stop_pop:
  "ch_pop (ch_stop c) = (case ch_queue c of
      [] \<Rightarrow> Some (ch_stop c, None)
    | v # vs \<Rightarrow> Some (ch_stop (c\<lparr>ch_queue := vs\<rparr>), Some v))"
  by (cases c) (auto simp: ch_pop_def ch_stop_def split: list.splits)

end
