(* ===== verification/Linked_Buffer.thy ===== *)
theory Linked_Buffer
  imports Buffer_Setup
begin

text \<open>
  \<open>src/buffer/linked.cpp\<close>, \<open>include/shmipc/buffer/linked.hpp\<close> and
  \<open>include/shmipc/buffer/buf.hpp\<close>: the linked buffer a stream reads from and writes to.
  Every operation takes the buffer manager, the mapped memory and the linked buffer and
  returns them changed. Loops are \<open>partial_function (option)\<close>; \<open>None\<close> stands for a
  loop that does not return and for a dereferenced null or dangling pointer.
\<close>

section \<open>State\<close>

record linked_buffer =
  lb_slices :: slice_list
  lb_pinned :: slice_list
  lb_current_pinned :: bool
  lb_end_stream :: bool
  lb_is_from_shm :: bool
  lb_len :: nat

definition new_linked_buffer :: linked_buffer where
  "new_linked_buffer = \<lparr>lb_slices = empty_slice_list, lb_pinned = empty_slice_list,
     lb_current_pinned = False, lb_end_stream = False, lb_is_from_shm = True, lb_len = 0\<rparr>"

text \<open>
  \<open>Buf\<close>: a borrowed view or owned bytes. A view into a shared-memory slice is an address
  range; a view into a heap slice names the chain node that owns the storage.
\<close>

datatype view = ShmSpan nat nat | HeapSpan nat nat nat

datatype buf = ShmBuf view | ExmBuf bytes

definition view_of :: "nat \<Rightarrow> buffer_slice \<Rightarrow> nat \<Rightarrow> nat \<Rightarrow> view" where
  "view_of i s pos n = (case bs_data s of ShmData p \<Rightarrow> ShmSpan (p + pos) n | HeapData h \<Rightarrow> HeapSpan i pos n)"

text \<open>The bytes behind a \<open>Buf\<close>; \<open>None\<close> when its storage is gone.\<close>

definition buf_bytes :: "mem \<Rightarrow> linked_buffer \<Rightarrow> buf \<Rightarrow> bytes option" where
  "buf_bytes m lb b =
     (case b of
        ExmBuf bs \<Rightarrow> Some bs
      | ShmBuf (ShmSpan a n) \<Rightarrow> Some (mem_read m a n)
      | ShmBuf (HeapSpan i pos n) \<Rightarrow>
          (case map_of (sl_nodes (lb_slices lb)) i of
             Some s \<Rightarrow> (case bs_data s of HeapData h \<Rightarrow> Some (take n (drop pos h)) | ShmData p \<Rightarrow> None)
           | None \<Rightarrow> None))"

section \<open>Allocation\<close>

definition lb_alloc ::
  "buffer_manager \<Rightarrow> mem \<Rightarrow> linked_buffer \<Rightarrow> u32 \<Rightarrow> (mem \<times> linked_buffer) option" where
  "lb_alloc bm m lb sz =
     (case alloc_shm_buffer bm m sz of
        (m1, Inr buf) \<Rightarrow> Some (m1, lb\<lparr>lb_slices := push_back (lb_slices lb) buf\<rparr>)
      | (m1, Inl e) \<Rightarrow>
          (case alloc_shm_buffers bm m1 (lb_slices lb) sz of
             None \<Rightarrow> None
           | Some (m2, sl, alloc_size) \<Rightarrow>
               let remain = int (unat sz) - alloc_size in
               if remain > 0
               then let remain' = (if remain < int kDefaultSingleBufferSize
                                   then int kDefaultSingleBufferSize else remain)
                    in Some (m2, lb\<lparr>lb_slices := push_back sl (from_heap (replicate (nat remain') 0)),
                                    lb_is_from_shm := False\<rparr>)
               else Some (m2, lb\<lparr>lb_slices := sl\<rparr>)))"

section \<open>Handing over\<close>

text \<open>The loop of \<open>done\<close> that flushes the headers up to the write slice.\<close>

fun update_upto :: "mem \<Rightarrow> nat option \<Rightarrow> chain \<Rightarrow> mem" where
  "update_upto m w [] = m"
| "update_upto m w ((i, s) # xs) =
     (let m1 = update m s (case xs of [] \<Rightarrow> None | x # _ \<Rightarrow> Some (snd x))
      in if w = Some i then m1 else update_upto m1 w xs)"

definition lb_done ::
  "buffer_manager \<Rightarrow> mem \<Rightarrow> linked_buffer \<Rightarrow> bool \<Rightarrow> (mem \<times> linked_buffer) option" where
  "lb_done bm m lb end_stream =
     (if \<not> lb_is_from_shm lb then Some (m, lb)
      else
        let m1 = update_upto m (sl_write (lb_slices lb)) (sl_nodes (lb_slices lb)) in
        case sl_write (lb_slices lb) of
          None \<Rightarrow> Some (m1, lb)
        | Some w \<Rightarrow>
            (case deref (lb_slices lb) (Some w) of
               None \<Rightarrow> None
             | Some s \<Rightarrow>
                 if next_of (lb_slices lb) w \<noteq> None
                 then let (sl, unused) = split_from_write (lb_slices lb)
                      in Some (fold (\<lambda>t k. recycle_buffer bm k t) unused m1, lb\<lparr>lb_slices := sl\<rparr>)
                 else Some (m1, lb)))"

definition append_buffer_slice :: "linked_buffer \<Rightarrow> buffer_slice \<Rightarrow> linked_buffer" where
  "append_buffer_slice lb s =
     (let lb1 = (if \<not> bs_is_from_shm s then lb\<lparr>lb_is_from_shm := False\<rparr> else lb);
          sl = push_back (lb_slices lb1) s
      in lb1\<lparr>lb_len := uadd (lb_len lb1) (slice_size s), lb_slices := set_write sl (sl_back sl)\<rparr>)"

text \<open>\<open>while (auto slice = list.pop_front()) ...\<close>\<close>

partial_function (option) pop_all ::
  "(mem \<Rightarrow> buffer_slice \<Rightarrow> mem) \<Rightarrow> mem \<Rightarrow> slice_list \<Rightarrow> (mem \<times> slice_list) option" where
  "pop_all f m sl =
     (case snd (pop_front sl) of
        None \<Rightarrow> Some (m, fst (pop_front sl))
      | Some s \<Rightarrow> pop_all f (f m s) (fst (pop_front sl)))"

definition recycle_if_shm :: "buffer_manager \<Rightarrow> mem \<Rightarrow> buffer_slice \<Rightarrow> mem" where
  "recycle_if_shm bm m s = (if bs_is_from_shm s then recycle_buffer bm m s else m)"

definition lb_reset_fields :: "linked_buffer \<Rightarrow> slice_list \<Rightarrow> linked_buffer" where
  "lb_reset_fields lb sl = lb\<lparr>lb_slices := set_write sl None, lb_is_from_shm := True,
     lb_end_stream := False, lb_current_pinned := False, lb_len := 0\<rparr>"

definition lb_recycle :: "buffer_manager \<Rightarrow> mem \<Rightarrow> linked_buffer \<Rightarrow> (mem \<times> linked_buffer) option" where
  "lb_recycle bm m lb =
     (case pop_all (recycle_if_shm bm) m (lb_slices lb) of
        None \<Rightarrow> None
      | Some (m1, sl) \<Rightarrow> Some (m1, lb_reset_fields lb sl))"

definition lb_clean :: "mem \<Rightarrow> linked_buffer \<Rightarrow> (mem \<times> linked_buffer) option" where
  "lb_clean m lb =
     (case pop_all (\<lambda>m s. m) m (lb_slices lb) of
        None \<Rightarrow> None
      | Some (m1, sl) \<Rightarrow> Some (m1, lb_reset_fields lb sl))"

definition root_buf_offset :: "linked_buffer \<Rightarrow> u32" where
  "root_buf_offset lb =
     (case deref (lb_slices lb) (sl_front (lb_slices lb)) of
        Some s \<Rightarrow> bs_offset_in_shm s
      | None \<Rightarrow> 0)"

definition lb_cap :: "linked_buffer \<Rightarrow> nat" where
  "lb_cap lb = fold (\<lambda>s acc. uadd acc (slice_capacity s)) (slices (lb_slices lb)) 0"

definition read_next_slice :: "buffer_manager \<Rightarrow> mem \<Rightarrow> linked_buffer \<Rightarrow> mem \<times> linked_buffer" where
  "read_next_slice bm m lb =
     (let r = pop_front (lb_slices lb);
          lb1 = lb\<lparr>lb_slices := fst r\<rparr>;
          (m2, lb2) =
            (case snd r of
               Some s \<Rightarrow>
                 if bs_is_from_shm s
                 then if lb_current_pinned lb1
                      then (m, lb1\<lparr>lb_pinned := push_back (lb_pinned lb1) s\<rparr>)
                      else (recycle_buffer bm m s, lb1)
                 else (m, lb1)
             | None \<Rightarrow> (m, lb1))
      in (m2, lb2\<lparr>lb_current_pinned := False\<rparr>))"

partial_function (option) clean_pinned_loop ::
  "buffer_manager \<Rightarrow> mem \<Rightarrow> slice_list \<Rightarrow> (mem \<times> slice_list) option" where
  "clean_pinned_loop bm m sl =
     (if sl_len sl > 0
      then case snd (pop_front sl) of
             Some s \<Rightarrow> clean_pinned_loop bm (recycle_if_shm bm m s) (fst (pop_front sl))
           | None \<Rightarrow> clean_pinned_loop bm m (fst (pop_front sl))
      else Some (m, sl))"

definition clean_pinned_list ::
  "buffer_manager \<Rightarrow> mem \<Rightarrow> linked_buffer \<Rightarrow> (mem \<times> linked_buffer) option" where
  "clean_pinned_list bm m lb =
     (if sl_len (lb_pinned lb) = 0 then Some (m, lb)
      else case clean_pinned_loop bm m (lb_pinned lb) of
             None \<Rightarrow> None
           | Some (m1, sl) \<Rightarrow> Some (m1, lb\<lparr>lb_pinned := sl, lb_current_pinned := False\<rparr>))"

definition release_previous_read_and_reserve ::
  "buffer_manager \<Rightarrow> mem \<Rightarrow> linked_buffer \<Rightarrow> (mem \<times> linked_buffer) option" where
  "release_previous_read_and_reserve bm m lb =
     (case clean_pinned_list bm m lb of
        None \<Rightarrow> None
      | Some (m1, lb1) \<Rightarrow>
          if lb_len lb1 = 0 \<and> sl_len (lb_slices lb1) = 1
          then case sl_front (lb_slices lb1) of
                 None \<Rightarrow> None
               | Some f \<Rightarrow>
                   (case deref (lb_slices lb1) (Some f) of
                      None \<Rightarrow> None
                    | Some s \<Rightarrow>
                        let (m2, sl) =
                              (if bs_is_from_shm s
                               then let r = reset m1 s
                                    in (fst r, set_slice (lb_slices lb1) f (snd r))
                               else (m1, fst (pop_front (lb_slices lb1))));
                            sl' = (if sl_len sl = 0 then set_write sl None else sl)
                        in Some (m2, lb1\<lparr>lb_slices := sl'\<rparr>))
          else Some (m1, lb1))"

section \<open>Reading\<close>

partial_function (option) read_loop ::
  "buffer_manager \<Rightarrow> mem \<Rightarrow> linked_buffer \<Rightarrow> nat \<Rightarrow> bytes \<Rightarrow> (mem \<times> linked_buffer \<times> bytes) option" where
  "read_loop bm m lb n acc =
     (if n > 0
      then case sl_front (lb_slices lb) of
             None \<Rightarrow> Some (m, lb, acc)
           | Some f \<Rightarrow>
               (case deref (lb_slices lb) (Some f) of
                  None \<Rightarrow> None
                | Some s \<Rightarrow>
                    let r = slice_read m s n;
                        lb1 = lb\<lparr>lb_slices := set_slice (lb_slices lb) f (fst r)\<rparr>;
                        read_size = length (snd r);
                        q = (if read_size \<noteq> n then read_next_slice bm m lb1 else (m, lb1))
                    in read_loop bm (fst q) (snd q) (usub n read_size) (acc @ snd r))
      else Some (m, lb, acc))"

definition lb_read_bytes ::
  "buffer_manager \<Rightarrow> mem \<Rightarrow> linked_buffer \<Rightarrow> nat \<Rightarrow> (mem \<times> linked_buffer \<times> buf result) option" where
  "lb_read_bytes bm m lb n =
     (if n = 0 then Some (m, lb, Inr (ExmBuf []))
      else if lb_len lb < n then Some (m, lb, Inl (Error KNotEnoughData))
      else
        let (m1, lb1) =
              (case deref (lb_slices lb) (sl_front (lb_slices lb)) of
                 Some s \<Rightarrow> if slice_size s = 0 then read_next_slice bm m lb else (m, lb)
               | None \<Rightarrow> (m, lb))
        in case deref (lb_slices lb1) (sl_front (lb_slices lb1)) of
             Some s \<Rightarrow>
               if slice_size s \<ge> n
               then let f = the (sl_front (lb_slices lb1));
                        r = slice_read m1 s n
                    in Some (m1, lb1\<lparr>lb_current_pinned := True, lb_len := lb_len lb1 - n,
                               lb_slices := set_slice (lb_slices lb1) f (fst r)\<rparr>,
                             Inr (ShmBuf (view_of f s (bs_read_index s) n)))
               else (case read_loop bm m1 (lb1\<lparr>lb_len := lb_len lb1 - n\<rparr>) n [] of
                       None \<Rightarrow> None
                     | Some (m2, lb2, acc) \<Rightarrow> Some (m2, lb2, Inr (ExmBuf acc)))
           | None \<Rightarrow>
               (case read_loop bm m1 (lb1\<lparr>lb_len := lb_len lb1 - n\<rparr>) n [] of
                  None \<Rightarrow> None
                | Some (m2, lb2, acc) \<Rightarrow> Some (m2, lb2, Inr (ExmBuf acc))))"

fun peek_loop :: "mem \<Rightarrow> chain \<Rightarrow> nat \<Rightarrow> bytes \<Rightarrow> bytes" where
  "peek_loop m [] n acc = acc"
| "peek_loop m ((i, s) # xs) n acc =
     (if n > 0
      then let r = slice_peek m s n in peek_loop m xs (usub n (length r)) (acc @ r)
      else acc)"

definition lb_peek :: "mem \<Rightarrow> linked_buffer \<Rightarrow> nat \<Rightarrow> linked_buffer \<times> buf result" where
  "lb_peek m lb n =
     (if n = 0 then (lb, Inr (ExmBuf []))
      else if lb_len lb < n then (lb, Inl (Error KNotEnoughData))
      else
        case deref (lb_slices lb) (sl_front (lb_slices lb)) of
          Some s \<Rightarrow>
            if length (slice_peek m s n) = n
            then (lb\<lparr>lb_current_pinned := True\<rparr>,
                  Inr (ShmBuf (view_of (the (sl_front (lb_slices lb))) s (bs_read_index s) n)))
            else (lb, Inr (ExmBuf (peek_loop m (sl_nodes (lb_slices lb)) n [])))
        | None \<Rightarrow> (lb, Inr (ExmBuf (peek_loop m (sl_nodes (lb_slices lb)) n []))))"

partial_function (option) discard_loop ::
  "buffer_manager \<Rightarrow> mem \<Rightarrow> linked_buffer \<Rightarrow> nat \<Rightarrow> nat \<Rightarrow> (mem \<times> linked_buffer \<times> nat) option" where
  "discard_loop bm m lb sz n =
     (case sl_front (lb_slices lb) of
        None \<Rightarrow> Some (m, lb, n)
      | Some f \<Rightarrow>
          (case deref (lb_slices lb) (Some f) of
             None \<Rightarrow> None
           | Some s \<Rightarrow>
               let r = slice_skip s sz;
                   lb1 = lb\<lparr>lb_slices := set_slice (lb_slices lb) f (fst r)\<rparr>;
                   n' = uadd n (snd r);
                   sz' = usub sz (snd r)
               in if sz' = 0 then Some (m, lb1, n')
                  else let q = read_next_slice bm m lb1
                       in discard_loop bm (fst q) (snd q) sz' n'))"

definition lb_discard ::
  "buffer_manager \<Rightarrow> mem \<Rightarrow> linked_buffer \<Rightarrow> nat \<Rightarrow> (mem \<times> linked_buffer \<times> nat result) option" where
  "lb_discard bm m lb sz =
     (if lb_len lb < sz then Some (m, lb, Inl (Error KNotEnoughData))
      else case discard_loop bm m lb sz 0 of
             None \<Rightarrow> None
           | Some (m1, lb1, n) \<Rightarrow> Some (m1, lb1\<lparr>lb_len := usub (lb_len lb1) n\<rparr>, Inr n))"

definition lb_release_previous_read ::
  "buffer_manager \<Rightarrow> mem \<Rightarrow> linked_buffer \<Rightarrow> (mem \<times> linked_buffer) option" where
  "lb_release_previous_read bm m lb =
     (case clean_pinned_list bm m lb of
        None \<Rightarrow> None
      | Some (m1, lb1) \<Rightarrow>
          if sl_len (lb_slices lb1) = 0 then Some (m1, lb1)
          else
            case deref (lb_slices lb1) (sl_front (lb_slices lb1)) of
              None \<Rightarrow> None
            | Some s \<Rightarrow>
                if slice_size s = 0 \<and> sl_front (lb_slices lb1) = sl_write (lb_slices lb1)
                then Some (recycle_buffer bm m1 s,
                           lb1\<lparr>lb_slices := set_write (fst (pop_front (lb_slices lb1))) None\<rparr>)
                else Some (m1, lb1))"

section \<open>Writing\<close>

text \<open>A reserved span is its node, position and length.\<close>

definition lb_reserve ::
  "buffer_manager \<Rightarrow> mem \<Rightarrow> linked_buffer \<Rightarrow> nat
     \<Rightarrow> (mem \<times> linked_buffer \<times> (nat \<times> nat \<times> nat) result) option" where
  "lb_reserve bm m lb n =
     (case (if sl_write (lb_slices lb) = None
            then map_option (\<lambda>(m1, lb1). (m1, lb1\<lparr>lb_slices :=
                     set_write (lb_slices lb1) (sl_front (lb_slices lb1))\<rparr>))
                   (lb_alloc bm m lb (of_nat n))
            else Some (m, lb)) of
        None \<Rightarrow> None
      | Some (m1, lb1) \<Rightarrow>
          (case sl_write (lb_slices lb1) of
             None \<Rightarrow> None
           | Some w \<Rightarrow>
               (case deref (lb_slices lb1) (Some w) of
                  None \<Rightarrow> None
                | Some s \<Rightarrow>
                    (case slice_reserve s n of
                       (s', Inr (pos, k)) \<Rightarrow>
                         Some (m1, lb1\<lparr>lb_slices := set_slice (lb_slices lb1) w s',
                                       lb_len := uadd (lb_len lb1) n\<rparr>, Inr (w, pos, k))
                     | (s', Inl e) \<Rightarrow>
                         (case (case next_of (lb_slices lb1) w of
                                  None \<Rightarrow> None
                                | Some i \<Rightarrow>
                                    (case deref (lb_slices lb1) (Some i) of
                                       None \<Rightarrow> None
                                     | Some t \<Rightarrow>
                                         (case slice_reserve t n of
                                            (t', Inr (pos, k)) \<Rightarrow> Some (i, t', pos, k)
                                          | (t', Inl e) \<Rightarrow> None))) of
                            Some (i, t', pos, k) \<Rightarrow>
                              Some (m1, lb1\<lparr>lb_slices := set_write (set_slice (lb_slices lb1) i t') (Some i),
                                            lb_len := uadd (lb_len lb1) n\<rparr>, Inr (i, pos, k))
                          | None \<Rightarrow>
                              let (m2, lb2) =
                                    (case alloc_shm_buffer bm m1 (of_nat n) of
                                       (m2, Inr buf) \<Rightarrow>
                                         (m2, lb1\<lparr>lb_slices := push_back (lb_slices lb1) buf\<rparr>)
                                     | (m2, Inl e) \<Rightarrow>
                                         let alloc_size = (if n < kDefaultSingleBufferSize
                                                           then kDefaultSingleBufferSize else n)
                                         in (m2, lb1\<lparr>lb_slices := push_back (lb_slices lb1)
                                                     (from_heap (replicate alloc_size 0)),
                                                   lb_is_from_shm := False\<rparr>));
                                  sl = set_write (lb_slices lb2) (sl_back (lb_slices lb2));
                                  lb3 = lb2\<lparr>lb_slices := sl, lb_len := uadd (lb_len lb2) n\<rparr>
                              in (case sl_write sl of
                                    None \<Rightarrow> None
                                  | Some b \<Rightarrow>
                                      (case deref sl (Some b) of
                                         None \<Rightarrow> None
                                       | Some t \<Rightarrow>
                                           (case slice_reserve t n of
                                              (t', Inr (pos, k)) \<Rightarrow>
                                                Some (m2, lb3\<lparr>lb_slices := set_slice sl b t'\<rparr>,
                                                      Inr (b, pos, k))
                                            | (t', Inl e) \<Rightarrow> Some (m2, lb3, Inl e)))))))))"

partial_function (option) write_loop ::
  "buffer_manager \<Rightarrow> mem \<Rightarrow> linked_buffer \<Rightarrow> bytes \<Rightarrow> nat \<Rightarrow> (mem \<times> linked_buffer \<times> nat) option" where
  "write_loop bm m lb bs n =
     (case sl_write (lb_slices lb) of
        None \<Rightarrow> None
      | Some w \<Rightarrow>
          (case deref (lb_slices lb) (Some w) of
             None \<Rightarrow> None
           | Some s \<Rightarrow>
               let r = slice_append m s (drop n bs);
                   m1 = fst (fst r);
                   lb1 = lb\<lparr>lb_slices := set_slice (lb_slices lb) w (snd (fst r))\<rparr>;
                   n' = uadd n (snd r)
               in if n' < length bs
                  then (case (if next_of (lb_slices lb1) w = None
                              then lb_alloc bm m1 lb1 (of_nat (length bs - n'))
                              else Some (m1, lb1)) of
                          None \<Rightarrow> None
                        | Some q \<Rightarrow>
                            write_loop bm (fst q)
                              ((snd q)\<lparr>lb_slices := set_write (lb_slices (snd q))
                                 (next_of (lb_slices (snd q)) w)\<rparr>) bs n')
                  else Some (m1, lb1, n')))"

definition lb_write_bytes ::
  "buffer_manager \<Rightarrow> mem \<Rightarrow> linked_buffer \<Rightarrow> bytes \<Rightarrow> (mem \<times> linked_buffer \<times> nat result) option" where
  "lb_write_bytes bm m lb bs =
     (if bs = [] then Some (m, lb, Inr 0)
      else
        case (if sl_write (lb_slices lb) = None
              then map_option (\<lambda>(m1, lb1). (m1, lb1\<lparr>lb_slices :=
                       set_write (lb_slices lb1) (sl_front (lb_slices lb1))\<rparr>))
                     (lb_alloc bm m lb (of_nat (length bs)))
              else Some (m, lb)) of
          None \<Rightarrow> None
        | Some (m1, lb1) \<Rightarrow>
            (case write_loop bm m1 lb1 bs 0 of
               None \<Rightarrow> None
             | Some (m2, lb2, n) \<Rightarrow>
                 Some (m2, lb2\<lparr>lb_len := uadd (lb_len lb2) n\<rparr>, Inr n)))"

end
