(* ===== verification/Linked_Read.thy ===== *)
theory Linked_Read
  imports Linked_Buffer
begin

text \<open>
  The linked buffer as a reader. The abstract value is the byte string of the unread bytes
  of its slices; \<open>read_bytes\<close>, \<open>peek\<close> and \<open>discard\<close> take, look at and drop its prefix,
  return slices to the manager as they are used up, and keep the slices that a returned
  view points into until the views are released.
\<close>

section \<open>Invariant\<close>

definition all_slices :: "linked_buffer \<Rightarrow> buffer_slice list" where
  "all_slices lb = slices (lb_slices lb) @ slices (lb_pinned lb)"

definition in_used :: "mem \<Rightarrow> buffer_slice \<Rightarrow> bool" where
  "in_used m s \<longleftrightarrow> (case bs_buffer_header s of None \<Rightarrow> False | Some h \<Rightarrow> is_in_used m h)"

definition named :: "list_spec list \<Rightarrow> buffer_slice \<Rightarrow> bool" where
  "named gs s \<longleftrightarrow> (\<exists>h. names gs s h)"

definition hname :: "list_spec list \<Rightarrow> buffer_slice \<Rightarrow> nat \<times> nat" where
  "hname gs s = (SOME h. names gs s h)"

definition good_slice :: "list_spec list \<Rightarrow> mem \<Rightarrow> buffer_slice \<Rightarrow> bool" where
  "good_slice gs m s \<longleftrightarrow> slice_ok s
     \<and> (if bs_is_from_shm s then named gs s \<and> in_used m s else (\<exists>h. bs_data s = HeapData h) \<and> bs_buffer_header s = None)"

definition shm_names :: "list_spec list \<Rightarrow> buffer_slice list \<Rightarrow> (nat \<times> nat) list" where
  "shm_names gs ss = map (hname gs) (filter bs_is_from_shm ss)"

text \<open>
  The buffers of the slices in the chain and in the pinned list are held by this linked
  buffer, everything else that is held is in \<open>others\<close>.
\<close>

definition lb_inv ::
  "buffer_manager \<Rightarrow> list_spec list \<Rightarrow> nat \<Rightarrow> mem \<Rightarrow> linked_buffer \<Rightarrow> (nat \<times> nat) list \<Rightarrow> bool" where
  "lb_inv bm gs e m lb others \<longleftrightarrow> sl_inv (lb_slices lb) \<and> sl_inv (lb_pinned lb)
     \<and> (\<forall>s \<in> set (all_slices lb). good_slice gs m s)
     \<and> list_all bs_is_from_shm (slices (lb_pinned lb))
     \<and> managed bm gs e m (shm_names gs (all_slices lb) @ others)"

definition total_size :: "linked_buffer \<Rightarrow> nat" where
  "total_size lb = sum_list (map slice_size (slices (lb_slices lb)))"

definition content :: "mem \<Rightarrow> linked_buffer \<Rightarrow> bytes" where
  "content m lb = concat (map (slice_bytes m) (slices (lb_slices lb)))"

lemma names_hname: "named gs s \<Longrightarrow> names gs s (hname gs s)"
  unfolding named_def hname_def by (rule someI_ex)

lemma names_fields:
  assumes "bs_buffer_header s' = bs_buffer_header s" "bs_data s' = bs_data s" "bs_cap s' = bs_cap s"
    "bs_offset_in_shm s' = bs_offset_in_shm s" "bs_is_from_shm s' = bs_is_from_shm s"
  shows "names gs s' = names gs s" "named gs s' = named gs s" "hname gs s' = hname gs s"
    "in_used m s' = in_used m s"
proof -
  show n: "names gs s' = names gs s" by (rule ext) (simp add: names_def is_slot_def assms)
  show "named gs s' = named gs s" "hname gs s' = hname gs s"
    by (simp_all add: named_def hname_def n)
  show "in_used m s' = in_used m s" by (simp add: in_used_def assms)
qed

lemma shm_names_simps [simp]:
  "shm_names gs [] = []" "shm_names gs (xs @ ys) = shm_names gs xs @ shm_names gs ys"
  "shm_names gs (s # ss) = (if bs_is_from_shm s then hname gs s # shm_names gs ss else shm_names gs ss)"
  by (simp_all add: shm_names_def)

lemma hname_in_shm_names: "s \<in> set ss \<Longrightarrow> bs_is_from_shm s \<Longrightarrow> hname gs s \<in> set (shm_names gs ss)"
  by (auto simp: shm_names_def)

text \<open>The data and the flag byte of a named slice lie in the area of its buffer.\<close>

lemma named_area:
  assumes "named gs s"
  obtains p where "bs_buffer_header s = Some p" "bs_data s = ShmData (p + 20)"
    "{p + 4 ..< p + 20 + unat (bs_cap s)} \<subseteq> area gs (hname gs s)" "p + 16 \<in> area gs (hname gs s)"
proof -
  have n: "names gs s (hname gs s)" by (rule names_hname [OF assms])
  obtain p where p: "bs_buffer_header s = Some p" "bs_data s = ShmData (p + 20)"
    "{p + 4 ..< p + 20 + unat (bs_cap s)} \<subseteq> area gs (hname gs s)"
    using src.nm_shape [OF n] by blast
  moreover have "p + 16 \<in> area gs (hname gs s)" using p(3) by auto
  ultimately show thesis by (rule that)
qed

text \<open>A slice sees only the bytes of its own buffer.\<close>

lemma good_slice_cong:
  assumes g: "good_slice gs m s"
    and same: "\<And>x. bs_is_from_shm s \<Longrightarrow> x \<in> area gs (hname gs s) \<Longrightarrow> m' x = m x"
  shows "good_slice gs m' s" "slice_bytes m' s = slice_bytes m s"
proof -
  have ok: "slice_ok s" using g by (simp add: good_slice_def)
  show "good_slice gs m' s"
  proof (cases "bs_is_from_shm s")
    case True
    with g have n: "named gs s" "in_used m s" by (simp_all add: good_slice_def)
    obtain p where p: "bs_buffer_header s = Some p" "p + 16 \<in> area gs (hname gs s)"
      using named_area [OF n(1)] by blast
    have "m' (p + 16) = m (p + 16)" by (rule same [OF True p(2)])
    with n(2) p(1) flag_cong(1) [of m' p m] g True show ?thesis
      by (simp add: good_slice_def in_used_def)
  next
    case False
    with g show ?thesis by (simp add: good_slice_def)
  qed
  show "slice_bytes m' s = slice_bytes m s"
  proof (rule slice_bytes_cong [OF ok])
    fix a x assume d: "bs_data s = ShmData a" and x: "a + bs_read_index s \<le> x" "x < a + bs_write_index s"
    have shm: "bs_is_from_shm s" using g d by (auto simp: good_slice_def split: if_splits)
    with g have "named gs s" by (simp add: good_slice_def)
    then obtain p where p: "bs_data s = ShmData (p + 20)"
      "{p + 4 ..< p + 20 + unat (bs_cap s)} \<subseteq> area gs (hname gs s)" by (rule named_area)
    have "x \<in> {p + 4 ..< p + 20 + unat (bs_cap s)}"
      using d p(1) x ok by (simp add: slice_ok_def)
    with p(2) same [OF shm] show "m' x = m x" by blast
  qed
qed

lemma content_cong:
  assumes "\<And>s. s \<in> set (slices (lb_slices lb)) \<Longrightarrow> slice_bytes m' s = slice_bytes m s"
  shows "content m' lb = content m lb"
  unfolding content_def using assms by (metis map_cong)

lemma length_content:
  assumes "\<forall>s \<in> set (slices (lb_slices lb)). slice_ok s"
  shows "length (content m lb) = total_size lb"
  using assms by (simp add: content_def total_size_def length_concat comp_def cong: map_cong)

section \<open>Dropping the front slice\<close>

lemma recycle_held:
  assumes m: "managed bm gs e m (hname gs s # held)" and n: "named gs s" "in_used m s"
  shows "managed bm gs e (recycle_buffer bm m s) held"
    "g \<in> set held \<Longrightarrow> x \<in> area gs g \<Longrightarrow> recycle_buffer bm m s x = m x"
proof -
  note h = names_hname [OF n(1)]
  obtain p where p: "bs_buffer_header s = Some p" "is_in_used m p"
    using n(2) by (auto simp: in_used_def split: option.splits)
  from src.take_back_ok [OF m _ h p] show "managed bm gs e (recycle_buffer bm m s) held" by simp
  show "recycle_buffer bm m s x = m x" if "g \<in> set held" "x \<in> area gs g"
    using src.take_back_frame [OF m _ h, of g x] src.owned_distinct [OF m] that by auto
qed

lemma lb_invD:
  assumes "lb_inv bm gs e m lb others"
  shows "sl_inv (lb_slices lb)" "sl_inv (lb_pinned lb)"
    "managed bm gs e m (shm_names gs (all_slices lb) @ others)"
    "s \<in> set (slices (lb_slices lb)) \<Longrightarrow> good_slice gs m s"
    "s \<in> set (slices (lb_pinned lb)) \<Longrightarrow> good_slice gs m s"
    "list_all bs_is_from_shm (slices (lb_pinned lb))"
  using assms by (auto simp: lb_inv_def all_slices_def)

lemma lb_inv_slices_ok: "lb_inv bm gs e m lb others \<Longrightarrow> \<forall>s \<in> set (slices (lb_slices lb)). slice_ok s"
  using lb_invD(4) by (fastforce simp: good_slice_def)

text \<open>
  \<open>read_next_slice\<close>: the front slice leaves the chain; its buffer goes back to the manager,
  or to the pinned list when a view points into it.
\<close>

lemma read_next_slice_ok:
  assumes inv: "lb_inv bm gs e m lb others" and sl: "slices (lb_slices lb) = s # ss"
    and r: "read_next_slice bm m lb = (m', lb')"
  shows "lb_inv bm gs e m' lb' others" "slices (lb_slices lb') = ss"
    "\<And>t. t \<in> set ss \<Longrightarrow> slice_bytes m' t = slice_bytes m t" "lb_len lb' = lb_len lb"
    "slices (lb_pinned lb') = slices (lb_pinned lb)
      @ (if bs_is_from_shm s \<and> lb_current_pinned lb then [s] else [])"
    "\<not> lb_current_pinned lb'"
    "\<And>g x. g \<in> set (shm_names gs (slices (lb_pinned lb')) @ others) \<Longrightarrow> x \<in> area gs g \<Longrightarrow> m' x = m x"
proof -
  note d = lb_invD [OF inv] and pf = pop_front_cons [OF lb_invD(1) [OF inv] sl]
  have gs: "good_slice gs m s" using d(4) [of s] sl by simp
  let ?sl = "fst (pop_front (lb_slices lb))"
  have len: "lb_len lb' = lb_len lb" and cp: "\<not> lb_current_pinned lb'"
    and sl': "lb_slices lb' = ?sl"
    using r pf(1) by (auto simp: read_next_slice_def Let_def split: if_splits)
  show "lb_len lb' = lb_len lb" "\<not> lb_current_pinned lb'" by (rule len, rule cp)
  show ss: "slices (lb_slices lb') = ss" by (simp add: sl' pf)
  consider (heap) "\<not> bs_is_from_shm s" | (pin) "bs_is_from_shm s" "lb_current_pinned lb"
    | (ret) "bs_is_from_shm s" "\<not> lb_current_pinned lb" by blast
  then have main: "lb_inv bm gs e m' lb' others \<and> (\<forall>t \<in> set ss. slice_bytes m' t = slice_bytes m t)
    \<and> slices (lb_pinned lb') = slices (lb_pinned lb)
      @ (if bs_is_from_shm s \<and> lb_current_pinned lb then [s] else [])
    \<and> (\<forall>g \<in> set (shm_names gs (slices (lb_pinned lb')) @ others). \<forall>x \<in> area gs g. m' x = m x)"
  proof cases
    case heap
    then have m: "m' = m" and p: "lb_pinned lb' = lb_pinned lb"
      using r pf(1) by (auto simp: read_next_slice_def Let_def split: if_splits)
    have "lb_inv bm gs e m lb' others"
      using inv heap ss pf sl sl' p by (auto simp: lb_inv_def all_slices_def)
    with heap m p show ?thesis by simp
  next
    case pin
    then have m: "m' = m" and p: "lb_pinned lb' = push_back (lb_pinned lb) s"
      using r pf(1) by (auto simp: read_next_slice_def Let_def split: if_splits)
    note pb = push_back_inv [OF d(2), of s]
    have "managed bm gs e m (shm_names gs (all_slices lb') @ others)"
      using d(3) by (rule src.owned_perm) (simp add: all_slices_def sl ss p pb pin)
    then have "lb_inv bm gs e m lb' others"
      using inv pin ss pf sl sl' p pb by (auto simp: lb_inv_def all_slices_def)
    with pin m p pb show ?thesis by simp
  next
    case ret
    then have m: "m' = recycle_buffer bm m s" and p: "lb_pinned lb' = lb_pinned lb"
      using r pf(1) by (auto simp: read_next_slice_def Let_def split: if_splits)
    have n: "named gs s" "in_used m s" using gs ret by (simp_all add: good_slice_def)
    have man: "managed bm gs e m (hname gs s # shm_names gs (all_slices lb') @ others)"
      using d(3) ret by (simp add: all_slices_def sl ss p)
    note rh = recycle_held [OF man n]
    have same: "m' x = m x" if "t \<in> set (all_slices lb')" "bs_is_from_shm t"
      "x \<in> area gs (hname gs t)" for t x
      using that hname_in_shm_names [OF that(1,2)] rh(2) [of "hname gs t" x] m by simp
    have "good_slice gs m' t" "slice_bytes m' t = slice_bytes m t" if "t \<in> set (all_slices lb')" for t
      using good_slice_cong [of gs m t m'] same that d(4,5) sl ss p by (auto simp: all_slices_def)
    moreover have "sl_inv (lb_slices lb')" "sl_inv (lb_pinned lb')"
      "list_all bs_is_from_shm (slices (lb_pinned lb'))"
      using pf d sl' p by simp_all
    ultimately have "lb_inv bm gs e m' lb' others" "\<forall>t \<in> set ss. slice_bytes m' t = slice_bytes m t"
      using rh(1) ss unfolding m lb_inv_def by (auto simp: all_slices_def)
    moreover have "m' x = m x"
      if "g \<in> set (shm_names gs (slices (lb_pinned lb')) @ others)" "x \<in> area gs g" for g x
      using rh(2) [of g x] that unfolding m by (simp add: all_slices_def)
    ultimately show ?thesis using p ret by auto
  qed
  then show "lb_inv bm gs e m' lb' others"
    "slices (lb_pinned lb') = slices (lb_pinned lb)
      @ (if bs_is_from_shm s \<and> lb_current_pinned lb then [s] else [])" by blast+
  show "slice_bytes m' t = slice_bytes m t" if "t \<in> set ss" for t using main that by blast
  show "m' x = m x" if "g \<in> set (shm_names gs (slices (lb_pinned lb')) @ others)" "x \<in> area gs g" for g x
    using main that by blast
qed

section \<open>What a returned view relies on\<close>

text \<open>
  A buffer is guarded when a view may point into it: it is in the pinned list, or it is the
  front slice and \<open>current_pinned_\<close> is set. An operation keeps the guarded buffers
  guarded and their bytes, and the bytes of everything held elsewhere.
\<close>

definition guarded :: "list_spec list \<Rightarrow> linked_buffer \<Rightarrow> nat \<times> nat \<Rightarrow> bool" where
  "guarded gs lb h \<longleftrightarrow> h \<in> set (shm_names gs (slices (lb_pinned lb)))
     \<or> lb_current_pinned lb \<and> (case slices (lb_slices lb) of [] \<Rightarrow> False
          | s # ss \<Rightarrow> bs_is_from_shm s \<and> h = hname gs s)"

definition keeps ::
  "list_spec list \<Rightarrow> (nat \<times> nat) list \<Rightarrow> mem \<Rightarrow> linked_buffer \<Rightarrow> mem \<Rightarrow> linked_buffer \<Rightarrow> bool" where
  "keeps gs others m lb m' lb' \<longleftrightarrow>
     (\<forall>h. guarded gs lb h \<longrightarrow> guarded gs lb' h \<and> (\<forall>x \<in> area gs h. m' x = m x))
     \<and> (\<forall>h \<in> set others. \<forall>x \<in> area gs h. m' x = m x)"

lemma keeps_refl [simp]: "keeps gs others m lb m lb"
  by (simp add: keeps_def)

lemma keepsI:
  assumes "\<And>h. guarded gs lb h \<Longrightarrow> guarded gs lb' h"
    and "\<And>h x. guarded gs lb h \<Longrightarrow> x \<in> area gs h \<Longrightarrow> m' x = m x"
    and "\<And>h x. h \<in> set others \<Longrightarrow> x \<in> area gs h \<Longrightarrow> m' x = m x"
  shows "keeps gs others m lb m' lb'"
  unfolding keeps_def using assms by blast

lemma keepsD:
  assumes "keeps gs others m lb m' lb'"
  shows "guarded gs lb h \<Longrightarrow> guarded gs lb' h"
    and "guarded gs lb h \<Longrightarrow> x \<in> area gs h \<Longrightarrow> m' x = m x"
    and "h \<in> set others \<Longrightarrow> x \<in> area gs h \<Longrightarrow> m' x = m x"
  using assms unfolding keeps_def by blast+

lemma keeps_trans:
  assumes a: "keeps gs others m lb m1 lb1" and b: "keeps gs others m1 lb1 m2 lb2"
  shows "keeps gs others m lb m2 lb2"
proof (rule keepsI)
  fix h assume h: "guarded gs lb h"
  show "guarded gs lb2 h" by (rule keepsD(1) [OF b keepsD(1) [OF a h]])
  fix x assume x: "x \<in> area gs h"
  show "m2 x = m x" using keepsD(2) [OF a h x] keepsD(2) [OF b keepsD(1) [OF a h] x] by simp
next
  fix h x assume "h \<in> set others" "x \<in> area gs h"
  with keepsD(3) [OF a] keepsD(3) [OF b] show "m2 x = m x" by simp
qed

lemma read_next_slice_keeps:
  assumes inv: "lb_inv bm gs e m lb others" and sl: "slices (lb_slices lb) = s # ss"
    and r: "read_next_slice bm m lb = (m', lb')"
  shows "keeps gs others m lb m' lb'"
proof -
  note n = read_next_slice_ok [OF inv sl r]
  have p: "h \<in> set (shm_names gs (slices (lb_pinned lb')))" if "guarded gs lb h" for h
    using that sl n(5) by (auto simp: guarded_def)
  show ?thesis
  proof (rule keepsI)
    show "guarded gs lb' h" if "guarded gs lb h" for h using p [OF that] by (simp add: guarded_def)
    show "m' x = m x" if "guarded gs lb h" "x \<in> area gs h" for h x
      using n(7) [of h x] p [OF that(1)] that(2) by simp
    show "m' x = m x" if "h \<in> set others" "x \<in> area gs h" for h x
      using n(7) [of h x] that by simp
  qed
qed

text \<open>Moving the indices of the front slice.\<close>

definition same_shape :: "buffer_slice \<Rightarrow> buffer_slice \<Rightarrow> bool" where
  "same_shape s' s \<longleftrightarrow> bs_buffer_header s' = bs_buffer_header s \<and> bs_data s' = bs_data s
     \<and> bs_cap s' = bs_cap s \<and> bs_offset_in_shm s' = bs_offset_in_shm s
     \<and> bs_is_from_shm s' = bs_is_from_shm s"

lemma same_shape_simps:
  assumes "same_shape s' s"
  shows "hname gs s' = hname gs s" "named gs s' = named gs s" "in_used m s' = in_used m s"
    "bs_is_from_shm s' = bs_is_from_shm s" "bs_data s' = bs_data s"
    "bs_buffer_header s' = bs_buffer_header s"
  using assms names_fields [of s' s] by (simp_all add: same_shape_def)

lemma slice_read_shape: "same_shape (fst (slice_read m s n)) s"
  by (simp add: same_shape_def slice_read_def Let_def)

lemma set_front_ok:
  assumes inv: "lb_inv bm gs e m lb others" and sl: "slices (lb_slices lb) = s # ss"
    and f: "sl_front (lb_slices lb) = Some f" and sh: "same_shape s' s" and ok: "slice_ok s'"
  defines "lb' \<equiv> lb\<lparr>lb_slices := set_slice (lb_slices lb) f s'\<rparr>"
  shows "lb_inv bm gs e m lb' others" "slices (lb_slices lb') = s' # ss" "keeps gs others m lb m lb'"
    "sl_front (lb_slices lb') = Some f"
proof -
  note d = lb_invD [OF inv]
  obtain ns where n: "sl_nodes (lb_slices lb) = [] @ (f, s) # ns" "ss = map snd ns"
    using front_cons [OF d(1) sl] f by auto
  have n': "sl_nodes (lb_slices lb') = (f, s') # ns"
    using set_slice_split [OF d(1) n(1), of s'] by (simp add: lb'_def)
  then show sl': "slices (lb_slices lb') = s' # ss" using n(2) by (simp add: slices_def)
  show "sl_front (lb_slices lb') = Some f" by (simp add: lb'_def set_slice_inv f)
  note ss = same_shape_simps [OF sh]
  have gs: "good_slice gs m s'"
    using d(4) [of s] sl ok ss by (auto simp: good_slice_def split: if_splits)
  have "shm_names gs (all_slices lb') = shm_names gs (all_slices lb)"
    using ss sl sl' by (simp add: all_slices_def lb'_def)
  then have "managed bm gs e m (shm_names gs (all_slices lb') @ others)" using d(3) by simp
  moreover have "\<forall>t \<in> set (all_slices lb'). good_slice gs m t"
    using d(4,5) gs sl sl' by (auto simp: all_slices_def lb'_def)
  ultimately show "lb_inv bm gs e m lb' others"
    using d set_slice_inv(1) [OF d(1), of f s'] unfolding lb_inv_def by (simp add: lb'_def)
  have "guarded gs lb' h = guarded gs lb h" for h
    using ss sl sl' by (simp add: guarded_def) (simp add: lb'_def)
  then show "keeps gs others m lb m lb'" by (intro keepsI) simp_all
qed

section \<open>The read loop\<close>

lemma content_split: "slices (lb_slices lb) = s # ss \<Longrightarrow>
    content m lb = slice_bytes m s @ concat (map (slice_bytes m) ss)"
  by (simp add: content_def)

lemma read_loop_ok:
  assumes "lb_inv bm gs e m lb others" and "n \<le> total_size lb"
  shows "\<exists>m' lb'. read_loop bm m lb n acc = Some (m', lb', acc @ take n (content m lb))
    \<and> lb_inv bm gs e m' lb' others \<and> content m' lb' = drop n (content m lb)
    \<and> lb_len lb' = lb_len lb \<and> keeps gs others m lb m' lb'"
  using assms
proof (induction "length (slices (lb_slices lb))" arbitrary: m lb n acc)
  case 0
  then have "n = 0" "content m lb = []" by (simp_all add: total_size_def content_def)
  with 0 show ?case by (intro exI [of _ m] exI [of _ lb]) (simp add: read_loop.simps)
next
  case (Suc k)
  note inv = Suc.prems(1)
  note d = lb_invD [OF inv] and u = read_loop.simps [of bm m lb n acc]
  obtain s ss where sl: "slices (lb_slices lb) = s # ss"
    using Suc.hyps(2) by (cases "slices (lb_slices lb)") auto
  obtain f ns where f: "sl_front (lb_slices lb) = Some f" "deref (lb_slices lb) (Some f) = Some s"
    using front_cons [OF d(1) sl] by metis
  have ok: "slice_ok s" using d(4) [of s] sl by (simp add: good_slice_def)
  note r = slice_read_bytes [OF ok, of m n]
  let ?s = "fst (slice_read m s n)" and ?b = "snd (slice_read m s n)"
  let ?lb = "lb\<lparr>lb_slices := set_slice (lb_slices lb) f ?s\<rparr>"
  note sf = set_front_ok [OF inv sl f(1) slice_read_shape r(3)]
  have lb: "length ?b = min n (slice_size s)" using r(1) ok by simp
  have c: "content m lb = slice_bytes m s @ concat (map (slice_bytes m) ss)"
    by (rule content_split [OF sl])
  show ?case
  proof (cases "n = 0")
    case True
    with u inv show ?thesis by (intro exI [of _ m] exI [of _ lb]) simp
  next
    case n: False
    show ?thesis
    proof (cases "n \<le> slice_size s")
      case True
      then have "read_loop bm m lb n acc = Some (m, ?lb, acc @ ?b)"
        using u n f lb read_loop.simps [of bm m ?lb 0 "acc @ ?b"] by (simp add: Let_def)
      moreover have "?b = take n (content m lb)" using r(1) c True ok by simp
      moreover have "content m ?lb = drop n (content m lb)"
        using sf(2) r(2) c True ok by (simp add: content_def)
      ultimately show ?thesis
        using sf(1,3) by (intro exI [of _ m] exI [of _ ?lb]) simp
    next
      case False
      then have b: "?b = slice_bytes m s" "length ?b = slice_size s" using r(1) ok by simp_all
      obtain m1 lb1 where q: "read_next_slice bm m ?lb = (m1, lb1)" by fastforce
      note nx = read_next_slice_ok [OF sf(1,2) q]
      have keep: "keeps gs others m lb m1 lb1"
        by (rule keeps_trans [OF sf(3) read_next_slice_keeps [OF sf(1,2) q]])
      have "n - slice_size s \<le> total_size lb1"
        using Suc.prems(2) sl nx(2) by (simp add: total_size_def)
      moreover have "k = length (slices (lb_slices lb1))" using Suc.hyps(2) sl nx(2) by simp
      ultimately obtain m2 lb2 where l: "read_loop bm m1 lb1 (n - slice_size s) (acc @ ?b)
            = Some (m2, lb2, (acc @ ?b) @ take (n - slice_size s) (content m1 lb1))"
        and p: "lb_inv bm gs e m2 lb2 others" "content m2 lb2 = drop (n - slice_size s) (content m1 lb1)"
          "lb_len lb2 = lb_len lb1" "keeps gs others m1 lb1 m2 lb2"
        using Suc.hyps(1) [OF _ nx(1), of "n - slice_size s" "acc @ ?b"] by blast
      have c1: "content m1 lb1 = concat (map (slice_bytes m) ss)"
        using nx(2,3) by (simp add: content_def cong: map_cong)
      have "read_loop bm m lb n acc = Some (m2, lb2, acc @ take n (content m lb))"
        using u n f b False q l c c1 ok by (simp add: Let_def)
      moreover have "content m2 lb2 = drop n (content m lb)" using p(2) c c1 ok False by simp
      ultimately show ?thesis
        using p nx(4) keeps_trans [OF keep p(4)] by (intro exI [of _ m2] exI [of _ lb2]) simp
    qed
  qed
qed

section \<open>The operations\<close>

definition reader_inv ::
  "buffer_manager \<Rightarrow> list_spec list \<Rightarrow> nat \<Rightarrow> mem \<Rightarrow> linked_buffer \<Rightarrow> (nat \<times> nat) list \<Rightarrow> bool" where
  "reader_inv bm gs e m lb others \<longleftrightarrow> lb_inv bm gs e m lb others \<and> lb_len lb = total_size lb
     \<and> total_size lb < 18446744073709551616"

text \<open>A \<open>Buf\<close> that is a view into shared memory points into a guarded buffer.\<close>

definition view_guarded :: "list_spec list \<Rightarrow> linked_buffer \<Rightarrow> buf \<Rightarrow> bool" where
  "view_guarded gs lb b \<longleftrightarrow> (case b of
      ShmBuf (ShmSpan a k) \<Rightarrow> (\<exists>h. guarded gs lb h \<and> {a ..< a + k} \<subseteq> area gs h)
    | _ \<Rightarrow> True)"

lemma view_bytes:
  assumes g: "good_slice gs m s" and n: "n \<le> slice_size s"
    and f: "map_of (sl_nodes (lb_slices lb)) f = Some s'" "bs_data s' = bs_data s"
  shows "buf_bytes m lb (ShmBuf (view_of f s (bs_read_index s) n)) = Some (take n (slice_bytes m s))"
proof -
  have ok: "slice_ok s" using g by (simp add: good_slice_def)
  from slice_bytes_take [OF ok n, of m] f show ?thesis
    by (auto simp: buf_bytes_def view_of_def data_read_def split: data_ptr.splits)
qed

lemma view_area:
  assumes g: "good_slice gs m s" and n: "n \<le> slice_size s" and shm: "bs_data s = ShmData a"
  shows "bs_is_from_shm s" "{a + bs_read_index s ..< a + bs_read_index s + n} \<subseteq> area gs (hname gs s)"
proof -
  show f: "bs_is_from_shm s" using g shm by (auto simp: good_slice_def split: if_splits)
  have ok: "slice_ok s" "named gs s" using g f by (simp_all add: good_slice_def)
  obtain p where p: "bs_data s = ShmData (p + 20)"
    "{p + 4 ..< p + 20 + unat (bs_cap s)} \<subseteq> area gs (hname gs s)"
    using named_area [OF ok(2)] by blast
  have "bs_read_index s + n \<le> unat (bs_cap s)"
    using n slice_ok_bounds(3) [OF ok(1)] ok(1) unfolding slice_ok_def by linarith
  then have "{a + bs_read_index s ..< a + bs_read_index s + n} \<subseteq> {p + 4 ..< p + 20 + unat (bs_cap s)}"
    using p(1) shm by auto
  with p(2) show "{a + bs_read_index s ..< a + bs_read_index s + n} \<subseteq> area gs (hname gs s)" by blast
qed

lemma view_guardedI:
  assumes g: "good_slice gs m s" and n: "n \<le> slice_size s"
    and lb: "lb_current_pinned lb" "slices (lb_slices lb) = s' # ss"
    and s': "hname gs s' = hname gs s" "bs_is_from_shm s' = bs_is_from_shm s"
  shows "view_guarded gs lb (ShmBuf (view_of f s (bs_read_index s) n))"
proof (cases "bs_data s")
  case (ShmData a)
  note v = view_area [OF g n ShmData]
  have "guarded gs lb (hname gs s)" using lb s' v(1) by (simp add: guarded_def)
  with v(2) ShmData show ?thesis
    by (simp add: view_guarded_def view_of_def del: split_paired_Ex) blast
next
  case (HeapData h)
  then show ?thesis by (simp add: view_guarded_def view_of_def)
qed

lemma skip_empty_front:
  assumes inv: "lb_inv bm gs e m lb others" and ne: "slices (lb_slices lb) = s # ss"
    and r: "(if slice_size s = 0 then read_next_slice bm m lb else (m, lb)) = (m1, lb1)"
  shows "lb_inv bm gs e m1 lb1 others" "content m1 lb1 = content m lb" "lb_len lb1 = lb_len lb"
    "total_size lb1 = total_size lb" "keeps gs others m lb m1 lb1"
proof -
  have "lb_inv bm gs e m1 lb1 others \<and> content m1 lb1 = content m lb \<and> lb_len lb1 = lb_len lb
    \<and> total_size lb1 = total_size lb \<and> keeps gs others m lb m1 lb1"
  proof (cases "slice_size s = 0")
    case True
    have q: "read_next_slice bm m lb = (m1, lb1)" using r True by simp
    note n = read_next_slice_ok [OF inv ne q]
    have "slice_ok s" using lb_inv_slices_ok [OF inv] ne by simp
    from length_slice_bytes [OF this, of m] True have "slice_bytes m s = []" by simp
    then have "content m1 lb1 = content m lb"
      using n(2,3) content_split [OF ne, of m] by (simp add: content_def cong: map_cong)
    with n read_next_slice_keeps [OF inv ne q] True ne show ?thesis by (simp add: total_size_def)
  next
    case False
    with r inv show ?thesis by simp
  qed
  then show "lb_inv bm gs e m1 lb1 others" "content m1 lb1 = content m lb" "lb_len lb1 = lb_len lb"
    "total_size lb1 = total_size lb" "keeps gs others m lb m1 lb1" by blast+
qed

lemma read_slow:
  assumes inv: "lb_inv bm gs e m lb others" and len: "lb_len lb = total_size lb" and n: "n \<le> total_size lb"
    and b: "total_size lb < 18446744073709551616"
  shows "\<exists>m' lb'. read_loop bm m (lb\<lparr>lb_len := lb_len lb - n\<rparr>) n [] = Some (m', lb', take n (content m lb))
    \<and> reader_inv bm gs e m' lb' others \<and> content m' lb' = drop n (content m lb)
    \<and> keeps gs others m lb m' lb'"
proof -
  let ?lb = "lb\<lparr>lb_len := lb_len lb - n\<rparr>"
  have i: "lb_inv bm gs e m ?lb others" "total_size ?lb = total_size lb" "content m ?lb = content m lb"
    using inv by (simp_all add: lb_inv_def all_slices_def total_size_def content_def)
  have k: "keeps gs others m lb m ?lb" by (rule keepsI) (simp_all add: guarded_def)
  obtain m' lb' where l: "read_loop bm m ?lb n [] = Some (m', lb', take n (content m lb))"
    and p: "lb_inv bm gs e m' lb' others" "content m' lb' = drop n (content m lb)"
      "lb_len lb' = lb_len lb - n" "keeps gs others m ?lb m' lb'"
    using read_loop_ok [OF i(1), of n "[]"] n i(2,3) by auto
  have "total_size lb' = total_size lb - n"
    using length_content [OF lb_inv_slices_ok [OF p(1)], of m'] p(2)
      length_content [OF lb_inv_slices_ok [OF inv], of m] by simp
  with p len b have "reader_inv bm gs e m' lb' others" by (simp add: reader_inv_def)
  with l p keeps_trans [OF k p(4)] show ?thesis by blast
qed

lemma lb_read_bytes_ok:
  assumes inv: "reader_inv bm gs e m lb others" and n: "n \<le> lb_len lb"
  shows "\<exists>m' lb' b. lb_read_bytes bm m lb n = Some (m', lb', Inr b)
    \<and> buf_bytes m' lb' b = Some (take n (content m lb)) \<and> content m' lb' = drop n (content m lb)
    \<and> reader_inv bm gs e m' lb' others \<and> keeps gs others m lb m' lb' \<and> view_guarded gs lb' b"
proof (cases "n = 0")
  case True
  with inv show ?thesis
    by (intro exI [of _ m] exI [of _ lb] exI [of _ "ExmBuf []"])
      (simp add: lb_read_bytes_def buf_bytes_def view_guarded_def)
next
  case n0: False
  have i: "lb_inv bm gs e m lb others" and len: "lb_len lb = total_size lb"
    and b64: "total_size lb < 18446744073709551616"
    using inv by (simp_all add: reader_inv_def)
  then obtain s0 ss0 where ne: "slices (lb_slices lb) = s0 # ss0"
    using n n0 by (cases "slices (lb_slices lb)") (simp_all add: total_size_def)
  obtain f0 where fd: "deref (lb_slices lb) (sl_front (lb_slices lb)) = Some s0"
    using front_cons [OF lb_invD(1) [OF i] ne] by metis
  obtain m1 lb1 where q: "(if slice_size s0 = 0 then read_next_slice bm m lb else (m, lb)) = (m1, lb1)"
    by fastforce
  note sk = skip_empty_front [OF i ne q]
  have n1: "n \<le> total_size lb1" "lb_len lb1 = total_size lb1" using sk n len by simp_all
  then obtain s ss where sl: "slices (lb_slices lb1) = s # ss"
    using n0 by (cases "slices (lb_slices lb1)") (simp_all add: total_size_def)
  obtain f ns where f: "sl_front (lb_slices lb1) = Some f" "sl_nodes (lb_slices lb1) = (f, s) # ns"
    and dr: "deref (lb_slices lb1) (Some f) = Some s"
    using front_cons [OF lb_invD(1) [OF sk(1)] sl] by metis
  have g: "good_slice gs m1 s" and ok: "slice_ok s"
    using lb_invD(4) [OF sk(1), of s] sl by (simp_all add: good_slice_def)
  show ?thesis
  proof (cases "n \<le> slice_size s")
    case True
    let ?s = "fst (slice_read m1 s n)"
    let ?lb1 = "lb1\<lparr>lb_slices := set_slice (lb_slices lb1) f ?s\<rparr>"
    let ?lb = "lb1\<lparr>lb_current_pinned := True, lb_len := lb_len lb1 - n,
        lb_slices := set_slice (lb_slices lb1) f ?s\<rparr>"
    let ?b = "ShmBuf (view_of f s (bs_read_index s) n)"
    note r = slice_read_bytes [OF ok, of m1 n]
    note sf = set_front_ok [OF sk(1) sl f(1) slice_read_shape r(3)]
    have sl': "slices (lb_slices ?lb) = ?s # ss" using sf(2) by simp
    have "lb_read_bytes bm m lb n = Some (m1, ?lb, Inr ?b)"
      using n0 n q fd f(1) dr True by (simp add: lb_read_bytes_def Let_def)
    moreover have cm: "content m lb = slice_bytes m1 s @ concat (map (slice_bytes m1) ss)"
      using content_split [OF sl, of m1] sk(2) by simp
    have c: "content m1 ?lb = drop n (content m lb)"
      using content_split [OF sl', of m1] r(2) True ok unfolding cm by simp
    moreover have i': "lb_inv bm gs e m1 ?lb others"
      using sf(1) by (simp add: lb_inv_def all_slices_def)
    moreover have "total_size ?lb = lb_len lb1 - n"
      using length_content [OF lb_inv_slices_ok [OF i'], of m1] c n1
        length_content [OF lb_inv_slices_ok [OF i], of m] sk(3,4) len by simp
    moreover have "buf_bytes m1 ?lb ?b = Some (take n (content m lb))"
    proof -
      have "map_of (sl_nodes (lb_slices ?lb)) f = Some ?s"
        using set_slice_split [OF lb_invD(1) [OF sk(1)], of "[]" f s ns ?s] f(2) by simp
      from view_bytes [OF g True this] same_shape_simps(5) [OF slice_read_shape]
        content_split [OF sl, of m1] sk(2) True ok show ?thesis by simp
    qed
    moreover have "keeps gs others m1 lb1 m1 ?lb"
    proof (rule keepsI)
      show "guarded gs ?lb h" if "guarded gs lb1 h" for h
        using keepsD(1) [OF sf(3) that] sl' by (auto simp: guarded_def)
    qed simp_all
    moreover have "view_guarded gs ?lb ?b"
      by (rule view_guardedI [OF g True _ sl'])
        (simp_all add: same_shape_simps [OF slice_read_shape])
    ultimately show ?thesis
      using keeps_trans [OF sk(5)] c b64 sk(3) len unfolding reader_inv_def
      by (intro exI [of _ m1] exI [of _ ?lb] exI [of _ ?b]) simp
  next
    case False
    obtain m2 lb2 where l: "read_loop bm m1 (lb1\<lparr>lb_len := lb_len lb1 - n\<rparr>) n []
        = Some (m2, lb2, take n (content m1 lb1))"
      and p: "reader_inv bm gs e m2 lb2 others" "content m2 lb2 = drop n (content m1 lb1)"
        "keeps gs others m1 lb1 m2 lb2"
      using read_slow [OF sk(1) n1(2,1)] b64 sk(4) by auto
    have "lb_read_bytes bm m lb n = Some (m2, lb2, Inr (ExmBuf (take n (content m lb))))"
      using n0 n q fd f(1) dr False l sk(2) by (simp add: lb_read_bytes_def Let_def)
    with p sk(2) keeps_trans [OF sk(5) p(3)] show ?thesis
      by (intro exI [of _ m2] exI [of _ lb2] exI [of _ "ExmBuf (take n (content m lb))"])
        (simp add: buf_bytes_def view_guarded_def)
  qed
qed

lemma peek_loop_ok:
  assumes "\<forall>s \<in> set (map snd ns). slice_ok s"
  shows "peek_loop m ns n acc = acc @ take n (concat (map (slice_bytes m) (map snd ns)))"
  using assms
proof (induction ns arbitrary: n acc)
  case (Cons x ns)
  obtain i s where x: "x = (i, s)" by fastforce
  have ok: "slice_ok s" using Cons.prems x by simp
  have pk: "slice_peek m s n = take n (slice_bytes m s)" by (rule slice_peek_bytes [OF ok])
  have l: "usub n (length (slice_peek m s n)) = n - slice_size s" using ok by (simp add: pk)
  have "peek_loop m ns (n - slice_size s) (acc @ slice_peek m s n)
      = (acc @ slice_peek m s n) @ take (n - slice_size s) (concat (map (slice_bytes m) (map snd ns)))"
    using Cons by simp
  with x l pk ok show ?case by (cases "n = 0") (simp_all add: Let_def)
qed simp

lemma lb_peek_ok:
  assumes inv: "reader_inv bm gs e m lb others" and n: "n \<le> lb_len lb"
  shows "\<exists>lb' b. lb_peek m lb n = (lb', Inr b)
    \<and> buf_bytes m lb' b = Some (take n (content m lb)) \<and> content m lb' = content m lb
    \<and> reader_inv bm gs e m lb' others \<and> keeps gs others m lb m lb' \<and> view_guarded gs lb' b"
proof (cases "n = 0")
  case True
  with inv show ?thesis
    by (intro exI [of _ lb] exI [of _ "ExmBuf []"])
      (simp add: lb_peek_def buf_bytes_def view_guarded_def)
next
  case n0: False
  have i: "lb_inv bm gs e m lb others" and len: "lb_len lb = total_size lb"
    using inv by (simp_all add: reader_inv_def)
  then obtain s ss where sl: "slices (lb_slices lb) = s # ss"
    using n n0 by (cases "slices (lb_slices lb)") (simp_all add: total_size_def)
  obtain f ns where f: "sl_front (lb_slices lb) = Some f" "sl_nodes (lb_slices lb) = (f, s) # ns"
    and dr: "deref (lb_slices lb) (Some f) = Some s"
    using front_cons [OF lb_invD(1) [OF i] sl] by metis
  have g: "good_slice gs m s" and ok: "slice_ok s"
    using lb_invD(4) [OF i, of s] sl by (simp_all add: good_slice_def)
  have lp: "length (slice_peek m s n) = min n (slice_size s)"
    using ok by (simp add: slice_peek_bytes)
  show ?thesis
  proof (cases "n \<le> slice_size s")
    case True
    let ?lb = "lb\<lparr>lb_current_pinned := True\<rparr>" and ?b = "ShmBuf (view_of f s (bs_read_index s) n)"
    have "lb_peek m lb n = (?lb, Inr ?b)"
      using n0 n f(1) dr lp True by (simp add: lb_peek_def)
    moreover have "map_of (sl_nodes (lb_slices ?lb)) f = Some s" using f(2) by simp
    from view_bytes [OF g True this] have "buf_bytes m ?lb ?b = Some (take n (content m lb))"
      using content_split [OF sl, of m] True ok by simp
    moreover have "content m ?lb = content m lb" "reader_inv bm gs e m ?lb others"
      using inv by (simp_all add: content_def reader_inv_def lb_inv_def all_slices_def total_size_def)
    moreover have "keeps gs others m lb m ?lb" by (rule keepsI) (auto simp: guarded_def)
    moreover have "view_guarded gs ?lb ?b"
      by (rule view_guardedI [OF g True]) (simp_all add: sl)
    ultimately show ?thesis by blast
  next
    case False
    have "peek_loop m (sl_nodes (lb_slices lb)) n [] = take n (content m lb)"
      using peek_loop_ok [of "sl_nodes (lb_slices lb)" m n "[]"] lb_inv_slices_ok [OF i]
      by (simp add: content_def slices_def)
    then have "lb_peek m lb n = (lb, Inr (ExmBuf (take n (content m lb))))"
      using n0 n f(1) dr lp False by (simp add: lb_peek_def)
    with inv show ?thesis
      by (intro exI [of _ lb] exI [of _ "ExmBuf (take n (content m lb))"])
        (simp add: buf_bytes_def view_guarded_def)
  qed
qed

lemma slice_skip_shape: "slice_ok s \<Longrightarrow> slice_skip s n = (fst (slice_read m s n), min n (slice_size s))"
  by (rule slice_skip_read)

lemma discard_loop_ok:
  assumes "lb_inv bm gs e m lb others" and "n \<le> total_size lb" and "c + n < 18446744073709551616"
  shows "\<exists>m' lb'. discard_loop bm m lb n c = Some (m', lb', c + n)
    \<and> lb_inv bm gs e m' lb' others \<and> content m' lb' = drop n (content m lb)
    \<and> lb_len lb' = lb_len lb \<and> keeps gs others m lb m' lb'"
  using assms
proof (induction "length (slices (lb_slices lb))" arbitrary: m lb n c)
  case 0
  then have "n = 0" "content m lb = []" by (simp_all add: total_size_def content_def)
  moreover have "sl_front (lb_slices lb) = None"
    using 0 front_nil(1) [OF lb_invD(1) [OF 0(2)]] by simp
  ultimately show ?case
    using 0 by (intro exI [of _ m] exI [of _ lb]) (simp add: discard_loop.simps)
next
  case (Suc k)
  note inv = Suc.prems(1)
  note d = lb_invD [OF inv] and u = discard_loop.simps [of bm m lb n c]
  obtain s ss where sl: "slices (lb_slices lb) = s # ss"
    using Suc.hyps(2) by (cases "slices (lb_slices lb)") auto
  obtain f where f: "sl_front (lb_slices lb) = Some f" "deref (lb_slices lb) (Some f) = Some s"
    using front_cons [OF d(1) sl] by metis
  have ok: "slice_ok s" using d(4) [of s] sl by (simp add: good_slice_def)
  note r = slice_read_bytes [OF ok, of m n] and sk = slice_skip_shape [OF ok, of n m]
  let ?s = "fst (slice_read m s n)"
  let ?lb = "lb\<lparr>lb_slices := set_slice (lb_slices lb) f ?s\<rparr>"
  note sf = set_front_ok [OF inv sl f(1) slice_read_shape r(3)]
  have c: "content m lb = slice_bytes m s @ concat (map (slice_bytes m) ss)"
    by (rule content_split [OF sl])
  show ?case
  proof (cases "n \<le> slice_size s")
    case True
    then have "discard_loop bm m lb n c = Some (m, ?lb, c + n)"
      using u f sk Suc.prems(3) by (simp add: Let_def)
    moreover have "content m ?lb = drop n (content m lb)"
      using content_split [OF sf(2), of m] r(2) c True ok by simp
    ultimately show ?thesis using sf(1,3) by (intro exI [of _ m] exI [of _ ?lb]) simp
  next
    case False
    obtain m1 lb1 where q: "read_next_slice bm m ?lb = (m1, lb1)" by fastforce
    note nx = read_next_slice_ok [OF sf(1,2) q]
    have keep: "keeps gs others m lb m1 lb1"
      by (rule keeps_trans [OF sf(3) read_next_slice_keeps [OF sf(1,2) q]])
    have "n - slice_size s \<le> total_size lb1" "k = length (slices (lb_slices lb1))"
      "c + slice_size s + (n - slice_size s) < 18446744073709551616"
      using Suc.prems Suc.hyps(2) sl nx(2) False by (simp_all add: total_size_def)
    then obtain m2 lb2 where l: "discard_loop bm m1 lb1 (n - slice_size s) (c + slice_size s)
          = Some (m2, lb2, c + slice_size s + (n - slice_size s))"
      and p: "lb_inv bm gs e m2 lb2 others" "content m2 lb2 = drop (n - slice_size s) (content m1 lb1)"
        "lb_len lb2 = lb_len lb1" "keeps gs others m1 lb1 m2 lb2"
      using Suc.hyps(1) [OF _ nx(1), of "n - slice_size s" "c + slice_size s"] by blast
    have c1: "content m1 lb1 = concat (map (slice_bytes m) ss)"
      using nx(2,3) by (simp add: content_def cong: map_cong)
    have "discard_loop bm m lb n c = Some (m2, lb2, c + n)"
      using u f sk Suc.prems(3) False q l by (simp add: Let_def)
    moreover have "content m2 lb2 = drop n (content m lb)" using p(2) c c1 ok False by simp
    ultimately show ?thesis
      using p nx(4) keeps_trans [OF keep p(4)] by (intro exI [of _ m2] exI [of _ lb2]) simp
  qed
qed

lemma lb_discard_ok:
  assumes inv: "reader_inv bm gs e m lb others" and n: "n \<le> lb_len lb"
  shows "\<exists>m' lb'. lb_discard bm m lb n = Some (m', lb', Inr n)
    \<and> content m' lb' = drop n (content m lb)
    \<and> reader_inv bm gs e m' lb' others \<and> keeps gs others m lb m' lb'"
proof -
  have i: "lb_inv bm gs e m lb others" and len: "lb_len lb = total_size lb"
    and b64: "total_size lb < 18446744073709551616"
    using inv by (simp_all add: reader_inv_def)
  obtain m' lb' where l: "discard_loop bm m lb n 0 = Some (m', lb', n)"
    and p: "lb_inv bm gs e m' lb' others" "content m' lb' = drop n (content m lb)"
      "lb_len lb' = lb_len lb" "keeps gs others m lb m' lb'"
    using discard_loop_ok [OF i, of n 0] n len b64 by auto
  let ?lb = "lb'\<lparr>lb_len := lb_len lb - n\<rparr>"
  have "lb_discard bm m lb n = Some (m', ?lb, Inr n)"
    using n l p(3) by (simp add: lb_discard_def)
  moreover have t: "total_size lb' = total_size lb - n"
    using length_content [OF lb_inv_slices_ok [OF p(1)], of m'] p(2)
      length_content [OF lb_inv_slices_ok [OF i], of m] by simp
  have "reader_inv bm gs e m' ?lb others"
    using p(1) t len b64 by (simp add: reader_inv_def lb_inv_def all_slices_def total_size_def)
  moreover have "keeps gs others m' lb' m' ?lb" by (rule keepsI) (simp_all add: guarded_def)
  ultimately show ?thesis
    using p keeps_trans [OF p(4)] by (intro exI [of _ m'] exI [of _ ?lb]) (simp add: content_def)
qed

end
