(* ===== verification/Linked_Reader.thy ===== *)
theory Linked_Reader
  imports Linked_Read
begin

text \<open>
  The reader of \<open>src/buffer/linked.cpp\<close> as a whole: every sequence of \<open>read_bytes\<close>,
  \<open>peek\<close> and \<open>discard\<close> behaves as the same sequence on a plain byte string and the
  views it returned keep their bytes; \<open>release_previous_read\<close> and \<open>recycle\<close> give the
  buffers back. Two theorems at the end show where that ends: a view into fallback data on
  the heap, and the reuse of a read slice as the next write slice.
\<close>

section \<open>Sequences of reads\<close>

datatype read_op = OpRead nat | OpPeek nat | OpDiscard nat

datatype read_out = OutBuf buf | OutCount nat | OutErr error

definition read_op_step ::
  "buffer_manager \<Rightarrow> mem \<Rightarrow> linked_buffer \<Rightarrow> read_op \<Rightarrow> (mem \<times> linked_buffer \<times> read_out) option" where
  "read_op_step bm m lb op =
     (case op of
        OpRead n \<Rightarrow> map_option (\<lambda>(m1, lb1, r). (m1, lb1, case r of Inl e \<Rightarrow> OutErr e | Inr b \<Rightarrow> OutBuf b))
                      (lb_read_bytes bm m lb n)
      | OpPeek n \<Rightarrow> (case lb_peek m lb n of
                       (lb1, r) \<Rightarrow> Some (m, lb1, case r of Inl e \<Rightarrow> OutErr e | Inr b \<Rightarrow> OutBuf b))
      | OpDiscard n \<Rightarrow> map_option (\<lambda>(m1, lb1, r). (m1, lb1, case r of Inl e \<Rightarrow> OutErr e | Inr k \<Rightarrow> OutCount k))
                         (lb_discard bm m lb n))"

fun run_reader ::
  "buffer_manager \<Rightarrow> mem \<Rightarrow> linked_buffer \<Rightarrow> read_op list \<Rightarrow> (mem \<times> linked_buffer \<times> read_out list) option" where
  "run_reader bm m lb [] = Some (m, lb, [])"
| "run_reader bm m lb (op # ops) =
     (case read_op_step bm m lb op of
        None \<Rightarrow> None
      | Some (m1, lb1, r) \<Rightarrow> map_option (\<lambda>(m2, lb2, rs). (m2, lb2, r # rs)) (run_reader bm m1 lb1 ops))"

text \<open>The same operations on a byte string; \<open>None\<close> is \<open>NotEnoughData\<close>.\<close>

datatype spec_out = SpecBytes bytes | SpecCount nat

fun byte_step :: "bytes \<Rightarrow> read_op \<Rightarrow> bytes \<times> spec_out option" where
  "byte_step bs (OpRead n) = (if n \<le> length bs then (drop n bs, Some (SpecBytes (take n bs))) else (bs, None))"
| "byte_step bs (OpPeek n) = (if n \<le> length bs then (bs, Some (SpecBytes (take n bs))) else (bs, None))"
| "byte_step bs (OpDiscard n) = (if n \<le> length bs then (drop n bs, Some (SpecCount n)) else (bs, None))"

fun byte_reader :: "bytes \<Rightarrow> read_op list \<Rightarrow> bytes \<times> spec_out option list" where
  "byte_reader bs [] = (bs, [])"
| "byte_reader bs (op # ops) =
     (let (bs1, r) = byte_step bs op; (bs2, rs) = byte_reader bs1 ops in (bs2, r # rs))"

text \<open>
  An output shows the specified bytes in a memory and linked buffer; of a view into heap
  storage nothing is said.
\<close>

fun heap_view :: "buf \<Rightarrow> bool" where
  "heap_view (ShmBuf (HeapSpan i p n)) = True"
| "heap_view b = False"

fun shows_out :: "mem \<Rightarrow> linked_buffer \<Rightarrow> read_out \<Rightarrow> spec_out option \<Rightarrow> bool" where
  "shows_out m lb (OutBuf b) (Some (SpecBytes bs)) = (heap_view b \<or> buf_bytes m lb b = Some bs)"
| "shows_out m lb (OutCount k) (Some (SpecCount n)) = (k = n)"
| "shows_out m lb (OutErr e) None = (e = Error KNotEnoughData)"
| "shows_out m lb r s = False"

fun out_guarded :: "list_spec list \<Rightarrow> linked_buffer \<Rightarrow> read_out \<Rightarrow> bool" where
  "out_guarded gs lb (OutBuf b) = view_guarded gs lb b"
| "out_guarded gs lb r = True"

lemma reader_inv_length:
  assumes "reader_inv bm gs e m lb others"
  shows "length (content m lb) = lb_len lb"
  using assms length_content [OF lb_inv_slices_ok, of bm gs e m lb others m] by (simp add: reader_inv_def)

lemma shows_out_keeps:
  assumes s: "shows_out m lb r sp" and g: "out_guarded gs lb r" and k: "keeps gs others m lb m' lb'"
  shows "shows_out m' lb' r sp"
proof (cases "\<exists>a n. r = OutBuf (ShmBuf (ShmSpan a n))")
  case True
  then obtain a n where r: "r = OutBuf (ShmBuf (ShmSpan a n))" by blast
  then obtain bs where sp: "sp = Some (SpecBytes bs)" "mem_read m a n = bs"
    using s by (cases "(m, lb, r, sp)" rule: shows_out.cases) (simp_all add: buf_bytes_def)
  obtain h where h: "guarded gs lb h" "{a ..< a + n} \<subseteq> area gs h"
    using g r by (auto simp: view_guarded_def)
  have "mem_read m' a n = mem_read m a n"
  proof -
    have "m' (a + i) = m (a + i)" if "i < n" for i
    proof (rule keepsD(2) [OF k h(1)])
      show "a + i \<in> area gs h" using h(2) that by (intro subsetD [OF h(2)]) simp
    qed
    then show ?thesis by (simp add: mem_read_def)
  qed
  with r sp show ?thesis by (simp add: buf_bytes_def)
next
  case False
  with s show ?thesis
    by (cases "(m, lb, r, sp)" rule: shows_out.cases)
      (auto simp: buf_bytes_def split: buf.splits view.splits)
qed

lemma read_op_step_ok:
  assumes inv: "reader_inv bm gs e m lb others"
  shows "\<exists>m' lb' r. read_op_step bm m lb op = Some (m', lb', r)
    \<and> reader_inv bm gs e m' lb' others \<and> keeps gs others m lb m' lb' \<and> out_guarded gs lb' r
    \<and> content m' lb' = fst (byte_step (content m lb) op)
    \<and> shows_out m' lb' r (snd (byte_step (content m lb) op))"
proof -
  note len = reader_inv_length [OF inv]
  show ?thesis
  proof (cases op)
    case (OpRead n)
    show ?thesis
    proof (cases "n \<le> lb_len lb")
      case True
      from lb_read_bytes_ok [OF inv this] OpRead len True show ?thesis
        by (fastforce simp: read_op_step_def)
    next
      case False
      then have "lb_read_bytes bm m lb n = Some (m, lb, Inl (Error KNotEnoughData))"
        by (simp add: lb_read_bytes_def)
      with False OpRead len inv show ?thesis by (simp add: read_op_step_def)
    qed
  next
    case (OpPeek n)
    show ?thesis
    proof (cases "n \<le> lb_len lb")
      case True
      from lb_peek_ok [OF inv this] OpPeek len True show ?thesis
        by (fastforce simp: read_op_step_def)
    next
      case False
      then have "lb_peek m lb n = (lb, Inl (Error KNotEnoughData))" by (simp add: lb_peek_def)
      with False OpPeek len inv show ?thesis by (simp add: read_op_step_def)
    qed
  next
    case (OpDiscard n)
    show ?thesis
    proof (cases "n \<le> lb_len lb")
      case True
      from lb_discard_ok [OF inv this] OpDiscard len True show ?thesis
        by (fastforce simp: read_op_step_def)
    next
      case False
      then have "lb_discard bm m lb n = Some (m, lb, Inl (Error KNotEnoughData))"
        by (simp add: lb_discard_def)
      with False OpDiscard len inv show ?thesis by (simp add: read_op_step_def)
    qed
  qed
qed

lemma run_reader_ok:
  assumes "reader_inv bm gs e m lb others"
  shows "\<exists>m' lb' rs. run_reader bm m lb ops = Some (m', lb', rs)
    \<and> reader_inv bm gs e m' lb' others \<and> keeps gs others m lb m' lb'
    \<and> content m' lb' = fst (byte_reader (content m lb) ops)
    \<and> list_all2 (shows_out m' lb') rs (snd (byte_reader (content m lb) ops))"
  using assms
proof (induction ops arbitrary: m lb)
  case (Cons op ops)
  obtain m1 lb1 r where s: "read_op_step bm m lb op = Some (m1, lb1, r)"
    and i: "reader_inv bm gs e m1 lb1 others" and k: "keeps gs others m lb m1 lb1"
    and g: "out_guarded gs lb1 r" and c: "content m1 lb1 = fst (byte_step (content m lb) op)"
    and o1: "shows_out m1 lb1 r (snd (byte_step (content m lb) op))"
    using read_op_step_ok [OF Cons.prems] by blast
  obtain m2 lb2 rs where t: "run_reader bm m1 lb1 ops = Some (m2, lb2, rs)"
    "reader_inv bm gs e m2 lb2 others" "keeps gs others m1 lb1 m2 lb2"
    "content m2 lb2 = fst (byte_reader (content m1 lb1) ops)"
    "list_all2 (shows_out m2 lb2) rs (snd (byte_reader (content m1 lb1) ops))"
    using Cons.IH [OF i] by blast
  from shows_out_keeps [OF o1 g t(3)] keeps_trans [OF k t(3)] s t c show ?case
    by (simp add: case_prod_beta Let_def)
qed simp

section \<open>Giving buffers back\<close>

lemma pop_all_recycle:
  assumes "sl_inv sl" and "\<forall>s \<in> set (slices sl). good_slice gs m s"
    and "managed bm gs e m (shm_names gs (slices sl) @ held)"
  shows "\<exists>m' sl'. pop_all (recycle_if_shm bm) m sl = Some (m', sl') \<and> sl_inv sl' \<and> slices sl' = []
    \<and> sl_len sl' = 0 \<and> managed bm gs e m' held \<and> (\<forall>g \<in> set held. \<forall>x \<in> area gs g. m' x = m x)"
  using assms
proof (induction "slices sl" arbitrary: sl m)
  case Nil
  then show ?case
    using pop_front_empty [of sl] by (simp add: pop_all.simps sl_inv_def slices_def)
next
  case (Cons s ss)
  note sl = Cons.hyps(2) [symmetric]
  note pf = pop_front_cons [OF Cons.prems(1) sl] and u = pop_all.simps [of "recycle_if_shm bm" m sl]
  let ?m = "recycle_if_shm bm m s" and ?sl = "fst (pop_front sl)"
  have g: "good_slice gs m s" using Cons.prems(2) sl by simp
  have rf: "managed bm gs e ?m (shm_names gs ss @ held)
    \<and> (\<forall>h \<in> set (shm_names gs ss @ held). \<forall>x \<in> area gs h. ?m x = m x)"
  proof (cases "bs_is_from_shm s")
    case True
    with recycle_held [of bm gs e m s "shm_names gs ss @ held"] g Cons.prems(3) sl show ?thesis
      by (simp add: recycle_if_shm_def good_slice_def del: split_paired_All)
  next
    case False
    with Cons.prems(3) sl show ?thesis by (simp add: recycle_if_shm_def)
  qed
  then have man: "managed bm gs e ?m (shm_names gs ss @ held)"
    and fr: "\<And>h x. h \<in> set (shm_names gs ss @ held) \<Longrightarrow> x \<in> area gs h \<Longrightarrow> ?m x = m x" by blast+
  have "good_slice gs ?m t" if t: "t \<in> set ss" for t
  proof (rule good_slice_cong(1))
    show "good_slice gs m t" using Cons.prems(2) sl t by simp
    show "?m x = m x" if "bs_is_from_shm t" "x \<in> area gs (hname gs t)" for x
      using fr [OF _ that(2)] hname_in_shm_names [OF t that(1)] by simp
  qed
  then obtain m' sl' where r: "pop_all (recycle_if_shm bm) ?m ?sl = Some (m', sl')"
    "sl_inv sl'" "slices sl' = []" "sl_len sl' = 0" "managed bm gs e m' held"
    "\<forall>g \<in> set held. \<forall>x \<in> area gs g. m' x = ?m x"
    using Cons.hyps(1) [of ?sl ?m] pf man by auto
  with u pf fr show ?case by auto
qed

lemma clean_pinned_loop_pop_all:
  "sl_inv sl \<Longrightarrow> clean_pinned_loop bm m sl = pop_all (recycle_if_shm bm) m sl"
proof (induction "slices sl" arbitrary: sl m)
  case Nil
  then have "sl_len sl = 0" by (simp add: sl_inv_def slices_def)
  with Nil pop_front_empty [of sl] show ?case by (simp add: clean_pinned_loop.simps pop_all.simps)
next
  case (Cons s ss)
  note sl = Cons.hyps(2) [symmetric]
  note pf = pop_front_cons [OF Cons.prems sl]
  have "sl_len sl > 0" using Cons.prems sl by (auto simp: sl_inv_def slices_def)
  with Cons.hyps(1) [of "fst (pop_front sl)"] pf show ?case
    using clean_pinned_loop.simps [of bm m sl] pop_all.simps [of "recycle_if_shm bm" m sl] by simp
qed

lemma lb_recycle_ok:
  assumes inv: "lb_inv bm gs e m lb others"
  shows "\<exists>m' lb'. lb_recycle bm m lb = Some (m', lb') \<and> reader_inv bm gs e m' lb' others
    \<and> slices (lb_slices lb') = [] \<and> lb_pinned lb' = lb_pinned lb \<and> lb_is_from_shm lb'
    \<and> managed bm gs e m' (shm_names gs (slices (lb_pinned lb)) @ others)
    \<and> (\<forall>h \<in> set others. \<forall>x \<in> area gs h. m' x = m x)"
proof -
  note d = lb_invD [OF inv]
  let ?held = "shm_names gs (slices (lb_pinned lb)) @ others"
  obtain m' sl where r: "pop_all (recycle_if_shm bm) m (lb_slices lb) = Some (m', sl)"
    "sl_inv sl" "slices sl = []" "sl_len sl = 0" "managed bm gs e m' ?held"
    "\<forall>g \<in> set ?held. \<forall>x \<in> area gs g. m' x = m x"
    using pop_all_recycle [OF d(1), of gs m bm e ?held] d(3,4) by (auto simp: all_slices_def)
  have g: "good_slice gs m' s" if "s \<in> set (slices (lb_pinned lb))" for s
    using good_slice_cong(1) [OF d(5) [OF that], of m'] r(6) hname_in_shm_names [OF that, of gs] by auto
  have "reader_inv bm gs e m' (lb_reset_fields lb sl) others"
    using r g d(2,6)
    by (simp add: reader_inv_def lb_inv_def all_slices_def lb_reset_fields_def total_size_def)
  moreover have "\<forall>h \<in> set others. \<forall>x \<in> area gs h. m' x = m x" using r(6) by auto
  ultimately show ?thesis
    using r by (simp add: lb_recycle_def lb_reset_fields_def)
qed

lemma clean_pinned_list_ok:
  assumes inv: "lb_inv bm gs e m lb others"
  shows "\<exists>m' lb'. clean_pinned_list bm m lb = Some (m', lb') \<and> lb_inv bm gs e m' lb' others
    \<and> slices (lb_pinned lb') = [] \<and> lb_slices lb' = lb_slices lb \<and> content m' lb' = content m lb
    \<and> lb_len lb' = lb_len lb \<and> (\<forall>h \<in> set others. \<forall>x \<in> area gs h. m' x = m x)"
proof (cases "sl_len (lb_pinned lb) = 0")
  case True
  with inv show ?thesis
    by (auto simp: clean_pinned_list_def lb_inv_def sl_inv_def slices_def)
next
  case False
  note d = lb_invD [OF inv]
  let ?held = "shm_names gs (slices (lb_slices lb)) @ others"
  have "managed bm gs e m (shm_names gs (slices (lb_pinned lb)) @ ?held)"
    using d(3) by (rule src.owned_perm) (simp add: all_slices_def)
  then obtain m' sl where r: "pop_all (recycle_if_shm bm) m (lb_pinned lb) = Some (m', sl)"
    "sl_inv sl" "slices sl = []" "managed bm gs e m' ?held"
    "\<forall>g \<in> set ?held. \<forall>x \<in> area gs g. m' x = m x"
    using pop_all_recycle [OF d(2), of gs m bm e ?held] d(5) by blast
  let ?lb = "lb\<lparr>lb_pinned := sl, lb_current_pinned := False\<rparr>"
  have g: "good_slice gs m' s \<and> slice_bytes m' s = slice_bytes m s" if "s \<in> set (slices (lb_slices lb))" for s
    using good_slice_cong [OF d(4) [OF that], of m'] r(5) hname_in_shm_names [OF that, of gs] by auto
  have "lb_inv bm gs e m' ?lb others"
    using r g d(1) by (simp add: lb_inv_def all_slices_def)
  moreover have "content m' ?lb = content m lb"
    using content_cong [of lb m' m] g by (simp add: content_def)
  moreover have "\<forall>h \<in> set others. \<forall>x \<in> area gs h. m' x = m x" using r(5) by auto
  ultimately show ?thesis
    using False r clean_pinned_loop_pop_all [OF d(2), of bm m] by (simp add: clean_pinned_list_def)
qed

lemma lb_release_previous_read_ok:
  assumes inv: "reader_inv bm gs e m lb others"
  shows "\<exists>m' lb'. lb_release_previous_read bm m lb = Some (m', lb') \<and> reader_inv bm gs e m' lb' others
    \<and> slices (lb_pinned lb') = [] \<and> content m' lb' = content m lb
    \<and> (\<forall>h \<in> set others. \<forall>x \<in> area gs h. m' x = m x)"
proof -
  have i: "lb_inv bm gs e m lb others" and len: "lb_len lb = total_size lb"
    "total_size lb < 18446744073709551616" using inv by (simp_all add: reader_inv_def)
  obtain m1 lb1 where c: "clean_pinned_list bm m lb = Some (m1, lb1)" and p: "lb_inv bm gs e m1 lb1 others"
    "slices (lb_pinned lb1) = []" "lb_slices lb1 = lb_slices lb" "content m1 lb1 = content m lb"
    "lb_len lb1 = lb_len lb" "\<forall>h \<in> set others. \<forall>x \<in> area gs h. m1 x = m x"
    using clean_pinned_list_ok [OF i] by blast
  have t: "total_size lb1 = total_size lb" using p(3) by (simp add: total_size_def)
  have r1: "reader_inv bm gs e m1 lb1 others" using p len t by (simp add: reader_inv_def)
  show ?thesis
  proof (cases "slices (lb_slices lb1)")
    case Nil
    then have "lb_release_previous_read bm m lb = Some (m1, lb1)"
      using c front_nil(2) [OF lb_invD(1) [OF p(1)]] by (simp add: lb_release_previous_read_def)
    with r1 p show ?thesis by blast
  next
    case (Cons s ss)
    have f: "deref (lb_slices lb1) (sl_front (lb_slices lb1)) = Some s"
      by (rule front_cons [OF lb_invD(1) [OF p(1)] Cons])
    have n0: "sl_len (lb_slices lb1) \<noteq> 0"
      using lb_invD(1) [OF p(1)] Cons by (auto simp: sl_inv_def slices_def)
    show ?thesis
    proof (cases "slice_size s = 0 \<and> sl_front (lb_slices lb1) = sl_write (lb_slices lb1)")
      case False
      then have "lb_release_previous_read bm m lb = Some (m1, lb1)"
        using c f n0 by (auto simp: lb_release_previous_read_def)
      with r1 p show ?thesis by blast
    next
      case True
      let ?lb = "lb1\<lparr>lb_current_pinned := False\<rparr>"
      have i2: "lb_inv bm gs e m1 ?lb others" "slices (lb_slices ?lb) = s # ss"
        using p(1) Cons by (simp_all add: lb_inv_def all_slices_def)
      obtain m2 lb2 where q: "read_next_slice bm m1 ?lb = (m2, lb2)" by fastforce
      note n = read_next_slice_ok [OF i2 q]
      have pf: "snd (pop_front (lb_slices lb1)) = Some s"
        by (rule pop_front_cons(1) [OF lb_invD(1) [OF p(1)] Cons])
      have m2: "m2 = recycle_buffer bm m1 s"
        "lb2 = lb1\<lparr>lb_slices := fst (pop_front (lb_slices lb1)), lb_current_pinned := False\<rparr>"
        using q pf by (auto simp: read_next_slice_def Let_def recycle_buffer_def split: if_splits)
      let ?lb' = "lb1\<lparr>lb_slices := set_write (fst (pop_front (lb_slices lb1))) None\<rparr>"
      have rel: "lb_release_previous_read bm m lb = Some (m2, ?lb')"
        using c f n0 True m2(1) by (simp add: lb_release_previous_read_def)
      have e: "content m2 ?lb' = content m2 lb2" "total_size ?lb' = total_size lb2"
        "slices (lb_pinned ?lb') = []" "lb_inv bm gs e m2 ?lb' others"
        using m2(2) p(2) n(1) by (simp_all add: content_def total_size_def lb_inv_def all_slices_def)
      have sb: "slice_bytes m1 s = []"
        using length_slice_bytes [of s m1] lb_inv_slices_ok [OF p(1)] Cons True by fastforce
      have "content m2 lb2 = content m1 lb1"
        using n(2,3) content_split [OF Cons, of m1] sb by (simp add: content_def cong: map_cong)
      moreover have "total_size lb2 = total_size lb"
        using n(2) Cons True t by (simp add: total_size_def)
      moreover have "\<forall>h \<in> set others. \<forall>x \<in> area gs h. m2 x = m x"
      proof (intro ballI)
        fix h x assume "h \<in> set others" "x \<in> area gs h"
        with n(7) [of h x] p(6) show "m2 x = m x" by simp
      qed
      ultimately show ?thesis
        using rel e p(4,5) len by (intro exI [of _ m2] exI [of _ ?lb']) (simp add: reader_inv_def)
    qed
  qed
qed

section \<open>Handing slices to a reader\<close>

lemma names_inj:
  assumes d: "distinct (map ls_cap gs)" and h: "names gs s h" and g: "names gs s g"
  shows "h = g"
proof -
  have "fst h = fst g"
  proof -
    have "fst h < length gs" "fst g < length gs" "ls_cap (gs ! fst h) = ls_cap (gs ! fst g)"
      using h g by (simp_all add: names_def)
    with d show ?thesis by (simp add: nth_eq_iff_index_eq [of "map ls_cap gs", symmetric])
  qed
  moreover have "node (ls_off (gs ! fst h)) (ls_cap (gs ! fst h)) (snd h)
      = node (ls_off (gs ! fst g)) (ls_cap (gs ! fst g)) (snd g)"
  proof -
    have "bs_data s = ShmData (node (ls_off (gs ! fst k)) (ls_cap (gs ! fst k)) (snd k) + 20)"
      if "names gs s k" for k using that by (simp add: names_def)
    from this [OF h] this [OF g] show ?thesis by simp
  qed
  then have "snd h = snd g" using calculation unit_size_ge [of "ls_cap (gs ! fst g)"] by (simp add: node_def)
  ultimately show ?thesis by (rule prod_eqI)
qed

lemma hname_eq:
  assumes "managed bm gs e m held" and h: "names gs s h"
  shows "hname gs s = h" "named gs s"
proof -
  show n: "named gs s" using h unfolding named_def by blast
  show "hname gs s = h"
    using names_inj [OF _ names_hname [OF n] h] assms(1) by (simp add: managed_def manages_def)
qed

lemma grants_good:
  assumes g: "grants (managed bm gs e) (area gs) (names gs) m held m' ss hs"
  shows "shm_names gs ss = hs" "\<forall>s \<in> set ss. good_slice gs m' s \<and> bs_is_from_shm s"
proof -
  have man: "managed bm gs e m' (hs @ held)" and n: "list_all2 (names gs) ss hs"
    and f: "\<forall>s \<in> set ss. fresh_slice s \<and> header_used m' s" using g by (simp_all add: grants_def)
  from n show "shm_names gs ss = hs"
    by (induction rule: list_all2_induct) (simp_all add: hname_eq [OF man] names_def)
  show "\<forall>s \<in> set ss. good_slice gs m' s \<and> bs_is_from_shm s"
  proof
    fix s assume s: "s \<in> set ss"
    then obtain h where h: "names gs s h" using n unfolding list_all2_conv_all_nth in_set_conv_nth by blast
    with f s hname_eq [OF man h] show "good_slice gs m' s \<and> bs_is_from_shm s"
      by (auto simp: good_slice_def names_def fresh_slice_def header_used_def in_used_def split: option.splits)
  qed
qed

lemma append_buffer_slice_ok:
  assumes inv: "reader_inv bm gs e m lb (shm_names gs [s] @ others)" and g: "good_slice gs m s"
    and b: "lb_len lb + slice_size s < 18446744073709551616"
  shows "reader_inv bm gs e m (append_buffer_slice lb s) others"
    "content m (append_buffer_slice lb s) = content m lb @ slice_bytes m s"
    "slices (lb_slices (append_buffer_slice lb s)) = slices (lb_slices lb) @ [s]"
    "lb_pinned (append_buffer_slice lb s) = lb_pinned lb"
proof -
  have i: "lb_inv bm gs e m lb (shm_names gs [s] @ others)" and len: "lb_len lb = total_size lb"
    using inv by (simp_all add: reader_inv_def)
  note d = lb_invD [OF i]
  let ?lb = "append_buffer_slice lb s"
  have sl: "lb_slices ?lb = set_write (push_back (lb_slices lb) s) (sl_back (push_back (lb_slices lb) s))"
    by (simp add: append_buffer_slice_def Let_def)
  note pb = push_back_inv [OF d(1), of s]
  show p: "lb_pinned ?lb = lb_pinned lb" by (simp add: append_buffer_slice_def Let_def)
  show ss: "slices (lb_slices ?lb) = slices (lb_slices lb) @ [s]" by (simp add: sl pb)
  show "content m ?lb = content m lb @ slice_bytes m s" by (simp add: content_def ss)
  have "lb_len ?lb = uadd (lb_len lb) (slice_size s)" by (simp add: append_buffer_slice_def Let_def)
  then have l: "lb_len ?lb = lb_len lb + slice_size s" using uadd_small b by simp
  have "managed bm gs e m (shm_names gs (all_slices ?lb) @ others)"
    using d(3) by (rule src.owned_perm) (simp add: all_slices_def ss p)
  then have "lb_inv bm gs e m ?lb others"
    using d(2,4,5,6) g pb(1) ss p sl by (auto simp: lb_inv_def all_slices_def)
  with l len b ss show "reader_inv bm gs e m ?lb others" by (simp add: reader_inv_def total_size_def)
qed

text \<open>A slice on the heap that is full of data, as \<open>handle_fallback_data\<close> makes it.\<close>

definition heap_data_slice :: "bytes \<Rightarrow> buffer_slice" where
  "heap_data_slice v = (let s = from_heap v in s\<lparr>bs_write_index := unat (bs_cap s)\<rparr>)"

lemma heap_data_slice_ok:
  assumes "length v < 4294967296"
  shows "good_slice gs m (heap_data_slice v)" "slice_bytes m (heap_data_slice v) = v"
    "slice_size (heap_data_slice v) = length v" "bs_is_from_shm (heap_data_slice v) = False"
  using assms unat_of_nat_u32 [OF assms]
  by (simp_all add: heap_data_slice_def Let_def good_slice_def slice_ok_def from_heap_def
      slice_bytes_def data_read_def slice_size_def)

lemma new_linked_buffer_inv:
  "managed bm gs e m others \<Longrightarrow> reader_inv bm gs e m new_linked_buffer others"
  by (simp add: reader_inv_def lb_inv_def new_linked_buffer_def all_slices_def total_size_def)

lemma new_linked_buffer_simps [simp]:
  "lb_len new_linked_buffer = 0" "content m new_linked_buffer = []"
  "slices (lb_slices new_linked_buffer) = []" "slices (lb_pinned new_linked_buffer) = []"
  by (simp_all add: new_linked_buffer_def content_def)

section \<open>Properties\<close>

text \<open>
  Property C2. Every sequence of \<open>read_bytes\<close>, \<open>peek\<close> and \<open>discard\<close> returns, and does to the
  unread bytes of the slices what it does to a plain byte string: the same bytes come out,
  in order, none lost or repeated, a request for more than there is fails with
  \<open>NotEnoughData\<close> and changes nothing. At the end of the sequence every view into shared
  memory it returned still shows the bytes it showed when it was returned, although the
  slices behind it have been used up.
\<close>

theorem reader_refines_byte_string:
  assumes "reader_inv bm gs e m lb others"
  shows "\<exists>m' lb' rs. run_reader bm m lb ops = Some (m', lb', rs)
    \<and> content m' lb' = fst (byte_reader (content m lb) ops)
    \<and> list_all2 (shows_out m' lb') rs (snd (byte_reader (content m lb) ops))
    \<and> reader_inv bm gs e m' lb' others"
  using run_reader_ok [OF assms, of ops] by blast

lemma sample_reader:
  assumes "managed bm gs e m []"
  shows "reader_inv bm gs e m (append_buffer_slice (append_buffer_slice new_linked_buffer
      (heap_data_slice [1, 2])) (heap_data_slice [3, 4, 5])) []"
    "content m (append_buffer_slice (append_buffer_slice new_linked_buffer
      (heap_data_slice [1, 2])) (heap_data_slice [3, 4, 5])) = [1, 2, 3, 4, 5]"
    "slices (lb_slices (append_buffer_slice (append_buffer_slice new_linked_buffer
      (heap_data_slice [1, 2])) (heap_data_slice [3, 4, 5]))) = [heap_data_slice [1, 2], heap_data_slice [3, 4, 5]]"
proof -
  note h = heap_data_slice_ok [of "[1, 2]"] heap_data_slice_ok [of "[3, 4, 5]"]
  have a: "reader_inv bm gs e m new_linked_buffer (shm_names gs [heap_data_slice [1, 2]] @ [])"
    using new_linked_buffer_inv [OF assms] h by simp
  note a1 = append_buffer_slice_ok [OF a h(1)]
  have len: "lb_len (append_buffer_slice new_linked_buffer (heap_data_slice [1, 2])) = 2"
    using reader_inv_length [OF a1(1)] a1(2) h by simp
  have b: "reader_inv bm gs e m (append_buffer_slice new_linked_buffer (heap_data_slice [1, 2]))
      (shm_names gs [heap_data_slice [3, 4, 5]] @ [])"
    using a1(1) h by simp
  note b1 = append_buffer_slice_ok [OF b h(5)]
  show "reader_inv bm gs e m (append_buffer_slice (append_buffer_slice new_linked_buffer
      (heap_data_slice [1, 2])) (heap_data_slice [3, 4, 5])) []"
    "content m (append_buffer_slice (append_buffer_slice new_linked_buffer
      (heap_data_slice [1, 2])) (heap_data_slice [3, 4, 5])) = [1, 2, 3, 4, 5]"
    "slices (lb_slices (append_buffer_slice (append_buffer_slice new_linked_buffer
      (heap_data_slice [1, 2])) (heap_data_slice [3, 4, 5]))) = [heap_data_slice [1, 2], heap_data_slice [3, 4, 5]]"
    using b1 a1 h len by simp_all
qed

theorem reader_refines_byte_string_witness:
  "\<exists>bm m lb m' lb' rs. content m lb = [1, 2, 3, 4, 5]
     \<and> run_reader bm m lb [OpPeek 3, OpRead 4, OpRead 2, OpDiscard 1] = Some (m', lb', rs)
     \<and> list_all2 (shows_out m' lb') rs
         [Some (SpecBytes [1, 2, 3]), Some (SpecBytes [1, 2, 3, 4]), None, Some (SpecCount 1)]"
proof -
  obtain m0 bm where m: "managed bm (created_specs sample_pairs 1000 0) 1000 m0 []"
    by (rule sample_managed)
  let ?lb = "append_buffer_slice (append_buffer_slice new_linked_buffer (heap_data_slice [1, 2]))
    (heap_data_slice [3, 4, 5])" and ?ops = "[OpPeek 3, OpRead 4, OpRead 2, OpDiscard 1]"
  note s = sample_reader [OF m]
  have e: "byte_reader [1, 2, 3, 4, 5] ?ops = ([], [Some (SpecBytes [1, 2, 3]),
      Some (SpecBytes [1, 2, 3, 4]), None, Some (SpecCount 1)])" by simp
  obtain m' lb' rs where r: "run_reader bm m0 ?lb ?ops = Some (m', lb', rs)"
    "list_all2 (shows_out m' lb') rs (snd (byte_reader (content m0 ?lb) ?ops))"
    using reader_refines_byte_string [OF s(1), of ?ops] by blast
  from r(2) have "list_all2 (shows_out m' lb') rs [Some (SpecBytes [1, 2, 3]),
      Some (SpecBytes [1, 2, 3, 4]), None, Some (SpecCount 1)]"
    unfolding s(2) e by simp
  with r(1) s(2) show ?thesis by blast
qed

text \<open>
  Property C17. A reader gives everything back: after any sequence of reads,
  \<open>release_previous_read\<close> followed by \<open>recycle\<close> returns to the manager every buffer the
  linked buffer was holding; what is held by others stays held and keeps its bytes.
\<close>

theorem reader_returns_every_buffer:
  assumes "reader_inv bm gs e m lb others"
  shows "\<exists>m1 lb1 rs m2 lb2 m3 lb3. run_reader bm m lb ops = Some (m1, lb1, rs)
    \<and> lb_release_previous_read bm m1 lb1 = Some (m2, lb2)
    \<and> lb_recycle bm m2 lb2 = Some (m3, lb3)
    \<and> managed bm gs e m3 others \<and> all_slices lb3 = []
    \<and> (\<forall>h \<in> set others. \<forall>x \<in> area gs h. m3 x = m x)"
proof -
  obtain m1 lb1 rs where a: "run_reader bm m lb ops = Some (m1, lb1, rs)"
    "reader_inv bm gs e m1 lb1 others" "keeps gs others m lb m1 lb1"
    using run_reader_ok [OF assms] by blast
  obtain m2 lb2 where b: "lb_release_previous_read bm m1 lb1 = Some (m2, lb2)"
    "reader_inv bm gs e m2 lb2 others" "slices (lb_pinned lb2) = []"
    "\<forall>h \<in> set others. \<forall>x \<in> area gs h. m2 x = m1 x"
    using lb_release_previous_read_ok [OF a(2)] by blast
  have "lb_inv bm gs e m2 lb2 others" using b(2) by (simp add: reader_inv_def)
  then obtain m3 lb3 where c: "lb_recycle bm m2 lb2 = Some (m3, lb3)" "slices (lb_slices lb3) = []"
    "lb_pinned lb3 = lb_pinned lb2" "managed bm gs e m3 (shm_names gs (slices (lb_pinned lb2)) @ others)"
    "\<forall>h \<in> set others. \<forall>x \<in> area gs h. m3 x = m2 x"
    using lb_recycle_ok by blast
  have "\<forall>h \<in> set others. \<forall>x \<in> area gs h. m3 x = m x"
    using keepsD(3) [OF a(3)] b(4) c(5) by (metis (full_types))
  with a b c show ?thesis by (simp add: all_slices_def)
qed

lemma sample_shm_reader:
  assumes "managed bm (created_specs sample_pairs 1000 0) 1000 m0 []" "bm_max_slice_size bm = 64"
  obtains m s where "alloc_shm_buffer bm m0 10 = (m, Inr s)"
    "reader_inv bm (created_specs sample_pairs 1000 0) 1000 m (append_buffer_slice new_linked_buffer s) []"
    "slices (lb_slices (append_buffer_slice new_linked_buffer s)) = [s]" "bs_is_from_shm s"
    "lb_len (append_buffer_slice new_linked_buffer s) = 0"
    "slices (lb_pinned (append_buffer_slice new_linked_buffer s)) = []"
proof -
  let ?gs = "created_specs sample_pairs 1000 0"
  obtain m s where a: "alloc_shm_buffer bm m0 10 = (m, Inr s)"
    using alloc_succeeds_iff [OF assms(1) sample_spec0(2), of 10] assms(2) by (auto simp: sample_spec0)
  then obtain h where g: "grants (managed bm ?gs 1000) (area ?gs) (names ?gs) m0 [] m [s] [h]"
    using src.alloc_one_ok [OF assms(1)] by blast
  note gg = grants_good [OF g]
  have f: "slice_size s = 0" and mm: "managed bm ?gs 1000 m [h]"
    using g by (simp_all add: grants_def fresh_slice_def slice_size_def)
  have r: "reader_inv bm ?gs 1000 m new_linked_buffer (shm_names ?gs [s] @ [])"
    using new_linked_buffer_inv [OF mm] gg(1) by simp
  note ap = append_buffer_slice_ok [OF r] and l = reader_inv_length [OF append_buffer_slice_ok(1) [OF r]]
  have "slice_ok s" using gg(2) by (simp add: good_slice_def)
  with f have "slice_bytes m s = []" by (metis length_0_conv length_slice_bytes)
  then show thesis
    by (intro that [OF a]) (use ap l gg(2) f in \<open>simp_all\<close>)
qed

theorem reader_returns_every_buffer_witness:
  "\<exists>bm m0 m s m1 lb1 rs m2 lb2 m3 lb3.
     bm_create sample_pairs ''p'' (\<lambda>_. 0) 1000 0 = (m0, Inr bm) \<and> alloc_shm_buffer bm m0 10 = (m, Inr s)
     \<and> run_reader bm m (append_buffer_slice new_linked_buffer s) [OpRead 0] = Some (m1, lb1, rs)
     \<and> lb_release_previous_read bm m1 lb1 = Some (m2, lb2)
     \<and> lb_recycle bm m2 lb2 = Some (m3, lb3) \<and> check_buffer_returned bm m3"
proof -
  obtain m0 bm where b: "bm_create sample_pairs ''p'' (\<lambda>_. 0) 1000 0 = (m0, Inr bm)"
    and m: "managed bm (created_specs sample_pairs 1000 0) 1000 m0 []" and x: "bm_max_slice_size bm = 64"
    by (rule sample_managed)
  obtain m s where a: "alloc_shm_buffer bm m0 10 = (m, Inr s)"
    and r: "reader_inv bm (created_specs sample_pairs 1000 0) 1000 m (append_buffer_slice new_linked_buffer s) []"
    by (rule sample_shm_reader [OF m x])
  from reader_returns_every_buffer [OF r, of "[OpRead 0]"] a b show ?thesis
    using check_buffer_returned_iff by blast
qed

text \<open>
  Property C40. A view into fallback data does not live until the next release: when the
  front slice is a heap slice, \<open>read_bytes\<close> of all of it returns a view into its storage,
  and the next \<open>read_bytes\<close> destroys that storage, without any release in between. The
  reader's contract says that results stay valid until \<open>release_previous_read\<close>.
\<close>

theorem heap_view_dangles:
  assumes inv: "reader_inv bm gs e m lb others" and sl: "slices (lb_slices lb) = s # t # ss"
    and heap: "bs_is_from_shm s = False" and n: "0 < slice_size s" "0 < slice_size t"
  shows "\<exists>m1 lb1 b m2 lb2 b2. lb_read_bytes bm m lb (slice_size s) = Some (m1, lb1, Inr b)
    \<and> buf_bytes m1 lb1 b = Some (slice_bytes m s)
    \<and> lb_read_bytes bm m1 lb1 1 = Some (m2, lb2, Inr b2) \<and> buf_bytes m2 lb2 b = None"
proof -
  have i: "lb_inv bm gs e m lb others" using inv by (simp add: reader_inv_def)
  note d = lb_invD [OF i]
  have g: "good_slice gs m s" using d(4) [of s] sl by simp
  then obtain h where h: "bs_data s = HeapData h" and ok: "slice_ok s" using heap by (auto simp: good_slice_def)
  obtain f ns where f: "sl_front (lb_slices lb) = Some f" "sl_nodes (lb_slices lb) = (f, s) # ns"
    "deref (lb_slices lb) (Some f) = Some s" using front_cons [OF d(1) sl] by metis
  have len: "slice_size s < lb_len lb" using inv sl n by (simp add: reader_inv_def total_size_def)
  let ?s = "fst (slice_read m s (slice_size s))" and ?n = "slice_size s"
  let ?lb1 = "lb\<lparr>lb_current_pinned := True, lb_len := lb_len lb - ?n, lb_slices := set_slice (lb_slices lb) f ?s\<rparr>"
  let ?b = "ShmBuf (view_of f s (bs_read_index s) ?n)"
  have r1: "lb_read_bytes bm m lb ?n = Some (m, ?lb1, Inr ?b)"
    using n len f by (simp add: lb_read_bytes_def Let_def)
  have bytes: "buf_bytes m ?lb1 ?b = Some (slice_bytes m s)"
  proof -
    have "map_of (sl_nodes (lb_slices ?lb1)) f = Some ?s"
      using set_slice_split [OF d(1), of "[]" f s ns ?s] f(2) by simp
    from view_bytes [OF g order_refl this] same_shape_simps(5) [OF slice_read_shape] ok show ?thesis by simp
  qed
  have ids1: "ids (lb_slices ?lb1) = f # map fst ns" "sl_inv (lb_slices ?lb1)"
    using set_slice_inv(1,2) [of "lb_slices lb" f ?s] d(1) f(2) by (simp_all add: ids_def)
  have sl1: "slices (lb_slices ?lb1) = ?s # t # ss"
    using set_slice_split [OF d(1), of "[]" f s ns ?s] f(2) sl by (auto simp: slices_def)
  note pf = pop_front_cons [OF ids1(2) sl1]
  let ?p = "fst (pop_front (lb_slices ?lb1))"
  have rn: "read_next_slice bm m ?lb1 = (m, ?lb1\<lparr>lb_slices := ?p, lb_current_pinned := False\<rparr>)"
    using pf(1) same_shape_simps [OF slice_read_shape] heap by (simp add: read_next_slice_def Let_def)
  have s0: "slice_size ?s = 0"
    using length_slice_bytes [OF slice_read_bytes(3) [OF ok, of m ?n], of m]
      slice_read_bytes(2) [OF ok, of m ?n] ok by simp
  obtain k where k: "sl_front ?p = Some k" "deref ?p (Some k) = Some t"
    using front_cons [OF pf(2,3)] by metis
  have dr: "deref (lb_slices ?lb1) (sl_front (lb_slices ?lb1)) = Some ?s"
    by (rule front_cons [OF ids1(2) sl1])
  have "f \<notin> set (map fst (sl_nodes ?p))"
    using pf(5) ids1 by (auto simp: ids_def sl_inv_def)
  then have gone: "map_of (sl_nodes (set_slice ?p k x)) f = None" for x
    using set_slice_inv(2) [of ?p k x] by (simp add: ids_def map_of_eq_None_iff flip: set_map)
  have r2: "lb_read_bytes bm m ?lb1 1 = Some (m, ?lb1\<lparr>lb_current_pinned := True, lb_len := lb_len lb - ?n - 1,
      lb_slices := set_slice ?p k (fst (slice_read m t 1))\<rparr>, Inr (ShmBuf (view_of k t (bs_read_index t) 1)))"
    using len n(2) dr s0 rn k by (simp add: lb_read_bytes_def Let_def)
  have "buf_bytes m (?lb1\<lparr>lb_current_pinned := True, lb_len := lb_len lb - ?n - 1,
      lb_slices := set_slice ?p k (fst (slice_read m t 1))\<rparr>) ?b = None"
    using gone h by (simp add: buf_bytes_def view_of_def)
  with r1 bytes r2 show ?thesis by blast
qed

theorem heap_view_dangles_witness:
  "\<exists>bm m lb m1 lb1 b m2 lb2 b2. lb_read_bytes bm m lb 2 = Some (m1, lb1, Inr b)
     \<and> buf_bytes m1 lb1 b = Some [1, 2] \<and> lb_read_bytes bm m1 lb1 1 = Some (m2, lb2, Inr b2)
     \<and> buf_bytes m2 lb2 b = None"
proof -
  obtain m0 bm where m: "managed bm (created_specs sample_pairs 1000 0) 1000 m0 []"
    by (rule sample_managed)
  note h = heap_data_slice_ok [of "[1, 2]"] heap_data_slice_ok [of "[3, 4, 5]"] and s = sample_reader [OF m]
  have "0 < slice_size (heap_data_slice [1, 2])" "0 < slice_size (heap_data_slice [3, 4, 5])"
    "slice_size (heap_data_slice [1, 2]) = 2" using h by simp_all
  from heap_view_dangles [OF s(1,3) _ this(1,2)] this(3) h show ?thesis by simp blast
qed

text \<open>
  \<open>reset\<close> writes inside the buffer of the slice and clears its in-use flag.
\<close>

lemma reset_in_area:
  assumes "named gs s" and "fst (reset m s) x \<noteq> m x"
  shows "x \<in> area gs (hname gs s)"
proof -
  obtain p where p: "bs_buffer_header s = Some p" "{p + 4 ..< p + 20 + unat (bs_cap s)} \<subseteq> area gs (hname gs s)"
    using named_area [OF assms(1)] by blast
  have "x \<in> {p + 4 ..< p + 20 + unat (bs_cap s)}"
  proof (rule ccontr)
    assume "x \<notin> {p + 4 ..< p + 20 + unat (bs_cap s)}"
    then have "x < p + 4 \<or> p + 20 \<le> x" by auto
    then have "fst (reset m s) x = m x"
      using p(1) by (auto simp: reset_def clear_flag_def set_start_def set_size_def store_u32_def mem_write_def)
    with assms(2) show False by simp
  qed
  with p(2) show ?thesis by blast
qed

text \<open>
  Property C39. Reusing a read slice for the next write loses its buffer. When the reader is
  empty and has one shared-memory slice left, \<open>release_previous_read_and_reserve\<close> keeps that
  slice and resets it, which also clears the in-use flag of its header; a later \<open>recycle\<close>
  then skips the buffer as not in use. It is in no list and in no linked buffer any more, so
  \<open>check_buffer_returned\<close> stays false for good.
\<close>

theorem reuse_leaks_buffer:
  assumes inv: "reader_inv bm gs e m lb others" and sl: "slices (lb_slices lb) = [s]"
    and shm: "bs_is_from_shm s" and len: "lb_len lb = 0" and pin: "slices (lb_pinned lb) = []"
  shows "\<exists>m1 lb1 m2 lb2. release_previous_read_and_reserve bm m lb = Some (m1, lb1)
    \<and> lb_recycle bm m1 lb1 = Some (m2, lb2) \<and> all_slices lb2 = [] \<and> m2 = m1
    \<and> managed bm gs e m2 (hname gs s # others) \<and> \<not> check_buffer_returned bm m2"
proof -
  have i: "lb_inv bm gs e m lb others" using inv by (simp add: reader_inv_def)
  note d = lb_invD [OF i]
  have n: "named gs s" using d(4) [of s] sl shm by (simp add: good_slice_def)
  obtain p where p: "bs_buffer_header s = Some p" using named_area [OF n] by blast
  obtain f ns where f: "sl_front (lb_slices lb) = Some f" "sl_nodes (lb_slices lb) = [(f, s)]"
    "deref (lb_slices lb) (Some f) = Some s"
    using front_cons [OF d(1) sl] by (metis map_is_Nil_conv)
  let ?m = "fst (reset m s)" and ?s = "snd (reset m s)"
  let ?lb = "lb\<lparr>lb_slices := set_slice (lb_slices lb) f ?s\<rparr>"
  have l1: "sl_len (lb_slices lb) = 1" "sl_len (lb_pinned lb) = 0"
    using d(1,2) f(2) pin by (simp_all add: sl_inv_def slices_def)
  have si: "sl_inv (set_slice (lb_slices lb) f ?s)" "slices (set_slice (lb_slices lb) f ?s) = [?s]"
    using set_slice_inv(1) [OF d(1)] set_slice_split [OF d(1), of "[]" f s "[]" ?s] f(2)
    by (simp_all add: slices_def)
  have l2: "sl_len (set_slice (lb_slices lb) f ?s) = 1" using si by (auto simp: sl_inv_def slices_def)
  have rel: "release_previous_read_and_reserve bm m lb = Some (?m, ?lb)"
    using l1 l2 len f shm by (simp add: release_previous_read_and_reserve_def clean_pinned_list_def Let_def)
  have fl: "is_in_used ?m p = False" "bs_buffer_header ?s = Some p" "bs_is_from_shm ?s"
    using p shm by (simp_all add: reset_def hdr_simps)
  have man: "managed bm gs e ?m (hname gs s # others)"
  proof (rule src.owned_write)
    show "managed bm gs e m (hname gs s # others)" using d(3) sl shm pin by (simp add: all_slices_def)
    show "hname gs s \<in> set (hname gs s # others)" by simp
    show "x \<in> area gs (hname gs s)" if "?m x \<noteq> m x" for x by (rule reset_in_area [OF n that])
  qed
  note pf = pop_front_cons [OF si]
  have "pop_all (recycle_if_shm bm) ?m (lb_slices ?lb)
      = Some (?m, fst (pop_front (set_slice (lb_slices lb) f ?s)))"
    using pf pop_front_empty [OF pf(2,3)] fl
    by (simp add: pop_all.simps [of _ _ "set_slice (lb_slices lb) f ?s"]
        pop_all.simps [of _ _ "fst (pop_front (set_slice (lb_slices lb) f ?s))"]
        recycle_if_shm_def recycle_buffer_def)
  then have rec: "lb_recycle bm ?m ?lb = Some (?m, lb_reset_fields ?lb (fst (pop_front (set_slice (lb_slices lb) f ?s))))"
    by (simp add: lb_recycle_def)
  have "all_slices (lb_reset_fields ?lb (fst (pop_front (set_slice (lb_slices lb) f ?s)))) = []"
    using pf(3) pin by (simp add: all_slices_def lb_reset_fields_def)
  moreover have "\<not> check_buffer_returned bm ?m" using check_buffer_returned_iff [OF man] by simp
  ultimately show ?thesis using rel rec man by blast
qed

theorem reuse_leaks_buffer_witness:
  "\<exists>bm m0 m s m1 lb1 m2 lb2. bm_create sample_pairs ''p'' (\<lambda>_. 0) 1000 0 = (m0, Inr bm)
     \<and> alloc_shm_buffer bm m0 10 = (m, Inr s)
     \<and> release_previous_read_and_reserve bm m (append_buffer_slice new_linked_buffer s) = Some (m1, lb1)
     \<and> lb_recycle bm m1 lb1 = Some (m2, lb2) \<and> all_slices lb2 = [] \<and> \<not> check_buffer_returned bm m2"
proof -
  obtain m0 bm where b: "bm_create sample_pairs ''p'' (\<lambda>_. 0) 1000 0 = (m0, Inr bm)"
    and m: "managed bm (created_specs sample_pairs 1000 0) 1000 m0 []" and x: "bm_max_slice_size bm = 64"
    by (rule sample_managed)
  obtain m s where a: "alloc_shm_buffer bm m0 10 = (m, Inr s)"
    and r: "reader_inv bm (created_specs sample_pairs 1000 0) 1000 m (append_buffer_slice new_linked_buffer s) []"
      "slices (lb_slices (append_buffer_slice new_linked_buffer s)) = [s]" "bs_is_from_shm s"
      "lb_len (append_buffer_slice new_linked_buffer s) = 0"
      "slices (lb_pinned (append_buffer_slice new_linked_buffer s)) = []"
    by (rule sample_shm_reader [OF m x])
  from reuse_leaks_buffer [OF r] a b show ?thesis by blast
qed

end
