(* ===== verification/Linked_Write.thy ===== *)
theory Linked_Write
  imports Linked_Reader
begin

text \<open>
  The linked buffer as a writer: \<open>alloc\<close>, \<open>write_bytes\<close> and \<open>reserve\<close> of
  \<open>src/buffer/linked.cpp\<close>. Bytes written are appended to the content, buffers come from the
  manager while it has any and from the heap after that, and no more slices are taken than
  are needed.
\<close>

section \<open>Allocating behind the last slice\<close>

lemma unat_u32_less_int: "int (unat (x :: u32)) < 4294967296"
  using unat_u32_less [of x] by linarith

definition clean_slice :: "mem \<Rightarrow> buffer_slice \<Rightarrow> bool" where
  "clean_slice m s \<longleftrightarrow> bs_read_index s = 0 \<and> bs_start s = 0
     \<and> (case bs_buffer_header s of None \<Rightarrow> True | Some h \<Rightarrow> \<not> has_next m h)"

lemma fresh_slice_simps:
  assumes "fresh_slice s"
  shows "slice_ok s" "slice_size s = 0" "slice_remain s = unat (bs_cap s)" "0 < slice_remain s"
    "slice_bytes m s = []"
proof -
  show ok: "slice_ok s" and r: "slice_remain s = unat (bs_cap s)" and "0 < slice_remain s"
    and z: "slice_size s = 0"
    using assms by (simp_all add: fresh_slice_def slice_remain_def slice_size_def slice_ok_def)
  show "slice_bytes m s = []" using ok z by (metis length_0_conv length_slice_bytes)
qed

lemma fresh_heap:
  assumes "0 < length v" "length v < 4294967296"
  shows "fresh_slice (from_heap v)" "good_slice gs m (from_heap v)" "clean_slice m (from_heap v)"
    "unat (bs_cap (from_heap v)) = length v"
  using assms unat_of_nat_u32 [OF assms(2)]
  by (simp_all add: fresh_slice_def good_slice_def slice_ok_def from_heap_def clean_slice_def)

lemma good_clean_cong:
  assumes g: "good_slice gs m s" and c: "clean_slice m s"
    and same: "\<And>x. bs_is_from_shm s \<Longrightarrow> x \<in> area gs (hname gs s) \<Longrightarrow> m' x = m x"
    and heap: "\<not> bs_is_from_shm s \<Longrightarrow> bs_buffer_header s = None"
  shows "clean_slice m' s"
proof (cases "bs_is_from_shm s")
  case True
  with g have "named gs s" by (simp add: good_slice_def)
  then obtain p where p: "bs_buffer_header s = Some p" "p + 16 \<in> area gs (hname gs s)"
    by (rule named_area)
  with flag_cong(2) [of m' p m] same [OF True p(2)] c show ?thesis by (simp add: clean_slice_def)
next
  case False
  with c heap show ?thesis by (simp add: clean_slice_def)
qed

text \<open>
  A tidy linked buffer: nothing has been read from its slices, and none of its headers links
  to a next one yet.
\<close>

definition tidy :: "mem \<Rightarrow> linked_buffer \<Rightarrow> bool" where
  "tidy m lb \<longleftrightarrow> (\<forall>s \<in> set (slices (lb_slices lb)). clean_slice m s
       \<and> (\<not> bs_is_from_shm s \<longrightarrow> bs_buffer_header s = None))
     \<and> (lb_is_from_shm lb \<longrightarrow> list_all bs_is_from_shm (slices (lb_slices lb)))"

text \<open>The step from one memory to another left the slices of a linked buffer alone.\<close>

definition undisturbed :: "list_spec list \<Rightarrow> mem \<Rightarrow> mem \<Rightarrow> linked_buffer \<Rightarrow> (nat \<times> nat) list \<Rightarrow> bool" where
  "undisturbed gs m m' lb others \<longleftrightarrow>
     (\<forall>h \<in> set (shm_names gs (all_slices lb) @ others). \<forall>x \<in> area gs h. m' x = m x)"

lemma undisturbed_slices:
  assumes inv: "lb_inv bm gs e m lb others" and u: "undisturbed gs m m' lb others"
    and s: "s \<in> set (all_slices lb)"
  shows "good_slice gs m' s" "slice_bytes m' s = slice_bytes m s"
    "clean_slice m s \<Longrightarrow> (\<not> bs_is_from_shm s \<longrightarrow> bs_buffer_header s = None) \<Longrightarrow> clean_slice m' s"
proof -
  have g: "good_slice gs m s" using inv s by (simp add: lb_inv_def)
  have same: "m' x = m x" if "bs_is_from_shm s" "x \<in> area gs (hname gs s)" for x
  proof -
    have "hname gs s \<in> set (shm_names gs (all_slices lb) @ others)"
      using hname_in_shm_names [OF s that(1)] by simp
    with u that(2) show ?thesis unfolding undisturbed_def by blast
  qed
  show "good_slice gs m' s" "slice_bytes m' s = slice_bytes m s"
    using good_slice_cong [OF g same] by simp_all
  show "clean_slice m' s" if "clean_slice m s" "\<not> bs_is_from_shm s \<longrightarrow> bs_buffer_header s = None"
    using good_clean_cong [OF g that(1) same] that(2) by blast
qed

lemma undisturbed_content:
  assumes "lb_inv bm gs e m lb others" and "undisturbed gs m m' lb others"
  shows "content m' lb = content m lb"
  using undisturbed_slices(2) [OF assms] by (intro content_cong) (simp add: all_slices_def)

definition new_nodes :: "chain \<Rightarrow> linked_buffer \<Rightarrow> linked_buffer \<Rightarrow> bool" where
  "new_nodes ns lb lb' \<longleftrightarrow> sl_nodes (lb_slices lb') = sl_nodes (lb_slices lb) @ ns
     \<and> sl_write (lb_slices lb') = sl_write (lb_slices lb) \<and> lb_pinned lb' = lb_pinned lb
     \<and> lb_len lb' = lb_len lb \<and> (\<forall>s \<in> snd ` set ns. fresh_slice s)"

lemma push_slices_inv:
  assumes inv: "lb_inv bm gs e m lb others" and td: "tidy m lb"
    and g: "grants (managed bm gs e) (area gs) (names gs) m (shm_names gs (all_slices lb) @ others) m' ss hs"
  defines "lb' \<equiv> lb\<lparr>lb_slices := foldl push_back (lb_slices lb) ss\<rparr>"
  shows "lb_inv bm gs e m' lb' others" "tidy m' lb'" "undisturbed gs m m' lb others"
    "\<exists>ns. new_nodes ns lb lb' \<and> map snd ns = ss"
proof -
  note d = lb_invD [OF inv] and gg = grants_good [OF g]
  show u: "undisturbed gs m m' lb others" using g unfolding undisturbed_def grants_def by blast
  have fp: "sl_inv (lb_slices lb')" "slices (lb_slices lb') = slices (lb_slices lb) @ ss"
    "sl_write (lb_slices lb') = sl_write (lb_slices lb)"
    and nn: "\<exists>ns. sl_nodes (lb_slices lb') = sl_nodes (lb_slices lb) @ ns"
    using foldl_push_back [OF d(1), of ss] by (simp_all add: lb'_def)
  have al: "lb_pinned lb' = lb_pinned lb" by (simp add: lb'_def)
  have man: "managed bm gs e m' (hs @ shm_names gs (all_slices lb) @ others)"
    using g by (simp add: grants_def)
  have "managed bm gs e m' (shm_names gs (all_slices lb') @ others)"
    using man by (rule src.owned_perm) (simp add: all_slices_def fp al gg(1))
  moreover have "good_slice gs m' s" if "s \<in> set (all_slices lb')" for s
    using that undisturbed_slices(1) [OF inv u, of s] gg(2) by (auto simp: all_slices_def fp al)
  ultimately show "lb_inv bm gs e m' lb' others"
    using fp(1) d(2,6) al by (simp add: lb_inv_def)
  have new: "clean_slice m' s \<and> bs_is_from_shm s \<and> fresh_slice s" if "s \<in> set ss" for s
  proof -
    have "fresh_slice s" "header_used m' s" using g that by (simp_all add: grants_def)
    with gg(2) that show ?thesis
      by (auto simp: clean_slice_def fresh_slice_def header_used_def split: option.splits)
  qed
  have old: "clean_slice m' s \<and> (\<not> bs_is_from_shm s \<longrightarrow> bs_buffer_header s = None)"
    if "s \<in> set (slices (lb_slices lb))" for s
    using undisturbed_slices(3) [OF inv u, of s] td that by (auto simp: tidy_def all_slices_def)
  show "tidy m' lb'"
    unfolding tidy_def fp(2)
  proof (intro conjI impI ballI)
    fix s assume "s \<in> set (slices (lb_slices lb) @ ss)"
    then show "clean_slice m' s" "\<not> bs_is_from_shm s \<Longrightarrow> bs_buffer_header s = None"
      using new old by auto
  next
    assume "lb_is_from_shm lb'"
    then show "list_all bs_is_from_shm (slices (lb_slices lb) @ ss)"
      using td new by (auto simp: tidy_def list_all_iff lb'_def)
  qed
  obtain ns where ns: "sl_nodes (lb_slices lb') = sl_nodes (lb_slices lb) @ ns" using nn by blast
  with fp(2) have "map snd ns = ss" by (simp add: slices_def)
  moreover from this new have "\<forall>s \<in> snd ` set ns. fresh_slice s" by (metis list.set_map)
  ultimately show "\<exists>ns. new_nodes ns lb lb' \<and> map snd ns = ss"
    using ns fp(3) by (auto simp: new_nodes_def lb'_def)
qed

lemma push_heap_inv:
  assumes inv: "lb_inv bm gs e m lb others" and td: "tidy m lb" and v: "0 < length v" "length v < 4294967296"
  defines "lb' \<equiv> lb\<lparr>lb_slices := push_back (lb_slices lb) (from_heap v), lb_is_from_shm := False\<rparr>"
  shows "lb_inv bm gs e m lb' others" "tidy m lb'"
    "\<exists>i. new_nodes [(i, from_heap v)] lb lb'"
proof -
  note d = lb_invD [OF inv] and pb = push_back_inv [OF lb_invD(1) [OF inv], of "from_heap v"]
  have al: "all_slices lb' = slices (lb_slices lb) @ from_heap v # slices (lb_pinned lb)"
    by (simp add: all_slices_def lb'_def pb)
  have h: "bs_is_from_shm (from_heap v) = False" "bs_buffer_header (from_heap v) = None"
    by (simp_all add: from_heap_def)
  show "lb_inv bm gs e m lb' others"
    using inv fresh_heap(2) [OF v, of gs m] h pb(1)
    by (auto simp: lb_inv_def al) (simp_all add: lb'_def all_slices_def)
  show "tidy m lb'"
    using td fresh_heap(3) [OF v, of m] h by (auto simp: tidy_def lb'_def pb)
  have "new_nodes [(sl_fresh (lb_slices lb), from_heap v)] lb lb'"
    using push_back_nodes [OF d(1)] pb(3) fresh_heap(1) [OF v] by (simp add: new_nodes_def lb'_def)
  then show "\<exists>i. new_nodes [(i, from_heap v)] lb lb'" by blast
qed

text \<open>
  \<open>alloc\<close> appends fresh slices with room for the size asked for, and all of them but the
  last have less.
\<close>

lemma lb_alloc_ok:
  assumes inv: "lb_inv bm gs e m lb others" and td: "tidy m lb" and sz: "0 < unat sz"
  shows "\<exists>m' lb' ns. lb_alloc bm m lb sz = Some (m', lb') \<and> new_nodes ns lb lb' \<and> ns \<noteq> []
    \<and> int (unat sz) \<le> cap_sum (map snd ns) \<and> cap_sum (butlast (map snd ns)) < int (unat sz)
    \<and> lb_inv bm gs e m' lb' others \<and> tidy m' lb' \<and> undisturbed gs m m' lb others"
proof -
  note d = lb_invD [OF inv]
  obtain m1 r where a: "alloc_shm_buffer bm m sz = (m1, r)" by fastforce
  show ?thesis
  proof (cases r)
    case (Inr s)
    then obtain h where "unat sz \<le> unat (bs_cap s)"
      and g: "grants (managed bm gs e) (area gs) (names gs) m (shm_names gs (all_slices lb) @ others) m1 [s] [h]"
      using src.alloc_one_ok [OF d(3)] a by blast
    note p = push_slices_inv [OF inv td g]
    from p(4) obtain ns where ns: "new_nodes ns lb (lb\<lparr>lb_slices := push_back (lb_slices lb) s\<rparr>)"
      "map snd ns = [s]" by auto
    have "lb_alloc bm m lb sz = Some (m1, lb\<lparr>lb_slices := push_back (lb_slices lb) s\<rparr>)"
      using a Inr by (simp add: lb_alloc_def)
    with p(1-3) ns sz \<open>unat sz \<le> unat (bs_cap s)\<close> show ?thesis by fastforce
  next
    case (Inl err)
    then have m1: "m1 = m" using src.alloc_one_fail [OF d(3)] a by blast
    obtain m2 ss hs where b: "alloc_shm_buffers bm m (lb_slices lb) sz
        = Some (m2, foldl push_back (lb_slices lb) ss, cap_sum ss)"
      and g: "grants (managed bm gs e) (area gs) (names gs) m (shm_names gs (all_slices lb) @ others) m2 ss hs"
      and f: "frugal ss (int (unat sz))"
      using src.alloc_many_ok [OF d(3)] by blast
    note p = push_slices_inv [OF inv td g]
    let ?lb = "lb\<lparr>lb_slices := foldl push_back (lb_slices lb) ss\<rparr>"
    obtain ns where ns: "new_nodes ns lb ?lb" "map snd ns = ss" using p(4) by blast
    show ?thesis
    proof (cases "int (unat sz) \<le> cap_sum ss")
      case True
      then have "lb_alloc bm m lb sz = Some (m2, ?lb)"
        using a Inl m1 b by (simp add: lb_alloc_def Let_def)
      moreover have "ss \<noteq> []" using True sz by auto
      ultimately show ?thesis
        using True f p(1-3) ns by (intro exI [of _ m2] exI [of _ ?lb] exI [of _ ns]) (auto simp: frugal_def)
    next
      case False
      let ?k = "nat (if int (unat sz) - cap_sum ss < int kDefaultSingleBufferSize
                  then int kDefaultSingleBufferSize else int (unat sz) - cap_sum ss)"
      let ?v = "replicate ?k (0::u8)"
      let ?lb2 = "?lb\<lparr>lb_slices := push_back (lb_slices ?lb) (from_heap ?v), lb_is_from_shm := False\<rparr>"
      have pos: "0 \<le> cap_sum ss" by (induction ss) simp_all
      have bd: "int (unat sz) - cap_sum ss < 4294967296"
        using unat_u32_less_int [of sz] pos by linarith
      have k: "0 < ?k" "?k < 4294967296" "int (unat sz) \<le> cap_sum ss + int ?k"
        using False pos bd by (auto simp: kDefaultSingleBufferSize_def)
      note q = push_heap_inv [OF p(1,2), of ?v]
      obtain i where i: "new_nodes [(i, from_heap ?v)] ?lb ?lb2" using q(3) k by auto
      have "new_nodes (ns @ [(i, from_heap ?v)]) lb ?lb2"
        using ns(1) i by (auto simp: new_nodes_def)
      moreover have "lb_alloc bm m lb sz = Some (m2, ?lb2)"
        unfolding lb_alloc_def a Inl m1 prod.case sum.case b option.case Let_def using False by simp
      moreover have "int (unat sz) \<le> cap_sum (map snd (ns @ [(i, from_heap ?v)]))"
        "cap_sum (butlast (map snd (ns @ [(i, from_heap ?v)]))) < int (unat sz)"
        using k ns(2) False fresh_heap(4) [of ?v] by (simp_all add: butlast_append)
      moreover have "lb_inv bm gs e m2 ?lb2 others" "tidy m2 ?lb2" using q(1,2) k by simp_all
      ultimately show ?thesis
        using p(3) by (intro exI [of _ m2] exI [of _ ?lb2] exI [of _ "ns @ [(i, from_heap ?v)]"]) simp
    qed
  qed
qed

section \<open>Appending to the write slice\<close>

text \<open>The slices of a chain around the one at the cursor.\<close>

lemma slices_split:
  "sl_nodes (lb_slices lb) = pre @ (w, s) # post \<Longrightarrow>
     slices (lb_slices lb) = map snd pre @ s # map snd post"
  by (simp add: slices_def)

lemma names_apart:
  assumes inv: "lb_inv bm gs e m lb others" and n: "sl_nodes (lb_slices lb) = pre @ (w, s) # post"
    and shm: "bs_is_from_shm s"
    and h: "h \<in> set (shm_names gs (map snd pre @ map snd post @ slices (lb_pinned lb)) @ others)"
  shows "area gs h \<inter> area gs (hname gs s) = {}"
proof -
  let ?held = "shm_names gs (all_slices lb) @ others"
  have man: "managed bm gs e m ?held" by (rule lb_invD(3) [OF inv])
  have held: "?held = shm_names gs (map snd pre) @ hname gs s # shm_names gs (map snd post)
      @ shm_names gs (slices (lb_pinned lb)) @ others"
    using slices_split [OF n] shm by (simp add: all_slices_def)
  have "h \<in> set ?held" "hname gs s \<in> set ?held" using h held by auto
  moreover have "h \<noteq> hname gs s" using src.owned_distinct [OF man] h unfolding held by auto
  ultimately show ?thesis using src.owned_disjoint [OF man] by blast
qed

lemma slice_append_area:
  assumes g: "good_slice gs m s" and x: "fst (fst (slice_append m s bs)) x \<noteq> m x"
  shows "bs_is_from_shm s" "x \<in> area gs (hname gs s)"
    "\<And>p. bs_buffer_header s = Some p \<Longrightarrow> p + 20 \<le> x"
proof -
  have ok: "slice_ok s" using g by (simp add: good_slice_def)
  let ?k = "min (length bs) (slice_remain s)"
  note a = slice_append_ok [where m = m and bs = bs, OF ok]
  obtain a0 where d: "bs_data s = ShmData a0"
    and r: "a0 + bs_write_index s \<le> x" "x < a0 + bs_write_index s + ?k"
  proof (cases "bs_data s")
    case (ShmData a0)
    then have "\<not> (x < a0 + bs_write_index s \<or> a0 + bs_write_index s + ?k \<le> x)" using a(13) [of x] x by auto
    then show ?thesis using that [OF ShmData] by linarith
  next
    case (HeapData h)
    with a(13) [of x] x show ?thesis by simp
  qed
  show shm: "bs_is_from_shm s" using g d by (auto simp: good_slice_def split: if_splits)
  with g have "named gs s" by (simp add: good_slice_def)
  then obtain p where p: "bs_buffer_header s = Some p" "bs_data s = ShmData (p + 20)"
    "{p + 4 ..< p + 20 + unat (bs_cap s)} \<subseteq> area gs (hname gs s)" by (rule named_area)
  have "?k \<le> unat (bs_cap s) - bs_write_index s" "bs_write_index s \<le> unat (bs_cap s)"
    using slice_ok_bounds [OF ok] ok by (auto simp: slice_ok_def slice_remain_def)
  then have "x \<in> {p + 4 ..< p + 20 + unat (bs_cap s)}" using r d p(2) by auto
  with p(3) show "x \<in> area gs (hname gs s)" by blast
  show "q + 20 \<le> x" if "bs_buffer_header s = Some q" for q using that p r d by simp
qed

lemma tidy_change:
  assumes td: "tidy m lb" and sl: "slices (lb_slices lb) = xs @ s # ys"
    and sl': "slices (lb_slices lb') = xs @ s' # ys"
    and s': "bs_is_from_shm s' = bs_is_from_shm s" "bs_buffer_header s' = bs_buffer_header s"
    and c: "clean_slice m' s'"
    and r: "\<And>t. t \<in> set (xs @ ys) \<Longrightarrow> clean_slice m t \<Longrightarrow>
      \<not> bs_is_from_shm t \<longrightarrow> bs_buffer_header t = None \<Longrightarrow> clean_slice m' t"
    and f: "lb_is_from_shm lb' = lb_is_from_shm lb"
  shows "tidy m' lb'"
  unfolding tidy_def sl'
proof (intro conjI ballI)
  fix t assume t: "t \<in> set (xs @ s' # ys)"
  then consider "t = s'" | "t \<in> set (xs @ ys)" by auto
  then have "clean_slice m' t \<and> (\<not> bs_is_from_shm t \<longrightarrow> bs_buffer_header t = None)"
  proof cases
    case 1
    have "\<not> bs_is_from_shm s \<longrightarrow> bs_buffer_header s = None" using td sl unfolding tidy_def by auto
    with 1 c s' show ?thesis by simp
  next
    case 2
    then have "t \<in> set (slices (lb_slices lb))" unfolding sl by auto
    then have "clean_slice m t" "\<not> bs_is_from_shm t \<longrightarrow> bs_buffer_header t = None"
      using td unfolding tidy_def by blast+
    with r [OF 2] show ?thesis by blast
  qed
  then show "clean_slice m' t" "\<not> bs_is_from_shm t \<longrightarrow> bs_buffer_header t = None" by blast+
next
  show "lb_is_from_shm lb' \<longrightarrow> list_all bs_is_from_shm (xs @ s' # ys)"
    using td f s'(1) sl unfolding tidy_def by auto
qed

lemma append_at_ok:
  fixes bs :: bytes
  assumes inv: "lb_inv bm gs e m lb others" and td: "tidy m lb"
    and n: "sl_nodes (lb_slices lb) = pre @ (w, s) # post" and fr: "\<forall>t \<in> snd ` set post. fresh_slice t"
  defines "m1 \<equiv> fst (fst (slice_append m s bs))" and "s1 \<equiv> snd (fst (slice_append m s bs))"
    and "k \<equiv> min (length bs) (slice_remain s)"
  defines "lb1 \<equiv> lb\<lparr>lb_slices := set_slice (lb_slices lb) w s1\<rparr>"
  shows "lb_inv bm gs e m1 lb1 others" "tidy m1 lb1" "sl_nodes (lb_slices lb1) = pre @ (w, s1) # post"
    "content m1 lb1 = content m lb @ take k bs" "\<forall>h \<in> set others. \<forall>x \<in> area gs h. m1 x = m x"
    "total_size lb1 = total_size lb + k"
proof -
  note d = lb_invD [OF inv]
  have sl: "slices (lb_slices lb) = map snd pre @ s # map snd post" by (rule slices_split [OF n])
  have g: "good_slice gs m s" using d(4) [of s] sl by simp
  then have ok: "slice_ok s" by (simp add: good_slice_def)
  note a = slice_append_ok [where m = m and bs = bs, OF ok, folded m1_def s1_def k_def]
  note ar = slice_append_area [OF g, of bs, folded m1_def]
  show n1: "sl_nodes (lb_slices lb1) = pre @ (w, s1) # post"
    using set_slice_split [OF d(1) n] by (simp add: lb1_def)
  then have sl1: "slices (lb_slices lb1) = map snd pre @ s1 # map snd post" by (rule slices_split)
  have sd: "bs_data s1 = bs_data s" if "bs_is_from_shm s"
  proof -
    have "named gs s" using g that by (simp add: good_slice_def)
    then obtain p where "bs_data s = ShmData (p + 20)" by (rule named_area)
    with a(14) show ?thesis by simp
  qed
  have s1: "good_slice gs m1 s1" "bs_is_from_shm s1 = bs_is_from_shm s"
    "bs_is_from_shm s \<Longrightarrow> hname gs s1 = hname gs s"
  proof -
    show shm: "bs_is_from_shm s1 = bs_is_from_shm s" by (rule a(12))
    show hn: "hname gs s1 = hname gs s" if "bs_is_from_shm s"
      using names_fields(3) [of s1 s gs] a that sd [OF that] by simp
    show "good_slice gs m1 s1"
    proof (cases "bs_is_from_shm s")
      case True
      then have nm: "named gs s" "in_used m s" using g by (simp_all add: good_slice_def)
      obtain p where p: "bs_buffer_header s = Some p" using named_area [OF nm(1)] by blast
      have "m1 (p + 16) = m (p + 16)" using ar(3) [OF _ p, of "p + 16"] by force
      then have "in_used m1 s" using nm(2) p flag_cong(1) [of m1 p m] by (simp add: in_used_def)
      then show ?thesis
        using names_fields(2) [of s1 s gs] names_fields(4) [of s1 s m1] a True sd [OF True] nm(1)
        by (simp add: good_slice_def)
    next
      case False
      then obtain h where "bs_data s = HeapData h" and "bs_buffer_header s = None"
        using g by (auto simp: good_slice_def)
      then have "(\<exists>h. bs_data s1 = HeapData h) \<and> bs_buffer_header s = None"
        by (auto simp: s1_def slice_append_def data_write_def Let_def)
      with False a shm show ?thesis by (simp add: good_slice_def)
    qed
  qed
  have nms: "shm_names gs (all_slices lb1) = shm_names gs (all_slices lb)"
    using sl sl1 s1 by (simp add: all_slices_def lb1_def)
  have man: "managed bm gs e m1 (shm_names gs (all_slices lb1) @ others)"
  proof (cases "bs_is_from_shm s")
    case True
    show ?thesis
      unfolding nms using d(3) by (rule src.owned_write [of bm gs e m _ "hname gs s"])
        (use True sl ar in \<open>auto simp: all_slices_def\<close>)
  next
    case False
    then have "m1 = m" using ar(1) by blast
    with d(3) nms show ?thesis by simp
  qed
  have same: "m1 x = m x" if "h \<in> set (shm_names gs (map snd pre @ map snd post @ slices (lb_pinned lb)) @ others)"
    "x \<in> area gs h" for h x
    using ar(1,2) [of x] names_apart [OF inv n _ that(1)] that(2) by blast
  show "\<forall>h \<in> set others. \<forall>x \<in> area gs h. m1 x = m x"
  proof (intro ballI)
    fix h x assume "h \<in> set others" "x \<in> area gs h"
    with same [of h x] show "m1 x = m x" by simp
  qed
  have rest: "good_slice gs m1 t" "slice_bytes m1 t = slice_bytes m t"
    "clean_slice m t \<Longrightarrow> (\<not> bs_is_from_shm t \<longrightarrow> bs_buffer_header t = None) \<Longrightarrow> clean_slice m1 t"
    if t: "t \<in> set (map snd pre @ map snd post @ slices (lb_pinned lb))" for t
  proof -
    have gt: "good_slice gs m t" using d(4) [of t] d(5) [of t] t sl by auto
    have sm: "m1 x = m x" if "bs_is_from_shm t" "x \<in> area gs (hname gs t)" for x
    proof (rule same [OF _ that(2)])
      show "hname gs t \<in> set (shm_names gs (map snd pre @ map snd post @ slices (lb_pinned lb)) @ others)"
        using hname_in_shm_names [OF t that(1), of gs] by (simp del: shm_names_simps)
    qed
    show "good_slice gs m1 t" "slice_bytes m1 t = slice_bytes m t"
      using good_slice_cong [OF gt sm] by simp_all
    show "clean_slice m1 t" if "clean_slice m t" "\<not> bs_is_from_shm t \<longrightarrow> bs_buffer_header t = None"
      using good_clean_cong [OF gt that(1) sm] that(2) by blast
  qed
  have al1: "all_slices lb1 = map snd pre @ s1 # map snd post @ slices (lb_pinned lb)"
    by (simp add: all_slices_def sl1) (simp add: lb1_def)
  have "\<forall>t \<in> set (all_slices lb1). good_slice gs m1 t"
    unfolding al1 using rest(1) s1(1) by auto
  then show "lb_inv bm gs e m1 lb1 others"
    using man set_slice_inv(1) [OF d(1), of w s1] d(2,6) by (simp add: lb_inv_def lb1_def)
  show "tidy m1 lb1"
  proof (rule tidy_change [OF td sl sl1 s1(2) a(7)])
    have "clean_slice m s" using td unfolding tidy_def sl by (auto simp only: set_append set_simps)
    moreover have "has_next m1 p = has_next m p" if "bs_buffer_header s = Some p" for p
      using flag_cong(2) [of m1 p m] ar(3) [OF _ that, of "p + 16"] by force
    ultimately show "clean_slice m1 s1" using a by (simp add: clean_slice_def split: option.splits)
    show "clean_slice m1 t" if "t \<in> set (map snd pre @ map snd post)" "clean_slice m t"
      "\<not> bs_is_from_shm t \<longrightarrow> bs_buffer_header t = None" for t
      by (rule rest(3) [OF _ that(2,3)]) (use that(1) in auto)
    show "lb_is_from_shm lb1 = lb_is_from_shm lb" by (simp add: lb1_def)
  qed
  have pb: "concat (map (slice_bytes m') (map snd post)) = []" for m'
    using fr fresh_slice_simps(5) by (auto simp: concat_eq_Nil_conv)
  have "map (slice_bytes m1) (map snd pre) = map (slice_bytes m) (map snd pre)"
    using rest(2) by (intro map_cong) auto
  then show "content m1 lb1 = content m lb @ take k bs"
    by (simp only: content_def sl sl1 map_append list.map concat_append concat.simps pb a(3)
        append_Nil2 append_assoc)
  show "total_size lb1 = total_size lb + k" using a(4) by (simp add: total_size_def sl sl1)
qed

section \<open>The write loop\<close>

lemma set_write_lb [simp]:
  "lb_inv bm gs e m (lb\<lparr>lb_slices := set_write (lb_slices lb) w\<rparr>) others = lb_inv bm gs e m lb others"
  "tidy m (lb\<lparr>lb_slices := set_write (lb_slices lb) w\<rparr>) = tidy m lb"
  "content m (lb\<lparr>lb_slices := set_write (lb_slices lb) w\<rparr>) = content m lb"
  "total_size (lb\<lparr>lb_slices := set_write (lb_slices lb) w\<rparr>) = total_size lb"
  by (simp_all add: lb_inv_def tidy_def content_def total_size_def all_slices_def)

text \<open>
  Where the writer stands: the cursor is at \<open>s\<close>, behind it are fresh slices, and all of
  these but the last are needed for the \<open>r\<close> bytes that are left.
\<close>

definition cursor_at ::
  "linked_buffer \<Rightarrow> chain \<Rightarrow> nat \<Rightarrow> buffer_slice \<Rightarrow> chain \<Rightarrow> nat \<Rightarrow> bool" where
  "cursor_at lb pre w s post r \<longleftrightarrow> sl_nodes (lb_slices lb) = pre @ (w, s) # post
     \<and> sl_write (lb_slices lb) = Some w \<and> (\<forall>t \<in> snd ` set post. fresh_slice t)
     \<and> (post \<noteq> [] \<longrightarrow> int (slice_remain s) + cap_sum (map snd (butlast post)) < int r)"

lemma cursor_next:
  assumes n: "sl_nodes (lb_slices lb) = pre @ (w, s) # (w2, s2) # post"
    and fr: "\<forall>t \<in> snd ` set ((w2, s2) # post). fresh_slice t"
    and need: "cap_sum (map snd (butlast ((w2, s2) # post))) < int r"
  shows "cursor_at (lb\<lparr>lb_slices := set_write (lb_slices lb) (Some w2)\<rparr>) (pre @ [(w, s)]) w2 s2 post r"
    "0 < slice_remain s2"
proof -
  have s2: "slice_remain s2 = unat (bs_cap s2)" "0 < slice_remain s2"
    using fr fresh_slice_simps [of s2] by simp_all
  with need n fr show "cursor_at (lb\<lparr>lb_slices := set_write (lb_slices lb) (Some w2)\<rparr>) (pre @ [(w, s)]) w2 s2 post r"
    by (cases "post = []") (auto simp: cursor_at_def)
  show "0 < slice_remain s2" by (rule s2(2))
qed

definition wrote ::
  "buffer_manager \<Rightarrow> list_spec list \<Rightarrow> nat \<Rightarrow> (nat \<times> nat) list \<Rightarrow> mem \<Rightarrow> linked_buffer \<Rightarrow> bytes
     \<Rightarrow> mem \<Rightarrow> linked_buffer \<Rightarrow> bool" where
  "wrote bm gs e others m lb bs m' lb' \<longleftrightarrow> lb_inv bm gs e m' lb' others \<and> tidy m' lb'
     \<and> content m' lb' = content m lb @ bs \<and> total_size lb' = total_size lb + length bs
     \<and> lb_len lb' = lb_len lb \<and> lb_pinned lb' = lb_pinned lb
     \<and> (\<forall>h \<in> set others. \<forall>x \<in> area gs h. m' x = m x)"

lemma wrote_trans:
  assumes "wrote bm gs e others m lb bs m1 lb1" "wrote bm gs e others m1 lb1 bs' m2 lb2"
  shows "wrote bm gs e others m lb (bs @ bs') m2 lb2"
  using assms unfolding wrote_def by (metis append.assoc add.assoc length_append)

lemma total_size_new:
  assumes "new_nodes ns lb lb'" shows "total_size lb' = total_size lb"
    "content m lb' = content m lb"
proof -
  have s: "slices (lb_slices lb') = slices (lb_slices lb) @ map snd ns" "\<forall>t \<in> set (map snd ns). fresh_slice t"
    using assms by (auto simp: new_nodes_def slices_def)
  have "sum_list (map slice_size (map snd ns)) = 0" "concat (map (slice_bytes m) (map snd ns)) = []"
    using s(2) fresh_slice_simps by (induction ns) auto
  with s(1) show "total_size lb' = total_size lb" "content m lb' = content m lb"
    by (simp_all add: total_size_def content_def)
qed

lemma alloc_wrote:
  assumes inv: "lb_inv bm gs e m lb others" and td: "tidy m lb" and sz: "0 < unat sz"
  obtains m' lb' w s post where "lb_alloc bm m lb sz = Some (m', lb')"
    "wrote bm gs e others m lb [] m' lb'" "sl_nodes (lb_slices lb') = sl_nodes (lb_slices lb) @ (w, s) # post"
    "sl_write (lb_slices lb') = sl_write (lb_slices lb)"
    "\<forall>t \<in> snd ` set ((w, s) # post). fresh_slice t"
    "cap_sum (map snd (butlast ((w, s) # post))) < int (unat sz)"
proof -
  obtain m' lb' ns where a: "lb_alloc bm m lb sz = Some (m', lb')" "new_nodes ns lb lb'" "ns \<noteq> []"
    "cap_sum (butlast (map snd ns)) < int (unat sz)"
    "lb_inv bm gs e m' lb' others" "tidy m' lb'" "undisturbed gs m m' lb others"
    using lb_alloc_ok [OF assms] by blast
  obtain w s post where ns: "ns = (w, s) # post" using a(3) by (cases ns) auto
  have fr: "\<forall>h \<in> set others. \<forall>x \<in> area gs h. m' x = m x"
    using a(7) unfolding undisturbed_def by auto
  have "wrote bm gs e others m lb [] m' lb'"
    using a(2,5,6) fr total_size_new [OF a(2)] undisturbed_content [OF inv a(7)]
    by (simp add: wrote_def new_nodes_def)
  moreover have "cap_sum (map snd (butlast ((w, s) # post))) < int (unat sz)"
    using a(4) ns by (simp only: map_butlast)
  ultimately show thesis using that [OF a(1)] a(2) ns by (auto simp: new_nodes_def)
qed

lemma write_loop_ok:
  assumes "lb_inv bm gs e m lb others" and "tidy m lb"
    and "cursor_at lb pre w s post (length bs - n)" and "n < length bs" and "length bs < 4294967296"
  shows "\<exists>m' lb' pre' s' w'. write_loop bm m lb bs n = Some (m', lb', length bs)
    \<and> wrote bm gs e others m lb (drop n bs) m' lb' \<and> cursor_at lb' pre' w' s' [] 0"
  using assms
proof (induction "2 * (length bs - n) + (if slice_remain s = 0 then 1 else 0)"
    arbitrary: m lb pre w s post n rule: less_induct)
  case less
  note inv = less.prems(1) and td = less.prems(2)
  have c: "sl_nodes (lb_slices lb) = pre @ (w, s) # post" "sl_write (lb_slices lb) = Some w"
    "\<forall>t \<in> snd ` set post. fresh_slice t"
    "post \<noteq> [] \<Longrightarrow> int (slice_remain s) + cap_sum (map snd (butlast post)) < int (length bs - n)"
    using less.prems(3) by (simp_all add: cursor_at_def)
  have ok: "slice_ok s"
    using lb_inv_slices_ok [OF inv] slices_split [OF c(1)] by simp
  define k where "k = min (length bs - n) (slice_remain s)"
  define m1 where "m1 = fst (fst (slice_append m s (drop n bs)))"
  define s1 where "s1 = snd (fst (slice_append m s (drop n bs)))"
  define lb1 where "lb1 = lb\<lparr>lb_slices := set_slice (lb_slices lb) w s1\<rparr>"
  have k: "slice_append m s (drop n bs) = ((m1, s1), k)"
  proof -
    have "snd (slice_append m s (drop n bs)) = k"
      using slice_append_ok(1) [where m = m and bs = "drop n bs", OF ok] by (simp add: k_def)
    then show ?thesis by (simp add: m1_def s1_def prod_eq_iff)
  qed
  note ap = append_at_ok [OF inv td c(1,3), of "drop n bs", unfolded length_drop,
      folded m1_def s1_def k_def, folded lb1_def]
  have kb: "k \<le> length bs - n" by (simp add: k_def)
  have w1: "wrote bm gs e others m lb (take k (drop n bs)) m1 lb1"
    using ap kb by (auto simp: wrote_def lb1_def)
  have up: "uadd n k = n + k" using less.prems(4,5) kb by (intro uadd_small) simp
  have dr: "deref (lb_slices lb) (Some w) = Some s"
    by (rule deref_split [OF lb_invD(1) [OF inv] c(1)])
  have u: "write_loop bm m lb bs n =
      (if n + k < length bs
       then (case (if next_of (lb_slices lb1) w = None
                   then lb_alloc bm m1 lb1 (of_nat (length bs - (n + k))) else Some (m1, lb1)) of
               None \<Rightarrow> None
             | Some q \<Rightarrow> write_loop bm (fst q) ((snd q)\<lparr>lb_slices := set_write (lb_slices (snd q))
                 (next_of (lb_slices (snd q)) w)\<rparr>) bs (n + k))
       else Some (m1, lb1, n + k))"
    by (simp only: write_loop.simps [of bm m lb bs n] c(2) dr k Let_def option.case fst_conv snd_conv
        up lb1_def)
  show ?case
  proof (cases "n + k < length bs")
    case False
    then have full: "length bs - n \<le> slice_remain s" "n + k = length bs"
      using less.prems(4) kb by (auto simp: k_def)
    have "0 \<le> cap_sum (map snd (butlast post))" by (induction post) auto
    then have post: "post = []" using c(4) full(1) by fastforce
    have "write_loop bm m lb bs n = Some (m1, lb1, length bs)"
      using u full by simp
    moreover have "cursor_at lb1 pre w s1 [] 0"
      using ap(3) post c(2) by (simp add: cursor_at_def set_slice_inv lb1_def)
    moreover have "take k (drop n bs) = drop n bs" using full by simp
    ultimately show ?thesis using w1 by (metis (no_types))
  next
    case True
    then have kr: "k = slice_remain s" by (auto simp: k_def min_def split: if_splits)
    have inv1: "lb_inv bm gs e m1 lb1 others" "tidy m1 lb1" using w1 by (simp_all add: wrote_def)
    have nx: "next_of (lb_slices lb1) w = head_id post"
      by (rule next_of_split [OF lb_invD(1) [OF inv1(1)] ap(3)])
    obtain m2 lb2 w2 s2 post2 where
      q: "(if next_of (lb_slices lb1) w = None then lb_alloc bm m1 lb1 (of_nat (length bs - (n + k)))
           else Some (m1, lb1)) = Some (m2, lb2)"
      and w2: "wrote bm gs e others m1 lb1 [] m2 lb2"
      and n2: "sl_nodes (lb_slices lb2) = pre @ (w, s1) # (w2, s2) # post2"
      and f2: "\<forall>t \<in> snd ` set ((w2, s2) # post2). fresh_slice t"
      and need: "cap_sum (map snd (butlast ((w2, s2) # post2))) < int (length bs - (n + k))"
    proof (cases post)
      case Nil
      have sz: "unat (of_nat (length bs - (n + k)) :: u32) = length bs - (n + k)"
        using less.prems(5) by (intro unat_of_nat_u32) linarith
      then have "0 < unat (of_nat (length bs - (n + k)) :: u32)" using True by linarith
      from alloc_wrote [OF inv1 this] show thesis
        using that nx Nil ap(3) sz by (simp add: head_id_def) metis
    next
      case (Cons x post2)
      then obtain w2 s2 where x: "post = (w2, s2) # post2" by (cases x) simp
      have "cap_sum (map snd (butlast post)) < int (length bs - (n + k))"
        using c(4) x kr True by simp
      moreover have "wrote bm gs e others m1 lb1 [] m1 lb1"
        using inv1 by (simp add: wrote_def)
      ultimately show thesis
        using that [of m1 lb1 w2 s2 post2] nx x ap(3) c(3) by (simp add: head_id_def)
    qed
    let ?lb3 = "lb2\<lparr>lb_slices := set_write (lb_slices lb2) (Some w2)\<rparr>"
    note cn = cursor_next [OF n2 f2 need]
    have inv2: "lb_inv bm gs e m2 lb2 others" "tidy m2 lb2" using w2 by (simp_all add: wrote_def)
    have nx2: "next_of (lb_slices lb2) w = Some w2"
      using next_of_split [OF lb_invD(1) [OF inv2(1)] n2] by (simp add: head_id_def)
    have w3: "wrote bm gs e others m lb (take k (drop n bs)) m2 ?lb3"
      using wrote_trans [OF w1 w2] by (simp add: wrote_def)
    have step: "write_loop bm m lb bs n = write_loop bm m2 ?lb3 bs (n + k)"
      unfolding u q using True nx2 by simp
    have "2 * (length bs - (n + k)) + (if slice_remain s2 = 0 then 1 else 0)
        < 2 * (length bs - n) + (if slice_remain s = 0 then 1 else 0)"
      using cn(2) True kr by (cases "slice_remain s = 0") auto
    moreover have "lb_inv bm gs e m2 ?lb3 others" "tidy m2 ?lb3" using inv2 by simp_all
    ultimately
    obtain m' lb' pre' s' w' where r: "write_loop bm m2 ?lb3 bs (n + k) = Some (m', lb', length bs)"
      "wrote bm gs e others m2 ?lb3 (drop (n + k) bs) m' lb'" "cursor_at lb' pre' w' s' [] 0"
      using less.hyps [OF _ _ _ cn(1) True less.prems(5)] by blast
    have "take k (drop n bs) @ drop (n + k) bs = drop n bs"
      by (metis add.commute append_take_drop_id drop_drop)
    with wrote_trans [OF w3 r(2)] step r show ?thesis by metis
  qed
qed

section \<open>Writing\<close>

text \<open>
  The writer between calls: a new or emptied linked buffer, or one whose cursor is at its
  last slice.
\<close>

definition writer_inv ::
  "buffer_manager \<Rightarrow> list_spec list \<Rightarrow> nat \<Rightarrow> mem \<Rightarrow> linked_buffer \<Rightarrow> (nat \<times> nat) list \<Rightarrow> bool" where
  "writer_inv bm gs e m lb others \<longleftrightarrow> reader_inv bm gs e m lb others \<and> tidy m lb
     \<and> (if slices (lb_slices lb) = [] then sl_write (lb_slices lb) = None
        else \<exists>pre w s. cursor_at lb pre w s [] 0)"

lemma new_writer_inv:
  "managed bm gs e m others \<Longrightarrow> writer_inv bm gs e m new_linked_buffer others"
  using new_linked_buffer_inv [of bm gs e m others]
  by (simp add: writer_inv_def tidy_def) (simp add: new_linked_buffer_def empty_slice_list_def)

text \<open>Both writing operations begin by making sure that there is a write slice.\<close>

lemma first_alloc:
  assumes inv: "writer_inv bm gs e m lb others" and sz: "0 < unat sz"
  obtains m1 lb1 pre w s post where
    "(if sl_write (lb_slices lb) = None
      then map_option (\<lambda>(m1, lb1). (m1, lb1\<lparr>lb_slices := set_write (lb_slices lb1) (sl_front (lb_slices lb1))\<rparr>))
             (lb_alloc bm m lb sz)
      else Some (m, lb)) = Some (m1, lb1)"
    "wrote bm gs e others m lb [] m1 lb1" "cursor_at lb1 pre w s post (unat sz)"
proof -
  have i: "lb_inv bm gs e m lb others" and td: "tidy m lb"
    using inv by (simp_all add: writer_inv_def reader_inv_def)
  show thesis
  proof (cases "slices (lb_slices lb) = []")
    case True
    then have w: "sl_write (lb_slices lb) = None" and nl: "sl_nodes (lb_slices lb) = []"
      using inv by (simp_all add: writer_inv_def slices_def)
    obtain m1 lb1 w0 s post where a: "lb_alloc bm m lb sz = Some (m1, lb1)" "wrote bm gs e others m lb [] m1 lb1"
      "sl_nodes (lb_slices lb1) = sl_nodes (lb_slices lb) @ (w0, s) # post"
      "\<forall>t \<in> snd ` set ((w0, s) # post). fresh_slice t"
      "cap_sum (map snd (butlast ((w0, s) # post))) < int (unat sz)"
      by (rule alloc_wrote [OF i td sz])
    let ?lb = "lb1\<lparr>lb_slices := set_write (lb_slices lb1) (sl_front (lb_slices lb1))\<rparr>"
    have li: "lb_inv bm gs e m1 lb1 others" using a(2) by (simp add: wrote_def)
    have f: "sl_front (lb_slices lb1) = Some w0"
      using lb_invD(1) [OF li] a(3) nl by (simp add: sl_inv_def head_id_def)
    have "slice_remain s = unat (bs_cap s)" using a(4) fresh_slice_simps(3) [of s] by simp
    then have "cursor_at ?lb [] w0 s post (unat sz)"
      using a(3,4,5) nl f by (cases "post = []") (auto simp: cursor_at_def)
    moreover have "wrote bm gs e others m lb [] m1 ?lb" using a(2) by (simp add: wrote_def)
    ultimately show thesis using that [of m1 ?lb] w a(1) by simp
  next
    case False
    then obtain pre w s where c: "cursor_at lb pre w s [] 0" using inv by (auto simp: writer_inv_def)
    have "wrote bm gs e others m lb [] m lb" using i td by (simp add: wrote_def)
    with c that [of m lb pre w s "[]"] show thesis by (simp add: cursor_at_def)
  qed
qed

lemma wrote_writer_inv:
  assumes inv: "writer_inv bm gs e m lb others" and w: "wrote bm gs e others m lb bs m' lb'"
    and c: "cursor_at lb' pre w0 s [] 0" and b: "lb_len lb + length bs < 18446744073709551616"
  shows "writer_inv bm gs e m' (lb'\<lparr>lb_len := uadd (lb_len lb') (length bs)\<rparr>) others"
    "content m' (lb'\<lparr>lb_len := uadd (lb_len lb') (length bs)\<rparr>) = content m lb @ bs"
proof -
  let ?lb = "lb'\<lparr>lb_len := uadd (lb_len lb') (length bs)\<rparr>"
  have p: "lb_inv bm gs e m' lb' others" "tidy m' lb'" "content m' lb' = content m lb @ bs"
    "total_size lb' = total_size lb + length bs" "lb_len lb' = lb_len lb"
    using w by (simp_all add: wrote_def)
  have l: "lb_len lb = total_size lb" using inv by (simp add: writer_inv_def reader_inv_def)
  have "uadd (lb_len lb') (length bs) = lb_len lb + length bs" using b p(5) by (simp add: uadd_small)
  then have "reader_inv bm gs e m' ?lb others"
    using p l b by (simp add: reader_inv_def lb_inv_def all_slices_def total_size_def)
  moreover have "slices (lb_slices lb') \<noteq> []" using c by (simp add: cursor_at_def slices_def)
  ultimately show "writer_inv bm gs e m' ?lb others"
    using p(2) c by (auto simp: writer_inv_def tidy_def cursor_at_def)
  show "content m' ?lb = content m lb @ bs" using p(3) by (simp add: content_def)
qed

lemma lb_write_bytes_ok:
  assumes inv: "writer_inv bm gs e m lb others" and l: "length bs < 4294967296"
    and b: "lb_len lb + length bs < 18446744073709551616"
  shows "\<exists>m' lb'. lb_write_bytes bm m lb bs = Some (m', lb', Inr (length bs))
    \<and> writer_inv bm gs e m' lb' others \<and> content m' lb' = content m lb @ bs
    \<and> lb_pinned lb' = lb_pinned lb \<and> (\<forall>h \<in> set others. \<forall>x \<in> area gs h. m' x = m x)"
proof (cases "bs = []")
  case True
  with inv show ?thesis by (auto simp: lb_write_bytes_def)
next
  case ne: False
  have sz: "unat (of_nat (length bs) :: u32) = length bs" using l by (rule unat_of_nat_u32)
  then have pos: "0 < unat (of_nat (length bs) :: u32)" using ne by simp
  obtain m1 lb1 pre w s post where a:
    "(if sl_write (lb_slices lb) = None
      then map_option (\<lambda>(m1, lb1). (m1, lb1\<lparr>lb_slices := set_write (lb_slices lb1) (sl_front (lb_slices lb1))\<rparr>))
             (lb_alloc bm m lb (of_nat (length bs)))
      else Some (m, lb)) = Some (m1, lb1)"
    and w1: "wrote bm gs e others m lb [] m1 lb1" and c0: "cursor_at lb1 pre w s post (unat (of_nat (length bs) :: u32))"
    by (rule first_alloc [OF inv pos])
  have c: "cursor_at lb1 pre w s post (length bs - 0)" using c0 unfolding sz by simp
  have i1: "lb_inv bm gs e m1 lb1 others" "tidy m1 lb1" using w1 by (simp_all add: wrote_def)
  obtain m2 lb2 pre' s' w' where r: "write_loop bm m1 lb1 bs 0 = Some (m2, lb2, length bs)"
    "wrote bm gs e others m1 lb1 (drop 0 bs) m2 lb2" "cursor_at lb2 pre' w' s' [] 0"
    using write_loop_ok [OF i1 c] ne l by auto
  have w2: "wrote bm gs e others m lb bs m2 lb2" using wrote_trans [OF w1 r(2)] by simp
  note wi = wrote_writer_inv [OF inv w2 r(3) b]
  have "lb_write_bytes bm m lb bs = Some (m2, lb2\<lparr>lb_len := uadd (lb_len lb2) (length bs)\<rparr>, Inr (length bs))"
    unfolding lb_write_bytes_def a using ne r(1) by simp
  with wi w2 show ?thesis by (auto simp: wrote_def)
qed

end
