(* ===== verification/Handover.thy ===== *)
theory Handover
  imports Linked_Write
begin

text \<open>
  The way of a message through the shared memory. The sender's \<open>LinkedBuffer::done\<close> writes
  the size, start and successor of every slice into the slice's own header; the receiver
  gets the offset of the first one and \<open>Stream::move_pending_data\<close> (\<open>src/stream.cpp\<close>) walks
  the headers and appends a slice per header to the receive buffer. The lemmas say that the
  walk ends, that it rebuilds exactly the sender's slices, and that the ownership of the
  buffers passes from the sender to the receiver.
\<close>

section \<open>The receiver's walk over a chain of headers\<close>

text \<open>
  The loop of \<open>move_pending_data\<close> for one offset. Headers that form a cycle make it run
  forever, which is \<open>None\<close>.
\<close>

definition unlink_back :: "mem \<Rightarrow> linked_buffer \<Rightarrow> mem" where
  "unlink_back m buf =
     (case deref (lb_slices buf) (sl_back (lb_slices buf)) of
        None \<Rightarrow> m
      | Some s \<Rightarrow> (case bs_buffer_header s of
          None \<Rightarrow> m
        | Some h \<Rightarrow> set_in_used (clear_flag m h) h))"

partial_function (option) move_chain ::
  "buffer_manager \<Rightarrow> mem \<Rightarrow> linked_buffer \<Rightarrow> u32 \<Rightarrow> (mem \<times> linked_buffer) option" where
  "move_chain bm m buf offset =
     (case read_buffer_slice bm m offset of
        Inl err \<Rightarrow> Some (m, buf)
      | Inr s \<Rightarrow>
          let h = unat offset; nxt = has_next m h in
          if slice_size s = 0
          then let next_offset = next_buffer_offset m h; m1 = recycle_buffer bm m s in
               if nxt then move_chain bm m1 buf next_offset
               else Some (unlink_back m1 buf, buf)
          else if \<not> nxt then Some (m, append_buffer_slice buf s)
          else move_chain bm m (append_buffer_slice buf s) (next_buffer_offset m h))"

section \<open>Posted headers\<close>

definition posted :: "mem \<Rightarrow> buffer_slice \<Rightarrow> buffer_slice option \<Rightarrow> bool" where
  "posted m s nxt \<longleftrightarrow> (case bs_buffer_header s of
      None \<Rightarrow> False
    | Some h \<Rightarrow> header_size m h = of_nat (slice_size s) \<and> header_start m h = bs_start s
        \<and> has_next m h = (nxt \<noteq> None)
        \<and> (case nxt of None \<Rightarrow> True | Some n \<Rightarrow> next_buffer_offset m h = bs_offset_in_shm n))"

definition head_of :: "'a list \<Rightarrow> 'a option" where
  "head_of xs = (case xs of [] \<Rightarrow> None | x # _ \<Rightarrow> Some x)"

lemma head_of_simps [simp]: "head_of [] = None" "head_of (x # xs) = Some x"
  by (simp_all add: head_of_def)

fun linked :: "mem \<Rightarrow> buffer_slice list \<Rightarrow> bool" where
  "linked m [] = True"
| "linked m (s # ss) = (posted m s (head_of ss) \<and> linked m ss)"

text \<open>A slice ready to be handed over: in shared memory, nothing of it read.\<close>

definition sendable :: "list_spec list \<Rightarrow> mem \<Rightarrow> buffer_slice \<Rightarrow> bool" where
  "sendable gs m s \<longleftrightarrow> good_slice gs m s \<and> bs_is_from_shm s \<and> bs_read_index s = unat (bs_start s)"

lemma sendableD:
  assumes "sendable gs m s"
  obtains p where "bs_buffer_header s = Some p" "bs_data s = ShmData (p + 20)"
    "{p + 4 ..< p + 20 + unat (bs_cap s)} \<subseteq> area gs (hname gs s)" "named gs s" "in_used m s" "slice_ok s"
    "bs_is_from_shm s" "bs_read_index s = unat (bs_start s)" "names gs s (hname gs s)"
proof -
  have n: "named gs s" using assms by (simp add: sendable_def good_slice_def)
  with named_area [OF n] names_hname [OF n] assms that show thesis
    by (fastforce simp: sendable_def good_slice_def)
qed

lemma sendable_cong:
  assumes "sendable gs m s" and "\<And>x. x \<in> area gs (hname gs s) \<Longrightarrow> m' x = m x"
  shows "sendable gs m' s" "slice_bytes m' s = slice_bytes m s"
  using assms good_slice_cong [of gs m s m'] by (simp_all add: sendable_def)

lemma posted_cong:
  assumes s: "sendable gs m s" and same: "\<And>x. x \<in> area gs (hname gs s) \<Longrightarrow> m' x = m x"
  shows "posted m' s nxt = posted m s nxt"
proof -
  from s obtain p where p: "bs_buffer_header s = Some p"
    "{p + 4 ..< p + 20 + unat (bs_cap s)} \<subseteq> area gs (hname gs s)" by (rule sendableD)
  have eq: "m' x = m x" if "p + 4 \<le> x" "x < p + 20" for x
    using that p(2) by (intro same) auto
  have "load_u32 m' (p + k) = load_u32 m (p + k)" if "4 \<le> k" "k \<le> 12" for k
    using that by (intro load_u32_cong eq) auto
  from this [of 4] this [of 8] this [of 12] eq [of "p + 16"] show ?thesis
    by (cases nxt) (simp_all add: posted_def p(1) header_getters)
qed

lemma update_only:
  assumes "sendable gs m s" "update m s nxt x \<noteq> m x"
  shows "x \<in> area gs (hname gs s)"
proof -
  from assms(1) obtain p where p: "bs_buffer_header s = Some p"
    "{p + 4 ..< p + 20 + unat (bs_cap s)} \<subseteq> area gs (hname gs s)" by (rule sendableD)
  have "p + 4 \<le> x \<and> x < p + 20"
  proof (rule ccontr)
    assume "\<not> (p + 4 \<le> x \<and> x < p + 20)"
    then have "update m s nxt x = m x"
      by (auto simp: update_def p(1) Let_def header_setters store_u32_other split: option.splits)
    with assms(2) show False ..
  qed
  then show ?thesis using p(2) by auto
qed

lemma update_posted:
  assumes "sendable gs m s" "clean_slice m s"
  shows "posted (update m s nxt) s nxt" "sendable gs (update m s nxt) s"
    "slice_bytes (update m s nxt) s = slice_bytes m s"
proof -
  from assms(1) obtain p where p: "bs_buffer_header s = Some p" "bs_data s = ShmData (p + 20)"
    "in_used m s" "slice_ok s" by (rule sendableD)
  have "\<not> has_next m p" using assms(2) p(1) by (simp add: clean_slice_def)
  then show "posted (update m s nxt) s nxt"
    by (auto simp: posted_def update_def p(1) Let_def hdr_simps split: option.splits)
  have "in_used (update m s nxt) s" using p(1,3)
    by (auto simp: in_used_def update_def Let_def hdr_simps split: option.splits)
  with assms(1) show "sendable gs (update m s nxt) s" by (simp add: sendable_def good_slice_def)
  show "slice_bytes (update m s nxt) s = slice_bytes m s"
    using p by (intro slice_bytes_cong)
      (auto simp: update_def Let_def header_setters_other split: option.splits)
qed

section \<open>The sender posts its chain\<close>

lemma owned_front:
  assumes "managed bm gs e m (h # held)" "g \<in> set held"
  shows "area gs h \<inter> area gs g = {}"
  using src.owned_disjoint [OF assms(1), of h g] src.owned_distinct [OF assms(1)] assms(2) by auto

lemma update_upto_linked:
  assumes "managed bm gs e m (shm_names gs (map snd xs) @ held)"
    and "\<forall>s \<in> set (map snd xs). sendable gs m s \<and> clean_slice m s"
    and "xs \<noteq> []" and "distinct (map fst xs)"
  shows "linked (update_upto m (Some (fst (last xs))) xs) (map snd xs)
    \<and> (\<forall>s \<in> set (map snd xs). sendable gs (update_upto m (Some (fst (last xs))) xs) s
        \<and> slice_bytes (update_upto m (Some (fst (last xs))) xs) s = slice_bytes m s)
    \<and> managed bm gs e (update_upto m (Some (fst (last xs))) xs) (shm_names gs (map snd xs) @ held)
    \<and> (\<forall>g \<in> set held. \<forall>x \<in> area gs g. update_upto m (Some (fst (last xs))) xs x = m x)"
  using assms
proof (induction xs arbitrary: m held)
  case (Cons y ys)
  obtain i s where y: "y = (i, s)" by fastforce
  let ?nxt = "head_of (map snd ys)"
  define m1 where "m1 = update m s ?nxt"
  have nx: "?nxt = (case ys of [] \<Rightarrow> None | x # _ \<Rightarrow> Some (snd x))" by (cases ys) simp_all
  have s: "sendable gs m s" "clean_slice m s" "bs_is_from_shm s" using Cons.prems(2) y by (auto simp: sendable_def)
  note u = update_posted [OF s(1,2), of ?nxt, folded m1_def]
  have man: "managed bm gs e m (hname gs s # shm_names gs (map snd ys) @ held)"
    using Cons.prems(1) y s(3) by simp
  have only: "m1 x = m x" if "x \<notin> area gs (hname gs s)" for x
    using update_only [OF s(1)] that unfolding m1_def by blast
  have frame: "m1 x = m x" if "g \<in> set (shm_names gs (map snd ys) @ held)" "x \<in> area gs g" for g x
    using only owned_front [OF man that(1)] that(2) by blast
  have man1: "managed bm gs e m1 (hname gs s # shm_names gs (map snd ys) @ held)"
    by (rule src.owned_write [OF man, of "hname gs s"]) (use only in \<open>simp, blast\<close>)
  show ?case
  proof (cases "ys = []")
    case True
    then have "update_upto m (Some (fst (last (y # ys)))) (y # ys) = m1"
      using y nx by (simp add: m1_def)
    with True y u man1 s(3) frame show ?thesis by simp
  next
    case False
    then have "i \<noteq> fst (last ys)" using Cons.prems(4) y by auto
    then have e: "update_upto m (Some (fst (last (y # ys)))) (y # ys) = update_upto m1 (Some (fst (last ys))) ys"
      using False y nx by (simp add: m1_def Let_def)
    have man2: "managed bm gs e m1 (shm_names gs (map snd ys) @ hname gs s # held)"
      by (rule src.owned_perm [OF man1]) simp
    have sy: "\<forall>t \<in> set (map snd ys). sendable gs m1 t \<and> clean_slice m1 t \<and> slice_bytes m1 t = slice_bytes m t"
    proof
      fix t assume t: "t \<in> set (map snd ys)"
      then have t': "sendable gs m t" "clean_slice m t" using Cons.prems(2) by auto
      then have shm: "bs_is_from_shm t" and g: "good_slice gs m t" by (simp_all add: sendable_def)
      have same: "m1 x = m x" if "x \<in> area gs (hname gs t)" for x
        using frame [of "hname gs t" x] hname_in_shm_names [OF t shm, of gs] that by simp
      show "sendable gs m1 t \<and> clean_slice m1 t \<and> slice_bytes m1 t = slice_bytes m t"
        using sendable_cong [OF t'(1) same] good_clean_cong [OF g t'(2) same] shm by simp
    qed
    let ?m = "update_upto m1 (Some (fst (last ys))) ys"
    have ih: "linked ?m (map snd ys)"
      "\<forall>t \<in> set (map snd ys). sendable gs ?m t \<and> slice_bytes ?m t = slice_bytes m1 t"
      "managed bm gs e ?m (shm_names gs (map snd ys) @ hname gs s # held)"
      "\<forall>g \<in> set (hname gs s # held). \<forall>x \<in> area gs g. ?m x = m1 x"
      using Cons.IH [OF man2 _ False] sy Cons.prems(4) by auto
    have same: "?m x = m1 x" if "x \<in> area gs (hname gs s)" for x using ih(4) that by simp
    have "posted ?m s ?nxt" "sendable gs ?m s" "slice_bytes ?m s = slice_bytes m s"
      using posted_cong [OF u(2) same] sendable_cong [OF u(2) same] u by simp_all
    moreover have "managed bm gs e ?m (hname gs s # shm_names gs (map snd ys) @ held)"
      by (rule src.owned_perm [OF ih(3)]) simp
    moreover have "?m x = m x" if "g \<in> set held" "x \<in> area gs g" for g x
      using ih(4) frame [of g x] that by simp
    ultimately show ?thesis
      unfolding e using y ih(1,2) sy s(3) by simp
  qed
qed simp

section \<open>The receiver reads it back\<close>

lemma held_header:
  assumes man: "managed bm gs e m held" and h: "h \<in> set held" and n: "names gs s h"
    and p: "bs_buffer_header s = Some p"
  shows "header_cap m p = bs_cap s" "unat (bs_offset_in_shm s) = p" "0 < unat (bs_cap s)"
    "p + 20 + unat (bs_cap s) \<le> bm_mem_len bm" "bm_mem_len bm < 4294967296"
proof -
  let ?g = "gs ! fst h"
  have i: "fst h < length gs" "snd h < unat (ls_num ?g)" and c: "bs_cap s = ls_cap ?g"
    and pn: "p = node (ls_off ?g) (ls_cap ?g) (snd h)" and o: "bs_offset_in_shm s = of_nat p"
    using n p by (simp_all add: names_def is_slot_def)
  from man obtain u kss where lo: "laid_out u gs e" and si: "specs_inv gs m kss"
    and ml: "e \<le> bm_mem_len bm" and ml': "bm_mem_len bm < 4294967296"
    by (auto simp: managed_def manages_def pool_inv_def)
  note g = laid_out_nth [OF lo i(1)]
  show "header_cap m p = bs_cap s" using si i c pn by (simp add: specs_inv_def free_inv_def)
  show "0 < unat (bs_cap s)" using g c by (simp add: geometry_def)
  have "snd h * unit_size (ls_cap ?g) + unit_size (ls_cap ?g) \<le> unat (ls_num ?g) * unit_size (ls_cap ?g)"
    using i(2) by (metis Suc_leI add.commute mult_Suc mult_le_mono1)
  then have "p + unit_size (ls_cap ?g) \<le> spec_end ?g"
    by (simp add: pn node_def spec_end_def list_end_def)
  then show e: "p + 20 + unat (bs_cap s) \<le> bm_mem_len bm" using g ml c by (simp add: unit_size_def)
  show "bm_mem_len bm < 4294967296" by (rule ml')
  have "p < 4294967296" using e ml' by linarith
  then show "unat (bs_offset_in_shm s) = p" using o unat_of_nat_u32 by simp
qed

lemma read_posted:
  assumes man: "managed bm gs e m held" and h: "hname gs s \<in> set held"
    and s: "sendable gs m s" and po: "posted m s nxt"
  shows "read_buffer_slice bm m (bs_offset_in_shm s) = Inr s"
    "has_next m (unat (bs_offset_in_shm s)) = (nxt \<noteq> None)"
    "nxt = Some t \<Longrightarrow> next_buffer_offset m (unat (bs_offset_in_shm s)) = bs_offset_in_shm t"
proof -
  from s obtain p where p: "bs_buffer_header s = Some p" "bs_data s = ShmData (p + 20)"
    "slice_ok s" "bs_is_from_shm s" "bs_read_index s = unat (bs_start s)" "names gs s (hname gs s)"
    by (rule sendableD)
  note f = held_header [OF man h p(6) p(1)]
  have hs: "header_size m p = of_nat (slice_size s)" "header_start m p = bs_start s"
    "has_next m p = (nxt \<noteq> None)" "nxt = Some t \<Longrightarrow> next_buffer_offset m p = bs_offset_in_shm t"
    using po p(1) by (auto simp: posted_def)
  then show "has_next m (unat (bs_offset_in_shm s)) = (nxt \<noteq> None)"
    "nxt = Some t \<Longrightarrow> next_buffer_offset m (unat (bs_offset_in_shm s)) = bs_offset_in_shm t"
    using f(2) by simp_all
  have off: "bs_offset_in_shm s = of_nat p" by (simp flip: f(2))
  have "unat (bs_offset_in_shm s + 20 + bs_cap s) = p + 20 + unat (bs_cap s)"
  proof -
    have "bs_offset_in_shm s + 20 + bs_cap s = of_nat (p + 20 + unat (bs_cap s))" using off by simp
    moreover have "p + 20 + unat (bs_cap s) < 4294967296" using f(4,5) by linarith
    ultimately show ?thesis using unat_of_nat_u32 by metis
  qed
  then have rb: "read_buffer_slice bm m (bs_offset_in_shm s)
      = Inr (new_slice m (Some p) (p + 20) (unat (bs_cap s)) (bs_offset_in_shm s) True)"
    using f unfolding read_buffer_slice_def by (simp add: header_cap_def Let_def)
  note b = slice_ok_bounds [OF p(3)]
  have rw: "bs_read_index s \<le> bs_write_index s" using p(3) by (simp add: slice_ok_def)
  have "bs_start s + of_nat (slice_size s) = (of_nat (bs_write_index s) :: u32)"
    using p(5) b(3) rw by (metis le_add_diff_inverse of_nat_add word_of_nat_unat)
  then have "unat (bs_start s + of_nat (slice_size s) :: u32) = bs_write_index s"
    using b(1) by (simp only: unat_of_nat_u32)
  then have "new_slice m (Some p) (p + 20) (unat (bs_cap s)) (bs_offset_in_shm s) True = s"
    using p f(1) hs by (simp add: new_slice_def)
  with rb show "read_buffer_slice bm m (bs_offset_in_shm s) = Inr s" by simp
qed

text \<open>A change of memory that keeps the buffers a reader owns keeps the reader.\<close>

lemma reader_inv_frame:
  assumes inv: "reader_inv bm gs e m lb others"
    and man: "managed bm gs e m' (shm_names gs (all_slices lb) @ others')"
    and same: "\<And>g x. g \<in> set (shm_names gs (all_slices lb)) \<Longrightarrow> x \<in> area gs g \<Longrightarrow> m' x = m x"
  shows "reader_inv bm gs e m' lb others'" "content m' lb = content m lb"
proof -
  have i: "lb_inv bm gs e m lb others" using inv by (simp add: reader_inv_def)
  have g: "good_slice gs m' s \<and> slice_bytes m' s = slice_bytes m s" if s: "s \<in> set (all_slices lb)" for s
  proof -
    have "good_slice gs m s" using i s by (simp add: lb_inv_def)
    moreover have "m' x = m x" if "bs_is_from_shm s" "x \<in> area gs (hname gs s)" for x
      using same [OF hname_in_shm_names [OF s that(1)] that(2)] .
    ultimately show ?thesis using good_slice_cong by blast
  qed
  then have "lb_inv bm gs e m' lb others'" using i man unfolding lb_inv_def by blast
  then show "reader_inv bm gs e m' lb others'" using inv by (simp add: reader_inv_def)
  show "content m' lb = content m lb" using g by (intro content_cong) (simp add: all_slices_def)
qed

lemma deref_mem: "deref sl i = Some s \<Longrightarrow> s \<in> set (slices sl)"
  by (force simp: deref_def slices_def dest: map_of_SomeD split: option.splits)

lemma unlink_back_ok:
  assumes inv: "reader_inv bm gs e m lb others"
  shows "reader_inv bm gs e (unlink_back m lb) lb others" "content (unlink_back m lb) lb = content m lb"
    "g \<in> set others \<Longrightarrow> x \<in> area gs g \<Longrightarrow> unlink_back m lb x = m x"
proof -
  have i: "lb_inv bm gs e m lb others" using inv by (simp add: reader_inv_def)
  have "reader_inv bm gs e (unlink_back m lb) lb others \<and> content (unlink_back m lb) lb = content m lb
    \<and> (\<forall>g \<in> set others. \<forall>x \<in> area gs g. unlink_back m lb x = m x)"
  proof (cases "unlink_back m lb = m")
    case False
    then obtain s p where d: "deref (lb_slices lb) (sl_back (lb_slices lb)) = Some s"
      and p: "bs_buffer_header s = Some p"
      and u: "unlink_back m lb = set_in_used (clear_flag m p) p"
      by (auto simp: unlink_back_def split: option.splits)
    have s: "s \<in> set (slices (lb_slices lb))" using deref_mem [OF d] .
    with lb_invD(4) [OF i] have g: "good_slice gs m s" .
    with p have shm: "bs_is_from_shm s" and n: "named gs s"
      by (auto simp: good_slice_def split: if_splits)
    have "p + 16 \<in> area gs (hname gs s)" using named_area [OF n] p by (metis option.inject)
    then have only: "x \<in> area gs (hname gs s)" if "unlink_back m lb x \<noteq> m x" for x
      using that by (auto simp: u header_setters split: if_splits)
    let ?held = "shm_names gs (all_slices lb) @ others"
    have hs: "hname gs s \<in> set (shm_names gs (all_slices lb))"
      using s shm by (intro hname_in_shm_names) (simp_all add: all_slices_def)
    have man: "managed bm gs e (unlink_back m lb) ?held"
      by (rule src.owned_write [OF lb_invD(3) [OF i], of "hname gs s"]) (use hs only in auto)
    have far: "unlink_back m lb x = m x" if "h \<in> set ?held" "h \<noteq> hname gs s" "x \<in> area gs h" for h x
      using src.owned_disjoint [OF lb_invD(3) [OF i] that(1), of "hname gs s"] hs only that by auto
    have t: "good_slice gs (unlink_back m lb) t \<and> slice_bytes (unlink_back m lb) t = slice_bytes m t"
      if t: "t \<in> set (all_slices lb)" for t
    proof (cases "bs_is_from_shm t \<and> hname gs t = hname gs s")
      case True
      have gt: "good_slice gs m t" using i t by (simp add: lb_inv_def)
      with True have nt: "named gs t" "slice_ok t" by (simp_all add: good_slice_def)
      have "bs_buffer_header t = Some p" using names_hname [OF n] names_hname [OF nt(1)] p True
        by (simp add: names_def is_slot_def)
      moreover from this have "bs_data t = ShmData (p + 20)" using named_area [OF nt(1)] by (metis option.inject)
      moreover from this have "slice_bytes (unlink_back m lb) t = slice_bytes m t"
        by (intro slice_bytes_cong [OF nt(2)]) (auto simp: u header_setters_other)
      ultimately show ?thesis using gt True
        by (simp add: good_slice_def in_used_def u hdr_simps)
    next
      case False
      have gt: "good_slice gs m t" using i t by (simp add: lb_inv_def)
      have "unlink_back m lb x = m x" if "bs_is_from_shm t" "x \<in> area gs (hname gs t)" for x
        using far [of "hname gs t" x] hname_in_shm_names [OF t that(1), of gs] False that by simp
      then show ?thesis using good_slice_cong [OF gt] by blast
    qed
    then have "lb_inv bm gs e (unlink_back m lb) lb others" using i man unfolding lb_inv_def by blast
    moreover have "content (unlink_back m lb) lb = content m lb"
      using t by (intro content_cong) (simp add: all_slices_def)
    moreover have "hname gs s \<notin> set others" using src.owned_distinct [OF lb_invD(3) [OF i]] hs by auto
    then have "\<forall>g \<in> set others. \<forall>x \<in> area gs g. unlink_back m lb x = m x"
      using far by (metis Un_iff set_append)
    ultimately show ?thesis using inv by (simp add: reader_inv_def)
  qed (use inv in simp)
  then show "reader_inv bm gs e (unlink_back m lb) lb others" "content (unlink_back m lb) lb = content m lb"
    "g \<in> set others \<Longrightarrow> x \<in> area gs g \<Longrightarrow> unlink_back m lb x = m x" by blast+
qed

lemma move_chain_ok:
  assumes "ss \<noteq> []" and "linked m ss" and "\<forall>s \<in> set ss. sendable gs m s"
    and "reader_inv bm gs e m rb (shm_names gs ss @ others)"
    and "lb_len rb + sum_list (map slice_size ss) < 18446744073709551616"
  shows "\<exists>m' rb'. move_chain bm m rb (bs_offset_in_shm (hd ss)) = Some (m', rb')
    \<and> reader_inv bm gs e m' rb' others \<and> content m' rb' = content m rb @ concat (map (slice_bytes m) ss)
    \<and> lb_pinned rb' = lb_pinned rb \<and> (\<forall>g \<in> set others. \<forall>x \<in> area gs g. m' x = m x)"
  using assms
proof (induction ss arbitrary: m rb)
  case (Cons s ss)
  have s: "sendable gs m s" "posted m s (head_of ss)" "bs_is_from_shm s" using Cons.prems by (auto simp: sendable_def)
  have ok: "slice_ok s" "good_slice gs m s" using s(1) by (simp_all add: sendable_def good_slice_def)
  have man: "managed bm gs e m (shm_names gs (all_slices rb) @ hname gs s # shm_names gs ss @ others)"
    using Cons.prems(4) s(3) by (simp add: reader_inv_def lb_inv_def)
  have rd: "read_buffer_slice bm m (bs_offset_in_shm s) = Inr s"
    "has_next m (unat (bs_offset_in_shm s)) = (ss \<noteq> [])"
    "ss \<noteq> [] \<Longrightarrow> next_buffer_offset m (unat (bs_offset_in_shm s)) = bs_offset_in_shm (hd ss)"
    using read_posted [OF man _ s(1,2)] by (cases ss; simp)+
  show ?case
  proof (cases "slice_size s = 0")
    case True
    define m1 where "m1 = recycle_buffer bm m s"
    have man': "managed bm gs e m (hname gs s # shm_names gs (all_slices rb) @ shm_names gs ss @ others)"
      by (rule src.owned_perm [OF man]) simp
    from s(1) have "named gs s" "in_used m s" using sendableD by blast+
    note r = recycle_held [OF man' this, folded m1_def]
    have keep: "m1 x = m x" if "g \<in> set (shm_names gs (all_slices rb))" "x \<in> area gs g" for g x
      using r(2) [of g x] that by simp
    have fr: "reader_inv bm gs e m1 rb (shm_names gs ss @ others)" "content m1 rb = content m rb"
      by (rule reader_inv_frame [OF Cons.prems(4) r(1)], erule keep, assumption)+
    have eb: "slice_bytes m s = []" using True ok(1) by (metis length_slice_bytes length_0_conv)
    have ss: "sendable gs m1 t \<and> slice_bytes m1 t = slice_bytes m t
        \<and> posted m1 t nxt = posted m t nxt" if t: "t \<in> set ss" for t nxt
    proof -
      have t': "sendable gs m t" "bs_is_from_shm t" using Cons.prems(3) t by (auto simp: sendable_def)
      have same: "m1 x = m x" if "x \<in> area gs (hname gs t)" for x
        using r(2) [of "hname gs t" x] hname_in_shm_names [OF t t'(2), of gs] that by simp
      show ?thesis using sendable_cong [OF t'(1) same] posted_cong [OF t'(1) same] by simp
    qed
    show ?thesis
    proof (cases "ss = []")
      case e: True
      then have mc: "move_chain bm m rb (bs_offset_in_shm (hd (s # ss))) = Some (unlink_back m1 rb, rb)"
        using rd True by (subst move_chain.simps) (simp add: m1_def Let_def)
      have fr': "reader_inv bm gs e m1 rb others" using fr(1) e by simp
      note ub = unlink_back_ok [OF fr']
      have "unlink_back m1 rb x = m x" if "g \<in> set others" "x \<in> area gs g" for g x
        using ub(3) [OF that] r(2) [of g x] that by simp
      with mc ub fr(2) eb e show ?thesis by simp
    next
      case False
      have mc: "move_chain bm m rb (bs_offset_in_shm (hd (s # ss))) = move_chain bm m1 rb (bs_offset_in_shm (hd ss))"
        using rd True False by (subst move_chain.simps) (simp add: m1_def Let_def)
      have "linked m ss" using Cons.prems(2) by simp
      then have "linked m1 ss" using ss by (induction ss) auto
      from Cons.IH [OF False this _ fr(1)] ss Cons.prems(5) obtain m' rb' where
        "move_chain bm m1 rb (bs_offset_in_shm (hd ss)) = Some (m', rb')"
        "reader_inv bm gs e m' rb' others" "content m' rb' = content m1 rb @ concat (map (slice_bytes m1) ss)"
        "lb_pinned rb' = lb_pinned rb" "\<forall>g \<in> set others. \<forall>x \<in> area gs g. m' x = m1 x"
        by auto
      moreover have "map (slice_bytes m1) ss = map (slice_bytes m) ss" using ss by simp
      moreover have "m1 x = m x" if "g \<in> set others" "x \<in> area gs g" for g x
        using r(2) [of g x] that by simp
      ultimately show ?thesis using mc fr(2) eb by simp
    qed
  next
    case False
    have len: "lb_len rb + slice_size s < 18446744073709551616" using Cons.prems(5) by simp
    have pre: "reader_inv bm gs e m rb (shm_names gs [s] @ shm_names gs ss @ others)"
      using Cons.prems(4) s(3) by simp
    note ap = append_buffer_slice_ok [OF pre ok(2) len]
    show ?thesis
    proof (cases "ss = []")
      case True
      then have "move_chain bm m rb (bs_offset_in_shm (hd (s # ss))) = Some (m, append_buffer_slice rb s)"
        using rd False by (subst move_chain.simps) (simp add: Let_def)
      with ap True show ?thesis by simp
    next
      case ne: False
      have mc: "move_chain bm m rb (bs_offset_in_shm (hd (s # ss)))
          = move_chain bm m (append_buffer_slice rb s) (bs_offset_in_shm (hd ss))"
        using rd False ne by (subst move_chain.simps) (simp add: Let_def)
      have "lb_len (append_buffer_slice rb s) = lb_len rb + slice_size s"
        using len by (simp add: append_buffer_slice_def Let_def uadd_small)
      with Cons.IH [OF ne _ _ ap(1)] Cons.prems(2,3,5) mc ap(2,4) show ?thesis by auto
    qed
  qed
qed simp

section \<open>From the sender's buffer to the receiver's\<close>

lemma lb_done_ok:
  assumes inv: "writer_inv bm gs e m lb others" and shm: "lb_is_from_shm lb"
    and ne: "slices (lb_slices lb) \<noteq> []"
  obtains m1 where "lb_done bm m lb b = Some (m1, lb)" "linked m1 (slices (lb_slices lb))"
    "\<forall>s \<in> set (slices (lb_slices lb)). sendable gs m1 s \<and> slice_bytes m1 s = slice_bytes m s"
    "managed bm gs e m1 (shm_names gs (all_slices lb) @ others)"
    "\<forall>g \<in> set (shm_names gs (slices (lb_pinned lb)) @ others). \<forall>x \<in> area gs g. m1 x = m x"
    "root_buf_offset lb = bs_offset_in_shm (hd (slices (lb_slices lb)))"
proof -
  have li: "lb_inv bm gs e m lb others" and td: "tidy m lb"
    using inv by (simp_all add: writer_inv_def reader_inv_def)
  note d = lb_invD [OF li]
  obtain pre w s where c: "sl_nodes (lb_slices lb) = pre @ [(w, s)]" "sl_write (lb_slices lb) = Some w"
    using inv ne by (auto simp: writer_inv_def cursor_at_def)
  have ss: "slices (lb_slices lb) = map snd (sl_nodes (lb_slices lb))" by (simp add: slices_def)
  have man: "managed bm gs e m (shm_names gs (map snd (sl_nodes (lb_slices lb)))
      @ shm_names gs (slices (lb_pinned lb)) @ others)"
    using d(3) by (simp add: all_slices_def ss)
  have sd: "\<forall>s \<in> set (map snd (sl_nodes (lb_slices lb))). sendable gs m s \<and> clean_slice m s"
    unfolding ss [symmetric] using td shm d(4)
    by (auto simp: tidy_def sendable_def clean_slice_def list_all_iff)
  have dist: "distinct (map fst (sl_nodes (lb_slices lb)))" using d(1) by (simp add: sl_inv_def ids_def)
  have fl: "fst (last (sl_nodes (lb_slices lb))) = w" using c by simp
  have "sl_nodes (lb_slices lb) \<noteq> []" using c by simp
  note u = update_upto_linked [OF man sd this dist, unfolded fl, folded ss]
  have dn: "lb_done bm m lb b = Some (update_upto m (Some w) (sl_nodes (lb_slices lb)), lb)"
    using shm c deref_split [OF d(1) c(1)] next_of_split [OF d(1) c(1)]
    by (simp add: lb_done_def Let_def head_id_def)
  have rt: "root_buf_offset lb = bs_offset_in_shm (hd (slices (lb_slices lb)))"
  proof -
    obtain t ts where t: "slices (lb_slices lb) = t # ts" using ne by (cases "slices (lb_slices lb)") auto
    have "deref (lb_slices lb) (sl_front (lb_slices lb)) = Some t" using front_cons [OF d(1) t] by blast
    then show ?thesis using t by (simp add: root_buf_offset_def)
  qed
  show thesis
    by (rule that [OF dn _ _ _ _ rt]) (use u in \<open>simp_all add: all_slices_def\<close>)
qed

lemma handover_ok:
  assumes snd: "writer_inv bm gs e m lb (shm_names gs (all_slices rb) @ others)"
    and rcv: "reader_inv bm' gs e m rb (shm_names gs (all_slices lb) @ others)"
    and shm: "lb_is_from_shm lb" and ne: "slices (lb_slices lb) \<noteq> []"
    and len: "lb_len rb + lb_len lb < 18446744073709551616"
  shows "\<exists>m1 m2 rb'. lb_done bm m lb b = Some (m1, lb)
    \<and> move_chain bm' m1 rb (root_buf_offset lb) = Some (m2, rb')
    \<and> content m2 rb' = content m rb @ content m lb
    \<and> reader_inv bm' gs e m2 rb' (shm_names gs (slices (lb_pinned lb)) @ others)"
proof -
  obtain m1 where m1: "lb_done bm m lb b = Some (m1, lb)" "linked m1 (slices (lb_slices lb))"
    "\<forall>s \<in> set (slices (lb_slices lb)). sendable gs m1 s \<and> slice_bytes m1 s = slice_bytes m s"
    "managed bm gs e m1 (shm_names gs (all_slices lb) @ shm_names gs (all_slices rb) @ others)"
    "\<forall>g \<in> set (shm_names gs (slices (lb_pinned lb)) @ shm_names gs (all_slices rb) @ others).
       \<forall>x \<in> area gs g. m1 x = m x"
    "root_buf_offset lb = bs_offset_in_shm (hd (slices (lb_slices lb)))"
    by (rule lb_done_ok [OF snd shm ne])
  have "pool_inv gs e m1 (shm_names gs (all_slices lb) @ shm_names gs (all_slices rb) @ others)"
    and "manages bm' gs e" using m1(4) rcv by (simp_all add: managed_def reader_inv_def lb_inv_def)
  then have "managed bm' gs e m1 (shm_names gs (all_slices lb) @ shm_names gs (all_slices rb) @ others)"
    by (simp add: managed_def)
  then have man: "managed bm' gs e m1 (shm_names gs (all_slices rb)
      @ shm_names gs (slices (lb_slices lb)) @ shm_names gs (slices (lb_pinned lb)) @ others)"
    by (rule src.owned_perm) (simp add: all_slices_def)
  have keep: "m1 x = m x" if "g \<in> set (shm_names gs (all_slices rb))" "x \<in> area gs g" for g x
    using m1(5) that by (metis UnCI set_append)
  have r: "reader_inv bm' gs e m1 rb (shm_names gs (slices (lb_slices lb))
      @ shm_names gs (slices (lb_pinned lb)) @ others)" "content m1 rb = content m rb"
    by (rule reader_inv_frame [OF rcv man], erule keep, assumption)+
  have "lb_len lb = sum_list (map slice_size (slices (lb_slices lb)))"
    using snd by (simp add: writer_inv_def reader_inv_def total_size_def)
  with move_chain_ok [OF ne m1(2) _ r(1)] m1(3) len obtain m2 rb' where
    mc: "move_chain bm' m1 rb (root_buf_offset lb) = Some (m2, rb')"
    "reader_inv bm' gs e m2 rb' (shm_names gs (slices (lb_pinned lb)) @ others)"
    "content m2 rb' = content m1 rb @ concat (map (slice_bytes m1) (slices (lb_slices lb)))"
    unfolding m1(6) by auto
  have "map (slice_bytes m1) (slices (lb_slices lb)) = map (slice_bytes m) (slices (lb_slices lb))"
    using m1(3) by simp
  then have "content m2 rb' = content m rb @ content m lb"
    using mc(3) r(2) unfolding content_def by metis
  with m1(1) mc show ?thesis by blast
qed

text \<open>The sender's calls of \<open>write_bytes\<close> before it flushes.\<close>

fun write_all ::
  "buffer_manager \<Rightarrow> mem \<Rightarrow> linked_buffer \<Rightarrow> bytes list \<Rightarrow> (mem \<times> linked_buffer) option" where
  "write_all bm m lb [] = Some (m, lb)"
| "write_all bm m lb (bs # bss) =
     (case lb_write_bytes bm m lb bs of
        Some (m1, lb1, Inr n) \<Rightarrow> write_all bm m1 lb1 bss
      | _ \<Rightarrow> None)"

lemma write_all_ok:
  assumes "writer_inv bm gs e m lb others" and "\<forall>bs \<in> set bss. length bs < 4294967296"
    and "lb_len lb + length (concat bss) < 18446744073709551616"
  shows "\<exists>m' lb'. write_all bm m lb bss = Some (m', lb') \<and> writer_inv bm gs e m' lb' others
    \<and> content m' lb' = content m lb @ concat bss \<and> lb_pinned lb' = lb_pinned lb
    \<and> (\<forall>h \<in> set others. \<forall>x \<in> area gs h. m' x = m x)"
  using assms
proof (induction bss arbitrary: m lb)
  case (Cons bs bss)
  obtain m1 lb1 where w: "lb_write_bytes bm m lb bs = Some (m1, lb1, Inr (length bs))"
    "writer_inv bm gs e m1 lb1 others" "content m1 lb1 = content m lb @ bs"
    "lb_pinned lb1 = lb_pinned lb" "\<forall>h \<in> set others. \<forall>x \<in> area gs h. m1 x = m x"
    using lb_write_bytes_ok [OF Cons.prems(1), of bs] Cons.prems(2,3) by auto
  have r: "reader_inv bm gs e m lb others" "reader_inv bm gs e m1 lb1 others"
    using Cons.prems(1) w(2) by (simp_all add: writer_inv_def)
  have "lb_len lb1 = lb_len lb + length bs"
    using reader_inv_length [OF r(1)] reader_inv_length [OF r(2)] w(3) by simp
  with Cons.IH [OF w(2)] Cons.prems(2,3) w show ?case by auto
qed simp

section \<open>Properties\<close>

text \<open>
  Property C11. A writer that satisfies its invariant takes any sequence of \<open>write_bytes\<close> calls,
  each of less than \<open>2^32\<close> bytes: every call returns, reports all of its bytes written and
  appends them to the buffer's content, whether they fit the current slice, need further
  shared-memory buffers or spill to the heap because the pool is exhausted. No buffer that
  belongs to anybody else is touched.
\<close>

theorem writer_appends_all_bytes:
  assumes "writer_inv bm gs e m lb others" and "\<forall>bs \<in> set bss. length bs < 2 ^ 32"
    and "lb_len lb + length (concat bss) < 2 ^ 64"
  shows "\<exists>m' lb'. write_all bm m lb bss = Some (m', lb') \<and> content m' lb' = content m lb @ concat bss
    \<and> lb_len lb' = length (content m' lb') \<and> writer_inv bm gs e m' lb' others
    \<and> (\<forall>h \<in> set others. \<forall>x \<in> area gs h. m' x = m x)"
proof -
  obtain m' lb' where w: "write_all bm m lb bss = Some (m', lb')" "writer_inv bm gs e m' lb' others"
    "content m' lb' = content m lb @ concat bss" "\<forall>h \<in> set others. \<forall>x \<in> area gs h. m' x = m x"
    using write_all_ok [OF assms(1), of bss] assms(2,3) by auto
  have "reader_inv bm gs e m' lb' others" using w(2) by (simp add: writer_inv_def)
  then have "length (content m' lb') = lb_len lb'" by (rule reader_inv_length)
  with w show ?thesis by auto
qed

theorem writer_appends_all_bytes_witness:
  "\<exists>bm m m' lb'. bm_create sample_pairs ''p'' (\<lambda>_. 0) 1000 0 = (m, Inr bm)
     \<and> write_all bm m new_linked_buffer [replicate 100 7, [], [8, 9]] = Some (m', lb')
     \<and> content m' lb' = replicate 100 7 @ [8, 9]"
proof -
  obtain m0 bm where b: "bm_create sample_pairs ''p'' (\<lambda>_. 0) 1000 0 = (m0, Inr bm)"
    and m: "managed bm (created_specs sample_pairs 1000 0) 1000 m0 []" by (rule sample_managed)
  have c: "content m0 new_linked_buffer = []" "lb_len new_linked_buffer = 0"
    by (simp_all add: content_def new_linked_buffer_def)
  show ?thesis
    using writer_appends_all_bytes [OF new_writer_inv [OF m], of "[replicate 100 7, [], [8, 9]]"] b c
    by auto
qed

text \<open>\<open>clean\<close> forgets the slices without returning them; memory does not change.\<close>

lemma pop_all_keep:
  assumes "sl_inv sl"
  shows "\<exists>sl'. pop_all (\<lambda>m s. m) m sl = Some (m, sl') \<and> sl_inv sl' \<and> slices sl' = [] \<and> sl_len sl' = 0"
  using assms
proof (induction "slices sl" arbitrary: sl)
  case Nil
  then show ?case using pop_front_empty [of sl] by (simp add: pop_all.simps sl_inv_def slices_def)
next
  case (Cons s ss)
  note pf = pop_front_cons [OF Cons.prems Cons.hyps(2) [symmetric]]
  from Cons.hyps(1) [of "fst (pop_front sl)"] pf pop_all.simps [of "\<lambda>m s. m" m sl] show ?case by simp
qed

lemma lb_clean_ok:
  assumes "sl_inv (lb_slices lb)" "sl_inv (lb_pinned lb)" "slices (lb_pinned lb) = []"
  obtains lb' where "lb_clean m lb = Some (m, lb')" "all_slices lb' = []" "slices (lb_pinned lb') = []" "lb_len lb' = 0"
    "content m' lb' = []" "\<And>bm gs e m others. managed bm gs e m others \<Longrightarrow> writer_inv bm gs e m lb' others"
proof -
  obtain sl where sl: "pop_all (\<lambda>m s. m) m (lb_slices lb) = Some (m, sl)" "sl_inv sl" "slices sl = []" "sl_len sl = 0"
    using pop_all_keep [OF assms(1)] by auto
  let ?lb = "lb_reset_fields lb sl"
  have a: "all_slices ?lb = []" "slices (lb_pinned ?lb) = []" "lb_len ?lb = 0" "content m' ?lb = []"
    using sl assms(3) by (simp_all add: lb_reset_fields_def all_slices_def content_def)
  have "writer_inv bm gs e m ?lb others" if "managed bm gs e m others" for bm gs e m others
    using that sl assms
    by (simp add: writer_inv_def reader_inv_def lb_inv_def tidy_def lb_reset_fields_def all_slices_def total_size_def)
  with a sl show ?thesis by (intro that [of ?lb]) (simp_all add: lb_clean_def)
qed

text \<open>The crossing of a message, with what the sender still has.\<close>

lemma handover_after_writes:
  assumes snd: "writer_inv bm gs e m lb (shm_names gs (all_slices rb) @ others)"
    and rcv: "reader_inv bm' gs e m rb (shm_names gs (all_slices lb) @ others)"
    and "slices (lb_pinned lb) = []" and "\<forall>bs \<in> set bss. length bs < 4294967296"
    and "lb_len rb + lb_len lb + length (concat bss) < 18446744073709551616"
    and "write_all bm m lb bss = Some (m1, lb1)" and "lb_is_from_shm lb1"
    and "content m lb @ concat bss \<noteq> []"
  obtains m2 m3 rb' where "lb_done bm m1 lb1 end_stream = Some (m2, lb1)"
    "move_chain bm' m2 rb (root_buf_offset lb1) = Some (m3, rb')"
    "content m3 rb' = content m rb @ content m lb @ concat bss" "reader_inv bm' gs e m3 rb' others"
    "lb_len lb1 = lb_len lb + length (concat bss)" "lb_pinned lb1 = lb_pinned lb" "sl_inv (lb_slices lb1)" "sl_inv (lb_pinned lb1)"
proof -
  let ?ro = "shm_names gs (all_slices rb) @ others"
  have w: "writer_inv bm gs e m1 lb1 ?ro" "content m1 lb1 = content m lb @ concat bss"
    "lb_pinned lb1 = lb_pinned lb" "\<forall>h \<in> set ?ro. \<forall>x \<in> area gs h. m1 x = m x"
    using write_all_ok [OF snd, of bss] assms(4-6) by auto
  have r1: "reader_inv bm gs e m1 lb1 ?ro" using w(1) by (simp add: writer_inv_def)
  have r0: "reader_inv bm gs e m lb ?ro" using snd by (simp add: writer_inv_def)
  have len: "lb_len lb1 = lb_len lb + length (concat bss)"
    using reader_inv_length [OF r1] reader_inv_length [OF r0] w(2) by simp
  have ne: "slices (lb_slices lb1) \<noteq> []" using w(2) assms(8) by (auto simp: content_def)
  have "managed bm gs e m1 (shm_names gs (all_slices lb1) @ ?ro)" and si: "sl_inv (lb_slices lb1)" "sl_inv (lb_pinned lb1)"
    and mg: "manages bm' gs e" using r1 rcv by (simp_all add: managed_def reader_inv_def lb_inv_def)
  then have "managed bm' gs e m1 (shm_names gs (all_slices lb1) @ ?ro)" by (simp add: managed_def)
  then have man: "managed bm' gs e m1 (shm_names gs (all_slices rb) @ shm_names gs (all_slices lb1) @ others)"
    by (rule src.owned_perm) simp
  have keep: "m1 x = m x" if "g \<in> set (shm_names gs (all_slices rb))" "x \<in> area gs g" for g x
    using w(4) that by (metis UnCI set_append)
  have rb: "reader_inv bm' gs e m1 rb (shm_names gs (all_slices lb1) @ others)" "content m1 rb = content m rb"
    by (rule reader_inv_frame [OF rcv man], erule keep, assumption)+
  have "lb_len rb + lb_len lb1 < 18446744073709551616" using len assms(5) by simp
  from handover_ok [OF w(1) rb(1) assms(7) ne this, of end_stream] that show ?thesis
    using w(2,3) rb(2) assms(3) len si by auto
qed

text \<open>
  Property C3. A message crosses the shared memory. A sender and a receiver manage one pool,
  each with its own manager object, and own disjoint buffers. After any sequence of writes
  that stays in shared memory, \<open>done\<close> on the sender's side and the walk of
  \<open>move_pending_data\<close> from the offset the sender puts in the queue on the receiver's side
  both end, the receive buffer holds its old bytes followed by exactly the bytes written,
  in order, and the receiver's reading invariant holds again, with every slice of the
  message now owned by the receiver.
\<close>

theorem message_crosses_shared_memory:
  assumes "writer_inv bm gs e m lb (shm_names gs (all_slices rb) @ others)"
    and "reader_inv bm' gs e m rb (shm_names gs (all_slices lb) @ others)"
    and "slices (lb_pinned lb) = []" and "\<forall>bs \<in> set bss. length bs < 2 ^ 32"
    and "lb_len rb + lb_len lb + length (concat bss) < 2 ^ 64"
    and "write_all bm m lb bss = Some (m1, lb1)" and "lb_is_from_shm lb1"
    and "content m lb @ concat bss \<noteq> []"
  shows "\<exists>m2 m3 rb'. lb_done bm m1 lb1 end_stream = Some (m2, lb1)
    \<and> move_chain bm' m2 rb (root_buf_offset lb1) = Some (m3, rb')
    \<and> content m3 rb' = content m rb @ content m lb @ concat bss
    \<and> reader_inv bm' gs e m3 rb' others"
proof -
  have "\<forall>bs \<in> set bss. length bs < 4294967296" "lb_len rb + lb_len lb + length (concat bss) < 18446744073709551616"
    using assms(4,5) by simp_all
  then show ?thesis
    by (rule handover_after_writes [OF assms(1-3) _ _ assms(6-8), of end_stream]) (intro exI conjI)
qed

lemma write_one_slice:
  assumes a: "alloc_shm_buffer bm m (of_nat (length bs)) = (m1, Inr s)"
    and s: "fresh_slice s" "length bs \<le> unat (bs_cap s)" "bs \<noteq> []"
  shows "\<exists>m2 lb2 n. lb_write_bytes bm m new_linked_buffer bs = Some (m2, lb2, Inr n) \<and> lb_is_from_shm lb2"
proof -
  have "snd (slice_append m1 s bs) = length bs"
    using s fresh_slice_simps [of s] by (simp add: slice_append_def Let_def)
  moreover have "uadd 0 (length bs) = length bs"
    using s(2) le_less_trans [OF s(2) unat_u32_less_u64] by (simp add: uadd_small)
  ultimately show ?thesis
    using a s(3) by (simp add: lb_write_bytes_def lb_alloc_def new_linked_buffer_def empty_slice_list_def
        push_back_def set_write_def write_loop.simps deref_def set_slice_def Let_def)
qed

theorem message_crosses_shared_memory_witness:
  "\<exists>bm m m1 lb1 m2 m3 rb'. bm_create sample_pairs ''p'' (\<lambda>_. 0) 1000 0 = (m, Inr bm)
     \<and> write_all bm m new_linked_buffer [[1, 2, 3]] = Some (m1, lb1)
     \<and> lb_done bm m1 lb1 False = Some (m2, lb1)
     \<and> move_chain bm m2 new_linked_buffer (root_buf_offset lb1) = Some (m3, rb')
     \<and> content m3 rb' = [1, 2, 3]"
proof -
  let ?gs = "created_specs sample_pairs 1000 0"
  obtain m0 bm where b: "bm_create sample_pairs ''p'' (\<lambda>_. 0) 1000 0 = (m0, Inr bm)"
    and m: "managed bm ?gs 1000 m0 []" and x: "bm_max_slice_size bm = 64" by (rule sample_managed)
  obtain ma s where a: "alloc_shm_buffer bm m0 3 = (ma, Inr s)"
    using alloc_succeeds_iff [OF m sample_spec0(2), of 3] x by (auto simp: sample_spec0)
  then have "fresh_slice s" "3 \<le> unat (bs_cap s)"
    using src.alloc_one_ok [OF m a] by (auto simp: grants_def)
  then obtain m1 lb1 where w: "write_all bm m0 new_linked_buffer [[1, 2, 3]] = Some (m1, lb1)" "lb_is_from_shm lb1"
    using write_one_slice [of bm m0 "[1, 2, 3]" ma s] a by auto
  have n: "slices (lb_pinned new_linked_buffer) = []" "all_slices new_linked_buffer = []"
    "lb_len new_linked_buffer = 0" "content m0 new_linked_buffer = []"
    by (simp_all add: new_linked_buffer_def all_slices_def content_def)
  have wi: "writer_inv bm ?gs 1000 m0 new_linked_buffer (shm_names ?gs (all_slices new_linked_buffer) @ [])"
    using new_writer_inv [OF m] n by simp
  moreover have ri: "reader_inv bm ?gs 1000 m0 new_linked_buffer (shm_names ?gs (all_slices new_linked_buffer) @ [])"
    using wi by (simp add: writer_inv_def)
  ultimately show ?thesis
    using message_crosses_shared_memory [OF wi ri n(1) _ _ w, of False] n w b by auto
qed

end
