(* ===== verification/Session_State.thy ===== *)
theory Session_State
  imports Sync Handover Queue_Manager Handshake
begin

text \<open>
  The state of a session and its streams (\<open>include/shmipc/session.hpp\<close>, \<open>stream.hpp\<close>,
  \<open>stats.hpp\<close>) and the session operations the streams call (\<open>src/session.cpp\<close>:
  \<open>wait_for_send\<close>, \<open>wake_up_peer\<close>, \<open>open_circuit_breaker\<close>, \<open>on_stream_close\<close>).

  A \<open>StreamInner\<close> behind a shared pointer is an entry of \<open>ss_inners\<close>, a \<open>Stream\<close>
  is a handle with its index. The buffer memory and the queue memory are part of the state; the peer
  maps the same bytes. An operation runs without interruption between its waits. At a wait
  the other threads of the process and the peer may have done anything to the
  session: what they did is an argument \<open>others\<close>. A result \<open>None\<close> means that the call does not return.
  Log messages are left out.
\<close>

section \<open>State\<close>

definition kStreamOpened :: u32 where "kStreamOpened = 0"
definition kStreamClosed :: u32 where "kStreamClosed = 1"
definition kStreamHalfClosed :: u32 where "kStreamHalfClosed = 2"

lemmas stream_state_defs = kStreamOpened_def kStreamClosed_def kStreamHalfClosed_def

record wrapper =
  w_fallback_slice :: "buffer_slice option"
  w_offset :: u32

record stream_inner =
  si_recv_buf :: linked_buffer
  si_send_buf :: linked_buffer
  si_pending_data :: "wrapper list"
  si_state :: u32
  si_in_fallback_state :: bool

definition new_stream_inner :: stream_inner where
  "new_stream_inner = \<lparr>si_recv_buf = new_linked_buffer, si_send_buf = new_linked_buffer,
     si_pending_data = [], si_state = kStreamOpened, si_in_fallback_state = False\<rparr>"

record stream =
  st_inner :: nat
  st_id :: u32
  st_session_id :: nat

record stats =
  alloc_shm_error_count :: u64
  fallback_write_count :: u64
  fallback_read_count :: u64
  event_conn_error_count :: u64
  queue_full_error_count :: u64
  recv_polling_event_count :: u64
  send_polling_event_count :: u64
  out_flow_bytes :: u64
  in_flow_bytes :: u64

definition zero_stats :: stats where
  "zero_stats = \<lparr>alloc_shm_error_count = 0, fallback_write_count = 0, fallback_read_count = 0,
     event_conn_error_count = 0, queue_full_error_count = 0, recv_polling_event_count = 0,
     send_polling_event_count = 0, out_flow_bytes = 0, in_flow_bytes = 0\<rparr>"

text \<open>A request to the write loop; \<open>sr_done\<close> is the index of its promise.\<close>

record send_ready =
  sr_hdr :: bytes
  sr_body :: bytes
  sr_done :: nat

text \<open>
  The map of streams is the list of its entries in iteration order. \<open>ss_registry\<close> is the
  process-wide registry of buffer managers, \<open>ss_events\<close> collects what the session does to
  the operating system, \<open>ss_debug_mode\<close> says whether the environment sets \<open>SHMIPC_DEBUG_MODE\<close>,
  \<open>ss_breaker\<close> whether the timer of the circuit breaker runs, \<open>ss_promises\<close> holds the promises of
  all send requests, \<open>ss_sent\<close> is
  everything the write loop has given to the socket.
\<close>

record session =
  ss_config :: config
  ss_next_stream_id :: u32
  ss_bm :: buffer_manager
  ss_mem :: mem
  ss_qm :: queue_manager
  ss_qmem :: mem
  ss_version :: u8
  ss_name :: string
  ss_pool :: "stream list"
  ss_pool_cap :: nat
  ss_streams :: "(u32 \<times> stream) list"
  ss_inners :: "stream_inner list"
  ss_is_client :: bool
  ss_shutdown :: u32
  ss_unhealthy :: u32
  ss_shutdown_err :: "error option"
  ss_send :: "send_ready channel"
  ss_promises :: "promise list"
  ss_accept :: "stream channel option"
  ss_accept_attached :: bool
  ss_shutdown_event :: bool
  ss_stats :: stats
  ss_conn_open :: bool
  ss_sent :: bytes
  ss_breaker_stop :: bool
  ss_breaker :: bool
  ss_debug_mode :: bool
  ss_registry :: registry
  ss_events :: "os_event list"

text \<open>What the other threads and the peer do while a thread waits.\<close>

type_synonym others = "session \<Rightarrow> session"

definition awaited :: "others \<Rightarrow> (session \<Rightarrow> bool) \<Rightarrow> others" where
  "awaited others ready s = (if ready s then s else others s)"

definition inner :: "session \<Rightarrow> stream \<Rightarrow> stream_inner" where
  "inner s st = ss_inners s ! st_inner st"

definition set_inner :: "session \<Rightarrow> stream \<Rightarrow> stream_inner \<Rightarrow> session" where
  "set_inner s st i = s\<lparr>ss_inners := (ss_inners s)[st_inner st := i]\<rparr>"

definition bump :: "(stats \<Rightarrow> stats) \<Rightarrow> session \<Rightarrow> session" where
  "bump f s = s\<lparr>ss_stats := f (ss_stats s)\<rparr>"

section \<open>Session operations used by streams\<close>

definition add_promise :: "session \<Rightarrow> session \<times> nat" where
  "add_promise s = (s\<lparr>ss_promises := ss_promises s @ [Pending]\<rparr>, length (ss_promises s))"

definition set_promise :: "nat \<Rightarrow> promise \<Rightarrow> session \<Rightarrow> session" where
  "set_promise t p s = s\<lparr>ss_promises := (ss_promises s)[t := p]\<rparr>"

definition can_send :: "session \<Rightarrow> bool" where
  "can_send s \<longleftrightarrow> ch_stopped (ss_send s) \<or> \<not> ch_is_full (ss_send s)"

definition wait_for_send ::
  "others \<Rightarrow> session \<Rightarrow> bytes option \<Rightarrow> bytes \<Rightarrow> (session \<times> unit result) option" where
  "wait_for_send others s hdr body =
     (let (s1, t) = add_promise s;
          ready = \<lparr>sr_hdr = (case hdr of Some h \<Rightarrow> h | None \<Rightarrow> []), sr_body = body, sr_done = t\<rparr>;
          s2 = awaited others can_send s1;
          (c, sent) = ch_push_timeout (ss_send s2) ready;
          s3 = s2\<lparr>ss_send := c\<rparr>
      in if \<not> sent then Some (s3, Inl (Error KConnectionWriteTimeout))
         else
           let s4 = awaited others (\<lambda>s. ss_promises s ! t \<noteq> Pending) s3
           in case ss_promises s4 ! t of
                Pending \<Rightarrow> None
              | Broken \<Rightarrow> Some (s4, Inl (other_error ''wait for send failed, error=channel closed''))
              | Fulfilled \<Rightarrow> Some (s4, Inr ()))"

definition wake_up_peer :: "others \<Rightarrow> session \<Rightarrow> (session \<times> unit result) option" where
  "wake_up_peer others s =
     (let (m, marked) = mark_working (qm_send_queue (ss_qm s)) (ss_qmem s);
          s1 = s\<lparr>ss_qmem := m\<rparr>
      in if \<not> marked then Some (s1, Inr ())
         else
           let s2 = bump (\<lambda>c. c\<lparr>send_polling_event_count := send_polling_event_count c + 1\<rparr>) s1
           in if unat (ss_version s) \<ge> length polling_event_with_version then None
              else
                let (s3, t) = add_promise s2;
                    ready = \<lparr>sr_hdr = [], sr_body = polling_event_with_version ! unat (ss_version s), sr_done = t\<rparr>;
                    s4 = awaited others can_send s3
                in case ch_push (ss_send s4) ready of
                     None \<Rightarrow> None
                   | Some (c, sent) \<Rightarrow> Some (s4\<lparr>ss_send := c\<rparr>, Inr ()))"

definition open_circuit_breaker :: "session \<Rightarrow> session" where
  "open_circuit_breaker s =
     (if ss_debug_mode s then s
      else if ss_unhealthy s \<noteq> 0 then s
      else s\<lparr>ss_unhealthy := 1, ss_breaker := True\<rparr>)"

text \<open>The thread of the breaker after its wait of 30 seconds, or when it is stopped.\<close>

definition breaker_ends :: "session \<Rightarrow> session" where
  "breaker_ends s =
     (if \<not> ss_breaker s then s
      else if ss_breaker_stop s then s\<lparr>ss_breaker := False\<rparr>
      else s\<lparr>ss_unhealthy := 0, ss_breaker := False\<rparr>)"

definition on_stream_close :: "u32 \<Rightarrow> session \<Rightarrow> session" where
  "on_stream_close i s = s\<lparr>ss_streams := filter (\<lambda>(j, st). j \<noteq> i) (ss_streams s)\<rparr>"

definition is_healthy :: "session \<Rightarrow> bool" where
  "is_healthy s \<longleftrightarrow> ss_unhealthy s = 0"

definition is_closed :: "session \<Rightarrow> bool" where
  "is_closed s \<longleftrightarrow> ss_shutdown s = 1"

end
