(* ===== verification/Stream_Ops.thy ===== *)
theory Stream_Ops
  imports Session_State
begin

text \<open>
  \<open>src/stream.cpp\<close>: reading, writing, flushing and closing a stream. Every operation takes the
  session with the stream's state in it and returns it changed.
\<close>

section \<open>Reading\<close>

text \<open>The loop of \<open>move_pending_data\<close> over the pending entries.\<close>

fun move_wrappers ::
  "buffer_manager \<Rightarrow> mem \<Rightarrow> bool \<Rightarrow> linked_buffer \<Rightarrow> wrapper list \<Rightarrow> (mem \<times> bool \<times> linked_buffer) option" where
  "move_wrappers bm m fb buf [] = Some (m, fb, buf)"
| "move_wrappers bm m fb buf (w # ws) =
     (case w_fallback_slice w of
        Some slc \<Rightarrow> move_wrappers bm m True (append_buffer_slice buf slc) ws
      | None \<Rightarrow>
          (case move_chain bm m buf (w_offset w) of
             None \<Rightarrow> None
           | Some (m1, buf1) \<Rightarrow> move_wrappers bm m1 fb buf1 ws))"

definition move_pending_data :: "session \<Rightarrow> stream \<Rightarrow> session option" where
  "move_pending_data s st =
     (let i = inner s st;
          pending = si_pending_data i;
          i1 = i\<lparr>si_pending_data := []\<rparr>
      in if pending = [] then Some (set_inner s st i1)
         else
           let pre_len = lb_len (si_recv_buf i)
           in case move_wrappers (ss_bm s) (ss_mem s) (si_in_fallback_state i) (si_recv_buf i) pending of
                None \<Rightarrow> None
              | Some (m, fb, buf) \<Rightarrow>
                  Some (bump (\<lambda>c. c\<lparr>in_flow_bytes := in_flow_bytes c + of_nat (usub (lb_len buf) pre_len)\<rparr>)
                    (set_inner (s\<lparr>ss_mem := m\<rparr>) st
                      (i1\<lparr>si_recv_buf := buf, si_in_fallback_state := fb\<rparr>))))"

definition readable :: "stream \<Rightarrow> session \<Rightarrow> bool" where
  "readable st s \<longleftrightarrow> si_pending_data (inner s st) \<noteq> [] \<or> si_state (inner s st) \<noteq> kStreamOpened"

text \<open>The waiting loop of \<open>read_more\<close>: one entry of the list per wake-up of the condition variable.\<close>

fun read_wait :: "others list \<Rightarrow> session \<Rightarrow> stream \<Rightarrow> nat \<Rightarrow> (session \<times> unit result) option" where
  "read_wait wakes s st min_size =
     (if readable st s
      then (case move_pending_data s st of
              None \<Rightarrow> None
            | Some s1 \<Rightarrow>
                let state = si_state (inner s1 st) in
                if lb_len (si_recv_buf (inner s1 st)) \<ge> min_size then Some (s1, Inr ())
                else if state \<noteq> kStreamOpened
                then if state = kStreamHalfClosed then Some (s1, Inl (Error KEndOfStream))
                     else Some (s1, Inl (Error KStreamClosed))
                else (case wakes of [] \<Rightarrow> None | w # ws \<Rightarrow> read_wait ws (w s1) st min_size))
      else (case wakes of [] \<Rightarrow> None | w # ws \<Rightarrow> read_wait ws (w s) st min_size))"

declare read_wait.simps [simp del]

definition read_more :: "others list \<Rightarrow> session \<Rightarrow> stream \<Rightarrow> nat \<Rightarrow> (session \<times> unit result) option" where
  "read_more wakes s st min_size =
     (case move_pending_data s st of
        None \<Rightarrow> None
      | Some s1 \<Rightarrow>
          let recv_len = lb_len (si_recv_buf (inner s1 st)) in
          if recv_len \<ge> min_size then Some (s1, Inr ())
          else if recv_len = 0 \<and> si_state (inner s1 st) \<noteq> kStreamOpened
          then Some (s1, Inl (Error KEndOfStream))
          else read_wait wakes s1 st min_size)"

text \<open>Applying an operation of the linked buffers to one of the two buffers of a stream.\<close>

definition on_recv ::
  "session \<Rightarrow> stream \<Rightarrow> (mem \<times> linked_buffer \<times> 'a) option \<Rightarrow> (session \<times> 'a) option" where
  "on_recv s st r = map_option (\<lambda>(m, lb, x).
     (set_inner (s\<lparr>ss_mem := m\<rparr>) st ((inner s st)\<lparr>si_recv_buf := lb\<rparr>), x)) r"

definition on_send ::
  "session \<Rightarrow> stream \<Rightarrow> (mem \<times> linked_buffer \<times> 'a) option \<Rightarrow> (session \<times> 'a) option" where
  "on_send s st r = map_option (\<lambda>(m, lb, x).
     (set_inner (s\<lparr>ss_mem := m\<rparr>) st ((inner s st)\<lparr>si_send_buf := lb\<rparr>), x)) r"

definition recv_buf :: "session \<Rightarrow> stream \<Rightarrow> linked_buffer" where
  "recv_buf s st = si_recv_buf (inner s st)"

definition send_buf :: "session \<Rightarrow> stream \<Rightarrow> linked_buffer" where
  "send_buf s st = si_send_buf (inner s st)"

text \<open>Waiting for at least \<open>n\<close> bytes where the buffer has fewer, then the operation.\<close>

definition ensure_then ::
  "others list \<Rightarrow> session \<Rightarrow> stream \<Rightarrow> bool \<Rightarrow> nat \<Rightarrow> (session \<Rightarrow> (session \<times> 'a result) option)
     \<Rightarrow> (session \<times> 'a result) option" where
  "ensure_then wakes s st short n k =
     (if short
      then (case read_more wakes s st n of
              None \<Rightarrow> None
            | Some (s1, Inl e) \<Rightarrow> Some (s1, Inl e)
            | Some (s1, Inr _) \<Rightarrow> k s1)
      else k s)"

definition stream_read :: "others list \<Rightarrow> session \<Rightarrow> stream \<Rightarrow> (session \<times> buf result) option" where
  "stream_read wakes s st =
     ensure_then wakes s st (lb_len (recv_buf s st) = 0) 1 (\<lambda>s1.
       on_recv s1 st (lb_read_bytes (ss_bm s1) (ss_mem s1) (recv_buf s1 st) (lb_len (recv_buf s1 st))))"

definition stream_read_bytes :: "others list \<Rightarrow> session \<Rightarrow> stream \<Rightarrow> nat \<Rightarrow> (session \<times> buf result) option" where
  "stream_read_bytes wakes s st n =
     ensure_then wakes s st (lb_len (recv_buf s st) < n) n (\<lambda>s1.
       on_recv s1 st (lb_read_bytes (ss_bm s1) (ss_mem s1) (recv_buf s1 st) n))"

definition stream_peek :: "others list \<Rightarrow> session \<Rightarrow> stream \<Rightarrow> nat \<Rightarrow> (session \<times> buf result) option" where
  "stream_peek wakes s st n =
     ensure_then wakes s st (lb_len (recv_buf s st) < n) n (\<lambda>s1.
       on_recv s1 st (Some (ss_mem s1, lb_peek (ss_mem s1) (recv_buf s1 st) n)))"

definition stream_discard :: "others list \<Rightarrow> session \<Rightarrow> stream \<Rightarrow> nat \<Rightarrow> (session \<times> nat result) option" where
  "stream_discard wakes s st n =
     ensure_then wakes s st (lb_len (recv_buf s st) < n) n (\<lambda>s1.
       on_recv s1 st (lb_discard (ss_bm s1) (ss_mem s1) (recv_buf s1 st) n))"

section \<open>Writing\<close>

definition stream_reserve where
  "stream_reserve s st n = on_send s st (lb_reserve (ss_bm s) (ss_mem s) (send_buf s st) n)"

definition stream_write_bytes :: "session \<Rightarrow> stream \<Rightarrow> bytes \<Rightarrow> (session \<times> nat result) option" where
  "stream_write_bytes s st bs = on_send s st (lb_write_bytes (ss_bm s) (ss_mem s) (send_buf s st) bs)"

definition recycle_send :: "session \<Rightarrow> stream \<Rightarrow> session option" where
  "recycle_send s st = map_option fst (on_send s st
     (map_option (\<lambda>(m, lb). (m, lb, ())) (lb_recycle (ss_bm s) (ss_mem s) (send_buf s st))))"

definition clean_send :: "session \<Rightarrow> stream \<Rightarrow> session option" where
  "clean_send s st = map_option fst (on_send s st
     (map_option (\<lambda>(m, lb). (m, lb, ())) (lb_clean (ss_mem s) (send_buf s st))))"

definition recycle_recv :: "session \<Rightarrow> stream \<Rightarrow> session option" where
  "recycle_recv s st = map_option fst (on_recv s st
     (map_option (\<lambda>(m, lb). (m, lb, ())) (lb_recycle (ss_bm s) (ss_mem s) (recv_buf s st))))"

text \<open>
  The payload loop of \<open>write_fallback\<close>: from the front up to the write slice, each slice gives
  \<open>write_index - read_index\<close> bytes counted from its first byte.
\<close>

fun fallback_payload :: "mem \<Rightarrow> nat option \<Rightarrow> chain \<Rightarrow> bytes" where
  "fallback_payload m w [] = []"
| "fallback_payload m w ((i, s) # xs) =
     data_read m s 0 (usub (bs_write_index s) (bs_read_index s))
       @ (if w = Some i then [] else fallback_payload m w xs)"

definition write_fallback ::
  "others \<Rightarrow> session \<Rightarrow> stream \<Rightarrow> u32 \<Rightarrow> (session \<times> unit result) option" where
  "write_fallback others s st stream_status =
     (let buf_len = lb_len (send_buf s st) in
      if buf_len > 4294967295 - 16
      then (case recycle_send s st of
              None \<Rightarrow> None
            | Some s1 \<Rightarrow> Some (s1, Inl (Error KNoMoreBuffer)))
      else
        let event_buf = fallback_encode (replicate 16 0) (of_nat buf_len + 16) (ss_version s) (st_id st) stream_status;
            payload = fallback_payload (ss_mem s) (sl_write (lb_slices (send_buf s st)))
                        (sl_nodes (lb_slices (send_buf s st)))
        in case recycle_send s st of
             None \<Rightarrow> None
           | Some s1 \<Rightarrow>
               let s2 = open_circuit_breaker s1;
                   s3 = bump (\<lambda>c. c\<lparr>fallback_write_count := fallback_write_count c + 1\<rparr>) s2
               in wait_for_send others s3 None (fallback_as_slice event_buf @ payload))"

section \<open>Flushing\<close>

definition put_and_wake ::
  "others \<Rightarrow> session \<Rightarrow> stream \<Rightarrow> mem \<Rightarrow> (session \<times> unit result) option" where
  "put_and_wake others s st qmem =
     (case wake_up_peer others (s\<lparr>ss_qmem := qmem\<rparr>) of
        None \<Rightarrow> None
      | Some (s1, r) \<Rightarrow> map_option (\<lambda>s2. (s2, r)) (clean_send s1 st))"

definition recycle_and_fail :: "session \<Rightarrow> stream \<Rightarrow> error \<Rightarrow> (session \<times> unit result) option" where
  "recycle_and_fail s st e = map_option (\<lambda>s1. (s1, Inl e)) (recycle_send s st)"

text \<open>The retry loop: \<open>waits k\<close> is what happened during the wait of at most 10 ms before retry \<open>10 - k\<close>.\<close>

fun flush_retry ::
  "others \<Rightarrow> (nat \<Rightarrow> others) \<Rightarrow> nat \<Rightarrow> session \<Rightarrow> stream \<Rightarrow> u32 \<Rightarrow> (session \<times> unit result) option" where
  "flush_retry others waits 0 s st state = recycle_and_fail s st (Error KQueueFull)"
| "flush_retry others waits (Suc k) s st state =
     (let s1 = waits k s in
      if si_state (inner s1 st) \<noteq> kStreamOpened then recycle_and_fail s1 st (Error KStreamClosed)
      else
        case put (qm_send_queue (ss_qm s1)) (ss_qmem s1)
               \<lparr>seq_id = st_id st, offset_in_shm_buf = root_buf_offset (send_buf s1 st), status = state\<rparr> of
          (qmem, Inr _) \<Rightarrow> put_and_wake others s1 st qmem
        | (qmem, Inl e) \<Rightarrow>
            if kind e = KQueueFull then flush_retry others waits k s1 st state
            else recycle_and_fail s1 st e)"

text \<open>After \<open>done\<close>: the choice between the socket and the queue.\<close>

definition flush_send ::
  "others \<Rightarrow> (nat \<Rightarrow> others) \<Rightarrow> session \<Rightarrow> stream \<Rightarrow> u32 \<Rightarrow> (session \<times> unit result) option" where
  "flush_send others waits s st state =
     (if si_in_fallback_state (inner s st)
      then (case write_fallback others s st state of
              None \<Rightarrow> None
            | Some (s1, r) \<Rightarrow> map_option (\<lambda>s2. (s2, r)) (clean_send s1 st))
      else
        case put (qm_send_queue (ss_qm s)) (ss_qmem s)
               \<lparr>seq_id = st_id st, offset_in_shm_buf = root_buf_offset (send_buf s st), status = state\<rparr> of
          (qmem, Inr _) \<Rightarrow> put_and_wake others s st qmem
        | (qmem, Inl e) \<Rightarrow>
            if kind e \<noteq> KQueueFull then recycle_and_fail s st e
            else flush_retry others waits 10
                   (bump (\<lambda>c. c\<lparr>queue_full_error_count := queue_full_error_count c + 1\<rparr>) s) st state)"

definition enter_fallback :: "session \<Rightarrow> stream \<Rightarrow> session" where
  "enter_fallback s st =
     (if \<not> lb_is_from_shm (send_buf s st)
      then set_inner s st ((inner s st)\<lparr>si_in_fallback_state := True\<rparr>) else s)"

definition flush ::
  "others \<Rightarrow> (nat \<Rightarrow> others) \<Rightarrow> session \<Rightarrow> stream \<Rightarrow> bool \<Rightarrow> (session \<times> unit result) option" where
  "flush others waits s st end_stream =
     (if lb_len (send_buf s st) = 0 then Some (s, Inr ())
      else
        let s1 = bump (\<lambda>c. c\<lparr>out_flow_bytes := out_flow_bytes c + of_nat (lb_len (send_buf s st))\<rparr>) s;
            state = si_state (inner s1 st)
        in if state \<noteq> kStreamOpened then recycle_and_fail s1 st (Error KStreamClosed)
           else
             case on_send s1 st (map_option (\<lambda>(m, lb). (m, lb, ()))
                    (lb_done (ss_bm s1) (ss_mem s1) (send_buf s1 st) end_stream)) of
               None \<Rightarrow> None
             | Some (s2, _) \<Rightarrow> flush_send others waits (enter_fallback s2 st) st state)"

section \<open>Lifecycle\<close>

definition new_stream :: "session \<Rightarrow> u32 \<Rightarrow> nat \<Rightarrow> session \<times> stream" where
  "new_stream s i session_id =
     (s\<lparr>ss_inners := ss_inners s @ [new_stream_inner]\<rparr>,
      \<lparr>st_inner = length (ss_inners s), st_id = i, st_session_id = session_id\<rparr>)"

text \<open>The loop of \<open>clean_pending_data\<close>: it ends at the first offset that cannot be read.\<close>

fun clean_wrappers :: "buffer_manager \<Rightarrow> mem \<Rightarrow> wrapper list \<Rightarrow> mem option" where
  "clean_wrappers bm m [] = Some m"
| "clean_wrappers bm m (w # ws) =
     (case w_fallback_slice w of
        Some slc \<Rightarrow> clean_wrappers bm m ws
      | None \<Rightarrow>
          (case read_buffer_slice bm m (w_offset w) of
             Inl e \<Rightarrow> Some m
           | Inr slc \<Rightarrow>
               (case recycle_buffers bm m slc of
                  None \<Rightarrow> None
                | Some m1 \<Rightarrow> clean_wrappers bm m1 ws)))"

definition clean_pending_data :: "session \<Rightarrow> stream \<Rightarrow> session option" where
  "clean_pending_data s st =
     (let i = inner s st; s1 = set_inner s st (i\<lparr>si_pending_data := []\<rparr>)
      in map_option (\<lambda>m. s1\<lparr>ss_mem := m\<rparr>) (clean_wrappers (ss_bm s) (ss_mem s) (si_pending_data i)))"

definition clean :: "session \<Rightarrow> stream \<Rightarrow> session option" where
  "clean s st =
     (case clean_pending_data (on_stream_close (st_id st) s) st of
        None \<Rightarrow> None
      | Some s1 \<Rightarrow>
          (case recycle_recv s1 st of
             None \<Rightarrow> None
           | Some s2 \<Rightarrow> recycle_send s2 st))"

definition stream_reset :: "session \<Rightarrow> stream \<Rightarrow> session \<times> unit result" where
  "stream_reset s st =
     (let i = inner s st; unread_size = lb_len (si_recv_buf i); pending_data_len = length (si_pending_data i)
      in if si_state i \<noteq> kStreamOpened then (s, Inl (Error KStreamClosed))
         else if unread_size > 0 then (s, Inl (with_size KStreamHasUnreadData unread_size))
         else if pending_data_len > 0 then (s, Inl (with_size KStreamHasPendingData pending_data_len))
         else (set_inner s st (i\<lparr>si_in_fallback_state := False\<rparr>), Inr ()))"

definition release_read_and_reuse :: "session \<Rightarrow> stream \<Rightarrow> session option" where
  "release_read_and_reuse s st =
     (case release_previous_read_and_reserve (ss_bm s) (ss_mem s) (recv_buf s st) of
        None \<Rightarrow> None
      | Some (m, lb) \<Rightarrow>
          let i = inner s st
          in Some (set_inner (s\<lparr>ss_mem := m\<rparr>) st
               (if lb_len lb = 0 \<and> sl_len (lb_slices lb) = 1
                then i\<lparr>si_recv_buf := si_send_buf i, si_send_buf := lb\<rparr>
                else i\<lparr>si_recv_buf := lb\<rparr>)))"

definition fill_data_to_read_buffer :: "session \<Rightarrow> stream \<Rightarrow> wrapper \<Rightarrow> (session \<times> unit result) option" where
  "fill_data_to_read_buffer s st w =
     (let i = inner s st; s1 = set_inner s st (i\<lparr>si_pending_data := si_pending_data i @ [w]\<rparr>)
      in if si_state (inner s1 st) = kStreamClosed
         then (case clean_pending_data s1 st of
                 None \<Rightarrow> None
               | Some s2 \<Rightarrow> map_option (\<lambda>s3. (s3, Inr ())) (recycle_recv s2 st))
         else Some (s1, Inr ()))"

definition is_open :: "session \<Rightarrow> stream \<Rightarrow> bool" where
  "is_open s st \<longleftrightarrow> si_state (inner s st) = kStreamOpened"

definition half_close :: "session \<Rightarrow> stream \<Rightarrow> session" where
  "half_close s st =
     (if si_state (inner s st) = kStreamOpened
      then set_inner s st ((inner s st)\<lparr>si_state := kStreamHalfClosed\<rparr>) else s)"

definition fallback_state :: "session \<Rightarrow> stream \<Rightarrow> bool" where
  "fallback_state s st \<longleftrightarrow> si_in_fallback_state (inner s st)"

definition close_event :: "u8 \<Rightarrow> u32 \<Rightarrow> bytes" where
  "close_event version i = store_be_u32 (hdr_encode (replicate 12 0) 12 version kStreamClose) 8 i"

definition stream_close :: "others \<Rightarrow> session \<Rightarrow> stream \<Rightarrow> (session \<times> unit result) option" where
  "stream_close others s st =
     (let old_state = si_state (inner s st);
          s1 = set_inner s st ((inner s st)\<lparr>si_state := kStreamClosed\<rparr>)
      in if old_state = kStreamClosed then Some (s1, Inr ())
         else
           case clean s1 st of
             None \<Rightarrow> None
           | Some s2 \<Rightarrow>
               if old_state \<noteq> kStreamOpened then Some (s2, Inr ())
               else if ss_shutdown s2 = 1 then Some (s2, Inr ())
               else
                 let uds = (\<lambda>s3. wait_for_send others s3 None (close_event (ss_version s3) (st_id st)))
                 in if si_in_fallback_state (inner s2 st) then uds s2
                    else
                      case put (qm_send_queue (ss_qm s2)) (ss_qmem s2)
                             \<lparr>seq_id = st_id st, offset_in_shm_buf = 0, status = kStreamClosed\<rparr> of
                        (qmem, Inr _) \<Rightarrow> wake_up_peer others (s2\<lparr>ss_qmem := qmem\<rparr>)
                      | (qmem, Inl e) \<Rightarrow>
                          uds (bump (\<lambda>c. c\<lparr>queue_full_error_count := queue_full_error_count c + 1\<rparr>) s2))"

end
