(* ===== verification/Buf_Reader.thy ===== *)
theory Buf_Reader
  imports Protocol
begin

text \<open>
  \<open>src/util/buf_reader.cpp\<close> and \<open>include/shmipc/util/buf_reader.hpp\<close>: the buffered reader
  between the socket and the event handlers of a session. Its state is the buffer with the
  positions \<open>pos_\<close> and \<open>len_\<close>; what the socket delivers is a list of arrivals as in
  \<open>Protocol\<close>. Seen from outside, a reader and its socket are one stream of bytes: the
  bytes that are buffered followed by the bytes still to come. A read that nothing answers
  blocks, which is the result \<open>None\<close>. The default build (\<open>RelWithDebInfo\<close>) compiles the
  assertion \<open>len <= cap_\<close> away, so it is not a branch of the model.
\<close>

section \<open>The reader\<close>

record buf_reader =
  br_buf :: bytes
  br_pos :: nat
  br_len :: nat
  br_cap :: nat

definition new_buf_reader :: "nat \<Rightarrow> buf_reader" where
  "new_buf_reader capacity = \<lparr>br_buf = replicate capacity 0, br_pos = 0, br_len = 0, br_cap = capacity\<rparr>"

definition br_buffer :: "buf_reader \<Rightarrow> bytes" where
  "br_buffer r = take (br_len r - br_pos r) (drop (br_pos r) (br_buf r))"

definition br_consume :: "buf_reader \<Rightarrow> nat \<Rightarrow> buf_reader" where
  "br_consume r amt = r\<lparr>br_pos := (if br_pos r + amt < br_len r then br_pos r + amt else br_len r)\<rparr>"

definition br_clear :: "buf_reader \<Rightarrow> buf_reader" where
  "br_clear r = r\<lparr>br_pos := 0, br_len := 0\<rparr>"

definition br_compact :: "buf_reader \<Rightarrow> buf_reader" where
  "br_compact r =
     (if br_len r = br_pos r then r\<lparr>br_pos := 0, br_len := 0\<rparr>
      else
        let remaining = br_len r - br_pos r
        in r\<lparr>br_buf := blit (br_buf r) 0 (take remaining (drop (br_pos r) (br_buf r))),
             br_pos := 0, br_len := remaining\<rparr>)"

text \<open>
  The loop around \<open>read\<close>, which asks for all of the free space. With no free space left it
  asks for 0 bytes and gets 0, which the loop takes for the end of the stream.
\<close>

fun weight :: "arrival \<Rightarrow> nat" where
  "weight (Run bs) = Suc (length bs)"
| "weight Interrupted = 1"
| "weight (Failed r) = 1"

function fill_loop ::
  "buf_reader \<Rightarrow> nat \<Rightarrow> arrival list \<Rightarrow> (arrival list \<times> buf_reader \<times> unit result) option" where
  "fill_loop r n as =
     (if br_len r - br_pos r < n
      then (case as of
              [] \<Rightarrow> None
            | Interrupted # rest \<Rightarrow> fill_loop r n rest
            | Failed reason # rest \<Rightarrow> Some (rest, r, Inl (io_error reason))
            | Run bs # rest \<Rightarrow>
                let room = br_cap r - br_len r; got = take room bs in
                if got = [] then Some (as, r, Inl (io_error ''invalid eof''))
                else fill_loop (r\<lparr>br_buf := blit (br_buf r) (br_len r) got, br_len := br_len r + length got\<rparr>) n
                       (if room < length bs then Run (drop room bs) # rest else rest))
      else Some (as, r, Inr ()))"
  by pat_completeness auto
termination
  by (relation "measure (\<lambda>(r, n, as). sum_list (map weight as))") auto

declare fill_loop.simps [simp del]

definition fill_buf_at_least ::
  "buf_reader \<Rightarrow> nat \<Rightarrow> arrival list \<Rightarrow> (arrival list \<times> buf_reader \<times> bytes result) option" where
  "fill_buf_at_least r n as =
     (if n = 0 then Some (as, r, Inr [])
      else if br_len r - br_pos r \<ge> n then Some (as, r, Inr (br_buffer r))
      else
        let r1 = (if n > br_cap r - br_pos r then br_compact r else r) in
        case fill_loop r1 n as of
          None \<Rightarrow> None
        | Some (as', r2, Inl e) \<Rightarrow> Some (as', r2, Inl e)
        | Some (as', r2, Inr _) \<Rightarrow> Some (as', r2, Inr (br_buffer r2)))"

section \<open>Lemmas\<close>

definition br_inv :: "buf_reader \<Rightarrow> bool" where
  "br_inv r \<longleftrightarrow> br_pos r \<le> br_len r \<and> br_len r \<le> br_cap r \<and> length (br_buf r) = br_cap r"

lemma length_br_buffer: "br_inv r \<Longrightarrow> length (br_buffer r) = br_len r - br_pos r"
  by (auto simp: br_buffer_def br_inv_def min_def)

lemma br_compact_ok:
  assumes "br_inv r"
  shows "br_inv (br_compact r)" "br_buffer (br_compact r) = br_buffer r" "br_pos (br_compact r) = 0"
    "br_cap (br_compact r) = br_cap r"
  using assms by (auto simp: br_compact_def br_inv_def br_buffer_def blit_def Let_def)

lemma br_consume_ok:
  assumes "br_inv r" shows "br_inv (br_consume r n)" "br_buffer (br_consume r n) = drop n (br_buffer r)"
  using assms by (auto simp: br_consume_def br_inv_def br_buffer_def drop_take add.commute)

lemma br_append_ok:
  assumes "br_inv r" "got \<noteq> []" "length got \<le> br_cap r - br_len r"
  defines "r' \<equiv> r\<lparr>br_buf := blit (br_buf r) (br_len r) got, br_len := br_len r + length got\<rparr>"
  shows "br_inv r'" "br_buffer r' = br_buffer r @ got" "br_cap r' = br_cap r" "br_pos r' = br_pos r"
  using assms by (auto simp: r'_def br_inv_def br_buffer_def blit_def drop_take)

lemma fill_loop_ok:
  "br_inv r \<Longrightarrow> n \<le> br_cap r - br_pos r \<Longrightarrow> n \<le> length (br_buffer r @ stream_of as) \<Longrightarrow>
     \<exists>as' r'. fill_loop r n as = Some (as', r', Inr ()) \<and> br_inv r' \<and> br_cap r' = br_cap r
       \<and> n \<le> length (br_buffer r') \<and> br_buffer r' @ stream_of as' = br_buffer r @ stream_of as"
proof (induction r n as rule: fill_loop.induct)
  case (1 r n as)
  have len: "length (br_buffer r) = br_len r - br_pos r" by (rule length_br_buffer [OF 1(3)])
  show ?case
  proof (cases "br_len r - br_pos r < n")
    case False
    with 1 len show ?thesis by (simp add: fill_loop.simps)
  next
    case lt: True
    with 1(5) len obtain a rest where as: "as = a # rest" by (cases as) auto
    show ?thesis
    proof (cases a)
      case Interrupted
      with 1(2) [OF lt as Interrupted] 1(3-5) as lt show ?thesis
        by (simp add: fill_loop.simps [of r n "_ # _"])
    next
      case (Failed e)
      with 1(5) len lt as show ?thesis by simp
    next
      case (Run bs)
      let ?room = "br_cap r - br_len r"
      let ?got = "take ?room bs"
      let ?r = "r\<lparr>br_buf := blit (br_buf r) (br_len r) ?got, br_len := br_len r + length ?got\<rparr>"
      let ?as = "if ?room < length bs then Run (drop ?room bs) # rest else rest"
      have ne: "bs \<noteq> []" using 1(5) len lt as Run by (auto split: if_splits)
      have "0 < ?room" using lt 1(3,4) by (auto simp: br_inv_def)
      then have got: "?got \<noteq> []" using ne by simp
      note ap = br_append_ok [OF 1(3) got]
      have st: "?got @ stream_of ?as = stream_of as" using as Run ne
        by (auto simp: not_less)
      have e: "fill_loop r n as = fill_loop ?r n ?as"
        using lt as Run got by (simp add: fill_loop.simps [of r n "_ # _"] Let_def)
      have "n \<le> length (br_buffer ?r @ stream_of ?as)"
        using 1(5) st ap(2) by (metis append_assoc length_take min.cobounded2)
      then obtain as' r' where "fill_loop ?r n ?as = Some (as', r', Inr ())" "br_inv r'" "br_cap r' = br_cap ?r"
        "n \<le> length (br_buffer r')" "br_buffer r' @ stream_of as' = br_buffer ?r @ stream_of ?as"
        using 1(1) [OF lt as Run refl refl got] ap(1,3,4) 1(4) by auto
      moreover have "br_buffer ?r @ stream_of ?as = br_buffer r @ stream_of as" using ap(2) st by simp
      ultimately show ?thesis using e by simp
    qed
  qed
qed

lemma fill_loop_never:
  "br_inv r \<Longrightarrow> br_pos r = 0 \<Longrightarrow> br_cap r < n \<Longrightarrow> fill_loop r n as \<noteq> Some (as', r', Inr ())"
proof (induction r n as rule: fill_loop.induct)
  case (1 r n as)
  have lt: "br_len r - br_pos r < n" using 1(3-5) by (simp add: br_inv_def)
  show ?case
  proof (cases as)
    case Nil
    with lt show ?thesis by (simp add: fill_loop.simps)
  next
    case (Cons a rest)
    show ?thesis
    proof (cases a)
      case Interrupted
      with 1(2) [OF lt Cons Interrupted] 1(3-5) Cons lt show ?thesis by (simp add: fill_loop.simps [of r n "_ # _"])
    next
      case (Failed e)
      with Cons lt show ?thesis by (simp add: fill_loop.simps [of r n "_ # _"])
    next
      case (Run bs)
      show ?thesis
      proof (cases "take (br_cap r - br_len r) bs = []")
        case True
        with Run Cons lt show ?thesis by (auto simp: fill_loop.simps [of r n "_ # _"] Let_def)
      next
        case got: False
        note ap = br_append_ok [OF 1(3) got]
        show ?thesis
          using 1(1) [OF lt Cons Run refl refl got] ap 1(4,5) lt Cons Run got
          by (auto simp: fill_loop.simps [of r n "_ # _"] Let_def)
      qed
    qed
  qed
qed

lemma fill_buf_at_least_ok:
  assumes inv: "br_inv r" and n: "n \<le> br_cap r" "n \<le> length (br_buffer r @ stream_of as)" "0 < n"
  shows "\<exists>as' r'. fill_buf_at_least r n as = Some (as', r', Inr (br_buffer r')) \<and> br_inv r' \<and> br_cap r' = br_cap r
    \<and> n \<le> length (br_buffer r') \<and> br_buffer r' @ stream_of as' = br_buffer r @ stream_of as"
proof (cases "br_len r - br_pos r \<ge> n")
  case True
  with n inv length_br_buffer [OF inv] show ?thesis by (simp add: fill_buf_at_least_def)
next
  case False
  let ?r = "if n > br_cap r - br_pos r then br_compact r else r"
  note c = br_compact_ok [OF inv]
  have r: "br_inv ?r" "br_buffer ?r = br_buffer r" "br_cap ?r = br_cap r" "n \<le> br_cap ?r - br_pos ?r"
    using inv c n(1) by auto
  from fill_loop_ok [OF r(1,4), of as] r(2,3) n(2) obtain as' r' where
    "fill_loop ?r n as = Some (as', r', Inr ())" "br_inv r'" "br_cap r' = br_cap r"
    "n \<le> length (br_buffer r')" "br_buffer r' @ stream_of as' = br_buffer r @ stream_of as"
    by auto
  with False n(3) show ?thesis by (auto simp: fill_buf_at_least_def Let_def)
qed

section \<open>Properties\<close>

text \<open>
  Property C21. A buffered reader is transparent: however the socket cuts the stream, a request for
  at least \<open>n\<close> bytes, with \<open>n\<close> not above the capacity, returns once that many bytes
  have arrived; it returns the next bytes of the stream, at least \<open>n\<close> of them, loses
  none, and consuming \<open>k\<close> of them moves the stream forward by exactly \<open>k\<close> bytes.
\<close>

theorem buf_reader_transparent:
  assumes "br_inv r" and "0 < n" and "n \<le> br_cap r" and "n \<le> length (br_buffer r @ stream_of as)"
  shows "\<exists>as' r' bs. fill_buf_at_least r n as = Some (as', r', Inr bs) \<and> n \<le> length bs
    \<and> bs @ stream_of as' = br_buffer r @ stream_of as
    \<and> (\<forall>k \<le> length bs. br_inv (br_consume r' k)
         \<and> br_buffer (br_consume r' k) @ stream_of as' = drop k (br_buffer r @ stream_of as))"
proof -
  obtain as' r' where f: "fill_buf_at_least r n as = Some (as', r', Inr (br_buffer r'))" "br_inv r'"
    "n \<le> length (br_buffer r')" "br_buffer r' @ stream_of as' = br_buffer r @ stream_of as"
    using fill_buf_at_least_ok [OF assms(1,3,4,2)] by blast
  have "br_inv (br_consume r' k) \<and> br_buffer (br_consume r' k) @ stream_of as'
      = drop k (br_buffer r @ stream_of as)" if "k \<le> length (br_buffer r')" for k
    using br_consume_ok [OF f(2), of k] that by (simp flip: f(4))
  with f show ?thesis by blast
qed

theorem buf_reader_transparent_witness:
  "\<exists>as' r'. fill_buf_at_least (new_buf_reader 4) 3 [Run [1], Interrupted, Run [2, 3, 4, 5]]
      = Some (as', r', Inr [1, 2, 3, 4])
    \<and> br_buffer (br_consume r' 3) @ stream_of as' = [4, 5]"
proof -
  have i: "br_inv (new_buf_reader 4)" "br_buffer (new_buf_reader 4) = []"
    by (simp_all add: br_inv_def new_buf_reader_def br_buffer_def)
  have c: "fill_buf_at_least (new_buf_reader 4) 3 [Run [1], Interrupted, Run [2, 3, 4, 5]]
      = Some ([Run [5]], \<lparr>br_buf = [1, 2, 3, 4], br_pos = 0, br_len = 4, br_cap = 4\<rparr>, Inr [1, 2, 3, 4])"
    by (simp add: fill_buf_at_least_def new_buf_reader_def fill_loop.simps br_buffer_def blit_def Let_def)
  from buf_reader_transparent [OF i(1), of 3 "[Run [1], Interrupted, Run [2, 3, 4, 5]]"] i(2) c
  show ?thesis by (auto simp: new_buf_reader_def)
qed

text \<open>
  A request above the reader's capacity never succeeds, whatever arrives. The session asks
  for the whole of a fallback event at once, so a peer's fallback message longer than the
  buffer, which the sender accepts up to 4 GiB, ends the receiver's session with
  the error \<open>invalid eof\<close>.
\<close>

theorem buf_reader_refuses_large:
  assumes "br_inv r" and "br_cap r < n"
  shows "fill_buf_at_least r n as \<noteq> Some (as', r', Inr bs)"
proof -
  have "br_len r - br_pos r < n" "br_cap r - br_pos r < n" using assms by (auto simp: br_inv_def)
  then show ?thesis
    using fill_loop_never [OF br_compact_ok(1) [OF assms(1)], of n as] br_compact_ok [OF assms(1)] assms(2)
    by (auto simp: fill_buf_at_least_def Let_def split: option.splits prod.splits sum.splits)
qed

theorem buf_reader_refuses_large_witness:
  "(\<nexists>as' r' bs. fill_buf_at_least (new_buf_reader 4) 5 [Run [1, 2, 3, 4, 5]] = Some (as', r', Inr bs))
   \<and> (\<exists>as' r'. fill_buf_at_least (new_buf_reader 4) 5 [Run [1, 2, 3, 4, 5]] = Some (as', r', Inl (io_error ''invalid eof'')))"
proof -
  have i: "br_inv (new_buf_reader 4)" by (simp add: br_inv_def new_buf_reader_def)
  have "\<exists>as' r'. fill_buf_at_least (new_buf_reader 4) 5 [Run [1, 2, 3, 4, 5]]
      = Some (as', r', Inl (io_error ''invalid eof''))"
    by (simp add: fill_buf_at_least_def new_buf_reader_def fill_loop.simps br_compact_def blit_def Let_def)
  with buf_reader_refuses_large [OF i, of 5] show ?thesis by (simp add: new_buf_reader_def)
qed

end
