(* ===== verification/Session_Ops.thy ===== *)
theory Session_Ops
  imports Stream_Ops Buf_Reader
begin

text \<open>
  \<open>src/session.cpp\<close> and \<open>src/stream_pool.cpp\<close>: opening, pooling and closing streams, the
  handlers of the three events a session receives, and the read and write loops.
\<close>

section \<open>Stream pool\<close>

definition pool_push :: "others \<Rightarrow> session \<Rightarrow> stream \<Rightarrow> (session \<times> unit result) option" where
  "pool_push others s st =
     (if length (ss_pool s) < ss_pool_cap s then Some (s\<lparr>ss_pool := ss_pool s @ [st]\<rparr>, Inr ())
      else map_option (\<lambda>(s1, r). (s1, Inl (Error KStreamPoolFull))) (stream_close others s st))"

definition pool_pop :: "session \<Rightarrow> session \<times> stream option" where
  "pool_pop s = (case ss_pool s of [] \<Rightarrow> (s, None) | st # sts \<Rightarrow> (s\<lparr>ss_pool := sts\<rparr>, Some st))"

text \<open>
  Closing all pooled streams; a stream pushed to the pool meanwhile is popped too, so the loop
  runs until the pool is found empty.
\<close>

partial_function (option) pool_close :: "others \<Rightarrow> session \<Rightarrow> session option" where
  "pool_close others s =
     (case pool_pop s of
        (s1, None) \<Rightarrow> Some s1
      | (s1, Some st) \<Rightarrow>
          (case stream_close others s1 st of
             None \<Rightarrow> None
           | Some (s2, r) \<Rightarrow> pool_close others s2))"

section \<open>Streams of a session\<close>

definition insert_stream :: "u32 \<Rightarrow> stream \<Rightarrow> session \<Rightarrow> session" where
  "insert_stream i st s =
     (if map_of (ss_streams s) i = None then s\<lparr>ss_streams := ss_streams s @ [(i, st)]\<rparr> else s)"

definition open_stream :: "session \<Rightarrow> nat \<Rightarrow> session \<times> stream result" where
  "open_stream s session_id =
     (if is_closed s
      then (s\<lparr>ss_shutdown_err := None\<rparr>,
            Inl (case ss_shutdown_err s of Some e \<Rightarrow> e | None \<Rightarrow> Error KSessionShutdown))
      else if ss_unhealthy s = 1 then (s, Inl (Error KSessionUnhealthy))
      else
        let i = ss_next_stream_id s + 1;
            s1 = s\<lparr>ss_next_stream_id := ss_next_stream_id s + 1\<rparr>
        in if map_of (ss_streams s1) i \<noteq> None then (s1, Inl (Error KStreamsExhausted))
           else let (s2, st) = new_stream s1 i session_id in (insert_stream i st s2, Inr st))"

text \<open>The loop over the pool: closed streams are dropped.\<close>

fun pool_take_open :: "stream list \<Rightarrow> session \<Rightarrow> stream list \<times> stream option" where
  "pool_take_open [] s = ([], None)"
| "pool_take_open (st # sts) s = (if is_open s st then (sts, Some st) else pool_take_open sts s)"

definition get_or_open_stream :: "session \<Rightarrow> nat \<Rightarrow> session \<times> stream result" where
  "get_or_open_stream s session_id =
     (if \<not> is_healthy s then (s, Inl (Error KSessionUnhealthy))
      else
        case pool_take_open (ss_pool s) s of
          (sts, Some st) \<Rightarrow> (s\<lparr>ss_pool := sts\<rparr>, Inr st)
        | (sts, None) \<Rightarrow> open_stream (s\<lparr>ss_pool := sts\<rparr>) session_id)"

definition put_or_close_stream :: "others \<Rightarrow> session \<Rightarrow> stream \<Rightarrow> session option" where
  "put_or_close_stream others s st =
     (if fallback_state s st then map_option fst (stream_close others s st)
      else
        case stream_reset s st of
          (s1, Inr _) \<Rightarrow>
            (case release_read_and_reuse s1 st of
               None \<Rightarrow> None
             | Some s2 \<Rightarrow> map_option fst (pool_push others s2 st))
        | (s1, Inl e) \<Rightarrow> map_option fst (stream_close others s1 st))"

definition reuse :: "others \<Rightarrow> session \<Rightarrow> stream \<Rightarrow> session option" where
  "reuse = put_or_close_stream"

section \<open>Closing a session\<close>

fun close_all :: "others \<Rightarrow> session \<Rightarrow> stream list \<Rightarrow> session option" where
  "close_all others s [] = Some s"
| "close_all others s (st # sts) =
     (case stream_close others s st of None \<Rightarrow> None | Some (s1, r) \<Rightarrow> close_all others s1 sts)"

text \<open>
  \<open>Session::close\<close>. The events record the release of the last reference, which unmaps the buffer memory; the
  fields of memory and manager keep what they held, so a call on a stream of the session after that has no meaning here.
\<close>

definition session_close :: "others \<Rightarrow> session \<Rightarrow> session option" where
  "session_close others s =
     (if ss_shutdown s \<noteq> 0 then Some s
      else
        case pool_close others (s\<lparr>ss_shutdown := 1\<rparr>) of
          None \<Rightarrow> None
        | Some s1 \<Rightarrow>
            let s2 = s1\<lparr>ss_shutdown_event := True\<rparr>;
                streams = map snd (ss_streams s2);
                s3 = s2\<lparr>ss_streams := []\<rparr>
            in case close_all others s3 streams of
                 None \<Rightarrow> None
               | Some s4 \<Rightarrow>
                   let (evs, reg) = add_global_buffer_manager_ref_count (ss_registry s4) (bm_path (ss_bm s4)) (- 1)
                   in Some (s4\<lparr>ss_registry := reg, ss_events := ss_events s4 @ evs @ qm_unmap (ss_qm s4),
                        ss_send := ch_stop (ss_send s4),
                        ss_accept := (if ss_accept_attached s4 then map_option ch_stop (ss_accept s4) else ss_accept s4),
                        ss_conn_open := False\<rparr>))"

definition exit_err :: "others \<Rightarrow> session \<Rightarrow> error \<Rightarrow> session option" where
  "exit_err others s e =
     session_close others
       ((bump (\<lambda>c. c\<lparr>event_conn_error_count := event_conn_error_count c + 1\<rparr>) s)\<lparr>ss_shutdown_err := Some e\<rparr>)"

section \<open>Event handlers\<close>

record handler_result =
  hr_consumed :: nat
  hr_required :: nat
  hr_stop :: bool
  hr_err :: "error option"

definition can_accept :: "session \<Rightarrow> bool" where
  "can_accept s \<longleftrightarrow> (case ss_accept s of None \<Rightarrow> True | Some c \<Rightarrow> ch_stopped c \<or> \<not> ch_is_full c)"

text \<open>Finding a stream or, on the server, creating one; handing it to the accept channel may wait.\<close>

definition get_stream :: "others \<Rightarrow> session \<Rightarrow> u32 \<Rightarrow> u32 \<Rightarrow> (session \<times> stream option) option" where
  "get_stream others s i state =
     (case map_of (ss_streams s) i of
        Some st \<Rightarrow> Some (s, Some st)
      | None \<Rightarrow>
          if \<not> ss_is_client s \<and> state = kStreamOpened
          then let (s1, st) = new_stream s i 0;
                   s2 = awaited others can_accept (insert_stream i st s1)
               in (case ss_accept s2 of
                     None \<Rightarrow> Some (s2, Some st)
                   | Some c \<Rightarrow>
                       (case ch_push c st of
                          None \<Rightarrow> None
                        | Some (c1, sent) \<Rightarrow> Some (s2\<lparr>ss_accept := Some c1\<rparr>, Some st)))
          else Some (s, None))"

definition handle_stream_message ::
  "session \<Rightarrow> stream \<Rightarrow> wrapper \<Rightarrow> u32 \<Rightarrow> (session \<times> unit result) option" where
  "handle_stream_message s st w state =
     (if state = kStreamClosed then Some (half_close s st, Inr ())
      else fill_data_to_read_buffer s st w)"

text \<open>
  The inner loop of \<open>handle_polling\<close>, until the queue is empty. The flag in the result says that
  a broken offset made the handler return.
\<close>

partial_function (option) polling_inner ::
  "others \<Rightarrow> session \<Rightarrow> error option \<Rightarrow> (session \<times> error option \<times> bool) option" where
  "polling_inner others s ret_err =
     (case pop (qm_recv_queue (ss_qm s)) (ss_qmem s) of
        (qmem, Inl e) \<Rightarrow> Some (s\<lparr>ss_qmem := qmem\<rparr>, ret_err, False)
      | (qmem, Inr ele) \<Rightarrow>
          let state = status ele AND 255 in
          (case get_stream others (s\<lparr>ss_qmem := qmem\<rparr>) (seq_id ele) state of
             None \<Rightarrow> None
           | Some (s1, Some st) \<Rightarrow>
               (case handle_stream_message s1 st
                       \<lparr>w_fallback_slice = None, w_offset = offset_in_shm_buf ele\<rparr> state of
                  None \<Rightarrow> None
                | Some (s2, r) \<Rightarrow>
                    polling_inner others s2 (case r of Inl e \<Rightarrow> Some e | Inr _ \<Rightarrow> ret_err))
           | Some (s1, None) \<Rightarrow>
               if state = kStreamOpened
               then (case read_buffer_slice (ss_bm s1) (ss_mem s1) (offset_in_shm_buf ele) of
                       Inl e \<Rightarrow> Some (s1, Some e, True)
                     | Inr slc \<Rightarrow>
                         (case recycle_buffers (ss_bm s1) (ss_mem s1) slc of
                            None \<Rightarrow> None
                          | Some m \<Rightarrow> polling_inner others (s1\<lparr>ss_mem := m\<rparr>) ret_err))
               else polling_inner others s1 ret_err))"

text \<open>The outer loop: \<open>yields\<close> is what happened during \<open>yield\<close>, one entry per round.\<close>

fun polling_outer ::
  "others \<Rightarrow> others list \<Rightarrow> session \<Rightarrow> error option \<Rightarrow> (session \<times> handler_result) option" where
  "polling_outer others yields s ret_err =
     (case polling_inner others s ret_err of
        None \<Rightarrow> None
      | Some (s1, e, True) \<Rightarrow>
          Some (s1, \<lparr>hr_consumed = kHeaderSize, hr_required = kHeaderSize, hr_stop = False, hr_err = e\<rparr>)
      | Some (s1, e, False) \<Rightarrow>
          (case yields of
             [] \<Rightarrow> None
           | y # ys \<Rightarrow>
               let s2 = y s1; (qmem, b) = mark_not_working (qm_recv_queue (ss_qm s2)) (ss_qmem s2);
                   s3 = s2\<lparr>ss_qmem := qmem\<rparr>
               in if b
                  then Some (s3, \<lparr>hr_consumed = kHeaderSize, hr_required = kHeaderSize, hr_stop = False, hr_err = e\<rparr>)
                  else polling_outer others ys s3 e))"

declare polling_outer.simps [simp del]

definition handle_polling :: "others \<Rightarrow> others list \<Rightarrow> session \<Rightarrow> (session \<times> handler_result) option" where
  "handle_polling others yields s =
     polling_outer others yields
       (bump (\<lambda>c. c\<lparr>recv_polling_event_count := recv_polling_event_count c + 1\<rparr>) s) None"

text \<open>
  Fallback data: header, stream id, status, payload. The payload length is computed in 64 bits; a length
  field below 8 makes it huge, and one from 8 to 15 makes the vector constructor
  throw, which ends the process.
\<close>

definition handle_fallback_data ::
  "others \<Rightarrow> session \<Rightarrow> bytes \<Rightarrow> bytes \<Rightarrow> (session \<times> handler_result) option" where
  "handle_fallback_data others s event_header buf =
     (let event_len = unat (hdr_length event_header);
          payload_len = usub event_len kHeaderSize;
          kFallbackDataHeader = 8
      in if length buf < payload_len
         then Some (s, \<lparr>hr_consumed = 0, hr_required = event_len, hr_stop = True, hr_err = None\<rparr>)
         else if payload_len < kFallbackDataHeader then None
         else
           let data = take (payload_len - kFallbackDataHeader) (drop kFallbackDataHeader buf);
               seq = load_be_u32 buf 0;
               state = load_be_u32 buf 4 AND 255;
               s1 = open_circuit_breaker s;
               slc = from_heap data;
               fallback_slice = slc\<lparr>bs_write_index := unat (bs_cap slc)\<rparr>;
               s2 = bump (\<lambda>c. c\<lparr>fallback_read_count := fallback_read_count c + 1\<rparr>) s1
           in (case get_stream others s2 seq state of
                 None \<Rightarrow> None
               | Some (s3, Some st) \<Rightarrow>
                   map_option (\<lambda>(s4, r). (s4, \<lparr>hr_consumed = event_len, hr_required = kHeaderSize,
                       hr_stop = False, hr_err = (case r of Inl e \<Rightarrow> Some e | Inr _ \<Rightarrow> None)\<rparr>))
                     (handle_stream_message s3 st \<lparr>w_fallback_slice = Some fallback_slice, w_offset = 0\<rparr> state)
               | Some (s3, None) \<Rightarrow>
                   Some (s3, \<lparr>hr_consumed = event_len, hr_required = kHeaderSize, hr_stop = False, hr_err = None\<rparr>)))"

definition handle_stream_close :: "session \<Rightarrow> bytes \<Rightarrow> session \<times> handler_result" where
  "handle_stream_close s buf =
     (let kIdLen = 4 in
      if length buf < kIdLen
      then (s, \<lparr>hr_consumed = 0, hr_required = kHeaderSize + kIdLen, hr_stop = True, hr_err = None\<rparr>)
      else
        let i = load_be_u32 buf 0
        in (case map_of (ss_streams s) i of
              Some st \<Rightarrow> half_close (on_stream_close i s) st
            | None \<Rightarrow> s,
            \<lparr>hr_consumed = kHeaderSize + kIdLen, hr_required = kHeaderSize, hr_stop = False, hr_err = None\<rparr>))"

text \<open>What other threads do while the read loop handles events.\<close>

record world =
  wd_others :: others
  wd_yields :: "others list"

text \<open>The switch over the event type; \<open>Inl\<close> is the error of an unknown type.\<close>

definition handle_event :: "world \<Rightarrow> session \<Rightarrow> bytes \<Rightarrow> (session \<times> (error + handler_result)) option" where
  "handle_event w s buf =
     (let event_header = take kHeaderSize buf; rest = drop kHeaderSize buf; t = hdr_msg_type event_header
      in if t = kPolling
         then map_option (map_prod (\<lambda>s. s) Inr) (handle_polling (wd_others w) (wd_yields w) s)
         else if t = kStreamClose then Some (map_prod (\<lambda>s. s) Inr (handle_stream_close s rest))
         else if t = kFallbackData
         then map_option (map_prod (\<lambda>s. s) Inr) (handle_fallback_data (wd_others w) s event_header rest)
         else Some (s, Inl (Error KInvalidMsgType)))"

record event_result =
  er_consumed :: nat
  er_required :: nat
  er_err :: "error option"

partial_function (option) events_loop ::
  "world \<Rightarrow> session \<Rightarrow> bytes \<Rightarrow> nat \<Rightarrow> (session \<times> event_result) option" where
  "events_loop w s buf consumed =
     (if usub (length buf) consumed \<ge> kHeaderSize
      then
        (case check_event_valid (take kHeaderSize (drop consumed buf)) of
           Inl e \<Rightarrow> Some (s, \<lparr>er_consumed = consumed + kHeaderSize, er_required = kHeaderSize, er_err = Some e\<rparr>)
         | Inr _ \<Rightarrow>
             (case handle_event w s (drop consumed buf) of
                None \<Rightarrow> None
              | Some (s1, Inl e) \<Rightarrow>
                  Some (s1, \<lparr>er_consumed = consumed + kHeaderSize, er_required = kHeaderSize, er_err = Some e\<rparr>)
              | Some (s1, Inr hr) \<Rightarrow>
                  let consumed' = consumed + hr_consumed hr in
                  if hr_err hr \<noteq> None
                  then Some (s1, \<lparr>er_consumed = consumed', er_required = kHeaderSize, er_err = hr_err hr\<rparr>)
                  else if hr_stop hr
                  then Some (s1, \<lparr>er_consumed = consumed', er_required = hr_required hr, er_err = None\<rparr>)
                  else events_loop w s1 buf consumed'))
      else Some (s, \<lparr>er_consumed = consumed, er_required = kHeaderSize, er_err = None\<rparr>))"

definition handle_events :: "world \<Rightarrow> session \<Rightarrow> bytes \<Rightarrow> (session \<times> event_result) option" where
  "handle_events w s buf = events_loop w s buf 0"

section \<open>Loops\<close>

text \<open>
  The read loop on what the socket delivers; \<open>fuel\<close> bounds the number of rounds, and the loop has
  not returned when it is used up.
\<close>

fun session_read_loop ::
  "nat \<Rightarrow> world \<Rightarrow> session \<Rightarrow> buf_reader \<Rightarrow> nat \<Rightarrow> arrival list
     \<Rightarrow> (session \<times> buf_reader \<times> nat \<times> arrival list \<times> bool) option" where
  "session_read_loop 0 w s r n as = Some (s, r, n, as, False)"
| "session_read_loop (Suc fuel) w s r n as =
     (case fill_buf_at_least r n as of
        None \<Rightarrow> Some (s, r, n, as, False)
      | Some (as1, r1, res) \<Rightarrow>
          if ss_shutdown s = 1 then Some (s, r1, n, as1, True)
          else
            (case res of
               Inl e \<Rightarrow> map_option (\<lambda>s1. (s1, r1, n, as1, True)) (exit_err (wd_others w) s e)
             | Inr buf \<Rightarrow>
                 (case handle_events w s buf of
                    None \<Rightarrow> None
                  | Some (s1, er) \<Rightarrow>
                      let r2 = br_consume r1 (er_consumed er) in
                      (case er_err er of
                         Some e \<Rightarrow>
                           if \<not> is_closed s1
                           then map_option (\<lambda>s2. (s2, r2, er_required er, as1, True)) (exit_err (wd_others w) s1 e)
                           else session_read_loop fuel w s1 r2 (er_required er) as1
                       | None \<Rightarrow> session_read_loop fuel w s1 r2 (er_required er) as1))))"

text \<open>\<open>WriteHalf::write_all\<close> is the loop of \<open>block_write_full\<close> around \<open>send\<close>.\<close>

definition write_half_write_all :: "bytes \<Rightarrow> write_answer list \<Rightarrow> (write_answer list \<times> bytes \<times> unit result) option" where
  "write_half_write_all d as = block_write_full d 0 as"

text \<open>Header and body of a request, each only when it is not empty.\<close>

definition write_ready :: "send_ready \<Rightarrow> write_answer list \<Rightarrow> (write_answer list \<times> bytes \<times> unit result) option" where
  "write_ready ready as =
     (case (if sr_hdr ready \<noteq> [] then write_half_write_all (sr_hdr ready) as else Some (as, [], Inr ())) of
        None \<Rightarrow> None
      | Some (as1, out1, Inl e) \<Rightarrow> Some (as1, out1, Inl e)
      | Some (as1, out1, Inr _) \<Rightarrow>
          (case (if sr_body ready \<noteq> [] then write_half_write_all (sr_body ready) as1 else Some (as1, [], Inr ())) of
             None \<Rightarrow> None
           | Some (as2, out2, r) \<Rightarrow> Some (as2, out1 @ out2, r)))"

text \<open>
  The write loop on the answers of the socket. The flag says whether it has
  returned or waits for the next request. A request whose write fails is destroyed, which
  breaks its promise; the requests behind it stay in the channel.
\<close>

definition sent_bytes :: "bytes \<Rightarrow> session \<Rightarrow> session" where
  "sent_bytes bs s = s\<lparr>ss_sent := ss_sent s @ bs\<rparr>"

function session_write_loop ::
  "others \<Rightarrow> session \<Rightarrow> write_answer list \<Rightarrow> (session \<times> write_answer list \<times> bool) option" where
  "session_write_loop others s as =
     (case ch_pop (ss_send s) of
        None \<Rightarrow> Some (s, as, False)
      | Some (c, None) \<Rightarrow> Some (s\<lparr>ss_send := c\<rparr>, as, True)
      | Some (c, Some ready) \<Rightarrow>
          (case write_ready ready as of
             None \<Rightarrow> None
           | Some (as1, sent, Inl e) \<Rightarrow>
               map_option (\<lambda>s1. (set_promise (sr_done ready) Broken s1, as1, True))
                 (exit_err others (sent_bytes sent (s\<lparr>ss_send := c\<rparr>)) e)
           | Some (as1, sent, Inr _) \<Rightarrow>
               session_write_loop others (set_promise (sr_done ready) Fulfilled (sent_bytes sent (s\<lparr>ss_send := c\<rparr>))) as1))"
  by pat_completeness auto
termination
  by (relation "measure (\<lambda>(others, s, as). length (ch_queue (ss_send s)))")
    (auto simp: ch_pop_def set_promise_def sent_bytes_def split: if_splits list.splits)

declare session_write_loop.simps [simp del]

text \<open>
  The loop that hands accepted streams to the listener: before its first receive it attaches the channel, so that
  \<open>close\<close> stops it; then one stream per call.
\<close>

definition recv_attach :: "session \<Rightarrow> session" where
  "recv_attach s = s\<lparr>ss_accept_attached := True\<rparr>"

definition recv_one ::
  "(stream \<Rightarrow> 'a) \<Rightarrow> session \<Rightarrow> 'a channel \<Rightarrow> (session \<times> 'a channel \<times> bool) option" where
  "recv_one wrap s stream_tx =
     (case ss_accept s of
        None \<Rightarrow> None
      | Some rx \<Rightarrow>
          (case ch_pop rx of
             None \<Rightarrow> None
           | Some (rx1, None) \<Rightarrow> Some (s\<lparr>ss_accept := Some rx1\<rparr>, stream_tx, True)
           | Some (rx1, Some st) \<Rightarrow>
               (case ch_push stream_tx (wrap st) of
                  None \<Rightarrow> None
                | Some (tx1, sent) \<Rightarrow>
                    Some (s\<lparr>ss_accept := Some rx1\<rparr>, tx1, \<not> sent))))"

section \<open>Creating a session\<close>

text \<open>The argument is what \<open>strtol\<close> makes of \<open>BUF_READER_CAPACITY\<close>, if it is set and starts with a number.\<close>

definition buf_reader_capacity :: "int option \<Rightarrow> nat" where
  "buf_reader_capacity parsed =
     (case parsed of Some n \<Rightarrow> if n > 0 then nat n else 33554432 | None \<Rightarrow> 33554432)"

text \<open>
  The state \<open>Session::create\<close> builds once the handshake has given it the managers and the
  version. Memory contents, registry and environment are those of the process at that moment.
\<close>

definition new_session ::
  "config \<Rightarrow> buffer_manager \<Rightarrow> mem \<Rightarrow> queue_manager \<Rightarrow> mem \<Rightarrow> u8 \<Rightarrow> stream channel option \<Rightarrow> bool \<Rightarrow> registry \<Rightarrow> session" where
  "new_session cfg bm m qm qmem version accept_tx debug reg =
     (let client = (accept_tx = None) in
      \<lparr>ss_config = cfg, ss_next_stream_id = (if client then 1 else 2), ss_bm = bm, ss_mem = m, ss_qm = qm,
       ss_qmem = qmem, ss_version = version, ss_name = qm_path qm, ss_pool = [], ss_pool_cap = max_stream_num cfg,
       ss_streams = [], ss_inners = [], ss_is_client = client, ss_shutdown = 0, ss_unhealthy = 0,
       ss_shutdown_err = None, ss_send = make_channel 4096, ss_promises = [], ss_accept = accept_tx,
       ss_accept_attached = False, ss_shutdown_event = False, ss_stats = zero_stats, ss_conn_open = True, ss_sent = [],
       ss_breaker_stop = False, ss_breaker = False, ss_debug_mode = debug, ss_registry = reg, ss_events = []\<rparr>)"

text \<open>The destructor stops the breaker and both channels and shuts the connection down.\<close>

definition destroy_session :: "session \<Rightarrow> session" where
  "destroy_session s =
     s\<lparr>ss_breaker_stop := True, ss_conn_open := False, ss_send := ch_stop (ss_send s),
       ss_accept := (if ss_accept_attached s then map_option ch_stop (ss_accept s) else ss_accept s)\<rparr>"

text \<open>
  \<open>Session::create\<close>. \<open>split\<close> is the result of duplicating the descriptor of the connection; the two
  memories are what the process sees behind its mappings. The loops it starts are the functions above.
\<close>

definition session_create ::
  "host \<Rightarrow> config \<Rightarrow> unit result \<Rightarrow> stream channel option \<Rightarrow> mem \<Rightarrow> mem \<Rightarrow> bool \<Rightarrow> session result io" where
  "session_create hs cfg split accept_tx bmem qmem debug =
     (case verify cfg of
        (c, Inl e) \<Rightarrow> Ret (Inl (other_error (''verify config failed: '' @ message e)))
      | (c, Inr _) \<Rightarrow>
          (case split of
             Inl e \<Rightarrow> Ret (Inl e)
           | Inr _ \<Rightarrow>
               if accept_tx = None
               then (case init_manager (h_arch hs) (h_os hs) (h_registry hs) c bmem qmem of
                       (evs, reg, c1, bmem1, qmem1, Inl e) \<Rightarrow>
                         Effect evs (Ret (Inl (other_error
                           (''create share memory buffer manager failed, error='' @ message e))))
                     | (evs, reg, c1, bmem1, qmem1, Inr (bm, qm)) \<Rightarrow>
                         Effect evs (try_io
                           (init_client_protocol hs (bm_path bm) (bm_memfd bm) (qm_path qm) (qm_memfd qm) (mem_map_type c1))
                           (\<lambda>version. Ret (Inr (new_session c1 bm bmem1 qm qmem1 version None debug reg)))))
               else try_io (init_server_protocol hs) (\<lambda>(reg, bm, qm, version).
                      Ret (Inr (new_session c bm bmem qm qmem version accept_tx debug reg)))))"

end
