(* ===== verification/Session_Types.thy ===== *)
theory Session_Types
  imports Session_Ops
begin

text \<open>
  The type invariant of a session, which every operation keeps, and the order in which stream
  states, the shutdown flag and promises can change. Both hold under anything other
  threads do that keeps them too.
\<close>

section \<open>Invariant and order\<close>

definition handle_ok :: "session \<Rightarrow> stream \<Rightarrow> bool" where
  "handle_ok s st \<longleftrightarrow> st_inner st < length (ss_inners s)"

definition session_ok :: "session \<Rightarrow> bool" where
  "session_ok s \<longleftrightarrow> distinct (map fst (ss_streams s)) \<and> distinct (map (st_inner \<circ> snd) (ss_streams s))
     \<and> (\<forall>(i, st) \<in> set (ss_streams s). st_id st = i \<and> handle_ok s st)
     \<and> (\<forall>st \<in> set (ss_pool s). handle_ok s st)
     \<and> (\<forall>x \<in> set (ss_inners s). si_state x \<in> {kStreamOpened, kStreamClosed, kStreamHalfClosed})
     \<and> ss_shutdown s \<in> {0, 1} \<and> ss_unhealthy s \<in> {0, 1}
     \<and> (\<forall>r \<in> set (ch_queue (ss_send s)). sr_done r < length (ss_promises s))
     \<and> (\<forall>c. ss_accept s = Some c \<longrightarrow> (\<forall>st \<in> set (ch_queue c). handle_ok s st))"

definition may_become :: "u32 \<Rightarrow> u32 \<Rightarrow> bool" where
  "may_become x y \<longleftrightarrow> x = y \<or> x = kStreamOpened \<or> (x = kStreamHalfClosed \<and> y = kStreamClosed)"

definition advances :: "session \<Rightarrow> session \<Rightarrow> bool" where
  "advances s t \<longleftrightarrow> length (ss_inners s) \<le> length (ss_inners t)
     \<and> (\<forall>j < length (ss_inners s). may_become (si_state (ss_inners s ! j)) (si_state (ss_inners t ! j)))
     \<and> (ss_shutdown s = 1 \<longrightarrow> ss_shutdown t = 1)
     \<and> length (ss_promises s) \<le> length (ss_promises t)
     \<and> (ch_stopped (ss_send s) \<longrightarrow> ch_stopped (ss_send t))"

text \<open>A step from \<open>s\<close> to \<open>t\<close> keeps the invariant and goes forward.\<close>

definition goes :: "session \<Rightarrow> session \<Rightarrow> bool" where
  "goes s t \<longleftrightarrow> (session_ok s \<longrightarrow> session_ok t \<and> advances s t)"

lemma may_become_refl [simp]: "may_become x x" by (simp add: may_become_def)

lemma may_become_trans: "may_become x y \<Longrightarrow> may_become y z \<Longrightarrow> may_become x z"
  by (auto simp: may_become_def stream_state_defs)

lemma advances_refl [simp]: "advances s s" by (simp add: advances_def)

lemma advances_trans:
  assumes "advances s t" "advances t u" shows "advances s u"
  using assms unfolding advances_def by (meson le_trans less_le_trans may_become_trans)

lemma goes_refl [simp, intro]: "goes s s" by (simp add: goes_def)

lemma goes_trans [trans]: "goes s t \<Longrightarrow> goes t u \<Longrightarrow> goes s u"
  by (auto simp: goes_def intro: advances_trans)

lemma goes_handle: "goes s t \<Longrightarrow> session_ok s \<Longrightarrow> handle_ok s st \<Longrightarrow> handle_ok t st"
  by (auto simp: goes_def handle_ok_def advances_def)

section \<open>Steps of the state\<close>

text \<open>Changes of fields the invariant does not mention.\<close>

lemma goes_fields [simp]:
  "goes s (s\<lparr>ss_mem := m\<rparr>)" "goes s (s\<lparr>ss_qmem := m\<rparr>)" "goes s (s\<lparr>ss_stats := x\<rparr>)"
  "goes s (s\<lparr>ss_shutdown_err := e\<rparr>)" "goes s (s\<lparr>ss_shutdown_event := b\<rparr>)" "goes s (s\<lparr>ss_next_stream_id := i\<rparr>)"
  "goes s (s\<lparr>ss_registry := r\<rparr>)" "goes s (s\<lparr>ss_events := evs\<rparr>)" "goes s (s\<lparr>ss_conn_open := b\<rparr>)"
  "goes s (s\<lparr>ss_accept_attached := b\<rparr>)" "goes s (bump f s)" "goes s (sent_bytes bs s)"
  by (simp_all add: goes_def session_ok_def handle_ok_def advances_def bump_def sent_bytes_def)

lemma inner_simps [simp]:
  "inner (s\<lparr>ss_mem := m\<rparr>) st = inner s st" "inner (s\<lparr>ss_qmem := m\<rparr>) st = inner s st" "inner (bump f s) st = inner s st"
  "inner (s\<lparr>ss_streams := x\<rparr>) st = inner s st"
  by (simp_all add: inner_def bump_def)

lemma inner_set_inner [simp]: "handle_ok s st \<Longrightarrow> inner (set_inner s st i) st = i"
  by (simp add: inner_def set_inner_def handle_ok_def)

lemma goes_set_inner:
  assumes "may_become (si_state (inner s st)) (si_state i)" "si_state i \<in> {kStreamOpened, kStreamClosed, kStreamHalfClosed}"
  shows "goes s (set_inner s st i)"
proof -
  let ?xs = "(ss_inners s)[st_inner st := i]"
  have "may_become (si_state (ss_inners s ! j)) (si_state (?xs ! j))" if "j < length (ss_inners s)" for j
    using that assms(1) by (cases "j = st_inner st") (simp_all add: inner_def)
  moreover have "\<forall>x \<in> set ?xs. si_state x \<in> {kStreamOpened, kStreamClosed, kStreamHalfClosed}"
    if "\<forall>x \<in> set (ss_inners s). si_state x \<in> {kStreamOpened, kStreamClosed, kStreamHalfClosed}"
    using that assms(2) set_update_subset_insert [of "ss_inners s" "st_inner st" i] by blast
  ultimately show ?thesis
    by (simp add: goes_def session_ok_def handle_ok_def advances_def set_inner_def)
qed

lemma state_ok: "session_ok s \<Longrightarrow> handle_ok s st \<Longrightarrow> si_state (inner s st) \<in> {kStreamOpened, kStreamClosed, kStreamHalfClosed}"
  by (auto simp: session_ok_def handle_ok_def inner_def)

text \<open>Updating an inner without touching its state.\<close>

lemma goes_set_inner_same:
  assumes "si_state i = si_state (inner s st)" shows "goes s (set_inner s st i)"
proof (cases "session_ok s \<and> handle_ok s st")
  case True
  then show ?thesis using goes_set_inner [of s st i] state_ok [of s st] assms by simp
next
  case False
  then show ?thesis
    by (auto simp: goes_def set_inner_def handle_ok_def list_update_beyond)
qed

lemma goes_close_inner: "goes s (set_inner s st (i\<lparr>si_state := kStreamClosed\<rparr>))" if "si_state i = si_state (inner s st)"
proof (cases "session_ok s \<and> handle_ok s st")
  case True
  then have "may_become (si_state (inner s st)) kStreamClosed"
    using state_ok [of s st] by (auto simp: may_become_def)
  then show ?thesis using goes_set_inner [of s st "i\<lparr>si_state := kStreamClosed\<rparr>"] by simp
next
  case False
  then show ?thesis by (auto simp: goes_def set_inner_def handle_ok_def list_update_beyond)
qed

text \<open>The same facts in the form in which a run of several changes is put together.\<close>

lemmas goes_after = goes_trans [rotated]

lemmas step_fields [simp] = goes_fields [THEN goes_after]

lemma step_inner [simp]: "goes r s \<Longrightarrow> si_state i = si_state (inner s st) \<Longrightarrow> goes r (set_inner s st i)"
  by (rule goes_trans, assumption, rule goes_set_inner_same)

definition others_ok :: "others \<Rightarrow> bool" where
  "others_ok others \<longleftrightarrow> (\<forall>s. goes s (others s))"

lemma step_awaited [simp]: "others_ok others \<Longrightarrow> goes r s \<Longrightarrow> goes r (awaited others p s)"
  by (auto simp: others_ok_def awaited_def intro: goes_trans)

lemma goes_set_promise [simp]: "goes s (set_promise t p s)"
  by (simp add: goes_def session_ok_def handle_ok_def advances_def set_promise_def)

lemma goes_add_promise: "goes s (s\<lparr>ss_promises := ss_promises s @ [p]\<rparr>)"
  by (auto simp: goes_def session_ok_def handle_ok_def advances_def)

lemma goes_enqueue:
  "sr_done x < length (ss_promises s) \<Longrightarrow> goes s (s\<lparr>ss_send := (ss_send s)\<lparr>ch_queue := ch_queue (ss_send s) @ [x]\<rparr>\<rparr>)"
  by (auto simp: goes_def session_ok_def handle_ok_def advances_def)

lemma goes_unchanged_send: "goes s (s\<lparr>ss_send := ss_send s\<rparr>)" by simp

text \<open>The ticket of a promise stays valid whatever the others do meanwhile.\<close>

lemma promise_kept:
  assumes "others_ok others" "session_ok s"
  shows "length (ss_promises s) < length (ss_promises (awaited others p (s\<lparr>ss_promises := ss_promises s @ [x]\<rparr>)))"
    (is "_ < length (ss_promises ?t)")
proof -
  let ?s = "s\<lparr>ss_promises := ss_promises s @ [x]\<rparr>"
  have "session_ok ?s" using goes_add_promise [of s x] assms(2) by (simp add: goes_def)
  moreover have "goes ?s ?t" using assms(1) by simp
  ultimately have "length (ss_promises ?s) \<le> length (ss_promises ?t)" by (simp add: goes_def advances_def)
  then show ?thesis by simp
qed

lemma push_goes:
  assumes "others_ok others" "session_ok s" "t = awaited others p (s\<lparr>ss_promises := ss_promises s @ [Pending]\<rparr>)"
    "c = ss_send t \<or> c = (ss_send t)\<lparr>ch_queue := ch_queue (ss_send t) @ [x]\<rparr>" "sr_done x = length (ss_promises s)"
  shows "goes s (t\<lparr>ss_send := c\<rparr>)"
proof -
  have t: "goes s t" unfolding assms(3) using assms(1) goes_add_promise by simp
  have "goes t (t\<lparr>ss_send := c\<rparr>)"
    using assms(4) promise_kept [OF assms(1,2), of p Pending] assms(5)
    by (auto simp: assms(3) [symmetric] intro: goes_enqueue)
  with t show ?thesis by (rule goes_trans)
qed

lemma wait_for_send_goes:
  assumes "others_ok others" "wait_for_send others s hdr body = Some (t, r)" "goes r0 s"
  shows "goes r0 t"
proof -
  let ?x = "\<lparr>sr_hdr = (case hdr of Some h \<Rightarrow> h | None \<Rightarrow> []), sr_body = body, sr_done = length (ss_promises s)\<rparr>"
  let ?s2 = "awaited others can_send (s\<lparr>ss_promises := ss_promises s @ [Pending]\<rparr>)"
  have "goes s t" if ok: "session_ok s"
  proof -
    obtain c sent where c: "ch_push_timeout (ss_send ?s2) ?x = (c, sent)" by fastforce
    then have "c = ss_send ?s2 \<or> c = (ss_send ?s2)\<lparr>ch_queue := ch_queue (ss_send ?s2) @ [?x]\<rparr>"
      by (auto simp: ch_push_timeout_def split: if_splits)
    from push_goes [OF assms(1) ok refl this] have "goes s (?s2\<lparr>ss_send := c\<rparr>)" by simp
    with assms(1,2) c show ?thesis
      by (auto simp: wait_for_send_def add_promise_def Let_def split: if_splits promise.splits)
  qed
  then have "goes s t" by (simp add: goes_def)
  with assms(3) show ?thesis by (rule goes_trans)
qed

lemma wake_up_peer_goes:
  assumes "others_ok others" "wake_up_peer others s = Some (t, r)" "goes r0 s"
  shows "goes r0 t"
proof -
  obtain m marked where m: "mark_working (qm_send_queue (ss_qm s)) (ss_qmem s) = (m, marked)" by fastforce
  define s2 where "s2 = bump (\<lambda>c. c\<lparr>send_polling_event_count := send_polling_event_count c + 1\<rparr>) (s\<lparr>ss_qmem := m\<rparr>)"
  let ?x = "\<lparr>sr_hdr = [], sr_body = polling_event_with_version ! unat (ss_version s), sr_done = length (ss_promises s2)\<rparr>"
  let ?s4 = "awaited others can_send (s2\<lparr>ss_promises := ss_promises s2 @ [Pending]\<rparr>)"
  have s2: "goes s s2" unfolding s2_def by simp
  have "goes s t" if ok: "session_ok s"
  proof (cases marked)
    case False
    then show ?thesis using assms(2) m by (auto simp: wake_up_peer_def)
  next
    case True
    with assms(2) m obtain c sent where c: "ch_push (ss_send ?s4) ?x = Some (c, sent)" "t = ?s4\<lparr>ss_send := c\<rparr>"
      by (auto simp: wake_up_peer_def add_promise_def Let_def s2_def split: if_splits option.splits)
    then have "c = ss_send ?s4 \<or> c = (ss_send ?s4)\<lparr>ch_queue := ch_queue (ss_send ?s4) @ [?x]\<rparr>"
      by (auto simp: ch_push_def split: if_splits)
    moreover have "session_ok s2" using s2 ok by (simp add: goes_def)
    ultimately have "goes s2 t" unfolding c(2) using push_goes [OF assms(1) _ refl, of s2 c can_send ?x] by simp
    with s2 show ?thesis by (rule goes_trans)
  qed
  then have "goes s t" by (simp add: goes_def)
  with assms(3) show ?thesis by (rule goes_trans)
qed

lemma open_circuit_breaker_goes [simp]: "goes r s \<Longrightarrow> goes r (open_circuit_breaker s)"
  by (rule goes_trans, assumption)
    (auto simp: goes_def session_ok_def handle_ok_def advances_def open_circuit_breaker_def)

lemma on_stream_close_goes [simp]: "goes r s \<Longrightarrow> goes r (on_stream_close i s)"
  by (rule goes_trans, assumption)
    (auto simp: goes_def session_ok_def handle_ok_def advances_def on_stream_close_def distinct_map_filter)

section \<open>Stream operations\<close>

lemma move_pending_data_goes: "move_pending_data s st = Some t \<Longrightarrow> goes r s \<Longrightarrow> goes r t"
  by (auto simp: move_pending_data_def Let_def split: if_splits option.splits prod.splits)

lemma read_wait_goes: "read_wait wakes s st n = Some (t, x) \<Longrightarrow> list_all others_ok wakes \<Longrightarrow> goes r s \<Longrightarrow> goes r t"
proof (induction wakes arbitrary: s)
  case Nil
  then show ?case
    by (subst (asm) read_wait.simps)
      (auto simp: Let_def split: if_splits option.splits dest: move_pending_data_goes [OF _ Nil(3)])
next
  case (Cons w ws)
  have w: "goes r u \<Longrightarrow> goes r (w u)" for u using Cons.prems(2) by (auto simp: others_ok_def intro: goes_trans)
  have ws: "list_all others_ok ws" using Cons.prems(2) by simp
  from Cons.prems(1) show ?case
    by (subst (asm) read_wait.simps)
      (auto simp: Let_def Cons.prems(3) ws w split: if_splits option.splits
        dest: move_pending_data_goes [OF _ Cons.prems(3)] dest!: Cons.IH)
qed

lemma read_more_goes:
  assumes "read_more wakes s st n = Some (t, x)" "list_all others_ok wakes" "goes r s" shows "goes r t"
  using assms by (auto simp: read_more_def Let_def split: option.splits if_splits
    dest: move_pending_data_goes read_wait_goes)

lemma on_recv_goes: "on_recv s st x = Some (t, y) \<Longrightarrow> goes r s \<Longrightarrow> goes r t"
  by (auto simp: on_recv_def)

lemma on_send_goes: "on_send s st x = Some (t, y) \<Longrightarrow> goes r s \<Longrightarrow> goes r t"
  by (auto simp: on_send_def)

lemma ensure_then_goes:
  assumes "ensure_then wakes s st short n k = Some (t, x)" "list_all others_ok wakes" "goes r s"
    and "\<And>u. k u = Some (t, x) \<Longrightarrow> goes r u \<Longrightarrow> goes r t"
  shows "goes r t"
  using assms(1) read_more_goes [OF _ assms(2,3)] assms(3,4)
  by (auto simp: ensure_then_def split: if_splits option.splits sum.splits)

lemma recycle_goes:
  "recycle_send s st = Some t \<Longrightarrow> goes r s \<Longrightarrow> goes r t"
  "clean_send s st = Some t \<Longrightarrow> goes r s \<Longrightarrow> goes r t"
  "recycle_recv s st = Some t \<Longrightarrow> goes r s \<Longrightarrow> goes r t"
  by (auto simp: recycle_send_def clean_send_def recycle_recv_def dest: on_send_goes on_recv_goes)

lemma recycle_and_fail_goes: "recycle_and_fail s st e = Some (t, x) \<Longrightarrow> goes r s \<Longrightarrow> goes r t"
  by (auto simp: recycle_and_fail_def dest: recycle_goes)

lemma write_fallback_goes:
  assumes "others_ok others" "write_fallback others s st state = Some (t, x)" "goes r s" shows "goes r t"
proof -
  have k: "goes r (bump f (open_circuit_breaker u))" if "recycle_send s st = Some u" for f u
    using recycle_goes(1) [OF that assms(3)] by simp
  show ?thesis using assms(2)
    by (auto simp: write_fallback_def Let_def split: if_splits option.splits
      dest: recycle_goes [OF _ assms(3)] wait_for_send_goes [OF assms(1) _ k])
qed

lemma put_and_wake_goes:
  assumes "others_ok others" "put_and_wake others s st m = Some (t, x)" "goes r s" shows "goes r t"
proof -
  from assms(2) obtain u y where u: "wake_up_peer others (s\<lparr>ss_qmem := m\<rparr>) = Some (u, y)" "clean_send u st = Some t"
    by (auto simp: put_and_wake_def split: option.splits prod.splits)
  have "goes r u" by (rule wake_up_peer_goes [OF assms(1) u(1)]) (simp add: assms(3))
  then show ?thesis by (rule recycle_goes(2) [OF u(2)])
qed

lemma flush_retry_goes:
  assumes "others_ok others" "\<forall>k. others_ok (waits k)"
  shows "flush_retry others waits k s st state = Some (t, x) \<Longrightarrow> goes r s \<Longrightarrow> goes r t"
proof (induction k arbitrary: s)
  case (Suc k)
  have g: "goes r (waits k s)" using assms(2) Suc.prems(2) by (auto simp: others_ok_def intro: goes_trans)
  from Suc.prems(1) show ?case
    by (auto simp: Let_def split: if_splits prod.splits sum.splits
      dest: recycle_and_fail_goes [OF _ g] put_and_wake_goes [OF assms(1) _ g] Suc.IH [OF _ g])
qed (auto dest: recycle_and_fail_goes)

lemma flush_send_goes:
  assumes "others_ok others" "\<forall>k. others_ok (waits k)" "flush_send others waits s st state = Some (t, x)" "goes r s"
  shows "goes r t"
proof (cases "si_in_fallback_state (inner s st)")
  case True
  with assms(3) obtain u y where u: "write_fallback others s st state = Some (u, y)" "clean_send u st = Some t"
    by (auto simp: flush_send_def split: option.splits)
  then show ?thesis using write_fallback_goes [OF assms(1) u(1) assms(4)] recycle_goes(2) by blast
next
  case False
  then show ?thesis using assms(3,4)
    by (auto simp: flush_send_def split: prod.splits sum.splits if_splits
      dest: recycle_and_fail_goes put_and_wake_goes [OF assms(1)] flush_retry_goes [OF assms(1,2) _ step_fields(11) [OF assms(4)]])
qed

lemma enter_fallback_goes [simp]: "goes r s \<Longrightarrow> goes r (enter_fallback s st)"
  by (simp add: enter_fallback_def)

lemma flush_goes:
  assumes "others_ok others" "\<forall>k. others_ok (waits k)" "flush others waits s st b = Some (t, x)" "goes r s"
  shows "goes r t"
proof -
  define s1 where "s1 = bump (\<lambda>c. c\<lparr>out_flow_bytes := out_flow_bytes c + of_nat (lb_len (send_buf s st))\<rparr>) s"
  have s1: "goes r s1" using assms(4) by (simp add: s1_def)
  have fb: "goes r (enter_fallback u st)" if "on_send s1 st y = Some (u, ())" for u y
    using on_send_goes [OF that s1] by simp
  show ?thesis using assms(3,4)
    by (auto simp: flush_def Let_def s1_def [symmetric] split: if_splits option.splits
      dest: recycle_and_fail_goes [OF _ s1] flush_send_goes [OF assms(1,2) _ fb])
qed

section \<open>Closing\<close>

lemma clean_pending_data_goes: "clean_pending_data s st = Some t \<Longrightarrow> goes r s \<Longrightarrow> goes r t"
  by (auto simp: clean_pending_data_def Let_def)

lemma clean_goes:
  assumes "clean s st = Some t" "goes r s" shows "goes r t"
proof -
  have "goes r (on_stream_close (st_id st) s)" using assms(2) by simp
  with assms(1) show ?thesis
    by (auto simp: clean_def split: option.splits dest: clean_pending_data_goes recycle_goes)
qed

lemma stream_close_goes:
  assumes "others_ok others" "stream_close others s st = Some (t, x)" "goes r s"
  shows "goes r t"
proof -
  define s1 where "s1 = set_inner s st ((inner s st)\<lparr>si_state := kStreamClosed\<rparr>)"
  have s1: "goes r s1" unfolding s1_def by (rule goes_trans [OF assms(3) goes_close_inner]) simp
  have s2: "goes r (u\<lparr>ss_qmem := q\<rparr>)" "goes r (bump f u)" "goes r u" if "clean s1 st = Some u" for u q f
    using clean_goes [OF that s1] by simp_all
  show ?thesis using assms(2) s1
    by (auto simp: stream_close_def Let_def s1_def [symmetric] split: if_splits option.splits prod.splits sum.splits
      dest: clean_goes [OF _ s1] wait_for_send_goes [OF assms(1) _ s2(2)] wait_for_send_goes [OF assms(1) _ s2(3)]
        wake_up_peer_goes [OF assms(1) _ s2(1)])
qed

lemma release_read_and_reuse_goes: "release_read_and_reuse s st = Some t \<Longrightarrow> goes r s \<Longrightarrow> goes r t"
  by (auto simp: release_read_and_reuse_def Let_def split: option.splits prod.splits)

lemma stream_reset_goes: "stream_reset s st = (t, x) \<Longrightarrow> goes r s \<Longrightarrow> goes r t"
  by (auto simp: stream_reset_def Let_def split: if_splits)

lemma half_close_goes [simp]: "goes r s \<Longrightarrow> goes r (half_close s st)"
  by (rule goes_trans, assumption) (auto simp: half_close_def may_become_def intro: goes_set_inner)

lemma fill_data_goes: "fill_data_to_read_buffer s st w = Some (t, x) \<Longrightarrow> goes r s \<Longrightarrow> goes r t"
  by (auto simp: fill_data_to_read_buffer_def Let_def split: if_splits option.splits
    dest!: clean_pending_data_goes [where r = r] recycle_goes(3) [where r = r])

section \<open>Session operations\<close>

lemma goes_new_stream:
  assumes "new_stream s i sid = (t, st)" shows "goes s t" "handle_ok t st" "st_id st = i"
  using assms by (auto simp: new_stream_def goes_def session_ok_def handle_ok_def advances_def new_stream_inner_def
    nth_append less_Suc_eq)

lemma goes_insert_stream:
  "handle_ok s st \<Longrightarrow> st_id st = i \<Longrightarrow> st_inner st \<notin> st_inner ` snd ` set (ss_streams s) \<Longrightarrow> goes s (insert_stream i st s)"
  by (auto simp: insert_stream_def goes_def session_ok_def handle_ok_def advances_def map_of_eq_None_iff)

lemma goes_insert_new: "new_stream s i sid = (t, st) \<Longrightarrow> goes s (insert_stream i st t)"
proof -
  assume n: "new_stream s i sid = (t, st)"
  have "st_inner st \<notin> st_inner ` snd ` set (ss_streams t)" if "session_ok s"
    using n that by (force simp: new_stream_def session_ok_def handle_ok_def)
  then have "session_ok s \<Longrightarrow> goes s (insert_stream i st t)"
    using goes_new_stream [OF n] goes_insert_stream [of t st i] by (blast intro: goes_trans)
  then show ?thesis by (simp add: goes_def)
qed

lemma goes_new_entry:
  "new_stream s i sid = (t, st) \<Longrightarrow> goes r s \<Longrightarrow> goes r (insert_stream i st t)"
  by (rule goes_after [OF goes_insert_new])

lemma goes_pool: "set sts \<subseteq> set (ss_pool s) \<union> {st. handle_ok s st} \<Longrightarrow> goes s (s\<lparr>ss_pool := sts\<rparr>)"
  by (auto simp: goes_def session_ok_def handle_ok_def advances_def)

lemma pool_push_goes:
  assumes "others_ok others" "pool_push others s st = Some (t, x)" "handle_ok s st"
  shows "goes s t"
proof (cases "length (ss_pool s) < ss_pool_cap s")
  case True
  then show ?thesis using assms(2,3) goes_pool [of "ss_pool s @ [st]" s] by (auto simp: pool_push_def)
next
  case False
  then show ?thesis using assms(2) by (auto simp: pool_push_def dest: stream_close_goes [OF assms(1)])
qed

lemma pool_pop_goes: "pool_pop s = (t, x) \<Longrightarrow> goes s t"
  using goes_pool [of "tl (ss_pool s)" s] by (auto simp: pool_pop_def split: list.splits)

text \<open>What holds of the pool's session and is kept by taking and closing a stream holds when the loop ends.\<close>

lemma pool_close_keeps:
  assumes "pool_close others s = Some t" "P s"
    and pop: "\<And>s s1 x. P s \<Longrightarrow> pool_pop s = (s1, x) \<Longrightarrow> P s1"
    and close: "\<And>s st t x. P s \<Longrightarrow> stream_close others s st = Some (t, x) \<Longrightarrow> P t"
  shows "P t"
proof -
  have "others' = others \<longrightarrow> P s \<longrightarrow> P t" if "pool_close others' s = Some t" for others' s
  proof (rule pool_close.raw_induct [OF _ that], intro impI)
    fix pc others' s t
    assume ih: "\<And>others' s t. pc others' s = Some t \<Longrightarrow> others' = others \<longrightarrow> P s \<longrightarrow> P t"
      and eq: "(case pool_pop s of
        (s1, None) \<Rightarrow> Some s1
      | (s1, Some st) \<Rightarrow>
          (case stream_close others' s1 st of
             None \<Rightarrow> None
           | Some (s2, r) \<Rightarrow> pc others' s2)) = Some t"
      and o: "others' = others" and g: "P s"
    obtain s1 x where p: "pool_pop s = (s1, x)" by fastforce
    have g: "P s1" by (rule pop [OF g p])
    show "P t"
    proof (cases x)
      case None
      then show ?thesis using eq p g by simp
    next
      case (Some st)
      with eq p o obtain s2 y where s2: "stream_close others s1 st = Some (s2, y)" "pc others s2 = Some t"
        by (auto split: option.splits)
      show ?thesis using ih [OF s2(2)] close [OF g s2(1)] by blast
    qed
  qed
  with assms show ?thesis by blast
qed

lemma pool_close_goes:
  assumes "pool_close others s = Some t" "others_ok others" "goes r s"
  shows "goes r t"
  using assms(1,3)
proof (rule pool_close_keeps)
  show "goes r s1" if "goes r s" "pool_pop s = (s1, x)" for s s1 x
    using pool_pop_goes [OF that(2)] that(1) by (rule goes_after)
  show "goes r t" if "goes r s" "stream_close others s st = Some (t, x)" for s st t x
    using stream_close_goes [OF assms(2) that(2,1)] .
qed

lemma open_stream_goes:
  assumes "open_stream s n = (t, x)" "goes r s" shows "goes r t"
proof -
  note g = goes_new_entry [OF _ step_fields(6) [OF assms(2)]]
  show ?thesis using assms by (auto simp: open_stream_def Let_def split: if_splits prod.splits dest: g)
qed

lemma pool_take_open_subset: "pool_take_open sts s = (sts', x) \<Longrightarrow> set sts' \<subseteq> set sts"
  by (induction sts) (auto split: if_splits)

lemma get_or_open_stream_goes: "get_or_open_stream s n = (t, x) \<Longrightarrow> goes s t"
  using goes_pool [of _ s] pool_take_open_subset [of "ss_pool s" s]
  by (auto simp: get_or_open_stream_def split: if_splits prod.splits option.splits dest: open_stream_goes)

lemma put_or_close_stream_goes:
  assumes "others_ok others" "put_or_close_stream others s st = Some t" "handle_ok s st"
  shows "goes s t"
proof -
  have "goes s t" if ok: "session_ok s" and r: "stream_reset s st = (s1, Inr ())"
    and u: "release_read_and_reuse s1 st = Some s2" "pool_push others s2 st = Some (t, x)" for s1 s2 x
  proof -
    have g: "goes s s2" using stream_reset_goes [OF r goes_refl] release_read_and_reuse_goes [OF u(1)] by blast
    then have "handle_ok s2 st" using ok assms(3) by (rule goes_handle)
    with g pool_push_goes [OF assms(1) u(2)] show ?thesis by (blast intro: goes_trans)
  qed
  then have "session_ok s \<Longrightarrow> goes s t"
    using assms(2) stream_close_goes [OF assms(1)] stream_reset_goes [of s st]
    by (auto simp: put_or_close_stream_def split: if_splits prod.splits sum.splits option.splits)
  then show ?thesis by (simp add: goes_def)
qed

lemma close_all_goes:
  assumes "others_ok others" shows "close_all others s sts = Some t \<Longrightarrow> goes r s \<Longrightarrow> goes r t"
  by (induction sts arbitrary: s) (auto split: option.splits dest: stream_close_goes [OF assms])

lemma goes_shutdown: "goes s (s\<lparr>ss_shutdown := 1\<rparr>)"
  by (auto simp: goes_def session_ok_def handle_ok_def advances_def)

lemma goes_no_streams: "goes s (s\<lparr>ss_streams := []\<rparr>)"
  by (auto simp: goes_def session_ok_def handle_ok_def advances_def)

lemma goes_stop: "goes s (s\<lparr>ss_registry := reg, ss_events := evs, ss_send := ch_stop (ss_send s),
    ss_accept := (if b then map_option ch_stop (ss_accept s) else ss_accept s), ss_conn_open := False\<rparr>)"
  by (auto simp: goes_def session_ok_def handle_ok_def advances_def ch_stop_def)

lemma session_close_shuts:
  assumes "others_ok others" "session_close others s = Some t" "ss_shutdown s = 0"
  shows "goes (s\<lparr>ss_shutdown := 1\<rparr>) t"
proof -
  let ?r = "s\<lparr>ss_shutdown := 1\<rparr>"
  obtain s1 s4 where
    s1: "pool_close others ?r = Some s1"
    and s4: "close_all others (s1\<lparr>ss_shutdown_event := True, ss_streams := []\<rparr>) (map snd (ss_streams s1)) = Some s4"
    and t: "\<exists>reg evs. t = s4\<lparr>ss_registry := reg, ss_events := evs, ss_send := ch_stop (ss_send s4),
      ss_accept := (if ss_accept_attached s4 then map_option ch_stop (ss_accept s4) else ss_accept s4), ss_conn_open := False\<rparr>"
    using assms(2,3) by (auto simp: session_close_def Let_def split: option.splits prod.splits)
  have "goes ?r s1" by (rule pool_close_goes [OF s1 assms(1) goes_refl])
  then have "goes ?r (s1\<lparr>ss_shutdown_event := True\<rparr>)" by simp
  from goes_trans [OF this goes_no_streams] have "goes ?r (s1\<lparr>ss_shutdown_event := True, ss_streams := []\<rparr>)" by simp
  from close_all_goes [OF assms(1) s4 this] t show ?thesis by (auto intro: goes_trans goes_stop)
qed

lemma session_close_goes:
  assumes "others_ok others" "session_close others s = Some t" "goes r s"
  shows "goes r t"
proof (cases "ss_shutdown s = 0")
  case False
  then show ?thesis using assms(2,3) by (simp add: session_close_def)
next
  case True
  show ?thesis
    by (rule goes_trans [OF goes_trans [OF assms(3) goes_shutdown] session_close_shuts [OF assms(1,2) True]])
qed

lemma session_close_closed:
  assumes "others_ok others" "session_close others s = Some t" "session_ok s"
  shows "is_closed t" "session_ok t"
proof -
  show "session_ok t" using session_close_goes [OF assms(1,2) goes_refl] assms(3) by (simp add: goes_def)
  show "is_closed t"
  proof (cases "ss_shutdown s = 0")
    case False
    then show ?thesis using assms(2,3) by (simp add: session_close_def is_closed_def session_ok_def)
  next
    case True
    have "session_ok (s\<lparr>ss_shutdown := 1\<rparr>)" using goes_shutdown [of s] assms(3) by (simp add: goes_def)
    then show ?thesis using session_close_shuts [OF assms(1,2) True] by (simp add: goes_def advances_def is_closed_def)
  qed
qed

lemma exit_err_goes:
  assumes "others_ok others" "exit_err others s e = Some t" "goes r s" shows "goes r t"
  using session_close_goes [OF assms(1) assms(2) [unfolded exit_err_def]] assms(3) by simp

lemma get_stream_goes:
  assumes "others_ok others" "get_stream others s i state = Some (t, x)" "goes r s"
  shows "goes r t"
proof -
  obtain s1 st where n: "new_stream s i 0 = (s1, st)" by fastforce
  let ?s2 = "awaited others can_accept (insert_stream i st s1)"
  have g: "goes r ?s2" using goes_new_entry [OF n assms(3)] assms(1) by simp
  have push: "goes r (?s2\<lparr>ss_accept := Some c'\<rparr>)"
    if c: "ss_accept ?s2 = Some c" "ch_push c st = Some (c', sent)" for c c' sent
  proof -
    have "goes ?s2 (?s2\<lparr>ss_accept := Some c'\<rparr>)" if "handle_ok ?s2 st"
      using c that by (auto simp: goes_def session_ok_def handle_ok_def advances_def ch_push_def split: if_splits)
    moreover have "handle_ok ?s2 st" if "session_ok r"
    proof -
      let ?i = "insert_stream i st s1"
      have "session_ok ?i" using goes_new_entry [OF n assms(3)] that by (simp add: goes_def)
      moreover have "handle_ok ?i st" using goes_new_stream(2) [OF n] by (simp add: insert_stream_def handle_ok_def)
      moreover have "goes ?i ?s2" using assms(1) by simp
      ultimately show ?thesis by (metis goes_handle)
    qed
    ultimately show ?thesis using g by (auto simp: goes_def intro: advances_trans)
  qed
  show ?thesis using assms(2,3) g push n
    by (auto simp: get_stream_def Let_def split: option.splits if_splits)
qed

lemma handle_stream_message_goes: "handle_stream_message s st w x = Some (t, y) \<Longrightarrow> goes r s \<Longrightarrow> goes r t"
  by (auto simp: handle_stream_message_def split: if_splits dest: fill_data_goes)

lemma polling_inner_goes:
  assumes "polling_inner others s e = Some t" "others_ok others" "goes r s"
  shows "goes r (fst t)"
proof -
  have "others_ok others \<longrightarrow> goes r s \<longrightarrow> goes r (fst t)"
  proof (rule polling_inner.raw_induct [OF _ assms(1)], goal_cases)
    case (1 pin others s e t)
    obtain q x where p: "pop (qm_recv_queue (ss_qm s)) (ss_qmem s) = (q, x)" by fastforce
    show ?case
    proof (intro impI)
      assume o: "others_ok others" and g0: "goes r s"
      have g: "goes r (s\<lparr>ss_qmem := q\<rparr>)" using g0 by simp
      show "goes r (fst t)"
      proof (cases x)
        case (Inl err)
        then show ?thesis using 1(2) p g by auto
      next
        case (Inr ele)
        have gs: "goes r s1" if "get_stream others (s\<lparr>ss_qmem := q\<rparr>) (seq_id ele) (status ele AND 255) = Some (s1, y)" for s1 y
          by (rule get_stream_goes [OF o that g])
        have ih: "pin others u y = Some t \<Longrightarrow> goes r u \<Longrightarrow> goes r (fst t)" for u y using 1(1) o by blast
        show ?thesis using 1(2) p Inr
          by (auto simp: Let_def split: option.splits sum.splits if_splits dest!: gs handle_stream_message_goes ih)
      qed
    qed
  qed
  with assms(2,3) show ?thesis by blast
qed

lemma polling_outer_goes:
  assumes "others_ok others"
  shows "polling_outer others yields s e = Some (t, x) \<Longrightarrow> list_all others_ok yields \<Longrightarrow> goes r s \<Longrightarrow> goes r t"
proof (induction yields arbitrary: s e)
  case Nil
  then show ?case
    by (subst (asm) polling_outer.simps) (auto split: option.splits bool.splits dest: polling_inner_goes [OF _ assms])
next
  case (Cons y ys)
  have k: "goes r (y u)" if "polling_inner others s e = Some (u, e1, b)" for u e1 b
    using polling_inner_goes [OF that assms Cons.prems(3)] Cons.prems(2) by (auto simp: others_ok_def intro: goes_trans)
  have k': "goes r ((y u)\<lparr>ss_qmem := q\<rparr>)" if "polling_inner others s e = Some (u, e1, b)" for u e1 b q using k [OF that] by simp
  have ih: "polling_outer others ys u e1 = Some (t, x) \<Longrightarrow> goes r u \<Longrightarrow> goes r t" for u e1
    using Cons.IH Cons.prems(2) by simp
  from Cons.prems(1,3) show ?case
    by (subst (asm) polling_outer.simps)
      (auto simp: Let_def split: option.splits bool.splits prod.splits if_splits
        dest: k' polling_inner_goes [OF _ assms] ih [OF _ k'])
qed

lemma handle_polling_goes:
  assumes "others_ok others" "list_all others_ok yields" "handle_polling others yields s = Some (t, x)" "goes r s"
  shows "goes r t"
  using polling_outer_goes [OF assms(1) assms(3) [unfolded handle_polling_def] assms(2)] assms(4) by simp

lemma handle_stream_close_goes: "handle_stream_close s buf = (t, x) \<Longrightarrow> goes r s \<Longrightarrow> goes r t"
  by (auto simp: handle_stream_close_def Let_def split: if_splits option.splits)

lemma handle_fallback_data_goes:
  assumes "others_ok others" "handle_fallback_data others s h buf = Some (t, x)" "goes r s"
  shows "goes r t"
proof -
  have k: "goes r u" if "get_stream others (bump f (open_circuit_breaker s)) i y = Some (u, z)" for f i y u z
    by (rule get_stream_goes [OF assms(1) that]) (simp add: assms(3))
  show ?thesis using assms(2,3)
    by (auto simp: handle_fallback_data_def Let_def split: if_splits option.splits prod.splits
      dest: k handle_stream_message_goes [OF _ k])
qed

definition world_ok :: "world \<Rightarrow> bool" where
  "world_ok w \<longleftrightarrow> others_ok (wd_others w) \<and> list_all others_ok (wd_yields w)"

lemma handle_event_goes:
  assumes "world_ok w" "handle_event w s buf = Some (t, x)" "goes r s"
  shows "goes r t"
  using assms unfolding world_ok_def
  by (cases "handle_stream_close s (drop kHeaderSize buf)")
    (auto simp: handle_event_def Let_def split: if_splits
      dest: handle_polling_goes handle_stream_close_goes handle_fallback_data_goes)

lemma events_loop_goes:
  assumes "events_loop w s buf n = Some t" "world_ok w" "goes r s"
  shows "goes r (fst t)"
proof -
  have "world_ok w \<longrightarrow> goes r s \<longrightarrow> goes r (fst t)"
  proof (rule events_loop.raw_induct [OF _ assms(1)], intro impI, goal_cases)
    case (1 el w s buf n t)
    have ih: "el w u buf k = Some t \<Longrightarrow> goes r u \<Longrightarrow> goes r (fst t)" for u k using 1(1,3) by blast
    have he: "goes r u" if "handle_event w s b = Some (u, y)" for u y b
      by (rule handle_event_goes [OF 1(3) that 1(4)])
    show ?case using 1(2,4)
      by (auto simp: Let_def split: if_splits option.splits sum.splits dest!: he ih)
  qed
  with assms(2,3) show ?thesis by blast
qed

lemma handle_events_goes:
  assumes "world_ok w" "handle_events w s buf = Some (t, x)" "goes r s" shows "goes r t"
  using events_loop_goes [OF assms(2) [unfolded handle_events_def] assms(1,3)] by simp

lemma goes_dequeue: "ch_pop (ss_send s) = Some (c, x) \<Longrightarrow> goes s (s\<lparr>ss_send := c\<rparr>)"
  by (auto simp: ch_pop_def goes_def session_ok_def handle_ok_def advances_def split: if_splits list.splits)

lemma step_promise [simp]: "goes r s \<Longrightarrow> goes r (set_promise t p s)"
  by (rule goes_trans [OF _ goes_set_promise])

lemma write_loop_goes:
  "others_ok others \<Longrightarrow> session_write_loop others s as = Some (t, x) \<Longrightarrow> goes r s \<Longrightarrow> goes r t"
proof (induction others s as rule: session_write_loop.induct)
  case (1 others s as)
  show ?case
  proof (cases "ch_pop (ss_send s)")
    case None
    then show ?thesis using 1(3,4) by (simp add: session_write_loop.simps [of others s])
  next
    case (Some p)
    then obtain c y where p: "ch_pop (ss_send s) = Some (c, y)" by (cases p) simp
    have g: "goes r (s\<lparr>ss_send := c\<rparr>)" using goes_dequeue [OF p] 1(4) by (rule goes_after)
    have e: "goes r u" if "exit_err others (sent_bytes bs (s\<lparr>ss_send := c\<rparr>)) er = Some u" for u er bs
      by (rule exit_err_goes [OF 1(2) that]) (simp add: g)
    show ?thesis
    proof (cases y)
      case None
      then show ?thesis using 1(3) p g by (simp add: session_write_loop.simps [of others s])
    next
      case (Some ready)
      have p': "ch_pop (ss_send s) = Some (c, Some ready)" using p Some by simp
      show ?thesis using 1(3) p' 1(1) [OF p' refl refl _ refl refl _ 1(2)] g
        by (subst (asm) session_write_loop.simps) (auto split: option.splits sum.splits dest!: e)
    qed
  qed
qed

section \<open>Sequences of calls\<close>

text \<open>What a program and the background threads of a session do.\<close>

datatype call =
    COpen nat
  | CGet nat
  | CPutBack stream
  | CReserve stream nat
  | CWrite stream bytes
  | CFlush stream bool
  | CRead stream
  | CReadBytes stream nat
  | CPeek stream nat
  | CDiscard stream nat
  | CReset stream
  | CRelease stream
  | CCloseStream stream
  | CCloseSession
  | CEvents bytes
  | CWriteLoop "write_answer list"
  | CBreaker

fun run_call :: "world \<Rightarrow> others list \<Rightarrow> (nat \<Rightarrow> others) \<Rightarrow> session \<Rightarrow> call \<Rightarrow> session option" where
  "run_call w wakes waits s (COpen n) = Some (fst (open_stream s n))"
| "run_call w wakes waits s (CGet n) = Some (fst (get_or_open_stream s n))"
| "run_call w wakes waits s (CPutBack st) = put_or_close_stream (wd_others w) s st"
| "run_call w wakes waits s (CReserve st n) = map_option fst (stream_reserve s st n)"
| "run_call w wakes waits s (CWrite st bs) = map_option fst (stream_write_bytes s st bs)"
| "run_call w wakes waits s (CFlush st b) = map_option fst (flush (wd_others w) waits s st b)"
| "run_call w wakes waits s (CRead st) = map_option fst (stream_read wakes s st)"
| "run_call w wakes waits s (CReadBytes st n) = map_option fst (stream_read_bytes wakes s st n)"
| "run_call w wakes waits s (CPeek st n) = map_option fst (stream_peek wakes s st n)"
| "run_call w wakes waits s (CDiscard st n) = map_option fst (stream_discard wakes s st n)"
| "run_call w wakes waits s (CReset st) = Some (fst (stream_reset s st))"
| "run_call w wakes waits s (CRelease st) = release_read_and_reuse s st"
| "run_call w wakes waits s (CCloseStream st) = map_option fst (stream_close (wd_others w) s st)"
| "run_call w wakes waits s CCloseSession = session_close (wd_others w) s"
| "run_call w wakes waits s (CEvents bs) = map_option fst (handle_events w s bs)"
| "run_call w wakes waits s (CWriteLoop as) = map_option fst (session_write_loop (wd_others w) s as)"
| "run_call w wakes waits s CBreaker = Some (breaker_ends s)"

text \<open>A step: any call, with other threads that keep the invariant while it waits; a stream that is put back is one of the session's.\<close>

inductive session_step :: "session \<Rightarrow> session \<Rightarrow> bool" where
  "world_ok w \<Longrightarrow> list_all others_ok wakes \<Longrightarrow> \<forall>k. others_ok (waits k) \<Longrightarrow>
     \<forall>st. c = CPutBack st \<longrightarrow> handle_ok s st \<Longrightarrow> run_call w wakes waits s c = Some t \<Longrightarrow> session_step s t"

lemma breaker_ends_goes: "goes s (breaker_ends s)"
  by (auto simp: goes_def session_ok_def handle_ok_def advances_def breaker_ends_def)

lemma read_calls_go:
  assumes "list_all others_ok wakes"
  shows "stream_read wakes s st = Some (t, b) \<Longrightarrow> goes s t" "stream_read_bytes wakes s st n = Some (t, b) \<Longrightarrow> goes s t"
    "stream_peek wakes s st n = Some (t, b) \<Longrightarrow> goes s t" "stream_discard wakes s st n = Some (t, k) \<Longrightarrow> goes s t"
  unfolding stream_read_def stream_read_bytes_def stream_peek_def stream_discard_def
  by (erule ensure_then_goes [OF _ assms goes_refl], erule on_recv_goes, assumption)+

lemma session_step_goes:
  assumes "session_step s t" shows "goes s t"
  using assms
proof cases
  case (1 w wakes waits c)
  have o: "others_ok (wd_others w)" using 1(1) by (simp add: world_ok_def)
  note r = read_calls_go [OF 1(2)]
  show ?thesis
  proof (cases c)
    case (COpen n)
    then show ?thesis using 1(5) open_stream_goes [of s n _ _ s] by (cases "open_stream s n") auto
  next
    case (CGet n)
    then show ?thesis using 1(5) get_or_open_stream_goes [of s n] by (cases "get_or_open_stream s n") auto
  next
    case (CReset st)
    then show ?thesis using 1(5) stream_reset_goes [of s st _ _ s] by (cases "stream_reset s st") auto
  qed (use 1 in \<open>auto simp: stream_reserve_def stream_write_bytes_def breaker_ends_goes
      dest: put_or_close_stream_goes [OF o] on_send_goes flush_goes [OF o 1(3)] r stream_close_goes [OF o]
        session_close_goes [OF o] handle_events_goes [OF 1(1)] release_read_and_reuse_goes write_loop_goes [OF o]\<close>)
qed

lemma session_steps_go: "session_step\<^sup>*\<^sup>* s t \<Longrightarrow> goes s t"
  by (induction rule: rtranclp_induct) (auto intro: goes_trans session_step_goes)

lemma new_session_ok:
  "accept = None \<or> accept = Some (make_channel n) \<Longrightarrow> session_ok (new_session cfg bm m qm qmem v accept debug reg)"
  by (auto simp: session_ok_def new_session_def make_channel_def Let_def)

section \<open>Property\<close>

definition sample_session :: session where
  "sample_session = new_session default_config
     \<lparr>bm_lists = [], bm_mem_len = 0, bm_min_slice_size = 0, bm_max_slice_size = 0, bm_ref_count = 1,
      bm_mem_map_type = KMemFd, bm_path = ''b'', bm_memfd = 3\<rparr> (\<lambda>_. 0)
     \<lparr>qm_send_queue = queue_layout X86_64 0 2, qm_recv_queue = queue_layout X86_64 48 2, qm_path = ''q'',
      qm_memfd = 4, qm_mem_len = 96, qm_map_type = KMemFd\<rparr> (\<lambda>_. 0) 3 None False (\<lambda>_. None)"

text \<open>
  Property C9. The state of a session stays well-formed through any sequence of calls of its interface,
  events from its peer, runs of its write loop and expiries of its circuit breaker,
  interleaved with other threads that do the same: stream ids are unique and
  match their streams, every handle in the map, the pool and the accept channel is valid, states have
  one of their three values, and every queued request has its promise. A handle that was
  valid stays valid, a stream only goes from open to half-closed or closed and from
  half-closed to closed, and a session that is shut down stays shut down.
\<close>

theorem session_keeps_type:
  assumes "accept = None \<or> accept = Some (make_channel n)"
    and "session_step\<^sup>*\<^sup>* (new_session cfg bm m qm qmem v accept debug reg) s" and "session_step\<^sup>*\<^sup>* s t"
  shows "session_ok s \<and> session_ok t \<and> (is_closed s \<longrightarrow> is_closed t)
    \<and> (\<forall>st. handle_ok s st \<longrightarrow> handle_ok t st \<and> may_become (si_state (inner s st)) (si_state (inner t st)))"
proof -
  have s: "session_ok s" using session_steps_go [OF assms(2)] new_session_ok [OF assms(1)] by (simp add: goes_def)
  then have "session_ok t" "advances s t" using session_steps_go [OF assms(3)] by (simp_all add: goes_def)
  with s show ?thesis by (simp add: advances_def handle_ok_def inner_def is_closed_def)
qed

theorem session_keeps_type_witness:
  "\<exists>s t st. session_step\<^sup>*\<^sup>* sample_session s \<and> session_step s t \<and> session_ok s \<and> session_ok t
     \<and> handle_ok s st \<and> si_state (inner s st) = kStreamOpened \<and> st_id st = 2 \<and> is_closed t"
proof -
  define s where "s = fst (open_stream sample_session 0)"
  define st where "st = \<lparr>st_inner = 0, st_id = 2, st_session_id = 0\<rparr>"
  let ?w = "\<lparr>wd_others = (\<lambda>s. s), wd_yields = []\<rparr>"
  have w: "world_ok ?w" by (simp add: world_ok_def others_ok_def)
  have s: "session_step sample_session s"
    by (rule session_step.intros [of ?w "[]" "\<lambda>_ s. s" "COpen 0"]) (use w in \<open>simp_all add: others_ok_def s_def\<close>)
  have e: "ss_inners s = [new_stream_inner]" "ss_streams s = [(2, st)]" "ss_pool s = []" "ss_shutdown s = 0"
    by (simp_all add: s_def open_stream_def sample_session_def new_session_def is_closed_def new_stream_def
      insert_stream_def Let_def st_def)
  have rec: "lb_recycle bm m new_linked_buffer = Some (m, new_linked_buffer)" for bm m
    by (simp add: lb_recycle_def new_linked_buffer_def pop_all.simps pop_front_def empty_slice_list_def lb_reset_fields_def set_write_def)
  obtain evs reg where "add_global_buffer_manager_ref_count (ss_registry s) (bm_path (ss_bm s)) (- 1) = (evs, reg)"
    by fastforce
  then have "\<exists>t. session_close (\<lambda>s. s) s = Some t \<and> is_closed t"
    using e rec by (simp add: session_close_def pool_close.simps pool_pop_def stream_close_def clean_def Let_def inner_def
      set_inner_def st_def new_stream_inner_def clean_pending_data_def on_stream_close_def recycle_recv_def recycle_send_def
      on_recv_def on_send_def recv_buf_def send_buf_def is_closed_def stream_state_defs)
  then obtain t where t: "session_close (\<lambda>s. s) s = Some t" "is_closed t" by blast
  have s': "session_step s t"
    by (rule session_step.intros [of ?w "[]" "\<lambda>_ s. s" CCloseSession]) (use w t in \<open>simp_all add: others_ok_def\<close>)
  have "session_ok s" "session_ok t"
    using session_keeps_type [OF _ _ r_into_rtranclp [of session_step, OF s'], of None] s
    unfolding sample_session_def by blast+
  then show ?thesis using s s' t e
    by (intro exI [of _ s] exI [of _ t] exI [of _ st])
      (simp add: handle_ok_def inner_def st_def new_stream_inner_def r_into_rtranclp)
qed

end
