(* ===== verification/Session_Events.thy ===== *)
theory Session_Events
  imports Session_Types
begin

text \<open>
  What the read loop of a session makes of the bytes it receives: events are handled one after the
  other, each as soon as it is complete, so the way the socket cuts the byte stream makes no
  difference. Two ways in which the loops fail are at the end.
\<close>

section \<open>One event\<close>

text \<open>The number of bytes of the event at the front of a buffer, given its header.\<close>

definition event_need :: "bytes \<Rightarrow> nat" where
  "event_need buf =
     (let t = hdr_msg_type (take kHeaderSize buf)
      in if t = kPolling then kHeaderSize
         else if t = kStreamClose then kHeaderSize + 4
         else if t = kFallbackData then unat (hdr_length (take kHeaderSize buf))
         else kHeaderSize)"

lemma kHeaderSize_8 [simp]: "kHeaderSize = 8" by (simp add: kHeaderSize_def)

lemma polling_outer_result:
  "polling_outer others yields s e = Some (t, hr) \<Longrightarrow> hr_consumed hr = 8 \<and> \<not> hr_stop hr"
proof (induction yields arbitrary: s e)
  case Nil
  then show ?case by (subst (asm) polling_outer.simps) (auto split: option.splits bool.splits)
next
  case (Cons y ys)
  from Cons.prems show ?case
    by (subst (asm) polling_outer.simps)
      (auto simp: Let_def split: option.splits bool.splits prod.splits if_splits dest: Cons.IH)
qed

lemma handle_fallback_data_result:
  assumes "handle_fallback_data others s h buf = Some (t, hr)" "length buf < 9223372036854775808"
  shows "if length buf + 8 < unat (hdr_length h) \<or> unat (hdr_length h) < 8
    then t = s \<and> hr = \<lparr>hr_consumed = 0, hr_required = unat (hdr_length h), hr_stop = True, hr_err = None\<rparr>
    else hr_consumed hr = unat (hdr_length h) \<and> \<not> hr_stop hr \<and> 16 \<le> unat (hdr_length h)"
proof (cases "length buf < usub (unat (hdr_length h)) 8")
  case True
  then show ?thesis using assms by (auto simp: handle_fallback_data_def usub_def split: if_splits)
next
  case False
  then have u: "8 \<le> unat (hdr_length h)" "unat (hdr_length h) \<le> length buf + 8" using assms(2)
    by (auto simp: usub_def split: if_splits)
  with False assms(1) have "16 \<le> unat (hdr_length h)" by (auto simp: handle_fallback_data_def Let_def split: if_splits)
  with False u assms(1) show ?thesis
    by (auto simp: handle_fallback_data_def Let_def split: if_splits option.splits prod.splits)
qed

lemma handle_event_result:
  assumes "handle_event w s buf = Some (t, Inr hr)" "8 \<le> length buf" "length buf < 9223372036854775808"
  shows "if length buf < event_need buf \<or> event_need buf < 8
    then t = s \<and> hr = \<lparr>hr_consumed = 0, hr_required = event_need buf, hr_stop = True, hr_err = None\<rparr>
    else hr_consumed hr = event_need buf \<and> \<not> hr_stop hr"
proof -
  let ?t = "hdr_msg_type (take 8 buf)"
  consider "?t = kPolling" | "?t = kStreamClose" "?t \<noteq> kPolling" | "?t = kFallbackData" "?t \<noteq> kPolling" "?t \<noteq> kStreamClose"
    using assms(1) by (fastforce simp: handle_event_def Let_def split: if_splits)
  then show ?thesis
  proof cases
    case 1
    then show ?thesis using assms
      by (auto simp: handle_event_def event_need_def Let_def handle_polling_def dest: polling_outer_result)
  next
    case 2
    then show ?thesis using assms
      by (auto simp: handle_event_def event_need_def Let_def handle_stream_close_def split: if_splits)
  next
    case 3
    then obtain u where "handle_fallback_data (wd_others w) s (take 8 buf) (drop 8 buf) = Some (t, hr)"
      using assms(1) by (auto simp: handle_event_def Let_def)
    from handle_fallback_data_result [OF this] 3 assms(2,3) show ?thesis
      by (auto simp: event_need_def Let_def split: if_splits)
  qed
qed

text \<open>A complete event is handled without looking at what follows it.\<close>

lemma load_be_append: "k + 4 \<le> length bs \<Longrightarrow> load_be_u32 (bs @ cs) k = load_be_u32 bs k"
  by (rule load_be_u32_cong) (simp add: nth_append)

lemma handle_event_local:
  assumes "8 \<le> length buf" "event_need buf \<le> length buf" "8 \<le> event_need buf" "length (buf @ tail) < 9223372036854775808"
  shows "handle_event w s (buf @ tail) = handle_event w s buf"
proof -
  let ?h = "take 8 buf"
  have h: "take 8 (buf @ tail) = ?h" "drop 8 (buf @ tail) = drop 8 buf @ tail" using assms(1) by simp_all
  have c: "handle_stream_close s (drop 8 buf @ tail) = handle_stream_close s (drop 8 buf)"
    if "12 \<le> length buf" using that by (simp add: handle_stream_close_def load_be_append)
  have f: "handle_fallback_data (wd_others w) s ?h (drop 8 buf @ tail) = handle_fallback_data (wd_others w) s ?h (drop 8 buf)"
    if "unat (hdr_length ?h) \<le> length buf" "8 \<le> unat (hdr_length ?h)"
  proof -
    define k where "k = usub (unat (hdr_length ?h)) 8"
    have k: "\<not> length (drop 8 buf @ tail) < k" "\<not> length (drop 8 buf) < k" using that by (simp_all add: k_def)
    show ?thesis
    proof (cases "k < 8")
      case True
      with k show ?thesis by (simp only: handle_fallback_data_def Let_def kHeaderSize_8 k_def [symmetric] if_False if_True)
    next
      case False
      with k have "load_be_u32 (drop 8 buf @ tail) 0 = load_be_u32 (drop 8 buf) 0"
        "load_be_u32 (drop 8 buf @ tail) 4 = load_be_u32 (drop 8 buf) 4"
        "take (k - 8) (drop 8 (drop 8 buf @ tail)) = take (k - 8) (drop 8 (drop 8 buf))"
        by (simp_all add: load_be_append)
      with False k show ?thesis
        by (simp only: handle_fallback_data_def Let_def kHeaderSize_8 k_def [symmetric] if_False)
    qed
  qed
  show ?thesis
    unfolding handle_event_def kHeaderSize_8 h Let_def
    using assms(2,3) c f by (auto simp: event_need_def Let_def split: if_splits)
qed

lemma event_need_append: "8 \<le> length buf \<Longrightarrow> event_need (buf @ tail) = event_need buf"
  by (simp add: event_need_def Let_def)

section \<open>A buffer of events\<close>

definition add_consumed :: "nat \<Rightarrow> session \<times> event_result \<Rightarrow> session \<times> event_result" where
  "add_consumed k = (\<lambda>(s, er). (s, er\<lparr>er_consumed := k + er_consumed er\<rparr>))"

lemma add_consumed_simps [simp]:
  "add_consumed k (s, er) = (s, er\<lparr>er_consumed := k + er_consumed er\<rparr>)"
  "add_consumed 0 = (\<lambda>x. x)" "add_consumed j \<circ> add_consumed k = add_consumed (j + k)"
  by (auto simp: add_consumed_def fun_eq_iff split: prod.splits)

text \<open>One round of the loop on a buffer, with \<open>c\<close> bytes consumed before it and the further rounds as a function.\<close>

definition events_round ::
  "world \<Rightarrow> session \<Rightarrow> bytes \<Rightarrow> nat \<Rightarrow> (session \<Rightarrow> nat \<Rightarrow> (session \<times> event_result) option) \<Rightarrow> (session \<times> event_result) option" where
  "events_round w s buf c k =
     (if length buf < 8 then Some (s, \<lparr>er_consumed = c, er_required = 8, er_err = None\<rparr>)
      else
        (case check_event_valid (take 8 buf) of
           Inl e \<Rightarrow> Some (s, \<lparr>er_consumed = c + 8, er_required = 8, er_err = Some e\<rparr>)
         | Inr _ \<Rightarrow>
             (case handle_event w s buf of
                None \<Rightarrow> None
              | Some (s1, Inl e) \<Rightarrow> Some (s1, \<lparr>er_consumed = c + 8, er_required = 8, er_err = Some e\<rparr>)
              | Some (s1, Inr hr) \<Rightarrow>
                  if hr_err hr \<noteq> None
                  then Some (s1, \<lparr>er_consumed = c + hr_consumed hr, er_required = 8, er_err = hr_err hr\<rparr>)
                  else if hr_stop hr
                  then Some (s1, \<lparr>er_consumed = c + hr_consumed hr, er_required = hr_required hr, er_err = None\<rparr>)
                  else k s1 (hr_consumed hr))))"

lemma events_loop_round:
  "c \<le> length buf \<Longrightarrow> events_loop w s buf c = events_round w s (drop c buf) c (\<lambda>s1 n. events_loop w s1 buf (c + n))"
  by (subst events_loop.simps) (auto simp: events_round_def Let_def split: option.splits sum.splits)

lemma events_round_add:
  "map_option (add_consumed j) (events_round w s buf c k)
     = events_round w s buf (j + c) (\<lambda>s1 n. map_option (add_consumed j) (k s1 n))"
  by (auto simp: events_round_def split: option.splits sum.splits prod.splits)

text \<open>Only the rounds that can follow matter.\<close>

lemma events_round_cong:
  assumes "length buf < 9223372036854775808"
    and "\<And>s1. 8 \<le> event_need buf \<Longrightarrow> event_need buf \<le> length buf \<Longrightarrow> k s1 (event_need buf) = k' s1 (event_need buf)"
  shows "events_round w s buf c k = events_round w s buf c k'"
proof -
  have "k s1 (hr_consumed hr) = k' s1 (hr_consumed hr)"
    if "handle_event w s buf = Some (s1, Inr hr)" "\<not> length buf < 8" "\<not> hr_stop hr" for s1 hr
    using handle_event_result [OF that(1) _ assms(1)] that(2,3) assms(2) [of s1]
    by (auto split: if_splits)
  then show ?thesis by (auto simp: events_round_def split: option.splits sum.splits prod.splits)
qed

lemma events_loop_shift:
  "c \<le> length buf \<Longrightarrow> length buf < 9223372036854775808 \<Longrightarrow>
     events_loop w s buf c = map_option (add_consumed c) (handle_events w s (drop c buf))"
proof (induction "length buf - c" arbitrary: c s buf rule: less_induct)
  case less
  let ?b = "drop c buf"
  have l: "length ?b < 9223372036854775808" using less.prems by simp
  have "events_loop w s buf c = events_round w s ?b c (\<lambda>s1 n. events_loop w s1 buf (c + n))"
    by (rule events_loop_round [OF less.prems(1)])
  also have "\<dots> = events_round w s ?b c (\<lambda>s1 n. map_option (add_consumed c) (events_loop w s1 ?b n))"
  proof (rule events_round_cong [OF l])
    fix s1 assume n: "8 \<le> event_need ?b" "event_need ?b \<le> length ?b"
    let ?n = "event_need ?b"
    have "events_loop w s1 buf (c + ?n) = map_option (add_consumed (c + ?n)) (handle_events w s1 (drop (c + ?n) buf))"
      using n less.prems by (intro less.hyps) auto
    moreover have "events_loop w s1 ?b ?n = map_option (add_consumed ?n) (handle_events w s1 (drop ?n ?b))"
      using n less.prems by (intro less.hyps) auto
    ultimately show "events_loop w s1 buf (c + ?n) = map_option (add_consumed c) (events_loop w s1 ?b ?n)"
      by (simp add: option.map_comp add.commute)
  qed
  also have "\<dots> = map_option (add_consumed c) (events_round w s ?b 0 (\<lambda>s1 n. events_loop w s1 ?b n))"
    by (simp add: events_round_add)
  also have "events_round w s ?b 0 (\<lambda>s1 n. events_loop w s1 ?b n) = handle_events w s ?b"
    using events_loop_round [of 0 ?b w s] by (simp add: handle_events_def)
  finally show ?case .
qed

lemma handle_events_round:
  assumes "length buf < 9223372036854775808"
  shows "handle_events w s buf
    = events_round w s buf 0 (\<lambda>s1 n. map_option (add_consumed n) (handle_events w s1 (drop n buf)))"
proof -
  have "handle_events w s buf = events_round w s buf 0 (\<lambda>s1 n. events_loop w s1 buf n)"
    using events_loop_round [of 0 buf w s] by (simp add: handle_events_def)
  also have "\<dots> = events_round w s buf 0 (\<lambda>s1 n. map_option (add_consumed n) (handle_events w s1 (drop n buf)))"
    by (rule events_round_cong [OF assms]) (simp add: events_loop_shift assms)
  finally show ?thesis .
qed

section \<open>A stream of events\<close>

text \<open>
  A sequence of events with proper length fields, none longer than \<open>cap\<close>, the last one perhaps
  incomplete.
\<close>

inductive framed :: "nat \<Rightarrow> bytes \<Rightarrow> bool" for cap where
  part: "length buf < 8 \<or> 8 \<le> event_need buf \<and> event_need buf \<le> cap \<and> length buf < event_need buf \<Longrightarrow> framed cap buf"
| whole: "8 \<le> length buf \<Longrightarrow> 8 \<le> event_need buf \<Longrightarrow> event_need buf \<le> cap \<Longrightarrow> event_need buf \<le> length buf \<Longrightarrow>
     framed cap (drop (event_need buf) buf) \<Longrightarrow> framed cap buf"

lemma framed_need: "framed cap buf \<Longrightarrow> 8 \<le> length buf \<Longrightarrow> 8 \<le> event_need buf \<and> event_need buf \<le> cap"
  by (erule framed.cases) auto

lemma framed_next: "framed cap buf \<Longrightarrow> 8 \<le> length buf \<Longrightarrow> event_need buf \<le> length buf \<Longrightarrow> framed cap (drop (event_need buf) buf)"
  by (erule framed.cases) auto

lemma handle_event_stop:
  assumes "8 \<le> length buf" "length buf < event_need buf"
  shows "handle_event w s buf = Some (s, Inr \<lparr>hr_consumed = 0, hr_required = event_need buf, hr_stop = True, hr_err = None\<rparr>)"
proof -
  let ?n = "unat (hdr_length (take 8 buf))"
  have "length (drop 8 buf) < usub ?n 8" if "length buf < ?n" using that assms(1) by (simp add: usub_def)
  then show ?thesis using assms
    by (auto simp: handle_event_def event_need_def handle_stream_close_def handle_fallback_data_def Let_def split: if_splits)
qed

text \<open>What is left after the events of a buffer, and what the loop asks for next.\<close>

definition rest_ok :: "nat \<Rightarrow> nat \<Rightarrow> bytes \<Rightarrow> bool" where
  "rest_ok cap n buf \<longleftrightarrow> n = 8 \<and> length buf < 8
     \<or> 8 \<le> length buf \<and> n = event_need buf \<and> 8 \<le> n \<and> n \<le> cap \<and> length buf < n"

lemma handle_events_append:
  assumes "length (buf @ tail) < 9223372036854775808" "framed cap (buf @ tail)"
  shows "(\<forall>e. handle_events w s (buf @ tail) = e \<longrightarrow>
      (case handle_events w s buf of
         None \<Rightarrow> e = None
       | Some (s1, er) \<Rightarrow>
           if er_err er \<noteq> None then e = Some (s1, er)
           else er_consumed er \<le> length buf \<and> (er_consumed er = 0 \<longrightarrow> s1 = s)
             \<and> rest_ok cap (er_required er) (drop (er_consumed er) buf)
             \<and> framed cap (drop (er_consumed er) (buf @ tail))
             \<and> e = map_option (add_consumed (er_consumed er))
                 (handle_events w s1 (drop (er_consumed er) (buf @ tail)))))"
  using assms
proof (induction "length buf" arbitrary: buf s rule: less_induct)
  case less
  have l: "length buf < 9223372036854775808" using less.prems by simp
  note r1 = handle_events_round [OF l, of w s] and r2 = handle_events_round [OF less.prems(1), of w s]
  show ?case
  proof (cases "length buf < 8")
    case True
    then have "handle_events w s buf = Some (s, \<lparr>er_consumed = 0, er_required = 8, er_err = None\<rparr>)"
      using r1 by (simp add: events_round_def)
    with True less.prems show ?thesis by (simp add: rest_ok_def option.map_ident)
  next
    case ge: False
    then have n: "8 \<le> event_need buf" "event_need buf \<le> cap"
      using framed_need [OF less.prems(2)] by (simp_all add: event_need_append)
    have h: "take 8 (buf @ tail) = take 8 buf" using ge by simp
    show ?thesis
    proof (cases "check_event_valid (take 8 buf)")
      case (Inl e)
      then show ?thesis using r1 r2 ge h by (simp add: events_round_def)
    next
      case valid: (Inr u)
      show ?thesis
      proof (cases "length buf < event_need buf")
        case True
        then have "handle_events w s buf = Some (s, \<lparr>er_consumed = 0, er_required = event_need buf, er_err = None\<rparr>)"
          using r1 ge valid handle_event_stop [OF _ True, of w s] by (simp add: events_round_def)
        with True ge n less.prems show ?thesis by (simp add: rest_ok_def option.map_ident)
      next
        case False
        then have loc: "handle_event w s (buf @ tail) = handle_event w s buf"
          using handle_event_local [of buf tail w s] ge n less.prems(1) by simp
        show ?thesis
        proof (cases "\<exists>s1 hr. handle_event w s buf = Some (s1, Inr hr) \<and> hr_err hr = None")
          case True
          then obtain s1 hr where he: "handle_event w s buf = Some (s1, Inr hr)" "hr_err hr = None" by blast
          have hr: "hr_consumed hr = event_need buf" "\<not> hr_stop hr"
            using handle_event_result [OF he(1) _ l] ge False n by (auto split: if_splits)
          let ?n = "event_need buf"
          have b: "handle_events w s buf = map_option (add_consumed ?n) (handle_events w s1 (drop ?n buf))"
            using r1 ge valid he hr by (simp add: events_round_def)
          have bt: "handle_events w s (buf @ tail) = map_option (add_consumed ?n) (handle_events w s1 (drop ?n buf @ tail))"
            using r2 ge valid he hr loc h False by (simp add: events_round_def)
          have "framed cap (drop ?n (buf @ tail))"
            using framed_next [OF less.prems(2)] ge False by (simp add: event_need_append)
          then have f: "framed cap (drop ?n buf @ tail)" using False by simp
          have "length (drop ?n buf) < length buf" "length (drop ?n buf @ tail) < 9223372036854775808"
            using ge n less.prems(1) by simp_all
          from less.hyps [OF this f, of s1] False n show ?thesis unfolding b bt
            by (auto simp: option.map_comp add.commute split: option.splits if_splits)
        next
          case False
          then show ?thesis using r1 r2 ge valid loc h
            by (auto simp: events_round_def split: option.splits sum.splits prod.splits)
        qed
      qed
    qed
  qed
qed

section \<open>The read loop\<close>

lemma shutdown_mono:
  assumes "world_ok w" "session_ok s" "handle_events w s buf = Some (t, er)"
  shows "session_ok t" "ss_shutdown s = 1 \<Longrightarrow> ss_shutdown t = 1"
  using handle_events_goes [OF assms(1,3) goes_refl] assms(2) by (auto simp: goes_def advances_def)

lemma read_round:
  assumes w: "world_ok w" "session_ok s" and b: "br_inv r" "0 < n" "n \<le> br_cap r"
    "n \<le> length (br_buffer r @ stream_of as)" "length (br_buffer r @ stream_of as) < 9223372036854775808"
    and f: "framed (br_cap r) (br_buffer r @ stream_of as)"
    and h: "handle_events w s (br_buffer r @ stream_of as) = Some (t, er)" "er_err er = None" "ss_shutdown t \<noteq> 1"
  obtains as1 r2 s1 and er1 er2 :: event_result where
    "\<And>fuel. session_read_loop (Suc fuel) w s r n as = session_read_loop fuel w s1 r2 (er_required er1) as1"
    "br_inv r2" "br_cap r2 = br_cap r" "session_ok s1"
    "br_buffer r2 @ stream_of as1 = drop (er_consumed er1) (br_buffer r @ stream_of as)"
    "framed (br_cap r) (br_buffer r2 @ stream_of as1)" "rest_ok (br_cap r) (er_required er1) (br_buffer r2)"
    "handle_events w s1 (br_buffer r2 @ stream_of as1) = Some (t, er2)" "er_err er2 = None"
    "er_consumed er = er_consumed er1 + er_consumed er2"
    "er_consumed er1 = 0 \<longrightarrow> n \<le> length (br_buffer r2)"
proof -
  obtain as1 r1 where r1: "fill_buf_at_least r n as = Some (as1, r1, Inr (br_buffer r1))" "br_inv r1" "br_cap r1 = br_cap r"
    "n \<le> length (br_buffer r1)" "br_buffer r1 @ stream_of as1 = br_buffer r @ stream_of as"
    using fill_buf_at_least_ok [OF b(1,3,4,2)] by blast
  note ap = handle_events_append [of "br_buffer r1" "stream_of as1" "br_cap r" w s, unfolded r1(5), OF b(5) f, rule_format, OF h(1)]
  obtain s1 er1 where e1: "handle_events w s (br_buffer r1) = Some (s1, er1)" "er_err er1 = None"
    using ap h(2) by (auto split: option.splits if_splits)
  let ?k = "er_consumed er1"
  let ?r2 = "br_consume r1 ?k"
  have k: "?k \<le> length (br_buffer r1)" "rest_ok (br_cap r) (er_required er1) (drop ?k (br_buffer r1))"
    "framed (br_cap r) (drop ?k (br_buffer r @ stream_of as))"
    and ht: "Some (t, er) = map_option (add_consumed ?k) (handle_events w s1 (drop ?k (br_buffer r @ stream_of as)))"
    using ap e1 by auto
  from ht obtain er2 where er2: "handle_events w s1 (drop ?k (br_buffer r @ stream_of as)) = Some (t, er2)"
    "er = er2\<lparr>er_consumed := ?k + er_consumed er2\<rparr>" by (cases "handle_events w s1 (drop ?k (br_buffer r @ stream_of as))") auto
  have r2: "br_inv ?r2" "br_buffer ?r2 = drop ?k (br_buffer r1)" "br_cap ?r2 = br_cap r"
    using br_consume_ok [OF r1(2)] r1(3) by (simp_all add: br_consume_def)
  have rest: "br_buffer ?r2 @ stream_of as1 = drop ?k (br_buffer r @ stream_of as)"
    using k(1) by (simp add: r2(2) flip: r1(5))
  have ok: "session_ok s1" by (rule shutdown_mono(1) [OF w e1(1)])
  have "ss_shutdown s1 \<noteq> 1" using shutdown_mono(2) [OF w(1) ok er2(1)] h(3) by blast
  then have "ss_shutdown s \<noteq> 1" using shutdown_mono(2) [OF w e1(1)] by blast
  then have lp: "\<And>fuel. session_read_loop (Suc fuel) w s r n as = session_read_loop fuel w s1 ?r2 (er_required er1) as1"
    using r1(1) e1 by simp
  have "er_err er2 = None" "er_consumed er = ?k + er_consumed er2" using h(2) er2(2) by simp_all
  moreover have "?k = 0 \<longrightarrow> n \<le> length (br_buffer ?r2)" using r1(4) r2(2) by (metis drop0)
  ultimately show thesis
    by (rule that [OF lp r2(1,3) ok rest k(3) [folded rest] k(2) [folded r2(2)] er2(1) [folded rest]])
qed

lemma handle_events_consumed_zero:
  assumes "handle_events w s buf = Some (t, er)" "er_err er = None" "length buf < 9223372036854775808" "framed cap buf"
    "er_consumed er = 0"
  shows "t = s" "length buf < 8 \<or> length buf < event_need buf"
  using handle_events_append [of buf "[]" cap w s] assms
  by (auto simp: rest_ok_def)

lemma handle_events_consumed_pos:
  assumes "handle_events w s buf = Some (t, er)" "er_err er = None" "length buf < 9223372036854775808" "er_consumed er \<noteq> 0"
  shows "8 \<le> length buf" "event_need buf \<le> length buf"
proof -
  show l: "8 \<le> length buf"
    using assms handle_events_round [OF assms(3), of w s] by (auto simp: events_round_def split: if_splits)
  show "event_need buf \<le> length buf"
  proof (rule ccontr)
    assume "\<not> event_need buf \<le> length buf"
    with handle_event_stop [OF l, of w s] handle_events_round [OF assms(3), of w s] l assms(1,2,4) show False
      by (cases "check_event_valid (take 8 buf)") (auto simp: events_round_def)
  qed
qed

lemma read_loop_reaches:
  assumes "world_ok w"
  shows "session_ok s \<Longrightarrow> br_inv r \<Longrightarrow> bytes = br_buffer r @ stream_of as \<Longrightarrow> length bytes < 9223372036854775808 \<Longrightarrow>
    framed (br_cap r) bytes \<Longrightarrow> 8 \<le> br_cap r \<Longrightarrow> n = 8 \<or> 8 \<le> length bytes \<and> n = event_need bytes \<Longrightarrow>
    handle_events w s bytes = Some (t, er) \<Longrightarrow> er_err er = None \<Longrightarrow> ss_shutdown t \<noteq> 1 \<Longrightarrow>
    \<exists>fuel r' n' as'. session_read_loop fuel w s r n as = Some (t, r', n', as', False)
      \<and> br_buffer r' @ stream_of as' = drop (er_consumed er) bytes"
proof (induction "2 * length bytes + (if event_need bytes \<le> n then 0 else 1)" arbitrary: s r n as bytes er rule: less_induct)
  case less
  show ?case
  proof (cases "er_consumed er = 0")
    case True
    with handle_events_consumed_zero(1) [OF less.prems(8,9,4,5)] less.prems(3) show ?thesis
      by (intro exI [of _ 0] exI [of _ r] exI [of _ n] exI [of _ as]) simp
  next
    case False
    have len: "8 \<le> length bytes" "event_need bytes \<le> length bytes"
      using handle_events_consumed_pos [OF less.prems(8,9,4) False] by simp_all
    have n: "0 < n" "n \<le> br_cap r" "n \<le> length (br_buffer r @ stream_of as)"
      using less.prems(3,6,7) len framed_need [OF less.prems(5) len(1)] by auto
    obtain as1 r2 s1 and er1 er2 :: event_result where
      rd: "\<And>fuel. session_read_loop (Suc fuel) w s r n as = session_read_loop fuel w s1 r2 (er_required er1) as1"
      and r2: "br_inv r2" "br_cap r2 = br_cap r" "session_ok s1"
      and rest: "br_buffer r2 @ stream_of as1 = drop (er_consumed er1) bytes"
      and f: "framed (br_cap r) (br_buffer r2 @ stream_of as1)" and ro: "rest_ok (br_cap r) (er_required er1) (br_buffer r2)"
      and h2: "handle_events w s1 (br_buffer r2 @ stream_of as1) = Some (t, er2)" "er_err er2 = None"
        "er_consumed er = er_consumed er1 + er_consumed er2" "er_consumed er1 = 0 \<longrightarrow> n \<le> length (br_buffer r2)"
      using read_round [OF assms less.prems(1,2) n less.prems(4,5,8-10) [unfolded less.prems(3)]] less.prems(3) by metis
    let ?b = "br_buffer r2 @ stream_of as1"
    have req: "er_required er1 = 8 \<or> 8 \<le> length ?b \<and> er_required er1 = event_need ?b"
      using ro by (auto simp: rest_ok_def event_need_append)
    have "2 * length ?b + (if event_need ?b \<le> er_required er1 then 0 else 1)
        < 2 * length bytes + (if event_need bytes \<le> n then 0 else 1)"
    proof (cases "er_consumed er1 = 0")
      case True
      then have b: "?b = bytes" "n \<le> length (br_buffer r2)" using rest h2(4) by simp_all
      have "8 \<le> n" using less.prems(7) framed_need [OF less.prems(5) len(1)] by auto
      then have "er_required er1 = event_need bytes" "length (br_buffer r2) < event_need bytes"
        using ro b event_need_append [of "br_buffer r2" "stream_of as1"] by (auto simp: rest_ok_def)
      then show ?thesis using b by auto
    next
      case False
      then have "length ?b < length bytes" using rest len(1) by (simp only: length_drop)
      then show ?thesis by auto
    qed
    moreover have "length ?b < 9223372036854775808" using rest less.prems(4) by simp
    moreover have "8 \<le> br_cap r2" using r2(2) less.prems(6) by simp
    ultimately obtain fuel r' n' as' where
      "session_read_loop fuel w s1 r2 (er_required er1) as1 = Some (t, r', n', as', False)"
      "br_buffer r' @ stream_of as' = drop (er_consumed er2) ?b"
      using less.hyps [OF _ r2(3,1) refl _ f [folded r2(2)] _ req h2(1,2) less.prems(10)] by blast
    then show ?thesis using rd [of fuel] rest h2(3) by (intro exI [of _ "Suc fuel"]) (auto simp: add.commute)
  qed
qed

section \<open>A closing stream\<close>

lemma hdr_cong:
  assumes "\<And>j. j < 8 \<Longrightarrow> p ! j = q ! j"
  shows "hdr_length p = hdr_length q" "hdr_magic p = hdr_magic q" "hdr_version p = hdr_version q" "hdr_msg_type p = hdr_msg_type q"
  by (auto simp: hdr_length_def hdr_magic_def hdr_version_def hdr_msg_type_def assms
    intro!: load_be_u32_cong load_be_u16_cong)

lemma hdr_take [simp]:
  "hdr_length (take 8 p) = hdr_length p" "hdr_magic (take 8 p) = hdr_magic p"
  "hdr_version (take 8 p) = hdr_version p" "hdr_msg_type (take 8 p) = hdr_msg_type p"
  by (rule hdr_cong, simp)+

lemma check_take [simp]: "check_event_valid (take 8 p) = check_event_valid p"
  by (simp add: check_event_valid_def)

lemma close_event_fields [simp]:
  "length (close_event v i) = 12" "hdr_length (close_event v i) = 12" "hdr_version (close_event v i) = v"
  "hdr_magic (close_event v i) = kMagicNumber" "hdr_msg_type (close_event v i) = kStreamClose"
  "load_be_u32 (drop 8 (close_event v i)) 0 = i"
proof -
  let ?h = "hdr_encode (replicate 12 0) 12 v kStreamClose"
  have same: "close_event v i ! j = ?h ! j" if "j < 8" for j
    using that by (simp add: close_event_def nth_store_be_u32_other)
  show l: "length (close_event v i) = 12" by (simp add: close_event_def)
  show "hdr_length (close_event v i) = 12" "hdr_version (close_event v i) = v"
    "hdr_magic (close_event v i) = kMagicNumber" "hdr_msg_type (close_event v i) = kStreamClose"
    using hdr_cong [of "close_event v i" ?h, OF same] by simp_all
  have "load_be_u32 (drop 8 (close_event v i)) 0 = load_be_u32 (close_event v i) 8"
    using l by (simp add: load_be_u32_def)
  then show "load_be_u32 (drop 8 (close_event v i)) 0 = i" by (simp add: close_event_def)
qed

lemma close_event_handled:
  assumes "v \<noteq> 0"
  shows "handle_events w s (close_event v i) = Some
    (case map_of (ss_streams s) i of Some st \<Rightarrow> half_close (on_stream_close i s) st | None \<Rightarrow> s,
     \<lparr>er_consumed = 12, er_required = 8, er_err = None\<rparr>)"
proof -
  have "check_event_valid (close_event v i) = Inr ()"
    using assms by (simp add: check_event_valid_def event_type_consts)
  moreover have "handle_events w t [] = Some (t, \<lparr>er_consumed = 0, er_required = 8, er_err = None\<rparr>)" for t
    by (subst handle_events_round) (simp_all add: events_round_def)
  ultimately show ?thesis
    by (subst handle_events_round)
      (simp_all add: events_round_def handle_event_def handle_stream_close_def event_type_consts Let_def)
qed

section \<open>The write loop and those who wait for it\<close>

text \<open>Closing a session leaves queued requests and their promises as they are.\<close>

definition same_requests :: "session \<Rightarrow> session \<Rightarrow> bool" where
  "same_requests s t \<longleftrightarrow> ss_promises t = ss_promises s \<and> ch_queue (ss_send t) = ch_queue (ss_send s)
     \<and> ss_shutdown t = ss_shutdown s"

lemma same_requests_clean:
  "clean_pending_data s st = Some t \<Longrightarrow> same_requests s t" "recycle_send s st = Some t \<Longrightarrow> same_requests s t"
  "recycle_recv s st = Some t \<Longrightarrow> same_requests s t" "same_requests s (on_stream_close i s)" "same_requests s (set_inner s st x)"
  by (auto simp: clean_pending_data_def recycle_send_def recycle_recv_def on_send_def on_recv_def same_requests_def
    set_inner_def on_stream_close_def Let_def)

lemma clean_same_requests:
  assumes "clean s st = Some t" shows "same_requests s t"
proof -
  let ?s = "on_stream_close (st_id st) s"
  obtain s1 s2 where "clean_pending_data ?s st = Some s1" "recycle_recv s1 st = Some s2" "recycle_send s2 st = Some t"
    using assms by (auto simp: clean_def split: option.splits)
  then have "same_requests ?s s1" "same_requests s1 s2" "same_requests s2 t" by (auto dest: same_requests_clean(1-3))
  then show ?thesis using same_requests_clean(4) [of s "st_id st"] by (simp add: same_requests_def)
qed

lemma stream_close_same_requests:
  assumes "ss_shutdown s = 1" "stream_close others s st = Some (t, r)"
  shows "same_requests s t"
proof -
  let ?s1 = "set_inner s st ((inner s st)\<lparr>si_state := kStreamClosed\<rparr>)"
  have "same_requests s u \<and> ss_shutdown u = 1" if "clean ?s1 st = Some u" for u
    using clean_same_requests [OF that] same_requests_clean(5) [of s st] assms(1)
    by (auto simp: same_requests_def)
  with assms same_requests_clean(5) [of s st] show ?thesis
    by (auto simp: stream_close_def Let_def split: if_splits option.splits)
qed

lemma close_all_same_requests:
  "close_all others s sts = Some t \<Longrightarrow> ss_shutdown s = 1 \<Longrightarrow> same_requests s t"
proof (induction sts arbitrary: s)
  case (Cons st sts)
  then obtain s1 r where s1: "stream_close others s st = Some (s1, r)" "close_all others s1 sts = Some t"
    by (auto split: option.splits)
  have r1: "same_requests s s1" by (rule stream_close_same_requests [OF Cons.prems(2) s1(1)])
  with Cons.IH [OF s1(2)] Cons.prems(2) show ?case by (simp add: same_requests_def)
qed (simp add: same_requests_def)

lemma session_close_requests:
  assumes "ss_pool s = []" "session_close others s = Some t"
  shows "ss_promises t = ss_promises s" "ch_queue (ss_send t) = ch_queue (ss_send s)"
  using assms(2)
  by (auto simp: session_close_def pool_close.simps pool_pop_def assms(1) Let_def ch_stop_def same_requests_def
    split: if_splits option.splits prod.splits dest!: close_all_same_requests)

text \<open>What the write loop of a session does when it runs until it waits or returns.\<close>

definition writer_runs :: "write_answer list \<Rightarrow> others" where
  "writer_runs as s = (case session_write_loop (\<lambda>s. s) s as of Some (t, _) \<Rightarrow> t | None \<Rightarrow> s)"

lemma write_loop_fails:
  assumes "ch_queue (ss_send s) = ready # rest" "write_ready ready as = Some (as1, sent, Inl e)" "ss_pool s = []"
    "session_write_loop others s as = Some (t, x)"
  shows "ch_queue (ss_send t) = rest" "ss_promises t = (ss_promises s)[sr_done ready := Broken]"
proof -
  let ?s = "sent_bytes sent (s\<lparr>ss_send := (ss_send s)\<lparr>ch_queue := rest\<rparr>\<rparr>)"
  obtain s1 where s1: "exit_err others ?s e = Some s1" "t = set_promise (sr_done ready) Broken s1"
    using assms(1,2,4) by (subst (asm) session_write_loop.simps) (auto simp: ch_pop_def)
  show "ch_queue (ss_send t) = rest" "ss_promises t = (ss_promises s)[sr_done ready := Broken]"
    using session_close_requests [OF _ s1(1) [unfolded exit_err_def]] assms(3) s1(2)
    by (simp_all add: set_promise_def bump_def sent_bytes_def)
qed

lemma wait_for_send_stuck:
  assumes "ch_queue (ss_send s) = ready # rest" "\<not> ch_stopped (ss_send s)" "\<not> ch_is_full (ss_send s)"
    "write_ready ready as = Some (as1, sent, Inl e)" "ss_pool s = []" "sr_done ready < length (ss_promises s)"
  shows "wait_for_send (writer_runs as) s hdr body = None"
proof -
  let ?t = "length (ss_promises s)"
  let ?x = "\<lparr>sr_hdr = (case hdr of Some h \<Rightarrow> h | None \<Rightarrow> []), sr_body = body, sr_done = ?t\<rparr>"
  define s3 where "s3 = s\<lparr>ss_promises := ss_promises s @ [Pending],
    ss_send := (ss_send s)\<lparr>ch_queue := ch_queue (ss_send s) @ [?x]\<rparr>\<rparr>"
  have "ss_promises (writer_runs as s3) ! ?t = Pending"
  proof (cases "session_write_loop (\<lambda>s. s) s3 as")
    case None
    then show ?thesis by (simp add: writer_runs_def) (simp add: s3_def)
  next
    case (Some y)
    then obtain t x where y: "session_write_loop (\<lambda>s. s) s3 as = Some (t, x)" by (cases y) simp
    have "ss_promises t = (ss_promises s3)[sr_done ready := Broken]"
      by (rule write_loop_fails(2) [OF _ assms(4) _ y]) (simp_all add: s3_def assms)
    then show ?thesis using y assms(6) by (simp add: writer_runs_def s3_def)
  qed
  then show ?thesis using assms
    by (simp add: wait_for_send_def add_promise_def awaited_def can_send_def ch_push_timeout_def Let_def s3_def [symmetric])
      (simp add: s3_def)
qed

section \<open>Properties\<close>

text \<open>
  Property C10. The way the socket cuts the byte stream makes no difference to a session. If handling all the
  bytes at once takes the session to the state \<open>t\<close> without an error, then the read loop with its
  buffered reader gets to the same state from any chunks, interruptions included, that carry these bytes, and
  leaves unread exactly the bytes of the incomplete event at the end. The events must have proper
  length fields and fit the reader's buffer, and the session must not be shut down meanwhile.
\<close>

theorem read_loop_any_chunking:
  assumes "world_ok w" and "session_ok s" and "8 \<le> cap" and "framed cap (stream_of as)" and "length (stream_of as) < 2 ^ 63"
    and "handle_events w s (stream_of as) = Some (t, er)" and "er_err er = None" and "ss_shutdown t \<noteq> 1"
  shows "\<exists>fuel r n as'. session_read_loop fuel w s (new_buf_reader cap) kHeaderSize as = Some (t, r, n, as', False)
    \<and> br_buffer r @ stream_of as' = drop (er_consumed er) (stream_of as)"
proof -
  have i: "br_inv (new_buf_reader cap)" "br_buffer (new_buf_reader cap) = []" "br_cap (new_buf_reader cap) = cap"
    by (simp_all add: br_inv_def new_buf_reader_def br_buffer_def)
  show ?thesis
    using read_loop_reaches [OF assms(1,2) i(1) refl, of as 8 t er] assms(3-8) i(2,3) by simp
qed

lemma half_close_shutdown [simp]:
  "ss_shutdown (half_close s st) = ss_shutdown s" "ss_shutdown (on_stream_close i s) = ss_shutdown s"
  by (simp_all add: half_close_def set_inner_def on_stream_close_def)

theorem read_loop_any_chunking_witness:
  "\<exists>fuel t r n as'. session_read_loop fuel \<lparr>wd_others = (\<lambda>s. s), wd_yields = []\<rparr> (fst (open_stream sample_session 0))
      (new_buf_reader 64) kHeaderSize [Run (take 5 (close_event 3 2)), Interrupted, Run (drop 5 (close_event 3 2))]
    = Some (t, r, n, as', False) \<and> map si_state (ss_inners t) = [kStreamHalfClosed]"
proof -
  let ?w = "\<lparr>wd_others = (\<lambda>s. s), wd_yields = []\<rparr>" and ?s = "fst (open_stream sample_session 0)"
  let ?as = "[Run (take 5 (close_event 3 2)), Interrupted, Run (drop 5 (close_event 3 2))]"
  have e: "ss_inners ?s = [new_stream_inner]" "ss_streams ?s = [(2, \<lparr>st_inner = 0, st_id = 2, st_session_id = 0\<rparr>)]"
    "ss_shutdown ?s = 0"
    by (simp_all add: open_stream_def sample_session_def new_session_def is_closed_def new_stream_def
      insert_stream_def Let_def)
  have "close_event 3 2 \<noteq> []" using close_event_fields(1) [of 3 2] by (metis list.size(3) zero_neq_numeral)
  then have so: "stream_of ?as = close_event 3 2" by simp
  have "goes sample_session ?s" using open_stream_goes [of sample_session 0 _ _ sample_session] by (metis goes_refl prod.collapse)
  then have ok: "session_ok ?s" using new_session_ok [of None] by (simp add: goes_def sample_session_def)
  have w: "world_ok ?w" by (simp add: world_ok_def others_ok_def)
  have f: "framed 64 (close_event 3 2)"
    by (rule framed.whole) (simp_all add: event_need_def Let_def event_type_consts framed.part)
  note h = close_event_handled [of 3 ?w ?s 2]
  show ?thesis
    using read_loop_any_chunking [OF w ok, of 64 ?as, unfolded so, OF _ f _ h] e
    by (fastforce simp: half_close_def on_stream_close_def set_inner_def inner_def new_stream_inner_def stream_state_defs)
qed

text \<open>
  Property C35. A thread whose request is queued behind one that cannot be written waits forever. The
  write loop breaks the promise of the failed request, shuts the session down and returns; the
  requests behind it stay in the stopped channel with their promises pending, so \<open>wait_for_send\<close>, and with
  it \<open>flush\<close> and \<open>close\<close> of a stream in fallback state, never returns.
\<close>

theorem queued_sender_waits_forever:
  assumes "ch_queue (ss_send s) = ready # rest" and "\<not> ch_stopped (ss_send s)" and "\<not> ch_is_full (ss_send s)"
    and "write_ready ready as = Some (as1, sent, Inl e)" and "ss_pool s = []" and "sr_done ready < length (ss_promises s)"
  shows "wait_for_send (writer_runs as) s hdr body = None"
  by (rule wait_for_send_stuck [OF assms])

theorem queued_sender_waits_forever_witness:
  "wait_for_send (writer_runs [WFailed ''Broken pipe''])
     (sample_session\<lparr>ss_send := (make_channel 4096)\<lparr>ch_queue := [\<lparr>sr_hdr = [], sr_body = [1], sr_done = 0\<rparr>]\<rparr>,
        ss_promises := [Pending]\<rparr>) None [2] = None"
  by (rule queued_sender_waits_forever [of _ "\<lparr>sr_hdr = [], sr_body = [1], sr_done = 0\<rparr>" "[]" _ "[]" "[]" "io_error ''Broken pipe''"])
    (simp_all add: make_channel_def ch_is_full_def write_ready_def write_half_write_all_def sample_session_def new_session_def)

lemma handle_events_short:
  assumes "hdr_msg_type buf = kFallbackData" "check_event_valid buf = Inr ()" "unat (hdr_length buf) < 8"
    "8 \<le> length buf" "length buf < 9223372036854775808"
  shows "handle_events w s buf = Some (s, \<lparr>er_consumed = 0, er_required = unat (hdr_length buf), er_err = None\<rparr>)"
proof -
  have "length (drop 8 buf) < usub (unat (hdr_length buf)) 8" using assms(3,5) by (simp add: usub_def)
  then have "handle_event w s buf
      = Some (s, Inr \<lparr>hr_consumed = 0, hr_required = unat (hdr_length buf), hr_stop = True, hr_err = None\<rparr>)"
    using assms(1) by (simp add: handle_event_def handle_fallback_data_def event_type_consts Let_def)
  then show ?thesis using assms by (subst handle_events_round) (simp_all add: events_round_def)
qed

lemma fill_buffered:
  assumes "br_inv r" "n \<le> length (br_buffer r)"
  shows "fill_buf_at_least r n as = Some (as, r, Inr (if n = 0 then [] else br_buffer r))"
  using assms length_br_buffer [OF assms(1)] by (simp add: fill_buf_at_least_def)

lemma short_event_spins:
  assumes "br_inv r" "8 \<le> length (br_buffer r)" "length (br_buffer r) < 9223372036854775808" "ss_shutdown s \<noteq> 1"
    "hdr_msg_type (br_buffer r) = kFallbackData" "check_event_valid (br_buffer r) = Inr ()" "unat (hdr_length (br_buffer r)) < 8"
  shows "n \<le> 8 \<Longrightarrow> \<exists>n'. session_read_loop fuel w s r n as = Some (s, r, n', as, False)"
proof (induction fuel arbitrary: n)
  case (Suc fuel)
  have c: "br_consume r 0 = r" using assms(1,2) length_br_buffer [OF assms(1)] by (simp add: br_consume_def)
  have "handle_events w s [] = Some (s, \<lparr>er_consumed = 0, er_required = 8, er_err = None\<rparr>)"
    by (subst handle_events_round) (simp_all add: events_round_def)
  moreover note handle_events_short [OF assms(5-7,2,3), of w s]
  moreover have "fill_buf_at_least r n as = Some (as, r, Inr (if n = 0 then [] else br_buffer r))"
    using fill_buffered [OF assms(1)] Suc.prems assms(2) by simp
  ultimately show ?case using Suc.IH [of 8] Suc.IH [of "unat (hdr_length (br_buffer r))"] assms(4,7) c by simp
qed simp

text \<open>
  Property C36. A fallback event whose length field is below 8 makes the receiver spin. The header passes
  validation, the payload length wraps around to a huge number, the handler asks for as many bytes as the length
  field says, and those are already there: however long the read loop runs, it is still at the
  same event with the same state, and it has not read a byte from the socket.
\<close>

theorem short_fallback_event_spins:
  assumes "br_inv r" and "8 \<le> length (br_buffer r)" and "length (br_buffer r) < 2 ^ 63" and "ss_shutdown s \<noteq> 1"
    and "hdr_msg_type (br_buffer r) = kFallbackData" and "check_event_valid (br_buffer r) = Inr ()"
    and "unat (hdr_length (br_buffer r)) < 8"
  shows "\<exists>n. session_read_loop fuel w s r kHeaderSize as = Some (s, r, n, as, False)"
  using short_event_spins [OF assms(1,2) _ assms(4-7), of 8 fuel w as] assms(3) by simp

theorem short_fallback_event_spins_witness:
  "\<forall>fuel. \<exists>n. session_read_loop fuel \<lparr>wd_others = (\<lambda>s. s), wd_yields = []\<rparr> sample_session
     \<lparr>br_buf = hdr_encode (replicate 8 0) 0 3 kFallbackData, br_pos = 0, br_len = 8, br_cap = 8\<rparr> kHeaderSize [Run [1, 2, 3]]
   = Some (sample_session, \<lparr>br_buf = hdr_encode (replicate 8 0) 0 3 kFallbackData, br_pos = 0, br_len = 8, br_cap = 8\<rparr>,
       n, [Run [1, 2, 3]], False)"
  by (intro allI short_fallback_event_spins)
    (simp_all add: br_inv_def br_buffer_def check_event_valid_def event_type_consts sample_session_def new_session_def)

end
