(* ===== verification/Wakeup.thy ===== *)
theory Wakeup
  imports Queue "HOL-Library.Multiset"
begin

text \<open>
  The wake-up protocol between two processes: \<open>Session::wake_up_peer\<close>, the fallback path of
  \<open>Stream::flush\<close> and the loop of \<open>Session::handle_polling\<close> (\<open>src/session.cpp\<close>,
  \<open>src/stream.cpp\<close>), running concurrently on one queue, its working flag and the socket.
  Every step is one access to shared state in sequentially consistent order, as the
  atomics of the code are: an element is put (the tail is stored), the flag is compared and
  exchanged, an event enters the socket, an element is popped, the flag is cleared, the
  size is checked, the flag is set again. The send channel and the socket together are one FIFO.
\<close>

section \<open>The protocol as steps\<close>

text \<open>A sending thread inside \<open>flush\<close>: once it has found the stream of its message not in fallback state it
  puts the message into the queue; after a put it calls \<open>mark_working\<close>, and if that succeeds it
  posts a polling event.\<close>

datatype sender_phase = Ready | Putting queue_element | Marking | Posting

text \<open>The read loop: waiting for an event, in the inner loop of \<open>handle_polling\<close>, after it found the
  queue empty, and inside \<open>mark_not_working\<close> after the first store and after the size check.\<close>

datatype consumer_phase = Waiting | Draining | Clearing | Cleared | Restoring

datatype uds_event = Polling | Fallback queue_element

text \<open>
  The last three fields are not state of the program: the number of puts still to come in
  the run, the messages in the order they were sent, and in the order they were delivered.
  The flag \<open>in_fallback_state\<close> belongs to a stream, which the \<open>seq_id\<close> of a message names: every thread
  may send on every stream.
\<close>

record link =
  lk_mem :: mem
  lk_wire :: "uds_event list"
  lk_senders :: "sender_phase list"
  lk_fallback :: "u32 \<Rightarrow> bool"
  lk_consumer :: consumer_phase
  lk_room :: nat
  lk_sent :: "queue_element list"
  lk_got :: "queue_element list"

text \<open>
  What starts a message and decides its path: \<open>flush\<close> reads the flag of the stream, then puts the
  message into the queue or gives up because the queue stays full; or it raises the flag and sends the message
  through the socket, whether the flag was up before or the message is not in shared memory. The flag of a
  stream also goes up when fallback data of the peer is read (\<open>move_pending_data\<close>), and
  \<open>Stream::reset\<close> clears it.
\<close>

inductive send_step :: "queue \<Rightarrow> link \<Rightarrow> link \<Rightarrow> bool" for q where
  s_start: "i < length (lk_senders s) \<Longrightarrow> lk_senders s ! i = Ready \<Longrightarrow> \<not> lk_fallback s (seq_id e) \<Longrightarrow>
    send_step q s (s\<lparr>lk_senders := (lk_senders s)[i := Putting e]\<rparr>)"
| s_put: "i < length (lk_senders s) \<Longrightarrow> lk_senders s ! i = Putting e \<Longrightarrow>
    lk_room s = Suc n \<Longrightarrow> put q (lk_mem s) e = (m, Inr ()) \<Longrightarrow>
    send_step q s (s\<lparr>lk_mem := m, lk_senders := (lk_senders s)[i := Marking], lk_room := n,
      lk_sent := lk_sent s @ [e]\<rparr>)"
| s_full: "i < length (lk_senders s) \<Longrightarrow> lk_senders s ! i = Putting e \<Longrightarrow>
    put q (lk_mem s) e = (m, Inl err) \<Longrightarrow>
    send_step q s (s\<lparr>lk_senders := (lk_senders s)[i := Ready]\<rparr>)"
| s_data: "i < length (lk_senders s) \<Longrightarrow> lk_senders s ! i = Ready \<Longrightarrow>
    send_step q s (s\<lparr>lk_wire := lk_wire s @ [Fallback e], lk_fallback := (lk_fallback s)(seq_id e := True),
      lk_sent := lk_sent s @ [e]\<rparr>)"
| s_raise: "send_step q s (s\<lparr>lk_fallback := (lk_fallback s)(x := True)\<rparr>)"
| s_reset: "send_step q s (s\<lparr>lk_fallback := (lk_fallback s)(x := False)\<rparr>)"

text \<open>Everything else the two processes do.\<close>

inductive work_step :: "queue \<Rightarrow> link \<Rightarrow> link \<Rightarrow> bool" for q where
  s_mark: "i < length (lk_senders s) \<Longrightarrow> lk_senders s ! i = Marking \<Longrightarrow>
    mark_working q (lk_mem s) = (m, b) \<Longrightarrow>
    work_step q s (s\<lparr>lk_mem := m, lk_senders := (lk_senders s)[i := (if b then Posting else Ready)]\<rparr>)"
| s_post: "i < length (lk_senders s) \<Longrightarrow> lk_senders s ! i = Posting \<Longrightarrow>
    work_step q s (s\<lparr>lk_wire := lk_wire s @ [Polling], lk_senders := (lk_senders s)[i := Ready]\<rparr>)"
| c_poll: "lk_consumer s = Waiting \<Longrightarrow> lk_wire s = Polling # w \<Longrightarrow>
    work_step q s (s\<lparr>lk_wire := w, lk_consumer := Draining\<rparr>)"
| c_data: "lk_consumer s = Waiting \<Longrightarrow> lk_wire s = Fallback e # w \<Longrightarrow>
    work_step q s (s\<lparr>lk_wire := w, lk_got := lk_got s @ [e]\<rparr>)"
| c_pop: "lk_consumer s = Draining \<Longrightarrow> pop q (lk_mem s) = (m, Inr e) \<Longrightarrow>
    work_step q s (s\<lparr>lk_mem := m, lk_got := lk_got s @ [e]\<rparr>)"
| c_empty: "lk_consumer s = Draining \<Longrightarrow> pop q (lk_mem s) = (m, Inl err) \<Longrightarrow>
    work_step q s (s\<lparr>lk_consumer := Clearing\<rparr>)"
| c_clear: "lk_consumer s = Clearing \<Longrightarrow>
    work_step q s (s\<lparr>lk_mem := store_u32 (lk_mem s) (q_working_flag q) 0, lk_consumer := Cleared\<rparr>)"
| c_check: "lk_consumer s = Cleared \<Longrightarrow>
    work_step q s (s\<lparr>lk_consumer := (if queue_size (lk_mem s) q = 0 then Waiting else Restoring)\<rparr>)"
| c_restore: "lk_consumer s = Restoring \<Longrightarrow>
    work_step q s (s\<lparr>lk_mem := store_u32 (lk_mem s) (q_working_flag q) 1, lk_consumer := Draining\<rparr>)"

definition link_step :: "queue \<Rightarrow> link \<Rightarrow> link \<Rightarrow> bool" where
  "link_step q s t \<longleftrightarrow> send_step q s t \<or> work_step q s t"

definition fresh_link :: "mem \<Rightarrow> nat \<Rightarrow> nat \<Rightarrow> link" where
  "fresh_link m n room = \<lparr>lk_mem = m, lk_wire = [], lk_senders = replicate n Ready,
     lk_fallback = (\<lambda>_. False), lk_consumer = Waiting, lk_room = room, lk_sent = [], lk_got = []\<rparr>"

text \<open>With nobody in between, the consumer's last steps are \<open>mark_not_working\<close>.\<close>

lemma mark_not_working_steps:
  assumes "lk_consumer s = Clearing"
  shows "\<exists>t. (work_step q)\<^sup>*\<^sup>* s t \<and> lk_mem t = fst (mark_not_working q (lk_mem s))
    \<and> lk_consumer t = (if snd (mark_not_working q (lk_mem s)) then Waiting else Draining)"
proof -
  let ?m = "store_u32 (lk_mem s) (q_working_flag q) 0"
  let ?s1 = "s\<lparr>lk_mem := ?m, lk_consumer := Cleared\<rparr>"
  let ?s2 = "?s1\<lparr>lk_consumer := (if queue_size ?m q = 0 then Waiting else Restoring)\<rparr>"
  have r: "(work_step q)\<^sup>*\<^sup>* s ?s2"
    using c_clear [OF assms, of q] c_check [of ?s1 q] by (simp add: rtranclp.rtrancl_into_rtrancl)
  show ?thesis
  proof (cases "queue_size ?m q = 0")
    case True
    then show ?thesis using r by (intro exI [of _ ?s2]) (simp add: mark_not_working_def Let_def)
  next
    case False
    then have "(work_step q)\<^sup>*\<^sup>* s (?s2\<lparr>lk_mem := store_u32 ?m (q_working_flag q) 1, lk_consumer := Draining\<rparr>)"
      using r c_restore [of ?s2 q] by (simp add: rtranclp.rtrancl_into_rtrancl)
    with False show ?thesis by (force simp: mark_not_working_def Let_def)
  qed
qed

section \<open>What the steps do to queue and flag\<close>

definition raised :: "queue \<Rightarrow> mem \<Rightarrow> bool" where
  "raised q m \<longleftrightarrow> load_u32 m (q_working_flag q) \<noteq> 0"

lemma flag_store:
  assumes "queue_inv n a d c m"
  defines "q \<equiv> queue_layout a d c"
  shows "queue_inv n a d c (store_u32 m (q_working_flag q) v)"
    "contents (store_u32 m (q_working_flag q) v) q = contents m q"
    "raised q (store_u32 m (q_working_flag q) v) \<longleftrightarrow> v \<noteq> 0"
proof -
  obtain h t where c: "counters a d c m h t" "t + n < 9223372036854775808"
    using assms(1) by (auto simp: queue_inv_counters)
  show "queue_inv n a d c (store_u32 m (q_working_flag q) v)"
    using counters_store_flag [OF c(1)] c(2) unfolding q_def queue_inv_counters by blast
  show "contents (store_u32 m (q_working_flag q) v) q = contents m q"
    unfolding q_def by (rule contents_store_flag [OF c(1)])
  show "raised q (store_u32 m (q_working_flag q) v) \<longleftrightarrow> v \<noteq> 0" by (simp add: raised_def)
qed

lemma mark_working_ok:
  assumes "queue_inv n a d c m" "mark_working (queue_layout a d c) m = (m', b)"
  shows "queue_inv n a d c m'" "contents m' (queue_layout a d c) = contents m (queue_layout a d c)"
    "b = (\<not> raised (queue_layout a d c) m)" "raised (queue_layout a d c) m'"
  using assms flag_store [OF assms(1)] by (auto simp: mark_working_def raised_def split: if_splits)

lemma put_ok:
  assumes i: "queue_inv (Suc n) a d c m" and p: "put (queue_layout a d c) m e = (m', Inr ())"
  shows "queue_inv n a d c m'" "contents m' (queue_layout a d c) = contents m (queue_layout a d c) @ [e]"
    "raised (queue_layout a d c) m' = raised (queue_layout a d c) m"
proof -
  let ?q = "queue_layout a d c"
  have l: "length (contents m ?q) < unat c" using rb.enq_full [OF i, of e] p by fastforce
  from rb.enq_room [OF i l, of e] p show "queue_inv n a d c m'" "contents m' ?q = contents m ?q @ [e]"
    by auto
  obtain h t where c: "counters a d c m h t" and r: "t + Suc n < 9223372036854775808"
    using i by (auto simp: queue_inv_counters)
  have l': "t - h < unat c" "t + 1 < 9223372036854775808" using l r by (simp_all add: length_contents [OF c])
  have m': "m' = store_tail (store_element m (d + 24 + (t mod unat c) * 12) e) ?q (of_nat (t + 1))"
    using put_room(1) [OF c l', of e] p by simp
  have "load_u32 m' (q_working_flag ?q) = load_u32 m (q_working_flag ?q)"
    unfolding m' store_tail_def using layout_positions [where a = a and d = d and c = c]
    by (intro load_u32_cong) (auto simp: store_i64_other store_element_other)
  then show "raised ?q m' = raised ?q m" by (simp add: raised_def)
qed

lemma pop_ok:
  assumes i: "queue_inv n a d c m" and p: "pop (queue_layout a d c) m = (m', Inr e)"
  shows "queue_inv n a d c m'" "contents m (queue_layout a d c) = e # contents m' (queue_layout a d c)"
    "raised (queue_layout a d c) m' = raised (queue_layout a d c) m"
proof -
  let ?q = "queue_layout a d c"
  obtain x xs where x: "contents m ?q = x # xs" using rb.deq_none [OF i] p by (cases "contents m ?q") auto
  from rb.deq_some [OF i x] p show "queue_inv n a d c m'" "contents m ?q = e # contents m' ?q"
    using x by auto
  have m': "m' = store_head m ?q (load_head m ?q + 1)" using p by (auto simp: pop_def Let_def split: if_splits)
  have "load_u32 m' (q_working_flag ?q) = load_u32 m (q_working_flag ?q)"
    unfolding m' store_head_def using layout_positions [where a = a and d = d and c = c]
    by (intro load_u32_cong) (auto simp: store_i64_other)
  then show "raised ?q m' = raised ?q m" by (simp add: raised_def)
qed

lemma pop_empty:
  assumes "queue_inv n a d c m"
  shows "(\<exists>m' err. pop (queue_layout a d c) m = (m', Inl err)) \<longleftrightarrow> contents m (queue_layout a d c) = []"
  using rb.deq_none [OF assms] rb.deq_some [OF assms]
  by (cases "contents m (queue_layout a d c)") fastforce+

lemma queue_size_zero:
  assumes "queue_inv n a d c m"
  shows "queue_size m (queue_layout a d c) = 0 \<longleftrightarrow> contents m (queue_layout a d c) = []"
  using assms queue_size_contents by (auto simp: queue_inv_counters)

section \<open>Nothing is forgotten\<close>

fun datas :: "uds_event list \<Rightarrow> queue_element list" where
  "datas [] = []"
| "datas (Polling # w) = datas w"
| "datas (Fallback e # w) = e # datas w"

lemma datas_append [simp]: "datas (v @ w) = datas v @ datas w"
  by (induction v rule: datas.induct) auto

text \<open>
  When the flag is raised somebody is going to wake the consumer or it is awake; when the queue
  is not empty, the same or a sender is about to look at the flag. Every message sent is
  delivered, in the queue or in the socket.
\<close>

definition link_inv :: "arch \<Rightarrow> nat \<Rightarrow> u32 \<Rightarrow> link \<Rightarrow> bool" where
  "link_inv a d c s \<longleftrightarrow> queue_inv (lk_room s) a d c (lk_mem s)
     \<and> (raised (queue_layout a d c) (lk_mem s) \<longrightarrow> Posting \<in> set (lk_senders s)
          \<or> Polling \<in> set (lk_wire s) \<or> lk_consumer s \<in> {Draining, Clearing})
     \<and> (contents (lk_mem s) (queue_layout a d c) \<noteq> [] \<longrightarrow> Marking \<in> set (lk_senders s)
          \<or> Posting \<in> set (lk_senders s) \<or> Polling \<in> set (lk_wire s) \<or> lk_consumer s \<noteq> Waiting)
     \<and> mset (lk_got s) + mset (contents (lk_mem s) (queue_layout a d c)) + mset (datas (lk_wire s))
        = mset (lk_sent s)"

lemma in_set_update: "x \<in> set xs \<Longrightarrow> xs ! i \<noteq> x \<Longrightarrow> x \<in> set (xs[i := v])"
  by (metis in_set_conv_nth length_list_update nth_list_update_neq)

lemma send_step_inv:
  assumes "send_step (queue_layout a d c) s t" "link_inv a d c s"
  shows "link_inv a d c t"
  using assms
proof cases
  case (s_put i e n m)
  note p = put_ok [of n a d c "lk_mem s" e m]
  have q: "queue_inv (Suc n) a d c (lk_mem s)" using assms(2) s_put by (simp add: link_inv_def)
  have "Marking \<in> set ((lk_senders s)[i := Marking])" using s_put by (simp add: set_update_memI)
  with p [OF q] s_put assms(2) in_set_update [of Posting "lk_senders s" i Marking] show ?thesis
    by (auto simp: link_inv_def)
next
  case (s_start i e)
  with assms(2) in_set_update [of _ "lk_senders s" i "Putting e"] show ?thesis by (auto simp: link_inv_def)
next
  case (s_full i e m err)
  with assms(2) in_set_update [of _ "lk_senders s" i Ready] show ?thesis by (auto simp: link_inv_def)
qed (use assms(2) in \<open>auto simp: link_inv_def\<close>)

lemma work_step_inv:
  assumes "work_step (queue_layout a d c) s t" "link_inv a d c s"
  shows "link_inv a d c t"
proof -
  have q: "queue_inv (lk_room s) a d c (lk_mem s)" using assms(2) by (simp add: link_inv_def)
  note f = flag_store [OF q]
  show ?thesis
    using assms(1)
  proof cases
    case (s_mark i m b)
    note k = mark_working_ok [OF q s_mark(4)]
    have "b \<Longrightarrow> Posting \<in> set ((lk_senders s)[i := Posting])" using s_mark by (simp add: set_update_memI)
    with k s_mark assms(2) in_set_update [of Posting "lk_senders s" i Ready] show ?thesis
      by (auto simp: link_inv_def)
  next
    case (s_post i)
    with assms(2) show ?thesis by (auto simp: link_inv_def)
  next
    case (c_pop m e)
    with pop_ok [OF q c_pop(3)] assms(2) show ?thesis by (auto simp: link_inv_def)
  next
    case c_check
    with queue_size_zero [OF q] assms(2) show ?thesis by (auto simp: link_inv_def)
  qed (use assms(2) f in \<open>auto simp: link_inv_def\<close>)
qed

lemma fresh_link_inv:
  assumes "room < 9223372036854775808"
  shows "link_inv a d c (fresh_link (fst (create_from_bytes a m d c)) n room)"
proof -
  have k: "counters a d c (fst (create_from_bytes a m d c)) 0 0" by (rule create_from_bytes_counters)
  have "\<not> raised (queue_layout a d c) (fst (create_from_bytes a m d c))"
    using create_from_bytes_flag by (simp add: raised_def)
  moreover have "queue_inv room a d c (fst (create_from_bytes a m d c))"
    unfolding queue_inv_counters using k assms by force
  ultimately show ?thesis using contents_empty_iff [OF k] by (simp add: link_inv_def fresh_link_def)
qed

lemma reachable_inv:
  assumes "(link_step (queue_layout a d c))\<^sup>*\<^sup>* s t" "link_inv a d c s"
  shows "link_inv a d c t"
  using assms
  by (induction rule: rtranclp_induct) (auto simp: link_step_def dest: send_step_inv work_step_inv)

section \<open>The work comes to an end\<close>

fun sender_weight :: "sender_phase \<Rightarrow> nat" where
  "sender_weight Ready = 0" | "sender_weight (Putting e) = 0" | "sender_weight Marking = 8" | "sender_weight Posting = 7"

fun event_weight :: "uds_event \<Rightarrow> nat" where
  "event_weight Polling = 6" | "event_weight (Fallback e) = 1"

fun consumer_weight :: "bool \<Rightarrow> consumer_phase \<Rightarrow> nat" where
  "consumer_weight mt Waiting = 0"
| "consumer_weight mt Draining = 5"
| "consumer_weight mt Clearing = (if mt then 4 else 8)"
| "consumer_weight mt Cleared = (if mt then 3 else 7)"
| "consumer_weight mt Restoring = 6"

definition backlog :: "queue \<Rightarrow> link \<Rightarrow> nat" where
  "backlog q s = length (contents (lk_mem s) q) + sum_list (map event_weight (lk_wire s))
     + sum_list (map sender_weight (lk_senders s))
     + consumer_weight (contents (lk_mem s) q = []) (lk_consumer s)"

lemma sender_weight_update:
  "i < length xs \<Longrightarrow> sum_list (map sender_weight (xs[i := v])) + sender_weight (xs ! i)
     = sum_list (map sender_weight xs) + sender_weight v"
proof (induction xs arbitrary: i)
  case (Cons x xs)
  then show ?case by (cases i) (auto simp: algebra_simps)
qed simp

lemma work_step_backlog:
  assumes "work_step (queue_layout a d c) s t" "link_inv a d c s"
  shows "backlog (queue_layout a d c) t < backlog (queue_layout a d c) s"
proof -
  have q: "queue_inv (lk_room s) a d c (lk_mem s)" using assms(2) by (simp add: link_inv_def)
  note f = flag_store [OF q]
  show ?thesis
    using assms(1)
  proof cases
    case (s_mark i m b)
    with mark_working_ok [OF q s_mark(4)] sender_weight_update [of i "lk_senders s" "if b then Posting else Ready"]
    show ?thesis by (auto simp: backlog_def split: if_splits)
  next
    case (s_post i)
    with sender_weight_update [of i "lk_senders s" Ready] show ?thesis by (simp add: backlog_def)
  next
    case (c_pop m e)
    with pop_ok [OF q c_pop(3)] show ?thesis by (simp add: backlog_def)
  next
    case (c_empty m err)
    with pop_empty [OF q] show ?thesis by (auto simp: backlog_def)
  next
    case c_check
    with queue_size_zero [OF q] show ?thesis by (simp add: backlog_def)
  qed (use f in \<open>simp_all add: backlog_def\<close>)
qed

lemma work_runs_bounded:
  "(work_step (queue_layout a d c) ^^ k) s t \<Longrightarrow> link_inv a d c s \<Longrightarrow>
     link_inv a d c t \<and> k + backlog (queue_layout a d c) t \<le> backlog (queue_layout a d c) s"
proof (induction k arbitrary: t)
  case (Suc k)
  obtain u where u: "(work_step (queue_layout a d c) ^^ k) s u" "work_step (queue_layout a d c) u t"
    using Suc.prems(1) by auto
  from Suc.IH [OF u(1) Suc.prems(2)] work_step_inv [OF u(2)] work_step_backlog [OF u(2)] show ?case by auto
qed simp

lemma work_sent: "(work_step q ^^ k) s t \<Longrightarrow> lk_sent t = lk_sent s"
proof (induction k arbitrary: t)
  case (Suc k)
  then obtain u where "(work_step q ^^ k) s u" "work_step q u t" by auto
  with Suc.IH [of u] show ?case by (auto elim: work_step.cases)
qed simp

lemma stuck_is_done:
  assumes inv: "link_inv a d c s" and st: "\<nexists>t. work_step (queue_layout a d c) s t"
  shows "lk_consumer s = Waiting" "lk_wire s = []" "contents (lk_mem s) (queue_layout a d c) = []"
proof -
  let ?q = "queue_layout a d c"
  have q: "queue_inv (lk_room s) a d c (lk_mem s)" using inv by (simp add: link_inv_def)
  show w: "lk_consumer s = Waiting"
  proof (cases "lk_consumer s")
    case Draining
    obtain m r where "pop ?q (lk_mem s) = (m, r)" by fastforce
    with Draining st show ?thesis by (cases r) (auto dest: c_pop c_empty)
  qed (use st in \<open>auto dest: c_clear c_check c_restore\<close>)
  show wi: "lk_wire s = []"
  proof (cases "lk_wire s")
    case (Cons x w')
    with w st show ?thesis by (cases x) (auto dest: c_poll c_data)
  qed simp
  have "Marking \<notin> set (lk_senders s)"
    using st by (auto simp: in_set_conv_nth) (metis s_mark surj_pair)
  moreover have "Posting \<notin> set (lk_senders s)" using st by (auto simp: in_set_conv_nth dest: s_post)
  ultimately show "contents (lk_mem s) ?q = []" using inv w wi by (auto simp: link_inv_def)
qed

section \<open>One sending thread keeps the order of a stream\<close>

text \<open>The messages of one stream, and a step that does not clear its fallback flag.\<close>

definition of_stream :: "u32 \<Rightarrow> queue_element list \<Rightarrow> queue_element list" where
  "of_stream x es = filter (\<lambda>e. seq_id e = x) es"

lemma of_stream_simps [simp]:
  "of_stream x [] = []"
  "of_stream x (e # es) = (if seq_id e = x then e # of_stream x es else of_stream x es)"
  "of_stream x (es @ fs) = of_stream x es @ of_stream x fs"
  by (simp_all add: of_stream_def)

definition keeps_fallback :: "queue \<Rightarrow> u32 \<Rightarrow> link \<Rightarrow> link \<Rightarrow> bool" where
  "keeps_fallback q x s t \<longleftrightarrow> link_step q s t \<and> (lk_fallback s x \<longrightarrow> lk_fallback t x)"

text \<open>A polling event is ahead of every fallback message of the stream.\<close>

definition polled_first :: "u32 \<Rightarrow> uds_event list \<Rightarrow> bool" where
  "polled_first x w \<longleftrightarrow> (\<exists>u v. w = u @ Polling # v \<and> of_stream x (datas u) = [])"

lemma polled_first_append: "polled_first x w \<Longrightarrow> polled_first x (w @ v)"
  unfolding polled_first_def by (metis append.assoc append_Cons)

lemma polled_first_data:
  "polled_first x (Fallback e # w) \<longleftrightarrow> seq_id e \<noteq> x \<and> polled_first x w"
proof
  assume "polled_first x (Fallback e # w)"
  then obtain u v where "Fallback e # w = u @ Polling # v" "of_stream x (datas u) = []"
    by (auto simp: polled_first_def)
  then show "seq_id e \<noteq> x \<and> polled_first x w"
    by (cases u) (auto simp: polled_first_def split: if_splits)
next
  assume "seq_id e \<noteq> x \<and> polled_first x w"
  then obtain u v where "w = u @ Polling # v" "of_stream x (datas (Fallback e # u)) = []"
    by (auto simp: polled_first_def)
  then show "polled_first x (Fallback e # w)"
    unfolding polled_first_def by (metis append_Cons)
qed

lemma polled_first_no_data: "Polling \<in> set w \<Longrightarrow> of_stream x (datas w) = [] \<Longrightarrow> polled_first x w"
  by (auto simp: polled_first_def dest!: split_list)

definition order_inv :: "arch \<Rightarrow> nat \<Rightarrow> u32 \<Rightarrow> u32 \<Rightarrow> link \<Rightarrow> bool" where
  "order_inv a d c x s \<longleftrightarrow> link_inv a d c s \<and> length (lk_senders s) = 1
     \<and> of_stream x (lk_sent s) = of_stream x (lk_got s)
         @ of_stream x (contents (lk_mem s) (queue_layout a d c)) @ of_stream x (datas (lk_wire s))
     \<and> (of_stream x (datas (lk_wire s)) \<noteq> [] \<longrightarrow> lk_fallback s x)
     \<and> (\<forall>e. lk_senders s ! 0 = Putting e \<and> seq_id e = x \<longrightarrow> of_stream x (datas (lk_wire s)) = [])
     \<and> (of_stream x (contents (lk_mem s) (queue_layout a d c)) \<noteq> [] \<and> of_stream x (datas (lk_wire s)) \<noteq> [] \<longrightarrow>
          lk_consumer s \<noteq> Waiting \<or> polled_first x (lk_wire s))"

text \<open>When the only thread sends through the socket, the polling event for what is queued is ahead of it.\<close>

lemma polling_ahead:
  assumes o: "order_inv a d c x s" and r: "lk_senders s ! 0 = Ready"
    and n: "of_stream x (contents (lk_mem s) (queue_layout a d c)) \<noteq> []" "lk_consumer s = Waiting"
  shows "polled_first x (lk_wire s)"
proof (cases "of_stream x (datas (lk_wire s)) = []")
  case True
  have "lk_senders s = [Ready]" using r o by (cases "lk_senders s") (auto simp: order_inv_def)
  moreover have "contents (lk_mem s) (queue_layout a d c) \<noteq> []" using n(1) by auto
  ultimately have "Polling \<in> set (lk_wire s)" using o n(2) by (auto simp: order_inv_def link_inv_def)
  with True show ?thesis by (rule polled_first_no_data [rotated])
next
  case False
  with n o show ?thesis by (auto simp: order_inv_def)
qed

lemma order_send:
  assumes st: "send_step (queue_layout a d c) s t" and o: "order_inv a d c x s"
    and kf: "lk_fallback s x \<longrightarrow> lk_fallback t x"
  shows "order_inv a d c x t"
proof -
  have li: "link_inv a d c s" "link_inv a d c t" and one: "length (lk_senders s) = 1"
    using st o send_step_inv by (auto simp: order_inv_def)
  show ?thesis
    using st
  proof cases
    case (s_put i e n m)
    have "queue_inv (Suc n) a d c (lk_mem s)" using li(1) s_put by (simp add: link_inv_def)
    from put_ok [OF this s_put(5)] s_put o li(2) one show ?thesis by (auto simp: order_inv_def)
  next
    case (s_data i e)
    have i: "i = 0" using s_data(2) one by simp
    note first = polling_ahead [OF o]
    from s_data i o li(2) first show ?thesis by (auto simp: order_inv_def polled_first_append)
  qed (use o li(2) one kf in \<open>auto simp: order_inv_def\<close>)
qed

lemma order_work:
  assumes "work_step (queue_layout a d c) s t" "order_inv a d c x s"
  shows "order_inv a d c x t"
proof -
  have li: "link_inv a d c s" "link_inv a d c t" and one: "length (lk_senders s) = 1"
    using assms work_step_inv by (auto simp: order_inv_def)
  have q: "queue_inv (lk_room s) a d c (lk_mem s)" using li(1) by (simp add: link_inv_def)
  note f = flag_store [OF q]
  show ?thesis
    using assms(1)
  proof cases
    case (s_mark i m b)
    from mark_working_ok [OF q s_mark(4)] s_mark assms(2) li(2) one show ?thesis by (auto simp: order_inv_def)
  next
    case (s_post i)
    with assms(2) li(2) one show ?thesis by (auto simp: order_inv_def polled_first_append)
  next
    case (c_data e w)
    with assms(2) li(2) show ?thesis by (auto simp: order_inv_def polled_first_data)
  next
    case (c_pop m e)
    with pop_ok [OF q c_pop(3)] assms(2) li(2) show ?thesis by (auto simp: order_inv_def)
  next
    case c_check
    with queue_size_zero [OF q] assms(2) li(2) show ?thesis by (auto simp: order_inv_def)
  qed (use assms(2) li(2) f in \<open>simp_all add: order_inv_def\<close>)
qed

lemma reachable_order:
  assumes "(keeps_fallback (queue_layout a d c) x)\<^sup>*\<^sup>* s t" "order_inv a d c x s"
  shows "order_inv a d c x t"
  using assms
  by (induction rule: rtranclp_induct) (auto simp: keeps_fallback_def link_step_def dest: order_send order_work)

section \<open>A run with one sending thread\<close>

lemma put_room_ok:
  assumes "queue_inv (Suc n) a d c m" "length (contents m (queue_layout a d c)) < unat c"
  obtains m' where "put (queue_layout a d c) m e = (m', Inr ())" "queue_inv n a d c m'"
    "contents m' (queue_layout a d c) = contents m (queue_layout a d c) @ [e]"
    "raised (queue_layout a d c) m' = raised (queue_layout a d c) m"
  using rb.enq_room [OF assms, of e] put_ok [OF assms(1)] by metis

lemma pop_some_ok:
  assumes "queue_inv n a d c m" "contents m (queue_layout a d c) = x # xs"
  obtains m' where "pop (queue_layout a d c) m = (m', Inr x)" "queue_inv n a d c m'"
    "contents m' (queue_layout a d c) = xs"
  using rb.deq_some [OF assms] by metis

abbreviation link_of ::
  "mem \<Rightarrow> uds_event list \<Rightarrow> sender_phase list \<Rightarrow> (u32 \<Rightarrow> bool) \<Rightarrow> consumer_phase \<Rightarrow> nat \<Rightarrow>
     queue_element list \<Rightarrow> queue_element list \<Rightarrow> link" where
  "link_of m w ss fb cp room st got \<equiv> \<lparr>lk_mem = m, lk_wire = w, lk_senders = ss, lk_fallback = fb,
    lk_consumer = cp, lk_room = room, lk_sent = st, lk_got = got\<rparr>"

lemma first_put:
  fixes a :: arch and m :: mem and d :: nat and c :: u32 and e :: queue_element
  defines "q \<equiv> queue_layout a d c"
  defines "m0 \<equiv> fst (create_from_bytes a m d c)"
  assumes "0 < c"
  obtains m1 m2 where "put q m0 e = (m1, Inr ())" "mark_working q m1 = (m2, True)"
    "queue_inv 1 a d c m2" "contents m2 q = [e]" "raised q m2"
proof -
  have k: "counters a d c m0 0 0" unfolding m0_def by (rule create_from_bytes_counters)
  have i: "queue_inv (Suc 1) a d c m0" unfolding queue_inv_counters using k by force
  have n: "contents m0 q = []" using contents_empty_iff [OF k] by (simp add: q_def)
  have r: "\<not> raised q m0" using create_from_bytes_flag by (simp add: raised_def q_def m0_def)
  have "length (contents m0 (queue_layout a d c)) < unat c"
    using n assms(3) by (simp add: q_def word_less_nat_alt)
  then obtain m1 where m1: "put q m0 e = (m1, Inr ())" "queue_inv 1 a d c m1" "contents m1 q = [e]"
    "\<not> raised q m1" using put_room_ok [OF i, of e] n r by (auto simp: q_def)
  obtain m2 w where w: "mark_working q m1 = (m2, w)" by fastforce
  have "w" "queue_inv 1 a d c m2" "contents m2 q = [e]" "raised q m2"
    using mark_working_ok [OF m1(2)] w m1(3,4) by (auto simp: q_def)
  with w m1(1) that show thesis by simp
qed

lemma queue_then_socket_run:
  assumes "put q m0 x = (m1, Inr ())" "mark_working q m1 = (m2, True)"
  shows "(keeps_fallback q z)\<^sup>*\<^sup>* (fresh_link m0 1 2)
     (link_of m2 [Polling, Fallback y] [Ready] ((\<lambda>_. False)(seq_id y := True)) Waiting 1 [x, y] [])"
proof -
  note rtranclp_trans [trans]
  let ?K = "(keeps_fallback q z)\<^sup>*\<^sup>*" and ?F = "\<lambda>_ :: u32. False"
  have step: "?K s t" if "link_step q s t" "lk_fallback s = ?F" for s t
    using that by (simp add: keeps_fallback_def r_into_rtranclp)
  have "?K (link_of m0 [] [Ready] ?F Waiting 2 [] []) (link_of m0 [] [Putting x] ?F Waiting 2 [] [])"
    using s_start [of 0 "link_of m0 [] [Ready] ?F Waiting 2 [] []" x q] by (intro step) (simp_all add: link_step_def)
  also have "?K \<dots> (link_of m1 [] [Marking] ?F Waiting 1 [x] [])"
    using s_put [of 0 "link_of m0 [] [Putting x] ?F Waiting 2 [] []" x 1 q m1] assms
    by (intro step) (simp_all add: link_step_def)
  also have "?K \<dots> (link_of m2 [] [Posting] ?F Waiting 1 [x] [])"
    using s_mark [of 0 "link_of m1 [] [Marking] ?F Waiting 1 [x] []" q m2 True] assms
    by (intro step) (simp_all add: link_step_def)
  also have "?K \<dots> (link_of m2 [Polling] [Ready] ?F Waiting 1 [x] [])"
    using s_post [of 0 "link_of m2 [] [Posting] ?F Waiting 1 [x] []" q] by (intro step) (simp_all add: link_step_def)
  also have "?K \<dots> (link_of m2 [Polling, Fallback y] [Ready] (?F(seq_id y := True)) Waiting 1 [x, y] [])"
    using s_data [of 0 "link_of m2 [Polling] [Ready] ?F Waiting 1 [x] []" q y]
    by (intro step) (simp_all add: link_step_def)
  finally show ?thesis by (simp add: fresh_link_def)
qed

lemma keeps_fallback_run: "(keeps_fallback q x)\<^sup>*\<^sup>* s t \<Longrightarrow> (link_step q)\<^sup>*\<^sup>* s t"
  using mono_rtranclp [of "keeps_fallback q x" "link_step q"] by (auto simp: keeps_fallback_def)

section \<open>Properties\<close>

text \<open>
  Property C6. No wake-up is lost. Start with a fresh queue, any number of sending threads and fewer than
  \<open>2^63\<close> puts to come, and let the threads and the consumer interleave in any way. Once no new
  message is started, the remaining work of senders and consumer is bounded: every run of it
  is finite, and whenever it can go no further, the queue and the socket are empty and every message
  sent has been delivered exactly once.
\<close>

theorem no_lost_wakeup:
  assumes "room < 2 ^ 63"
    and "(link_step (queue_layout a d c))\<^sup>*\<^sup>* (fresh_link (fst (create_from_bytes a m d c)) n room) s"
  shows "\<exists>bound. \<forall>k t. (work_step (queue_layout a d c) ^^ k) s t \<longrightarrow> k \<le> bound
    \<and> ((\<nexists>u. work_step (queue_layout a d c) t u) \<longrightarrow> contents (lk_mem t) (queue_layout a d c) = []
         \<and> lk_wire t = [] \<and> mset (lk_got t) = mset (lk_sent s))"
proof (intro exI allI impI conjI)
  let ?q = "queue_layout a d c"
  fix k t assume w: "(work_step ?q ^^ k) s t"
  have "room < 9223372036854775808" using assms(1) by simp
  note inv = reachable_inv [OF assms(2) fresh_link_inv [OF this]]
  note b = work_runs_bounded [OF w inv]
  show "k \<le> backlog ?q s" using conjunct2 [OF b] by linarith
  assume stuck: "\<nexists>u. work_step ?q t u"
  note e = stuck_is_done [OF conjunct1 [OF b] stuck]
  show "contents (lk_mem t) ?q = []" "lk_wire t = []" by (rule e)+
  show "mset (lk_got t) = mset (lk_sent s)"
    using conjunct1 [OF b] e work_sent [OF w] by (simp add: link_inv_def)
qed

theorem no_lost_wakeup_witness:
  "\<exists>s bound. (link_step (queue_layout X86_64 0 4))\<^sup>*\<^sup>*
       (fresh_link (fst (create_from_bytes X86_64 (\<lambda>_. 0) 0 4)) 1 2) s
    \<and> lk_sent s = [sample_element, sample_element] \<and> lk_got s = []
    \<and> (\<forall>k t. (work_step (queue_layout X86_64 0 4) ^^ k) s t \<longrightarrow> k \<le> bound
        \<and> ((\<nexists>u. work_step (queue_layout X86_64 0 4) t u) \<longrightarrow>
             mset (lk_got t) = {#sample_element, sample_element#}))"
proof -
  let ?q = "queue_layout X86_64 0 (4 :: u32)"
  obtain m1 m2 where p: "put ?q (fst (create_from_bytes X86_64 (\<lambda>_. 0) 0 4)) sample_element = (m1, Inr ())"
    "mark_working ?q m1 = (m2, True)" by (rule first_put [of 4 X86_64 0 "\<lambda>_. 0" sample_element]) simp
  note r = keeps_fallback_run [OF queue_then_socket_run [OF p, of 0 sample_element]]
  have room: "(2 :: nat) < 2 ^ 63" by simp
  from no_lost_wakeup [OF room r] obtain bound where
    "\<forall>k t. (work_step ?q ^^ k) (link_of m2 [Polling, Fallback sample_element] [Ready]
        ((\<lambda>_. False)(seq_id sample_element := True)) Waiting 1 [sample_element, sample_element] []) t \<longrightarrow> k \<le> bound
      \<and> ((\<nexists>u. work_step ?q t u) \<longrightarrow> mset (lk_got t) = {#sample_element, sample_element#})" by auto
  with r show ?thesis by (intro exI conjI) (assumption | simp)+
qed

text \<open>
  Property C20. With one sending thread, the messages of a stream arrive in the order they were sent, across the
  queue and the socket: at every moment the delivered messages of the stream are a prefix of its sent ones, also
  when the stream has fallen back to the socket while elements are still in the queue. The thread may
  send on any number of streams in between and the other streams may be reset; the run only does not clear
  the fallback flag of this stream while it is up; \<open>put_or_close_stream\<close> resets only streams whose flag it has found down.
\<close>

theorem single_sender_keeps_order:
  assumes "room < 2 ^ 63"
    and "(keeps_fallback (queue_layout a d c) x)\<^sup>*\<^sup>* (fresh_link (fst (create_from_bytes a m d c)) 1 room) s"
  shows "\<exists>rest. of_stream x (lk_sent s) = of_stream x (lk_got s) @ rest"
proof -
  let ?m = "fst (create_from_bytes a m d c)"
  have k: "counters a d c ?m 0 0" by (rule create_from_bytes_counters)
  have "link_inv a d c (fresh_link ?m 1 room)" using fresh_link_inv assms(1) by simp
  then have "order_inv a d c x (fresh_link ?m 1 room)"
    using contents_empty_iff [OF k] by (simp add: order_inv_def) (simp add: fresh_link_def)
  from reachable_order [OF assms(2) this] show ?thesis by (auto simp: order_inv_def)
qed

theorem single_sender_keeps_order_witness:
  "\<exists>s. (keeps_fallback (queue_layout X86_64 0 4) 7)\<^sup>*\<^sup>*
      (fresh_link (fst (create_from_bytes X86_64 (\<lambda>_. 0) 0 4)) 1 2) s
    \<and> of_stream 7 (lk_sent s) = [sample_element, sample_element] \<and> lk_wire s = [Polling, Fallback sample_element]
    \<and> (\<exists>rest. of_stream 7 (lk_sent s) = of_stream 7 (lk_got s) @ rest)"
proof -
  let ?q = "queue_layout X86_64 0 (4 :: u32)"
  obtain m1 m2 where p: "put ?q (fst (create_from_bytes X86_64 (\<lambda>_. 0) 0 4)) sample_element = (m1, Inr ())"
    "mark_working ?q m1 = (m2, True)" by (rule first_put [of 4 X86_64 0 "\<lambda>_. 0" sample_element]) simp
  note r = queue_then_socket_run [OF p, of 7 sample_element]
  have room: "(2 :: nat) < 2 ^ 63" by simp
  have "seq_id sample_element = 7" by (simp add: sample_element_def)
  with single_sender_keeps_order [OF room r] r show ?thesis
    by (intro exI conjI) (assumption | simp)+
qed

section \<open>Two sending threads do not\<close>

lemma overtaking_run:
  assumes "put q m0 b = (m1, Inr ())" "mark_working q m1 = (m2, True)" "put q m2 x = (m3, Inr ())"
    "mark_working q m3 = (m3, False)" "pop q m3 = (m5, Inr b)" "pop q m5 = (m6, Inr x)"
  shows "\<exists>s. (link_step q)\<^sup>*\<^sup>* (fresh_link m0 2 2) s \<and> lk_sent s = [b, x, y] \<and> lk_got s = [y, b, x]"
proof -
  note assms [simp] and rtranclp_trans [trans]
  have send: "send_step q s t \<Longrightarrow> (link_step q)\<^sup>*\<^sup>* s t" and work: "work_step q s t \<Longrightarrow> (link_step q)\<^sup>*\<^sup>* s t" for s t
    by (simp_all add: link_step_def r_into_rtranclp)
  let ?F = "\<lambda>_ :: u32. False" and ?T = "(\<lambda>_. False)(seq_id y := True)"
  let ?R = "(link_step q)\<^sup>*\<^sup>*"
  have "?R (link_of m0 [] [Ready, Ready] ?F Waiting 2 [] []) (link_of m0 [] [Ready, Putting b] ?F Waiting 2 [] [])"
    using s_start [of 1 "link_of m0 [] [Ready, Ready] ?F Waiting 2 [] []" b q] by (intro send) simp
  also have "?R \<dots> (link_of m1 [] [Ready, Marking] ?F Waiting 1 [b] [])"
    using s_put [of 1 "link_of m0 [] [Ready, Putting b] ?F Waiting 2 [] []" b 1 q m1] by (intro send) simp
  also have "?R \<dots> (link_of m2 [] [Ready, Posting] ?F Waiting 1 [b] [])"
    using s_mark [of 1 "link_of m1 [] [Ready, Marking] ?F Waiting 1 [b] []" q m2 True] by (intro work) simp
  also have "?R \<dots> (link_of m2 [] [Putting x, Posting] ?F Waiting 1 [b] [])"
    using s_start [of 0 "link_of m2 [] [Ready, Posting] ?F Waiting 1 [b] []" x q] by (intro send) simp
  also have "?R \<dots> (link_of m3 [] [Marking, Posting] ?F Waiting 0 [b, x] [])"
    using s_put [of 0 "link_of m2 [] [Putting x, Posting] ?F Waiting 1 [b] []" x 0 q m3] by (intro send) simp
  also have "?R \<dots> (link_of m3 [] [Ready, Posting] ?F Waiting 0 [b, x] [])"
    using s_mark [of 0 "link_of m3 [] [Marking, Posting] ?F Waiting 0 [b, x] []" q m3 False] by (intro work) simp
  also have "?R \<dots> (link_of m3 [Fallback y] [Ready, Posting] ?T Waiting 0 [b, x, y] [])"
    using s_data [of 0 "link_of m3 [] [Ready, Posting] ?F Waiting 0 [b, x] []" q y] by (intro send) simp
  also have "?R \<dots> (link_of m3 [] [Ready, Posting] ?T Waiting 0 [b, x, y] [y])"
    using c_data [of "link_of m3 [Fallback y] [Ready, Posting] ?T Waiting 0 [b, x, y] []" y "[]" q] by (intro work) simp
  also have "?R \<dots> (link_of m3 [Polling] [Ready, Ready] ?T Waiting 0 [b, x, y] [y])"
    using s_post [of 1 "link_of m3 [] [Ready, Posting] ?T Waiting 0 [b, x, y] [y]" q] by (intro work) simp
  also have "?R \<dots> (link_of m3 [] [Ready, Ready] ?T Draining 0 [b, x, y] [y])"
    using c_poll [of "link_of m3 [Polling] [Ready, Ready] ?T Waiting 0 [b, x, y] [y]" "[]" q] by (intro work) simp
  also have "?R \<dots> (link_of m5 [] [Ready, Ready] ?T Draining 0 [b, x, y] [y, b])"
    using c_pop [of "link_of m3 [] [Ready, Ready] ?T Draining 0 [b, x, y] [y]" q m5 b] by (intro work) simp
  also have "?R \<dots> (link_of m6 [] [Ready, Ready] ?T Draining 0 [b, x, y] [y, b, x])"
    using c_pop [of "link_of m5 [] [Ready, Ready] ?T Draining 0 [b, x, y] [y, b]" q m6 x] by (intro work) simp
  finally have "?R (fresh_link m0 2 2) (link_of m6 [] [Ready, Ready] ?T Draining 0 [b, x, y] [y, b, x])"
    by (simp add: fresh_link_def numeral_2_eq_2)
  then show ?thesis by (intro exI conjI) auto
qed

text \<open>
  Property C34. The order of one stream is not kept when another thread sends too, although a stream that has fallen
  back to the socket stays there \<open>to avoid unordering\<close>. Thread 1 puts \<open>b\<close> and wins the flag but has not
  posted its polling event; thread 0 puts \<open>x\<close>, finds the flag raised and posts nothing, then
  runs out of shared memory and sends \<open>y\<close> of the same stream through the socket. The reader takes \<open>y\<close> first:
  it delivers \<open>y\<close> before \<open>x\<close>.
\<close>

theorem fallback_overtakes_queue:
  "\<exists>s. (link_step (queue_layout a d 2))\<^sup>*\<^sup>* (fresh_link (fst (create_from_bytes a m d 2)) 2 2) s
     \<and> lk_sent s = [b, x, y] \<and> lk_got s = [y, b, x]"
proof -
  let ?q = "queue_layout a d (2 :: u32)"
  let ?m = "fst (create_from_bytes a m d (2 :: u32))"
  obtain m1 m2 where m1: "put ?q ?m b = (m1, Inr ())" "mark_working ?q m1 = (m2, True)" "queue_inv 1 a d 2 m2"
    "contents m2 ?q = [b]" "raised ?q m2" by (rule first_put [of 2 a d m b]) simp
  have i: "queue_inv (Suc 0) a d 2 m2" and c2: "length (contents m2 ?q) < unat (2 :: u32)"
    using m1(3,4) by simp_all
  obtain m3 where m3: "put ?q m2 x = (m3, Inr ())" "queue_inv 0 a d 2 m3" "contents m3 ?q = [b, x]"
    "raised ?q m3" using put_room_ok [OF i c2, of x] m1(4,5) by auto
  have m4: "mark_working ?q m3 = (m3, False)" using m3(4) by (simp add: mark_working_def raised_def)
  obtain m5 where m5: "pop ?q m3 = (m5, Inr b)" "queue_inv 0 a d 2 m5" "contents m5 ?q = [x]"
    by (rule pop_some_ok [OF m3(2,3)])
  obtain m6 where m6: "pop ?q m5 = (m6, Inr x)" by (rule pop_some_ok [OF m5(2,3)])
  show ?thesis by (rule overtaking_run [OF m1(1,2) m3(1) m4 m5(1) m6])
qed

end
