(* ===== verification/Delivery.thy ===== *)
theory Delivery
  imports Session_Events Wakeup
begin

text \<open>
  From \<open>flush\<close> to \<open>read\<close>: what a stream of one session flushes is what the stream of the same id in the
  peer's session reads, through shared memory and the queue, or through the socket when the
  stream has fallen back.
\<close>

section \<open>Delivering queued messages\<close>

definition message_of :: "queue_element \<Rightarrow> wrapper" where
  "message_of e = \<lparr>w_fallback_slice = None, w_offset = offset_in_shm_buf e\<rparr>"

definition add_pending :: "session \<Rightarrow> stream \<Rightarrow> wrapper \<Rightarrow> session" where
  "add_pending s st w = set_inner s st ((inner s st)\<lparr>si_pending_data := si_pending_data (inner s st) @ [w]\<rparr>)"

text \<open>The stream a server makes for a new id, and the session that has put it into its map and its accept channel.\<close>

definition next_stream :: "u32 \<Rightarrow> session \<Rightarrow> stream" where
  "next_stream i s = \<lparr>st_inner = length (ss_inners s), st_id = i, st_session_id = 0\<rparr>"

definition accepted :: "u32 \<Rightarrow> session \<Rightarrow> session" where
  "accepted i s = s\<lparr>ss_inners := ss_inners s @ [new_stream_inner], ss_streams := ss_streams s @ [(i, next_stream i s)],
     ss_accept := map_option (\<lambda>c. c\<lparr>ch_queue := ch_queue c @ [next_stream i s]\<rparr>) (ss_accept s)\<rparr>"

text \<open>The specification of one message: it goes to its stream, which a server creates when it is new.\<close>

definition deliver :: "queue_element \<Rightarrow> session \<Rightarrow> session" where
  "deliver e s =
     (let state = status e AND 255 in
      case map_of (ss_streams s) (seq_id e) of
        Some st \<Rightarrow> if state = kStreamClosed then half_close s st else add_pending s st (message_of e)
      | None \<Rightarrow>
          if \<not> ss_is_client s \<and> state = kStreamOpened
          then add_pending (accepted (seq_id e) s) (next_stream (seq_id e) s) (message_of e)
          else s)"

text \<open>
  The streams of the map are separate and not closed, the accept channel has room for the messages of
  new streams, and a client knows the streams of the messages.
\<close>

definition live :: "session \<Rightarrow> bool" where
  "live s \<longleftrightarrow> distinct (map (st_inner \<circ> snd) (ss_streams s))
     \<and> (\<forall>(i, st) \<in> set (ss_streams s). handle_ok s st \<and> si_state (inner s st) \<noteq> kStreamClosed)"

definition accept_room :: "session \<Rightarrow> nat \<Rightarrow> bool" where
  "accept_room s n \<longleftrightarrow> (case ss_accept s of None \<Rightarrow> True
     | Some c \<Rightarrow> \<not> ch_stopped c \<and> (ch_cap c = 0 \<or> length (ch_queue c) + n \<le> ch_cap c))"

definition fresh_in :: "session \<Rightarrow> queue_element list \<Rightarrow> queue_element list" where
  "fresh_in s es = filter (\<lambda>e. map_of (ss_streams s) (seq_id e) = None) es"

definition accepts_streams :: "session \<Rightarrow> queue_element list \<Rightarrow> bool" where
  "accepts_streams s es \<longleftrightarrow> fresh_in s es = [] \<or> accept_room s (length (fresh_in s es))"

definition knows :: "session \<Rightarrow> queue_element list \<Rightarrow> bool" where
  "knows s es \<longleftrightarrow> (ss_is_client s \<longrightarrow> (\<forall>e \<in> set es. map_of (ss_streams s) (seq_id e) \<noteq> None))"

lemma map_of_snoc: "map_of (xs @ [(i, x)]) j = (case map_of xs j of Some y \<Rightarrow> Some y | None \<Rightarrow> if i = j then Some x else None)"
  by (simp add: map_add_def split: option.splits)

lemma set_inner_fields [simp]:
  "ss_streams (set_inner s st i) = ss_streams s" "ss_accept (set_inner s st i) = ss_accept s"
  "ss_is_client (set_inner s st i) = ss_is_client s" "ss_qm (set_inner s st i) = ss_qm s"
  "ss_qmem (set_inner s st i) = ss_qmem s" "ss_mem (set_inner s st i) = ss_mem s" "ss_bm (set_inner s st i) = ss_bm s"
  "ss_send (set_inner s st i) = ss_send s" "ss_version (set_inner s st i) = ss_version s"
  "ss_promises (set_inner s st i) = ss_promises s" "length (ss_inners (set_inner s st i)) = length (ss_inners s)"
  by (simp_all add: set_inner_def)

lemma inner_other: "st_inner st' \<noteq> st_inner st \<Longrightarrow> inner (set_inner s st i) st' = inner s st'"
  by (simp add: inner_def set_inner_def)

lemma accepted_fields [simp]:
  "ss_is_client (accepted i s) = ss_is_client s" "ss_qm (accepted i s) = ss_qm s" "ss_qmem (accepted i s) = ss_qmem s"
  "ss_mem (accepted i s) = ss_mem s" "ss_bm (accepted i s) = ss_bm s" "ss_send (accepted i s) = ss_send s"
  "ss_version (accepted i s) = ss_version s" "ss_streams (accepted i s) = ss_streams s @ [(i, next_stream i s)]"
  "ss_inners (accepted i s) = ss_inners s @ [new_stream_inner]"
  by (simp_all add: accepted_def)

lemma accepted_new:
  "handle_ok (accepted i s) (next_stream i s)" "inner (accepted i s) (next_stream i s) = new_stream_inner"
  by (simp_all add: next_stream_def handle_ok_def inner_def)

lemma half_close_cases: "half_close s st = set_inner s st ((inner s st)\<lparr>si_state := kStreamHalfClosed\<rparr>) \<or> half_close s st = s"
  by (simp add: half_close_def)

text \<open>A delivery changes the record of one stream, after making the stream where it is new.\<close>

lemma deliver_cases:
  obtains (known) st i where "map_of (ss_streams s) (seq_id e) = Some st" "deliver e s = set_inner s st i"
      "si_state (inner s st) \<noteq> kStreamClosed \<longrightarrow> si_state i \<noteq> kStreamClosed"
    | (fresh) i where "map_of (ss_streams s) (seq_id e) = None" "\<not> ss_is_client s"
      "deliver e s = set_inner (accepted (seq_id e) s) (next_stream (seq_id e) s) i" "si_state i \<noteq> kStreamClosed"
    | (same) "deliver e s = s"
proof (cases "map_of (ss_streams s) (seq_id e)")
  case (Some st)
  note d = deliver_def [of e s, unfolded Let_def Some option.case]
  show ?thesis
  proof (cases "status e AND 255 = kStreamClosed")
    case True
    with d have "deliver e s = half_close s st" by simp
    with half_close_cases [of s st] show ?thesis using Some that(1) [of st] that(3)
      by (elim disjE) (simp_all add: stream_state_defs)
  next
    case False
    with d Some that(1) [of st "(inner s st)\<lparr>si_pending_data := si_pending_data (inner s st) @ [message_of e]\<rparr>"]
    show ?thesis by (simp add: add_pending_def)
  qed
next
  case None
  note d = deliver_def [of e s, unfolded Let_def None option.case]
  show ?thesis
  proof (cases "\<not> ss_is_client s \<and> status e AND 255 = kStreamOpened")
    case True
    with d None that(2) [of "new_stream_inner\<lparr>si_pending_data := [message_of e]\<rparr>"] show ?thesis
      by (simp add: add_pending_def accepted_new new_stream_inner_def stream_state_defs)
  next
    case False
    with d show ?thesis by (intro that(3)) auto
  qed
qed

lemma deliver_fields [simp]:
  "ss_qm (deliver e s) = ss_qm s" "ss_is_client (deliver e s) = ss_is_client s" "ss_bm (deliver e s) = ss_bm s"
  "ss_mem (deliver e s) = ss_mem s" "ss_qmem (deliver e s) = ss_qmem s" "ss_version (deliver e s) = ss_version s"
  by (rule deliver_cases [of s e]; simp)+

lemma inner_qmem [simp]: "inner (s\<lparr>ss_qmem := q\<rparr>) st = inner s st"
  by (simp add: inner_def)

lemma set_inner_qmem: "set_inner (s\<lparr>ss_qmem := q\<rparr>) st i = (set_inner s st i)\<lparr>ss_qmem := q\<rparr>"
  by (simp add: set_inner_def)

lemma accepted_qmem: "accepted i (s\<lparr>ss_qmem := q\<rparr>) = (accepted i s)\<lparr>ss_qmem := q\<rparr>" "next_stream i (s\<lparr>ss_qmem := q\<rparr>) = next_stream i s"
  by (simp_all add: accepted_def next_stream_def)

lemma deliver_qmem: "deliver e (s\<lparr>ss_qmem := q\<rparr>) = (deliver e s)\<lparr>ss_qmem := q\<rparr>"
  by (simp add: deliver_def half_close_def add_pending_def set_inner_qmem accepted_qmem Let_def split: option.split)

lemma fold_qmem: "fold deliver es (s\<lparr>ss_qmem := q\<rparr>) = (fold deliver es s)\<lparr>ss_qmem := q\<rparr>"
  by (induction es arbitrary: s) (simp_all add: deliver_qmem)

lemma live_set_inner:
  assumes "live s" "si_state i \<noteq> kStreamClosed"
  shows "live (set_inner s st i)"
proof -
  have "handle_ok (set_inner s st i) st' \<and> si_state (inner (set_inner s st i) st') \<noteq> kStreamClosed"
    if "handle_ok s st' \<and> si_state (inner s st') \<noteq> kStreamClosed" for st'
    using that assms(2) by (cases "st_inner st' = st_inner st") (simp_all add: handle_ok_def inner_def set_inner_def)
  then show ?thesis using assms(1) by (auto simp: live_def)
qed

lemma live_accepted:
  assumes "live s" shows "live (accepted i s)"
proof -
  have "handle_ok (accepted i s) st \<and> si_state (inner (accepted i s) st) \<noteq> kStreamClosed"
    if "handle_ok s st \<and> si_state (inner s st) \<noteq> kStreamClosed" for st
    using that by (simp add: handle_ok_def inner_def nth_append)
  moreover have "st_inner st < length (ss_inners s)" if "(j, st) \<in> set (ss_streams s)" for j st
    using assms that by (auto simp: live_def handle_ok_def)
  then have "length (ss_inners s) \<notin> (st_inner \<circ> snd) ` set (ss_streams s)" by force
  ultimately show ?thesis using assms accepted_new [of i s]
    by (auto simp: live_def new_stream_inner_def stream_state_defs next_stream_def)
qed

lemma live_known: "live s \<Longrightarrow> map_of (ss_streams s) i = Some st \<Longrightarrow> handle_ok s st \<and> si_state (inner s st) \<noteq> kStreamClosed"
  by (auto simp: live_def dest: map_of_SomeD)

lemma deliver_live: assumes "live s" shows "live (deliver e s)"
proof (cases rule: deliver_cases [of s e])
  case (known st i)
  with assms show ?thesis by (simp add: live_known live_set_inner)
next
  case (fresh i)
  with assms show ?thesis by (simp add: live_accepted live_set_inner)
qed (use assms in simp)

lemma accept_room_mono: "accept_room s n \<Longrightarrow> k \<le> n \<Longrightarrow> accept_room s k"
  by (auto simp: accept_room_def split: option.splits)

lemma accepts_mono:
  assumes "accepts_streams s (es @ fs)" shows "accepts_streams s es"
  using assms accept_room_mono [of s "length (fresh_in s (es @ fs))" "length (fresh_in s es)"]
  by (auto simp: accepts_streams_def fresh_in_def)

lemma deliver_accepts:
  assumes "accepts_streams s (e # es)" shows "accepts_streams (deliver e s) es"
proof (cases rule: deliver_cases [of s e])
  case (known st i)
  then show ?thesis using assms by (simp add: accepts_streams_def fresh_in_def accept_room_def)
next
  case (fresh i)
  let ?t = "deliver e s"
  have "length (fresh_in ?t es) \<le> length (fresh_in s es)"
    using fresh by (simp add: fresh_in_def map_of_snoc) (induction es, auto split: option.splits)
  moreover have "accept_room s (Suc (length (fresh_in s es)))" using assms fresh(1) by (simp add: accepts_streams_def fresh_in_def)
  then have "accept_room ?t (length (fresh_in s es))"
    using fresh by (auto simp: accept_room_def accepted_def split: option.splits)
  ultimately show ?thesis using accept_room_mono by (auto simp: accepts_streams_def)
next
  case same
  then show ?thesis using assms accept_room_mono [of s "Suc (length (fresh_in s es))" "length (fresh_in s es)"]
    by (auto simp: accepts_streams_def fresh_in_def split: if_splits)
qed

lemma deliver_knows:
  assumes "knows s (e # es)" shows "knows (deliver e s) es"
  by (cases rule: deliver_cases [of s e]) (use assms in \<open>auto simp: knows_def\<close>)

lemma fold_deliver_fields:
  "ss_qm (fold deliver es s) = ss_qm s" "ss_is_client (fold deliver es s) = ss_is_client s" "ss_bm (fold deliver es s) = ss_bm s"
  "ss_mem (fold deliver es s) = ss_mem s" "ss_qmem (fold deliver es s) = ss_qmem s" "ss_version (fold deliver es s) = ss_version s"
  by (induction es arbitrary: s) simp_all

lemma fold_deliver_ok:
  "live s \<Longrightarrow> live (fold deliver es s)"
  "accepts_streams s (es @ fs) \<Longrightarrow> accepts_streams (fold deliver es s) fs"
  "knows s (es @ fs) \<Longrightarrow> knows (fold deliver es s) fs"
  by (induction es arbitrary: s) (simp_all add: deliver_live deliver_accepts deliver_knows)

text \<open>One round of the inner loop is one delivery.\<close>

lemma fill_open:
  "si_state (inner s st) \<noteq> kStreamClosed \<Longrightarrow> handle_ok s st
    \<Longrightarrow> fill_data_to_read_buffer s st w = Some (add_pending s st w, Inr ())"
  by (simp add: fill_data_to_read_buffer_def add_pending_def Let_def handle_ok_def inner_def set_inner_def)

lemma get_stream_new:
  assumes "map_of (ss_streams s) i = None" "\<not> ss_is_client s" "accept_room s (Suc n)"
  shows "get_stream others s i kStreamOpened = Some (accepted i s, Some (next_stream i s))"
proof -
  define u where "u = s\<lparr>ss_inners := ss_inners s @ [new_stream_inner], ss_streams := ss_streams s @ [(i, next_stream i s)]\<rparr>"
  have a: "ss_accept u = ss_accept s" by (simp add: u_def)
  have ready: "can_accept u" using assms(3) by (auto simp: can_accept_def a accept_room_def ch_is_full_def split: option.splits)
  have push: "ch_push c v = Some (c\<lparr>ch_queue := ch_queue c @ [v]\<rparr>, True)" if "ss_accept s = Some c" for c v
    using assms(3) that by (simp add: ch_push_def ch_is_full_def accept_room_def) linarith
  have ns: "new_stream s i 0 = (s\<lparr>ss_inners := ss_inners s @ [new_stream_inner]\<rparr>, next_stream i s)"
    by (simp add: new_stream_def next_stream_def)
  have ins: "insert_stream i (next_stream i s) (s\<lparr>ss_inners := ss_inners s @ [new_stream_inner]\<rparr>) = u"
    using assms(1) by (simp add: insert_stream_def u_def)
  have "get_stream others s i kStreamOpened = (case ss_accept u of None \<Rightarrow> Some (u, Some (next_stream i s))
     | Some c \<Rightarrow> (case ch_push c (next_stream i s) of None \<Rightarrow> None
         | Some (c1, sent) \<Rightarrow> Some (u\<lparr>ss_accept := Some c1\<rparr>, Some (next_stream i s))))"
    using assms(1,2) ready by (simp add: get_stream_def ns ins awaited_def Let_def split: option.split)
  then show ?thesis using push by (cases "ss_accept s") (simp_all add: a, simp_all add: u_def accepted_def)
qed

lemma polling_step:
  assumes "pop (qm_recv_queue (ss_qm s)) (ss_qmem s) = (q, Inr e)" "live s" "accepts_streams s (e # es)" "knows s (e # es)"
  shows "polling_inner others s err = polling_inner others (deliver e (s\<lparr>ss_qmem := q\<rparr>)) err"
proof -
  define u where "u = s\<lparr>ss_qmem := q\<rparr>"
  have u: "ss_streams u = ss_streams s" "ss_is_client u = ss_is_client s" "live u"
    using assms(2) by (simp_all add: u_def live_def handle_ok_def inner_def)
  have p: "polling_inner others s err = polling_inner others v err"
    if "get_stream others u (seq_id e) (status e AND 255) = Some (u1, Some st)"
      "handle_stream_message u1 st (message_of e) (status e AND 255) = Some (v, Inr ())" for u1 st v
    using that assms(1) by (subst polling_inner.simps) (simp add: Let_def message_of_def u_def)
  show ?thesis
  proof (cases "map_of (ss_streams s) (seq_id e)")
    case (Some st)
    then show ?thesis using live_known [of u "seq_id e" st] fill_open [of u st "message_of e"] u
      unfolding u_def [symmetric]
      by (intro p [of u st "deliver e u"]) (auto simp: get_stream_def handle_stream_message_def deliver_def Let_def)
  next
    case None
    then have cl: "\<not> ss_is_client s" using assms(4) by (auto simp: knows_def)
    show ?thesis
    proof (cases "status e AND 255 = kStreamOpened")
      case True
      then have "fill_data_to_read_buffer (accepted (seq_id e) u) (next_stream (seq_id e) u) (message_of e)
          = Some (deliver e u, Inr ())"
        using fill_open [of "accepted (seq_id e) u" "next_stream (seq_id e) u"] None cl u
        by (simp add: accepted_new new_stream_inner_def stream_state_defs deliver_def Let_def)
      moreover have "accept_room u (Suc (length (fresh_in s es)))"
        using assms(3) None by (simp add: accepts_streams_def fresh_in_def u_def accept_room_def)
      ultimately show ?thesis using get_stream_new [of u "seq_id e" _ others] u None cl True
        unfolding u_def [symmetric]
        by (intro p [of "accepted (seq_id e) u" "next_stream (seq_id e) u" "deliver e u"])
          (simp_all add: handle_stream_message_def stream_state_defs)
    next
      case False
      with None cl assms(1) show ?thesis
        by (subst polling_inner.simps) (simp add: Let_def get_stream_def deliver_def)
    qed
  qed
qed

lemma polling_inner_delivers:
  assumes "qm_recv_queue (ss_qm s) = queue_layout a d c" "queue_inv n a d c (ss_qmem s)"
    "contents (ss_qmem s) (queue_layout a d c) = es" "live s" "accepts_streams s es" "knows s es"
  shows "\<exists>q. polling_inner others s err = Some ((fold deliver es s)\<lparr>ss_qmem := q\<rparr>, err, False)
    \<and> queue_inv n a d c q \<and> contents q (queue_layout a d c) = []"
  using assms
proof (induction es arbitrary: s)
  case Nil
  then show ?case using rb.deq_none [OF Nil.prems(2,3)]
    by (intro exI [of _ "ss_qmem s"]) (subst polling_inner.simps, simp)
next
  case (Cons e es)
  obtain q where q: "pop (queue_layout a d c) (ss_qmem s) = (q, Inr e)" "queue_inv n a d c q"
      "contents q (queue_layout a d c) = es"
    by (rule pop_some_ok [OF Cons.prems(2,3)])
  let ?u = "s\<lparr>ss_qmem := q\<rparr>"
  have u: "live ?u" "accepts_streams ?u (e # es)" "knows ?u (e # es)"
    using Cons.prems(4-6) by (simp_all add: live_def accepts_streams_def fresh_in_def accept_room_def knows_def handle_ok_def inner_def)
  have "polling_inner others s err = polling_inner others (deliver e ?u) err"
    using polling_step [of s q e es others err] q(1) Cons.prems by simp
  moreover have "\<exists>q'. polling_inner others (deliver e ?u) err = Some ((fold deliver es (deliver e ?u))\<lparr>ss_qmem := q'\<rparr>, err, False)
      \<and> queue_inv n a d c q' \<and> contents q' (queue_layout a d c) = []"
    using Cons.IH [of "deliver e ?u"] q Cons.prems(1) u deliver_live deliver_accepts deliver_knows by simp
  ultimately show ?case by (auto simp: deliver_qmem fold_qmem)
qed

text \<open>What the peer does during a \<open>yield\<close>: it puts a batch of messages.\<close>

definition peer_puts :: "queue_element list \<Rightarrow> others" where
  "peer_puts es s = s\<lparr>ss_qmem := fold (\<lambda>e m. fst (put (qm_recv_queue (ss_qm s)) m e)) es (ss_qmem s)\<rparr>"

lemma puts_ok:
  assumes "queue_inv (length es + n) a d c m" "length (contents m (queue_layout a d c)) + length es \<le> unat c"
  shows "queue_inv n a d c (fold (\<lambda>e m. fst (put (queue_layout a d c) m e)) es m)
    \<and> contents (fold (\<lambda>e m. fst (put (queue_layout a d c) m e)) es m) (queue_layout a d c)
      = contents m (queue_layout a d c) @ es"
  using assms
proof (induction es arbitrary: m)
  case (Cons e es)
  obtain m' where "put (queue_layout a d c) m e = (m', Inr ())" "queue_inv (length es + n) a d c m'"
      "contents m' (queue_layout a d c) = contents m (queue_layout a d c) @ [e]"
    using put_room_ok [of "length es + n" a d c m e] Cons.prems by auto
  then show ?case using Cons.IH [of m'] Cons.prems(2) by simp
qed simp

lemma mark_not_working_empty:
  assumes "queue_inv n a d c m"
  shows "contents m (queue_layout a d c) = [] \<Longrightarrow> mark_not_working (queue_layout a d c) m
      = (store_u32 m (q_working_flag (queue_layout a d c)) 0, True)"
    "contents m (queue_layout a d c) \<noteq> [] \<Longrightarrow> \<exists>m'. mark_not_working (queue_layout a d c) m = (m', False)
      \<and> queue_inv n a d c m' \<and> contents m' (queue_layout a d c) = contents m (queue_layout a d c)"
  using flag_store [OF assms] flag_store [OF flag_store(1) [OF assms]]
    queue_size_zero [OF flag_store(1) [OF assms]]
  by (auto simp: mark_not_working_def Let_def)

lemma polling_outer_delivers:
  assumes "qm_recv_queue (ss_qm s) = queue_layout a d c" "queue_inv (length (concat bss) + n) a d c (ss_qmem s)"
    "contents (ss_qmem s) (queue_layout a d c) = es" "live s" "accepts_streams s (es @ concat bss)"
    "knows s (es @ concat bss)" "\<forall>bs \<in> set bss. bs \<noteq> [] \<and> length bs \<le> unat c"
  shows "\<exists>q. polling_outer others (map peer_puts bss @ [\<lambda>s. s]) s err
      = Some ((fold deliver (es @ concat bss) s)\<lparr>ss_qmem := q\<rparr>,
          \<lparr>hr_consumed = kHeaderSize, hr_required = kHeaderSize, hr_stop = False, hr_err = err\<rparr>)
    \<and> queue_inv n a d c q \<and> contents q (queue_layout a d c) = [] \<and> \<not> raised (queue_layout a d c) q"
  using assms
proof (induction bss arbitrary: s es)
  case Nil
  obtain q where q: "polling_inner others s err = Some ((fold deliver es s)\<lparr>ss_qmem := q\<rparr>, err, False)"
      "queue_inv n a d c q" "contents q (queue_layout a d c) = []"
    using polling_inner_delivers [of s a d c n es] Nil.prems by auto
  then show ?case using mark_not_working_empty(1) [OF q(2,3)] flag_store [OF q(2), of 0] Nil.prems(1)
    by (subst polling_outer.simps) (auto simp: Let_def fold_deliver_fields)
next
  case (Cons bs bss)
  let ?q = "queue_layout a d c" and ?n = "length (concat bss) + n"
  obtain q where q: "polling_inner others s err = Some ((fold deliver es s)\<lparr>ss_qmem := q\<rparr>, err, False)"
      "queue_inv (length bs + ?n) a d c q" "contents q ?q = []"
    using polling_inner_delivers [of s a d c "length bs + ?n" es others err] Cons.prems
      accepts_mono [of s es "concat (bs # bss)"]
    by (auto simp: add.assoc knows_def)
  define q1 where "q1 = fold (\<lambda>e m. fst (put ?q m e)) bs q"
  have q1: "queue_inv ?n a d c q1" "contents q1 ?q = bs"
    using puts_ok [of bs ?n a d c q] q(2,3) Cons.prems(7) by (simp_all add: q1_def)
  obtain q2 where q2: "mark_not_working ?q q1 = (q2, False)" "queue_inv ?n a d c q2" "contents q2 ?q = bs"
    using mark_not_working_empty(2) [OF q1(1)] q1(2) Cons.prems(7) by auto
  let ?u = "(fold deliver es s)\<lparr>ss_qmem := q2\<rparr>"
  have "polling_outer others (map peer_puts (bs # bss) @ [\<lambda>s. s]) s err
      = polling_outer others (map peer_puts bss @ [\<lambda>s. s]) ?u err"
    using q(1) q2(1) Cons.prems(1)
    by (subst polling_outer.simps) (simp add: Let_def peer_puts_def fold_deliver_fields q1_def)
  moreover have "\<exists>q. polling_outer others (map peer_puts bss @ [\<lambda>s. s]) ?u err
      = Some ((fold deliver (bs @ concat bss) ?u)\<lparr>ss_qmem := q\<rparr>,
          \<lparr>hr_consumed = kHeaderSize, hr_required = kHeaderSize, hr_stop = False, hr_err = err\<rparr>)
    \<and> queue_inv n a d c q \<and> contents q ?q = [] \<and> \<not> raised ?q q"
    using Cons.IH [of ?u bs] q2 Cons.prems fold_deliver_ok(1) [of s es] fold_deliver_ok(2,3) [of s es "bs @ concat bss"]
    by (simp add: fold_deliver_fields live_def accepts_streams_def fresh_in_def accept_room_def knows_def handle_ok_def inner_def)
  ultimately show ?case by (auto simp: fold_qmem)
qed

section \<open>What the streams get\<close>

definition pending_of :: "session \<Rightarrow> u32 \<Rightarrow> wrapper list" where
  "pending_of s i = (case map_of (ss_streams s) i of None \<Rightarrow> [] | Some st \<Rightarrow> si_pending_data (inner s st))"

definition messages_for :: "u32 \<Rightarrow> queue_element list \<Rightarrow> wrapper list" where
  "messages_for i es = map message_of (filter (\<lambda>e. seq_id e = i \<and> status e AND 255 = kStreamOpened) es)"

text \<open>The two kinds of messages \<open>flush\<close> and \<open>close\<close> put.\<close>

definition regular :: "queue_element \<Rightarrow> bool" where
  "regular e \<longleftrightarrow> status e AND 255 = kStreamOpened \<or> status e AND 255 = kStreamClosed"

lemma live_inners:
  assumes "live s" "map_of (ss_streams s) i = Some st" "map_of (ss_streams s) j = Some st'" "i \<noteq> j"
  shows "st_inner st \<noteq> st_inner st'"
proof
  assume eq: "st_inner st = st_inner st'"
  have d: "distinct (map (st_inner \<circ> snd) (ss_streams s))" using assms(1) by (simp add: live_def)
  obtain k l where k: "k < length (ss_streams s)" "ss_streams s ! k = (i, st)" and l: "l < length (ss_streams s)" "ss_streams s ! l = (j, st')"
    using assms(2,3) by (metis in_set_conv_nth map_of_SomeD)
  have "k = l" using nth_eq_iff_index_eq [OF d, of k l] k l eq by simp
  with k l assms(4) show False by simp
qed

lemma pending_known: "map_of (ss_streams s) i = Some st \<Longrightarrow> pending_of s i = si_pending_data (inner s st)"
  by (simp add: pending_of_def)

lemma pending_set_inner:
  assumes "live s" "map_of (ss_streams s) j = Some st"
  shows "pending_of (set_inner s st i) k = (if k = j then si_pending_data i else pending_of s k)"
proof -
  have "handle_ok s st" using live_known [OF assms] by simp
  moreover have "inner (set_inner s st i) st' = inner s st'" if "map_of (ss_streams s) k = Some st'" "k \<noteq> j" for st'
    using live_inners [OF assms(1) that(1) assms(2) that(2)] by (rule inner_other)
  ultimately show ?thesis using assms(2)
    by (auto simp: pending_of_def handle_ok_def inner_def set_inner_def split: option.splits)
qed

lemma pending_accepted:
  assumes "live s" "map_of (ss_streams s) j = None"
  shows "pending_of (accepted j s) k = pending_of s k" "map_of (ss_streams (accepted j s)) j = Some (next_stream j s)"
proof -
  have "inner (accepted j s) st = inner s st" if "map_of (ss_streams s) k = Some st" for st
    using live_known [OF assms(1) that] by (simp add: inner_def handle_ok_def nth_append)
  then show "pending_of (accepted j s) k = pending_of s k"
    using assms(2) accepted_new(2) [of j s] by (auto simp: pending_of_def map_of_snoc new_stream_inner_def split: option.splits if_splits)
  show "map_of (ss_streams (accepted j s)) j = Some (next_stream j s)" using assms(2) by (simp add: map_add_def)
qed

lemma pending_half_close:
  "live s \<Longrightarrow> map_of (ss_streams s) j = Some st \<Longrightarrow> pending_of (half_close s st) k = pending_of s k"
  by (simp add: half_close_def pending_set_inner) (simp add: pending_of_def)

lemma pending_deliver:
  assumes "live s" "regular e" "knows s [e]"
  shows "pending_of (deliver e s) i = pending_of s i @ messages_for i [e]"
proof (cases "map_of (ss_streams s) (seq_id e)")
  case (Some st)
  then show ?thesis using assms(1,2)
    by (auto simp: deliver_def regular_def Let_def add_pending_def pending_set_inner pending_half_close messages_for_def
      stream_state_defs pending_known)
next
  case None
  note a = pending_accepted [OF assms(1) None]
  show ?thesis
  proof (cases "status e AND 255 = kStreamOpened")
    case True
    then have "deliver e s = add_pending (accepted (seq_id e) s) (next_stream (seq_id e) s) (message_of e)"
      using None assms(3) by (simp add: deliver_def knows_def)
    moreover have "pending_of s (seq_id e) = []" using None by (simp add: pending_of_def)
    ultimately show ?thesis using True a(1)
      by (auto simp: add_pending_def pending_set_inner [OF live_accepted [OF assms(1)] a(2)] messages_for_def
        accepted_new(2) new_stream_inner_def)
  next
    case False
    then show ?thesis using None by (simp add: deliver_def messages_for_def)
  qed
qed

lemma pending_fold_deliver:
  "live s \<Longrightarrow> \<forall>e \<in> set es. regular e \<Longrightarrow> knows s es \<Longrightarrow> pending_of (fold deliver es s) i = pending_of s i @ messages_for i es"
proof (induction es arbitrary: s)
  case (Cons e es)
  have "knows s [e]" using Cons.prems(3) by (simp add: knows_def)
  then have "pending_of (deliver e s) i = pending_of s i @ messages_for i [e]"
    using Cons.prems(1,2) by (intro pending_deliver) simp_all
  then show ?case using Cons.IH [of "deliver e s"] Cons.prems deliver_live deliver_knows
    by (simp add: messages_for_def)
qed (simp add: messages_for_def)

definition closes :: "u32 \<Rightarrow> queue_element list \<Rightarrow> bool" where
  "closes i es \<longleftrightarrow> (\<exists>e \<in> set es. seq_id e = i \<and> status e AND 255 = kStreamClosed)"

definition state_after :: "u32 \<Rightarrow> bool \<Rightarrow> u32" where
  "state_after state b = (if state = kStreamOpened \<and> b then kStreamHalfClosed else state)"

lemma state_after_twice: "state_after (state_after x b) b' = state_after x (b \<or> b')"
  by (simp add: state_after_def stream_state_defs)

lemma closes_Cons: "closes i (e # es) \<longleftrightarrow> closes i [e] \<or> closes i es"
  by (auto simp: closes_def)

lemma state_deliver:
  assumes "live s" "regular e" "map_of (ss_streams s) i = Some st"
  shows "map_of (ss_streams (deliver e s)) i = Some st
    \<and> si_state (inner (deliver e s) st) = state_after (si_state (inner s st)) (closes i [e])"
proof (cases "seq_id e = i")
  case True
  have "st_inner st < length (ss_inners s)" using live_known [OF assms(1,3)] by (simp add: handle_ok_def)
  then show ?thesis using True assms(2,3)
    by (auto simp: deliver_def regular_def Let_def half_close_def add_pending_def set_inner_def inner_def
      closes_def state_after_def stream_state_defs)
next
  case False
  have other: "inner (set_inner s st' k) st = inner s st" if "map_of (ss_streams s) (seq_id e) = Some st'" for st' k
    using live_inners [OF assms(1,3) that] False by (intro inner_other) simp
  have h: "st_inner st < length (ss_inners s)" using live_known [OF assms(1,3)] by (simp add: handle_ok_def)
  then have new: "inner (set_inner (accepted j s) (next_stream j s) k) st = inner s st" for j k
    by (subst inner_other) (simp_all add: inner_def next_stream_def nth_append)
  have "\<not> closes i [e]" using False by (simp add: closes_def)
  then show ?thesis using assms(3)
    by (cases rule: deliver_cases [of s e]) (simp_all add: other new state_after_def map_of_snoc)
qed

lemma state_fold_deliver:
  "live s \<Longrightarrow> \<forall>e \<in> set es. regular e \<Longrightarrow> map_of (ss_streams s) i = Some st \<Longrightarrow>
    map_of (ss_streams (fold deliver es s)) i = Some st
    \<and> si_state (inner (fold deliver es s) st) = state_after (si_state (inner s st)) (closes i es)"
proof (induction es arbitrary: s)
  case (Cons e es)
  then have "map_of (ss_streams (deliver e s)) i = Some st"
    "si_state (inner (deliver e s) st) = state_after (si_state (inner s st)) (closes i [e])"
    using state_deliver [of s e i st] by simp_all
  moreover have "live (deliver e s)" "\<forall>e \<in> set es. regular e" using Cons.prems deliver_live by simp_all
  moreover note Cons.IH [OF this]
  ultimately show ?case by (simp add: state_after_twice closes_Cons [of i e es])
qed (simp add: state_after_def closes_def)

section \<open>New streams\<close>

definition opens :: "u32 \<Rightarrow> queue_element \<Rightarrow> bool" where
  "opens i e \<longleftrightarrow> seq_id e = i \<and> status e AND 255 = kStreamOpened"

definition known_ids :: "session \<Rightarrow> u32 set" where
  "known_ids s = {i. map_of (ss_streams s) i \<noteq> None}"

text \<open>The ids that get a stream, in the order of their first message.\<close>

fun new_ids :: "u32 set \<Rightarrow> queue_element list \<Rightarrow> u32 list" where
  "new_ids k [] = []"
| "new_ids k (e # es) =
     (if seq_id e \<notin> k \<and> opens (seq_id e) e then seq_id e # new_ids (insert (seq_id e) k) es else new_ids k es)"

text \<open>\<open>t\<close> is \<open>s\<close> with the streams \<open>sts\<close> added to its map and its accept channel.\<close>

definition announces :: "session \<Rightarrow> stream list \<Rightarrow> session \<Rightarrow> bool" where
  "announces s sts t \<longleftrightarrow> ss_streams t = ss_streams s @ map (\<lambda>st. (st_id st, st)) sts
     \<and> map_option ch_queue (ss_accept t) = map_option (\<lambda>c. ch_queue c @ sts) (ss_accept s)"

lemma announces_trans:
  assumes "announces s sts t" "announces t sts' u" shows "announces s (sts @ sts') u"
  using assms by (cases "ss_accept s"; cases "ss_accept t") (auto simp: announces_def)

lemma set_inner_announces: "announces s [] (set_inner s st i)" "announces s [] s"
  by (auto simp: announces_def option.map_comp comp_def cong: option.map_cong)

lemma accepted_announces: "announces s [next_stream i s] (set_inner (accepted i s) st k)"
  by (simp add: announces_def option.map_comp comp_def accepted_def) (simp add: next_stream_def)

lemma known_new_iff:
  assumes "announces s sts t" shows "known_ids t = known_ids s \<union> st_id ` set sts"
  using assms by (auto simp: announces_def known_ids_def map_of_eq_None_iff image_Un image_image)

lemma deliver_announces:
  assumes "knows s [e]"
  shows "\<exists>sts. announces s sts (deliver e s) \<and> map st_id sts = new_ids (known_ids s) [e]"
proof (cases "map_of (ss_streams s) (seq_id e)")
  case (Some st)
  moreover have "\<exists>i. deliver e s = set_inner s st i \<or> deliver e s = s"
    using Some half_close_cases [of s st] by (auto simp: deliver_def Let_def add_pending_def)
  ultimately show ?thesis using set_inner_announces by (intro exI [of _ "[]"]) (auto simp: known_ids_def)
next
  case None
  then have cl: "\<not> ss_is_client s" using assms by (simp add: knows_def)
  show ?thesis
  proof (cases "status e AND 255 = kStreamOpened")
    case True
    with None cl accepted_announces [of s "seq_id e"] show ?thesis
      by (intro exI [of _ "[next_stream (seq_id e) s]"])
        (simp add: deliver_def Let_def add_pending_def known_ids_def opens_def next_stream_def)
  next
    case False
    with None set_inner_announces(2) show ?thesis
      by (intro exI [of _ "[]"]) (simp add: deliver_def opens_def Let_def)
  qed
qed

lemma new_ids_append:
  "new_ids k (es @ fs) = new_ids k es @ new_ids (k \<union> set (new_ids k es)) fs"
  by (induction k es rule: new_ids.induct) (auto simp: insert_commute)

lemma fold_deliver_announces:
  "knows s es \<Longrightarrow> \<exists>sts. announces s sts (fold deliver es s) \<and> map st_id sts = new_ids (known_ids s) es"
proof (induction es arbitrary: s)
  case Nil
  show ?case using set_inner_announces(2) [of s] by (intro exI [of _ "[]"]) simp
next
  case (Cons e es)
  have "knows s [e]" using Cons.prems by (simp add: knows_def)
  then obtain sts where a: "announces s sts (deliver e s)" "map st_id sts = new_ids (known_ids s) [e]"
    using deliver_announces by blast
  obtain sts' where b: "announces (deliver e s) sts' (fold deliver es (deliver e s))"
    "map st_id sts' = new_ids (known_ids (deliver e s)) es"
    using Cons.IH [of "deliver e s"] deliver_knows Cons.prems by blast
  have "known_ids (deliver e s) = known_ids s \<union> set (new_ids (known_ids s) [e])"
    using known_new_iff [OF a(1)] by (simp add: a(2) [symmetric] del: new_ids.simps)
  then have "map st_id (sts @ sts') = new_ids (known_ids s) ([e] @ es)"
    unfolding new_ids_append using a(2) b(2) by simp
  with announces_trans [OF a(1) b(1)] show ?case by (intro exI [of _ "sts @ sts'"]) simp
qed

text \<open>A new stream is open until a close message comes behind the message that made it.\<close>

lemma deliver_opens:
  assumes "live s" "map_of (ss_streams s) i = None" "opens i e" "\<not> ss_is_client s"
  shows "map_of (ss_streams (deliver e s)) i = Some (next_stream i s)"
    "si_state (inner (deliver e s) (next_stream i s)) = kStreamOpened"
proof -
  have d: "deliver e s = add_pending (accepted i s) (next_stream i s) (message_of e)"
    using assms by (simp add: deliver_def opens_def)
  show "map_of (ss_streams (deliver e s)) i = Some (next_stream i s)"
    using pending_accepted(2) [OF assms(1,2)] by (simp add: d add_pending_def del: accepted_fields)
  show "si_state (inner (deliver e s) (next_stream i s)) = kStreamOpened"
    by (simp add: d add_pending_def inner_def set_inner_def next_stream_def new_stream_inner_def)
qed

lemma deliver_stays_unknown:
  assumes "map_of (ss_streams s) i = None" "\<not> opens i e" "regular e"
  shows "map_of (ss_streams (deliver e s)) i = None"
proof (cases "map_of (ss_streams s) (seq_id e)")
  case (Some st)
  have "ss_streams (deliver e s) = ss_streams s"
    by (simp add: deliver_def Some Let_def add_pending_def half_close_def)
  with assms(1) show ?thesis by simp
next
  case None
  then show ?thesis using assms by (auto simp: deliver_def opens_def Let_def add_pending_def map_of_snoc)
qed

lemma state_new_stream:
  "live s \<Longrightarrow> \<forall>e \<in> set es. regular e \<Longrightarrow> knows s es \<Longrightarrow> map_of (ss_streams s) i = None
    \<Longrightarrow> map_of (ss_streams (fold deliver es s)) i = Some st
    \<Longrightarrow> si_state (inner (fold deliver es s) st) = state_after kStreamOpened (closes i (dropWhile (\<lambda>e. \<not> opens i e) es))"
proof (induction es arbitrary: s)
  case (Cons e es)
  have l: "live (deliver e s)" "\<forall>e \<in> set es. regular e" "knows (deliver e s) es"
    using Cons.prems deliver_live deliver_knows by auto
  show ?case
  proof (cases "opens i e")
    case True
    then have "\<not> ss_is_client s" using Cons.prems(3,4) by (auto simp: knows_def opens_def)
    note o = deliver_opens [OF Cons.prems(1,4) True this]
    have "closes i (e # es) = closes i es" using True by (auto simp: closes_def opens_def stream_state_defs)
    with state_fold_deliver [OF l(1,2) o(1)] o(2) Cons.prems(5) True show ?thesis by simp
  next
    case False
    have "map_of (ss_streams (deliver e s)) i = None"
      using deliver_stays_unknown [OF Cons.prems(4) False] Cons.prems(2) by simp
    with Cons.IH [OF l] Cons.prems(5) False show ?thesis by simp
  qed
qed simp

section \<open>The polling handler\<close>

lemma bump_fields [simp]:
  "ss_qm (bump f s) = ss_qm s" "ss_qmem (bump f s) = ss_qmem s" "ss_streams (bump f s) = ss_streams s"
  "ss_is_client (bump f s) = ss_is_client s" "ss_accept (bump f s) = ss_accept s" "ss_inners (bump f s) = ss_inners s"
  "ss_bm (bump f s) = ss_bm s" "ss_mem (bump f s) = ss_mem s" "ss_version (bump f s) = ss_version s" "inner (bump f s) st = inner s st"
  by (simp_all add: bump_def inner_def)

lemma pending_of_other [simp]: "pending_of (bump f s) i = pending_of s i" "pending_of (s\<lparr>ss_qmem := q\<rparr>) i = pending_of s i"
  by (simp_all add: pending_of_def split: option.split)

text \<open>
  Property C7. The polling handler ends and delivers everything. When the peer puts batches of messages during
  the yields of the handler and then pauses for one round, \<open>handle_polling\<close> returns without an error,
  with the queue empty and the flag down, so that the next message is announced by a new polling event. Every
  stream has got exactly its messages, behind those it had, in the order of the queue;
  a stream for which a close message came is half-closed. The ids without a stream whose messages open one get one, in the order
  of their first such message: the map is extended by these streams, exactly they are put into the accept channel, behind what it
  held, and each is open, or half-closed when a close message came behind the message that made it. The streams must not be closed on this side, the
  accept channel must have room for the messages of new streams, and a client must know the streams.
\<close>

theorem polling_delivers_all:
  assumes "qm_recv_queue (ss_qm s) = queue_layout a d c" and "queue_inv (length (concat bss) + n) a d c (ss_qmem s)"
    and "es = contents (ss_qmem s) (queue_layout a d c) @ concat bss" and "live s"
    and "accepts_streams s es" and "knows s es" and "\<forall>e \<in> set es. regular e"
    and "\<forall>bs \<in> set bss. bs \<noteq> [] \<and> length bs \<le> unat c"
  shows "\<exists>t. handle_polling others (map peer_puts bss @ [\<lambda>s. s]) s
      = Some (t, \<lparr>hr_consumed = kHeaderSize, hr_required = kHeaderSize, hr_stop = False, hr_err = None\<rparr>)
    \<and> contents (ss_qmem t) (queue_layout a d c) = [] \<and> \<not> consumer_is_working (ss_qmem t) (queue_layout a d c)
    \<and> (\<forall>i. pending_of t i = pending_of s i @ messages_for i es)
    \<and> (\<forall>i st. map_of (ss_streams s) i = Some st \<longrightarrow> map_of (ss_streams t) i = Some st
        \<and> si_state (inner t st) = state_after (si_state (inner s st)) (closes i es))
    \<and> (\<exists>sts. map st_id sts = new_ids (known_ids s) es \<and> announces s sts t)
    \<and> (\<forall>i st. map_of (ss_streams s) i = None \<and> map_of (ss_streams t) i = Some st \<longrightarrow>
        si_state (inner t st) = state_after kStreamOpened (closes i (dropWhile (\<lambda>e. \<not> opens i e) es)))"
proof -
  let ?u = "bump (\<lambda>c. c\<lparr>recv_polling_event_count := recv_polling_event_count c + 1\<rparr>) s"
  have u: "live ?u" "accepts_streams ?u es" "knows ?u es"
    using assms(4-6) by (simp_all add: live_def accepts_streams_def fresh_in_def accept_room_def knows_def handle_ok_def)
  obtain q where q: "handle_polling others (map peer_puts bss @ [\<lambda>s. s]) s = Some ((fold deliver es ?u)\<lparr>ss_qmem := q\<rparr>,
        \<lparr>hr_consumed = kHeaderSize, hr_required = kHeaderSize, hr_stop = False, hr_err = None\<rparr>)"
      "contents q (queue_layout a d c) = []" "\<not> raised (queue_layout a d c) q"
    using polling_outer_delivers [of ?u a d c bss n _ others None] assms(1-3,8) u
    by (auto simp: handle_polling_def)
  have "pending_of (fold deliver es ?u) i = pending_of s i @ messages_for i es" for i
    using pending_fold_deliver [OF u(1) assms(7) u(3), of i] by simp
  moreover have "map_of (ss_streams (fold deliver es ?u)) i = Some st
      \<and> si_state (inner (fold deliver es ?u) st) = state_after (si_state (inner s st)) (closes i es)"
    if "map_of (ss_streams s) i = Some st" for i st
    using state_fold_deliver [OF u(1) assms(7), of i st] that by simp
  moreover obtain sts where "map st_id sts = new_ids (known_ids s) es" "announces s sts (fold deliver es ?u)"
    using fold_deliver_announces [OF u(3)] by (auto simp: known_ids_def announces_def)
  moreover have "si_state (inner (fold deliver es ?u) st) = state_after kStreamOpened (closes i (dropWhile (\<lambda>e. \<not> opens i e) es))"
    if "map_of (ss_streams s) i = None" "map_of (ss_streams (fold deliver es ?u)) i = Some st" for i st
    using state_new_stream [OF u(1) assms(7) u(3), of i st] that by simp
  moreover have "announces s sts (t\<lparr>ss_qmem := q\<rparr>) = announces s sts t" for t by (simp add: announces_def)
  ultimately show ?thesis using q
    by (intro exI [of _ "(fold deliver es ?u)\<lparr>ss_qmem := q\<rparr>"])
      (auto simp: consumer_is_working_def raised_def)
qed

definition sample_server :: session where
  "sample_server = new_session default_config (ss_bm sample_session) (\<lambda>_. 0)
     ((ss_qm sample_session)\<lparr>qm_recv_queue := queue_layout X86_64 0 2\<rparr>) (fst (create_from_bytes X86_64 (\<lambda>_. 0) 0 2))
     3 (Some (make_channel 4)) False (\<lambda>_. None)"

definition sample_message :: "u32 \<Rightarrow> u32 \<Rightarrow> queue_element" where
  "sample_message offset state = \<lparr>seq_id = 7, offset_in_shm_buf = offset, status = state\<rparr>"

lemma fresh_queue:
  "int n < 9223372036854775808 \<Longrightarrow> queue_inv n a d c (fst (create_from_bytes a m d c))"
  "contents (fst (create_from_bytes a m d c)) (queue_layout a d c) = []"
  using create_from_bytes_counters [of a d c m]
  by (auto simp: queue_inv_counters contents_empty_iff intro!: exI [of _ 0])

lemma sample_server_fields [simp]:
  "ss_qmem sample_server = fst (create_from_bytes X86_64 (\<lambda>_. 0) 0 2)"
  "qm_recv_queue (ss_qm sample_server) = queue_layout X86_64 0 2" "ss_streams sample_server = []"
  "ss_accept sample_server = Some (make_channel 4)" "ss_is_client sample_server = False"
  by (simp_all add: sample_server_def new_session_def sample_session_def Let_def)

theorem polling_delivers_all_witness:
  "\<exists>t hr. handle_polling (\<lambda>s. s) (map peer_puts [[sample_message 20 0, sample_message 60 0], [sample_message 0 1]] @ [\<lambda>s. s])
      sample_server = Some (t, hr) \<and> contents (ss_qmem t) (queue_layout X86_64 0 2) = []
    \<and> pending_of t 7 = [\<lparr>w_fallback_slice = None, w_offset = 20\<rparr>, \<lparr>w_fallback_slice = None, w_offset = 60\<rparr>]
    \<and> (\<exists>st. st_id st = 7 \<and> ss_streams t = [(7, st)] \<and> map_option ch_queue (ss_accept t) = Some [st]
        \<and> si_state (inner t st) = kStreamHalfClosed)"
proof -
  let ?bss = "[[sample_message 20 0, sample_message 60 0], [sample_message 0 1]]"
  have p: "queue_inv (length (concat ?bss) + 0) X86_64 0 2 (ss_qmem sample_server)"
    "concat ?bss = contents (ss_qmem sample_server) (queue_layout X86_64 0 2) @ concat ?bss"
    "live sample_server" "accepts_streams sample_server (concat ?bss)" "knows sample_server (concat ?bss)"
    "\<forall>e \<in> set (concat ?bss). regular e" "\<forall>bs \<in> set ?bss. bs \<noteq> [] \<and> length bs \<le> unat (2 :: u32)"
    by (simp_all add: fresh_queue live_def accepts_streams_def fresh_in_def accept_room_def make_channel_def knows_def regular_def sample_message_def
      stream_state_defs)
  have m: "messages_for 7 (concat ?bss) = [\<lparr>w_fallback_slice = None, w_offset = 20\<rparr>, \<lparr>w_fallback_slice = None, w_offset = 60\<rparr>]"
    by (simp add: messages_for_def sample_message_def stream_state_defs message_of_def)
  have e: "pending_of sample_server 7 = []" by (simp add: pending_of_def)
  obtain t where t: "handle_polling (\<lambda>s. s) (map peer_puts ?bss @ [\<lambda>s. s]) sample_server
        = Some (t, \<lparr>hr_consumed = kHeaderSize, hr_required = kHeaderSize, hr_stop = False, hr_err = None\<rparr>)"
      "contents (ss_qmem t) (queue_layout X86_64 0 2) = []"
      "pending_of t 7 = pending_of sample_server 7 @ messages_for 7 (concat ?bss)"
      "\<exists>sts. map st_id sts = new_ids (known_ids sample_server) (concat ?bss) \<and> announces sample_server sts t"
      "\<forall>i st. map_of (ss_streams sample_server) i = None \<and> map_of (ss_streams t) i = Some st \<longrightarrow>
        si_state (inner t st) = state_after kStreamOpened (closes i (dropWhile (\<lambda>e. \<not> opens i e) (concat ?bss)))"
    using polling_delivers_all [OF sample_server_fields(2) p, of "\<lambda>s. s"] by blast
  have "new_ids (known_ids sample_server) (concat ?bss) = [7]"
    by (simp add: known_ids_def opens_def sample_message_def stream_state_defs)
  then obtain st where st: "st_id st = 7" "announces sample_server [st] t" using t(4) by (auto simp: map_eq_Cons_conv)
  then have s: "ss_streams t = [(7, st)]" "map_option ch_queue (ss_accept t) = Some [st]"
    by (simp_all add: announces_def make_channel_def)
  have "closes 7 (dropWhile (\<lambda>e. \<not> opens 7 e) (concat ?bss))"
    by (simp add: closes_def opens_def sample_message_def stream_state_defs)
  then have "si_state (inner t st) = kStreamHalfClosed"
    using t(5) s(1) by (simp add: state_after_def)
  with t(1,2,3) m e st(1) s show ?thesis by auto
qed

end
