(* ===== verification/End_To_End.thy ===== *)
theory End_To_End
  imports Delivery
begin

text \<open>
  Two sessions that share the buffers and the queue: what a program writes to a stream of one and flushes is
  what a program reads from the stream of the same id of the other. The receiving session sees the memory
  the sender leaves, and handles the event the sender has posted.
\<close>

section \<open>The sender\<close>

text \<open>Several writes to a stream, then the session as it is with another send buffer.\<close>

fun stream_writes :: "session \<Rightarrow> stream \<Rightarrow> bytes list \<Rightarrow> session option" where
  "stream_writes s st [] = Some s"
| "stream_writes s st (bs # bss) =
     (case stream_write_bytes s st bs of
        Some (s1, Inr n) \<Rightarrow> stream_writes s1 st bss
      | _ \<Rightarrow> None)"

definition with_send :: "session \<Rightarrow> stream \<Rightarrow> mem \<Rightarrow> linked_buffer \<Rightarrow> session" where
  "with_send s st m lb = set_inner (s\<lparr>ss_mem := m\<rparr>) st ((inner s st)\<lparr>si_send_buf := lb\<rparr>)"

lemma on_send_some [simp]: "on_send s st (Some (m, lb, x)) = Some (with_send s st m lb, x)"
  by (simp add: on_send_def with_send_def)

lemma with_send_fields [simp]:
  "ss_mem (with_send s st m lb) = m" "ss_bm (with_send s st m lb) = ss_bm s" "ss_qm (with_send s st m lb) = ss_qm s"
  "ss_qmem (with_send s st m lb) = ss_qmem s" "ss_send (with_send s st m lb) = ss_send s"
  "ss_version (with_send s st m lb) = ss_version s" "ss_promises (with_send s st m lb) = ss_promises s"
  "handle_ok (with_send s st m lb) st' = handle_ok s st'"
  by (simp_all add: with_send_def set_inner_def handle_ok_def)

lemma inner_with_send [simp]: "handle_ok s st \<Longrightarrow> inner (with_send s st m lb) st = (inner s st)\<lparr>si_send_buf := lb\<rparr>"
  by (simp add: with_send_def inner_def set_inner_def handle_ok_def)

lemma send_buf_with_send [simp]: "handle_ok s st \<Longrightarrow> send_buf (with_send s st m lb) st = lb"
  by (simp add: send_buf_def)

lemma with_send_twice [simp]: "handle_ok s st \<Longrightarrow> with_send (with_send s st m lb) st m' lb' = with_send s st m' lb'"
  by (simp add: with_send_def inner_def set_inner_def handle_ok_def)

lemma with_send_same: "handle_ok s st \<Longrightarrow> with_send s st (ss_mem s) (send_buf s st) = s"
  by (simp add: with_send_def send_buf_def set_inner_def inner_def)

lemma stream_writes_all:
  "handle_ok s st \<Longrightarrow> write_all (ss_bm s) m lb bss = Some (m1, lb1) \<Longrightarrow>
    stream_writes (with_send s st m lb) st bss = Some (with_send s st m1 lb1)"
proof (induction bss arbitrary: m lb)
  case (Cons bs bss)
  then obtain m' lb' n where "lb_write_bytes (ss_bm s) m lb bs = Some (m', lb', Inr n)" "write_all (ss_bm s) m' lb' bss = Some (m1, lb1)"
    by (auto split: option.splits prod.splits sum.splits)
  then show ?case using Cons.IH [of m' lb'] Cons.prems(1) by (simp add: stream_write_bytes_def)
qed simp

text \<open>A flush of a stream that is not in fallback, when the queue and the send channel have room and the peer is idle.\<close>

lemma polling_event_at:
  assumes "v < 4"
  shows "unat v < length polling_event_with_version"
    "polling_event_with_version ! unat v = hdr_encode (replicate 8 0) 8 v kPolling"
proof -
  have "unat v < 4" using assms by (simp add: word_less_nat_alt)
  then show "unat v < length polling_event_with_version"
    "polling_event_with_version ! unat v = hdr_encode (replicate 8 0) 8 v kPolling"
    by (simp_all add: polling_event_with_version_def kMaxSupportProtoVersion_def del: upt_Suc)
qed

lemma wake_up_posts:
  assumes "mark_working (qm_send_queue (ss_qm s)) (ss_qmem s) = (q, True)" "ss_version s < 4"
    "\<not> ch_stopped (ss_send s)" "\<not> ch_is_full (ss_send s)"
  obtains t where "wake_up_peer others s = Some (t, Inr ())" "ss_qmem t = q" "ss_mem t = ss_mem s" "ss_inners t = ss_inners s"
    "ss_bm t = ss_bm s" "ss_qm t = ss_qm s" "ss_version t = ss_version s"
    "ss_send t = (ss_send s)\<lparr>ch_queue := ch_queue (ss_send s)
       @ [\<lparr>sr_hdr = [], sr_body = hdr_encode (replicate 8 0) 8 (ss_version s) kPolling, sr_done = length (ss_promises s)\<rparr>]\<rparr>"
  using assms polling_event_at [OF assms(2)]
  by (simp add: wake_up_peer_def add_promise_def bump_def awaited_def can_send_def ch_push_def Let_def ch_is_full_def)

lemma flush_posts:
  assumes h: "handle_ok s st" and l: "lb_len (send_buf s st) \<noteq> 0" and st: "si_state (inner s st) = kStreamOpened"
    and f: "\<not> si_in_fallback_state (inner s st)" and shm: "lb_is_from_shm (send_buf s st)"
    and d: "lb_done (ss_bm s) (ss_mem s) (send_buf s st) b = Some (m, send_buf s st)"
    and c: "lb_clean m (send_buf s st) = Some (m, lb)"
    and p: "put (qm_send_queue (ss_qm s)) (ss_qmem s) \<lparr>seq_id = st_id st, offset_in_shm_buf = root_buf_offset (send_buf s st),
        status = kStreamOpened\<rparr> = (q1, Inr ())"
    and w: "mark_working (qm_send_queue (ss_qm s)) q1 = (q2, True)" "ss_version s < 4"
    and ch: "\<not> ch_stopped (ss_send s)" "\<not> ch_is_full (ss_send s)"
  obtains t where "flush others waits s st b = Some (t, Inr ())" "ss_mem t = m" "ss_qmem t = q2"
    "handle_ok t st" "inner t st = (inner s st)\<lparr>si_send_buf := lb\<rparr>" "ss_bm t = ss_bm s" "ss_qm t = ss_qm s" "ss_version t = ss_version s"
    "ss_send t = (ss_send s)\<lparr>ch_queue := ch_queue (ss_send s)
       @ [\<lparr>sr_hdr = [], sr_body = hdr_encode (replicate 8 0) 8 (ss_version s) kPolling, sr_done = length (ss_promises s)\<rparr>]\<rparr>"
proof -
  define u where "u = bump (\<lambda>c. c\<lparr>out_flow_bytes := out_flow_bytes c + of_nat (lb_len (send_buf s st))\<rparr>) s"
  have u: "inner u st = inner s st" "send_buf u st = send_buf s st" "handle_ok u st" "ss_bm u = ss_bm s" "ss_mem u = ss_mem s"
    "ss_qm u = ss_qm s" "ss_qmem u = ss_qmem s" "ss_version u = ss_version s" "ss_send u = ss_send s" "ss_promises u = ss_promises s"
    using h by (simp_all add: u_def send_buf_def handle_ok_def bump_def inner_def)
  define v where "v = with_send u st m (send_buf s st)"
  have v: "inner v st = inner s st" "send_buf v st = send_buf s st" "handle_ok v st" "ss_bm v = ss_bm s" "ss_mem v = m"
    "ss_qm v = ss_qm s" "ss_qmem v = ss_qmem s" "ss_version v = ss_version s" "ss_send v = ss_send s" "ss_promises v = ss_promises s"
    using u by (simp_all add: v_def) (simp add: send_buf_def)
  let ?w = "v\<lparr>ss_qmem := q1\<rparr>"
  obtain x where x: "wake_up_peer others ?w = Some (x, Inr ())" "ss_qmem x = q2" "ss_mem x = m" "ss_inners x = ss_inners v"
    "ss_bm x = ss_bm s" "ss_qm x = ss_qm s" "ss_version x = ss_version s"
    "ss_send x = (ss_send s)\<lparr>ch_queue := ch_queue (ss_send s)
       @ [\<lparr>sr_hdr = [], sr_body = hdr_encode (replicate 8 0) 8 (ss_version s) kPolling, sr_done = length (ss_promises s)\<rparr>]\<rparr>"
    using wake_up_posts [of ?w q2 others] w ch v by auto
  have x': "handle_ok x st" "inner x st = inner s st" "send_buf x st = send_buf s st"
    using x(4) v(1,2,3) by (simp_all add: handle_ok_def inner_def send_buf_def)
  have "flush others waits s st b = flush_send others waits (enter_fallback v st) st kStreamOpened"
    unfolding flush_def u_def [symmetric] using l st d u by (simp add: Let_def v_def [symmetric])
  also have "enter_fallback v st = v" using shm v by (simp add: enter_fallback_def)
  also have "flush_send others waits v st kStreamOpened = put_and_wake others v st q1"
    using f p v by (simp add: flush_send_def)
  also have "\<dots> = Some (with_send x st m lb, Inr ())"
    using x x' c by (simp add: put_and_wake_def clean_send_def)
  finally have "flush others waits s st b = Some (with_send x st m lb, Inr ())" .
  then show ?thesis using x x' by (intro that [of "with_send x st m lb"]) simp_all
qed

section \<open>The receiver\<close>

lemma polling_event_handled:
  assumes "v \<noteq> 0" "handle_polling (wd_others w) (wd_yields w) s
    = Some (t, \<lparr>hr_consumed = 8, hr_required = 8, hr_stop = False, hr_err = None\<rparr>)"
  shows "handle_events w s (hdr_encode (replicate 8 0) 8 v kPolling) = Some (t, \<lparr>er_consumed = 8, er_required = 8, er_err = None\<rparr>)"
proof -
  have "check_event_valid (hdr_encode (replicate 8 0) 8 v kPolling) = Inr ()"
    using assms(1) by (simp add: check_event_valid_def event_type_consts)
  moreover have "handle_events w t [] = Some (t, \<lparr>er_consumed = 0, er_required = 8, er_err = None\<rparr>)"
    by (subst handle_events_round) (simp_all add: events_round_def)
  ultimately show ?thesis using assms(2)
    by (subst handle_events_round) (simp_all add: events_round_def handle_event_def event_type_consts Let_def)
qed

definition with_recv :: "session \<Rightarrow> stream \<Rightarrow> mem \<Rightarrow> linked_buffer \<Rightarrow> session" where
  "with_recv s st m lb = set_inner (s\<lparr>ss_mem := m\<rparr>) st ((inner s st)\<lparr>si_recv_buf := lb\<rparr>)"

lemma on_recv_some [simp]: "on_recv s st (Some (m, lb, x)) = Some (with_recv s st m lb, x)"
  by (simp add: on_recv_def with_recv_def)

lemma with_recv_fields [simp]:
  "ss_mem (with_recv s st m lb) = m" "ss_bm (with_recv s st m lb) = ss_bm s" "ss_qm (with_recv s st m lb) = ss_qm s"
  "ss_qmem (with_recv s st m lb) = ss_qmem s" "ss_streams (with_recv s st m lb) = ss_streams s"
  "ss_is_client (with_recv s st m lb) = ss_is_client s" "ss_accept (with_recv s st m lb) = ss_accept s"
  "handle_ok (with_recv s st m lb) st' = handle_ok s st'"
  by (simp_all add: with_recv_def set_inner_def handle_ok_def)

lemma inner_with_recv [simp]: "handle_ok s st \<Longrightarrow> inner (with_recv s st m lb) st = (inner s st)\<lparr>si_recv_buf := lb\<rparr>"
  by (simp add: with_recv_def inner_def set_inner_def handle_ok_def)

lemma live_with_recv: "live s \<Longrightarrow> map_of (ss_streams s) i = Some st \<Longrightarrow> live (with_recv s st m lb)"
  using live_known [of s i st] live_set_inner [of "s\<lparr>ss_mem := m\<rparr>" "(inner s st)\<lparr>si_recv_buf := lb\<rparr>" st]
  by (simp add: with_recv_def live_def handle_ok_def inner_def)

lemma handle_ok_bump [simp]: "handle_ok (bump f s) st = handle_ok s st"
  by (simp add: handle_ok_def)

lemma live_bump: "live (bump f s) \<longleftrightarrow> live s"
  by (simp add: live_def handle_ok_def)

lemma live_mem: "live (s\<lparr>ss_mem := m\<rparr>) \<longleftrightarrow> live s" "live (s\<lparr>ss_qmem := m\<rparr>) \<longleftrightarrow> live s"
  by (simp_all add: live_def handle_ok_def inner_def)

text \<open>Reading more than is in the buffer moves the one pending message first.\<close>

lemma move_pending_one:
  assumes s: "live s" "map_of (ss_streams s) i = Some st" and p: "si_pending_data (inner s st) = [\<lparr>w_fallback_slice = None, w_offset = off\<rparr>]"
    and mv: "move_chain (ss_bm s) (ss_mem s) (recv_buf s st) off = Some (m, rb)"
  obtains t where "move_pending_data s st = Some t" "handle_ok t st" "inner t st = (inner s st)\<lparr>si_pending_data := [], si_recv_buf := rb\<rparr>"
    "ss_bm t = ss_bm s" "ss_streams t = ss_streams s" "ss_qm t = ss_qm s" "ss_qmem t = ss_qmem s" "ss_mem t = m" "live t"
proof -
  have h: "handle_ok s st" "si_state (inner s st) \<noteq> kStreamClosed" using live_known [OF s] by simp_all
  define u where "u = set_inner s st ((inner s st)\<lparr>si_pending_data := []\<rparr>)"
  have u: "handle_ok u st" "inner u st = (inner s st)\<lparr>si_pending_data := []\<rparr>" "ss_bm u = ss_bm s" "ss_streams u = ss_streams s"
    "ss_qm u = ss_qm s" "ss_qmem u = ss_qmem s" "live u"
    using h s(1) live_set_inner [OF s(1), of "(inner s st)\<lparr>si_pending_data := []\<rparr>" st]
    by (simp_all add: u_def handle_ok_def inner_def set_inner_def)
  define v where "v = bump (\<lambda>c. c\<lparr>in_flow_bytes := in_flow_bytes c + of_nat (usub (lb_len rb) (lb_len (recv_buf s st)))\<rparr>) (with_recv u st m rb)"
  have "handle_ok v st" "inner v st = (inner s st)\<lparr>si_pending_data := [], si_recv_buf := rb\<rparr>" "ss_bm v = ss_bm s" "ss_streams v = ss_streams s"
    "ss_qm v = ss_qm s" "ss_qmem v = ss_qmem s" "ss_mem v = m" "live v"
    using u live_with_recv [of u i st m rb] s(2) by (simp_all add: v_def live_bump)
  moreover have "move_pending_data s st = Some v"
    using p mv h(1) by (simp add: handle_ok_def move_pending_data_def Let_def recv_buf_def v_def with_recv_def u_def set_inner_def inner_def bump_def)
  ultimately show ?thesis by (intro that [of v])
qed

lemma read_takes_pending:
  assumes s: "live s" "map_of (ss_streams s) i = Some st" and p: "si_pending_data (inner s st) = [\<lparr>w_fallback_slice = None, w_offset = off\<rparr>]"
    and mv: "move_chain (ss_bm s) (ss_mem s) (recv_buf s st) off = Some (m, rb)"
    and r: "reader_inv (ss_bm s) gs e m rb others" and k: "lb_len (recv_buf s st) < k" "k \<le> lb_len rb"
  obtains t b rb' where "stream_read_bytes wakes s st k = Some (t, Inr b)" "recv_buf t st = rb'"
    "buf_bytes (ss_mem t) rb' b = Some (take k (content m rb))" "content (ss_mem t) rb' = drop k (content m rb)"
    "reader_inv (ss_bm t) gs e (ss_mem t) rb' others" "live t" "ss_streams t = ss_streams s" "ss_bm t = ss_bm s"
    "si_pending_data (inner t st) = []" "ss_qm t = ss_qm s" "ss_qmem t = ss_qmem s"
proof -
  obtain v where v: "move_pending_data s st = Some v" "handle_ok v st" "inner v st = (inner s st)\<lparr>si_pending_data := [], si_recv_buf := rb\<rparr>"
    "ss_bm v = ss_bm s" "ss_streams v = ss_streams s" "ss_qm v = ss_qm s" "ss_qmem v = ss_qmem s" "ss_mem v = m" "live v"
    by (rule move_pending_one [OF s p mv])
  then have more: "read_more wakes s st k = Some (v, Inr ())"
    using k(2) by (simp add: read_more_def)
  obtain m' rb' b where rd: "lb_read_bytes (ss_bm s) m rb k = Some (m', rb', Inr b)"
    "buf_bytes m' rb' b = Some (take k (content m rb))" "content m' rb' = drop k (content m rb)" "reader_inv (ss_bm s) gs e m' rb' others"
    using lb_read_bytes_ok [OF r k(2)] by auto
  have "stream_read_bytes wakes s st k = Some (with_recv v st m' rb', Inr b)"
    using more k(1) rd(1) v by (simp add: stream_read_bytes_def ensure_then_def recv_buf_def)
  then show ?thesis
    using rd v live_with_recv [of v i st m' rb'] s(2)
    by (intro that [of "with_recv v st m' rb'" b rb']) (simp_all add: recv_buf_def)
qed

section \<open>A message through shared memory\<close>

text \<open>
  A stream of session \<open>A\<close> and its peer in session \<open>B\<close>, with no message on the way: the sessions see the same memory,
  the queue is empty and its consumer idle, and the send buffer of the one and the receive buffer of the other are in order.
\<close>

definition connected ::
  "list_spec list \<Rightarrow> nat \<Rightarrow> (nat \<times> nat) list \<Rightarrow> arch \<Rightarrow> nat \<Rightarrow> u32 \<Rightarrow> nat \<Rightarrow> session \<Rightarrow> stream \<Rightarrow> session \<Rightarrow> stream \<Rightarrow> bool" where
  "connected gs e others a d c n A st B st' \<longleftrightarrow>
     handle_ok A st \<and> si_state (inner A st) = kStreamOpened \<and> \<not> si_in_fallback_state (inner A st)
     \<and> live B \<and> map_of (ss_streams B) (st_id st) = Some st' \<and> si_pending_data (inner B st') = []
     \<and> ss_mem B = ss_mem A \<and> ss_qmem B = ss_qmem A
     \<and> qm_send_queue (ss_qm A) = queue_layout a d c \<and> qm_recv_queue (ss_qm B) = queue_layout a d c
     \<and> queue_inv n a d c (ss_qmem A) \<and> contents (ss_qmem A) (queue_layout a d c) = []
     \<and> \<not> raised (queue_layout a d c) (ss_qmem A) \<and> 0 < unat c
     \<and> writer_inv (ss_bm A) gs e (ss_mem A) (send_buf A st) (shm_names gs (all_slices (recv_buf B st')) @ others)
     \<and> reader_inv (ss_bm B) gs e (ss_mem A) (recv_buf B st') (shm_names gs (all_slices (send_buf A st)) @ others)
     \<and> slices (lb_pinned (send_buf A st)) = []
     \<and> 0 < ss_version A \<and> ss_version A < 4 \<and> \<not> ch_stopped (ss_send A)"

text \<open>Handling the polling event for one message of a known stream.\<close>

lemma poll_one:
  assumes "qm_recv_queue (ss_qm s) = queue_layout a d c" "queue_inv n a d c (ss_qmem s)"
    "contents (ss_qmem s) (queue_layout a d c) = [x]" "live s" "map_of (ss_streams s) (seq_id x) = Some st"
    "status x = kStreamOpened" "si_pending_data (inner s st) = []"
  obtains t where "handle_polling others [\<lambda>s. s] s = Some (t, \<lparr>hr_consumed = 8, hr_required = 8, hr_stop = False, hr_err = None\<rparr>)"
    "live t" "ss_streams t = ss_streams s" "inner t st = (inner s st)\<lparr>si_pending_data := [message_of x]\<rparr>"
    "ss_bm t = ss_bm s" "ss_mem t = ss_mem s" "ss_qm t = ss_qm s" "queue_inv n a d c (ss_qmem t)"
    "contents (ss_qmem t) (queue_layout a d c) = []" "\<not> raised (queue_layout a d c) (ss_qmem t)"
proof -
  define u where "u = bump (\<lambda>c. c\<lparr>recv_polling_event_count := recv_polling_event_count c + 1\<rparr>) s"
  have u: "live u" "ss_streams u = ss_streams s" "inner u st = inner s st" "ss_bm u = ss_bm s" "ss_mem u = ss_mem s" "ss_qm u = ss_qm s"
    "ss_qmem u = ss_qmem s" "handle_ok u st" "accepts_streams u [x]" "knows u [x]"
    using assms(4,5) live_known [OF assms(4,5)]
    by (simp_all add: u_def live_bump accepts_streams_def fresh_in_def knows_def)
  let ?i = "(inner s st)\<lparr>si_pending_data := [message_of x]\<rparr>"
  have dl: "fold deliver [x] u = set_inner u st ?i"
    using assms(5-7) u by (simp add: deliver_def Let_def stream_state_defs add_pending_def)
  obtain q where q: "polling_outer others [\<lambda>s. s] u None = Some ((set_inner u st ?i)\<lparr>ss_qmem := q\<rparr>,
      \<lparr>hr_consumed = 8, hr_required = 8, hr_stop = False, hr_err = None\<rparr>)"
      "queue_inv n a d c q" "contents q (queue_layout a d c) = []" "\<not> raised (queue_layout a d c) q"
    using polling_outer_delivers [of u a d c "[]" n "[x]" others None] assms(1-3) u by (auto simp: dl [simplified])
  have "si_state ?i \<noteq> kStreamClosed" using live_known [OF assms(4,5)] by simp
  then have "live (set_inner u st ?i)" by (rule live_set_inner [OF u(1)])
  moreover have "inner (set_inner u st ?i) st = ?i" using u(8) by (simp add: inner_def set_inner_def handle_ok_def)
  ultimately show ?thesis using q u
    by (intro that [of "(set_inner u st ?i)\<lparr>ss_qmem := q\<rparr>"]) (simp_all add: handle_polling_def u_def [symmetric] live_mem)
qed

text \<open>The sender's part: what \<open>flush\<close> leaves in memory, in the queue and in the send channel.\<close>

lemma send_part:
  assumes con: "connected gs e others a d c (Suc n) A st B st'"
    and bss: "\<forall>bs \<in> set bss. length bs < 4294967296" "content (ss_mem A) (send_buf A st) @ concat bss \<noteq> []"
    and len: "lb_len (recv_buf B st') + lb_len (send_buf A st) + length (concat bss) < 18446744073709551616"
    and w: "stream_writes A st bss = Some A1" "lb_is_from_shm (send_buf A1 st)" "\<not> ch_is_full (ss_send A)"
  obtains A2 off m rb lb where "flush others' waits A1 st fin = Some (A2, Inr ())"
    "move_chain (ss_bm B) (ss_mem A2) (recv_buf B st') off = Some (m, rb)"
    "content m rb = content (ss_mem A) (recv_buf B st') @ content (ss_mem A) (send_buf A st) @ concat bss" "reader_inv (ss_bm B) gs e m rb others"
    "queue_inv n a d c (ss_qmem A2)"
    "contents (ss_qmem A2) (queue_layout a d c) = [\<lparr>seq_id = st_id st, offset_in_shm_buf = off, status = kStreamOpened\<rparr>]"
    "all_slices lb = []" "slices (lb_pinned lb) = []" "\<forall>bm gs e m others. managed bm gs e m others \<longrightarrow> writer_inv bm gs e m lb others"
    "handle_ok A2 st" "inner A2 st = (inner A st)\<lparr>si_send_buf := lb\<rparr>" "ss_bm A2 = ss_bm A" "ss_qm A2 = ss_qm A" "ss_version A2 = ss_version A"
    "ss_send A2 = (ss_send A)\<lparr>ch_queue := ch_queue (ss_send A)
       @ [\<lparr>sr_hdr = [], sr_body = hdr_encode (replicate 8 0) 8 (ss_version A) kPolling, sr_done = length (ss_promises A)\<rparr>]\<rparr>"
proof -
  note C = con [unfolded connected_def]
  define lb rb where "lb = send_buf A st" and "rb = recv_buf B st'"
  have h: "handle_ok A st" and q: "qm_send_queue (ss_qm A) = queue_layout a d c"
    "queue_inv (Suc n) a d c (ss_qmem A)" "contents (ss_qmem A) (queue_layout a d c) = []"
    "\<not> raised (queue_layout a d c) (ss_qmem A)" "0 < unat c" using C by simp_all
  have inv: "writer_inv (ss_bm A) gs e (ss_mem A) lb (shm_names gs (all_slices rb) @ others)"
    "reader_inv (ss_bm B) gs e (ss_mem A) rb (shm_names gs (all_slices lb) @ others)" "slices (lb_pinned lb) = []"
    using C by (simp_all add: lb_def rb_def)
  have ld: "lb_len rb + lb_len lb + length (concat bss) < 18446744073709551616" "content (ss_mem A) lb @ concat bss \<noteq> []"
    using len bss(2) by (simp_all add: lb_def rb_def)
  obtain m1 lb1 where wr: "write_all (ss_bm A) (ss_mem A) lb bss = Some (m1, lb1)"
    using write_all_ok [OF inv(1) bss(1)] ld(1) by auto
  have A1: "A1 = with_send A st m1 lb1"
    using stream_writes_all [OF h(1) wr] w(1) with_send_same [OF h(1)] by (simp add: lb_def)
  with w(2) h(1) have shm: "lb_is_from_shm lb1" by simp
  obtain m2 m3 rb' where x: "lb_done (ss_bm A) m1 lb1 fin = Some (m2, lb1)"
    "move_chain (ss_bm B) m2 rb (root_buf_offset lb1) = Some (m3, rb')"
    "content m3 rb' = content (ss_mem A) rb @ content (ss_mem A) lb @ concat bss" "reader_inv (ss_bm B) gs e m3 rb' others"
    "lb_len lb1 = lb_len lb + length (concat bss)" "lb_pinned lb1 = lb_pinned lb" "sl_inv (lb_slices lb1)" "sl_inv (lb_pinned lb1)"
    by (rule handover_after_writes [OF inv bss(1) ld(1) wr shm ld(2)])
  obtain lb2 where cl: "lb_clean m2 lb1 = Some (m2, lb2)" "all_slices lb2 = []" "slices (lb_pinned lb2) = []"
    "\<And>bm gs e m others. managed bm gs e m others \<Longrightarrow> writer_inv bm gs e m lb2 others"
    using lb_clean_ok [OF x(7,8)] x(6) inv(3) by metis
  let ?x = "\<lparr>seq_id = st_id st, offset_in_shm_buf = root_buf_offset lb1, status = kStreamOpened\<rparr>"
  obtain q1 where q1: "put (queue_layout a d c) (ss_qmem A) ?x = (q1, Inr ())" "queue_inv n a d c q1"
    "contents q1 (queue_layout a d c) = [?x]" "\<not> raised (queue_layout a d c) q1"
    using put_room_ok [OF q(2), of ?x] q(3-5) by auto
  obtain q2 where q2: "mark_working (queue_layout a d c) q1 = (q2, True)" "queue_inv n a d c q2" "contents q2 (queue_layout a d c) = [?x]"
    using mark_working_ok [OF q1(2)] q1(3,4) by (cases "mark_working (queue_layout a d c) q1") auto
  have "reader_inv (ss_bm A) gs e (ss_mem A) lb (shm_names gs (all_slices rb) @ others)" using inv(1) by (simp add: writer_inv_def)
  then have "lb_len lb1 = length (content (ss_mem A) lb @ concat bss)" using reader_inv_length x(5) by simp
  then have "lb_len lb1 \<noteq> 0" using ld(2) by (metis length_0_conv)
  then show ?thesis
    using flush_posts [of A1 st fin m2 lb2 q1 q2 others' waits] that [of _ "root_buf_offset lb1" m3 rb' lb2]
      x(1-4) cl q1(1) q2 q(1) shm h(1) w(3) C by (auto simp: A1 lb_def rb_def)
qed

text \<open>The receiver's part, up to the pending message.\<close>

lemma arrive_part:
  assumes con: "connected gs e others a d c k A st B st'" and wd: "wd_yields wd = [\<lambda>s. s]" and v: "v \<noteq> 0"
    and q: "queue_inv n a d c q" "contents q (queue_layout a d c) = [\<lparr>seq_id = st_id st, offset_in_shm_buf = off, status = kStreamOpened\<rparr>]"
  obtains B1 where "handle_events wd (B\<lparr>ss_mem := m, ss_qmem := q\<rparr>) (hdr_encode (replicate 8 0) 8 v kPolling)
      = Some (B1, \<lparr>er_consumed = 8, er_required = 8, er_err = None\<rparr>)"
    "live B1" "ss_streams B1 = ss_streams B" "inner B1 st' = (inner B st')\<lparr>si_pending_data := [\<lparr>w_fallback_slice = None, w_offset = off\<rparr>]\<rparr>"
    "ss_bm B1 = ss_bm B" "ss_mem B1 = m" "ss_qm B1 = ss_qm B" "queue_inv n a d c (ss_qmem B1)"
    "contents (ss_qmem B1) (queue_layout a d c) = []" "\<not> raised (queue_layout a d c) (ss_qmem B1)"
proof -
  note C = con [unfolded connected_def]
  let ?x = "\<lparr>seq_id = st_id st, offset_in_shm_buf = off, status = kStreamOpened\<rparr>"
  define B' where "B' = B\<lparr>ss_mem := m, ss_qmem := q\<rparr>"
  have B': "live B'" "ss_streams B' = ss_streams B" "inner B' st' = inner B st'" "ss_bm B' = ss_bm B" "ss_qm B' = ss_qm B"
    "ss_mem B' = m" "ss_qmem B' = q" using C by (simp_all add: B'_def live_mem inner_def)
  obtain B1 where B1: "handle_polling (wd_others wd) [\<lambda>s. s] B' = Some (B1, \<lparr>hr_consumed = 8, hr_required = 8, hr_stop = False, hr_err = None\<rparr>)"
    "live B1" "ss_streams B1 = ss_streams B" "inner B1 st' = (inner B st')\<lparr>si_pending_data := [message_of ?x]\<rparr>"
    "ss_bm B1 = ss_bm B" "ss_mem B1 = m" "ss_qm B1 = ss_qm B" "queue_inv n a d c (ss_qmem B1)"
    "contents (ss_qmem B1) (queue_layout a d c) = []" "\<not> raised (queue_layout a d c) (ss_qmem B1)"
    using poll_one [of B' a d c n ?x st' "wd_others wd"] B' q C by auto
  have "handle_events wd B' (hdr_encode (replicate 8 0) 8 v kPolling) = Some (B1, \<lparr>er_consumed = 8, er_required = 8, er_err = None\<rparr>)"
    using v B1(1) wd by (intro polling_event_handled) auto
  then show ?thesis using B1 that [of B1] by (simp add: B'_def message_of_def)
qed

lemma round_ok:
  assumes con: "connected gs e others a d c (Suc n) A st B st'"
    and bss: "\<forall>bs \<in> set bss. length bs < 4294967296" "content (ss_mem A) (send_buf A st) @ concat bss \<noteq> []"
    and len: "lb_len (recv_buf B st') + lb_len (send_buf A st) + length (concat bss) < 18446744073709551616"
    and w: "stream_writes A st bss = Some A1" "lb_is_from_shm (send_buf A1 st)" "\<not> ch_is_full (ss_send A)"
    and k: "lb_len (recv_buf B st') < k" "k \<le> lb_len (recv_buf B st') + lb_len (send_buf A st) + length (concat bss)"
    and wd: "wd_yields wd = [\<lambda>s. s]"
    and sent: "sent = content (ss_mem A) (recv_buf B st') @ content (ss_mem A) (send_buf A st) @ concat bss"
  shows "\<exists>A2 r B1 B2 b. flush others' waits A1 st fin = Some (A2, Inr ()) \<and> ch_queue (ss_send A2) = ch_queue (ss_send A) @ [r]
    \<and> handle_events wd (B\<lparr>ss_mem := ss_mem A2, ss_qmem := ss_qmem A2\<rparr>) (sr_hdr r @ sr_body r)
      = Some (B1, \<lparr>er_consumed = 8, er_required = 8, er_err = None\<rparr>)
    \<and> stream_read_bytes wakes B1 st' k = Some (B2, Inr b)
    \<and> buf_bytes (ss_mem B2) (recv_buf B2 st') b = Some (take k sent) \<and> content (ss_mem B2) (recv_buf B2 st') = drop k sent
    \<and> connected gs e others a d c n (A2\<lparr>ss_mem := ss_mem B2, ss_qmem := ss_qmem B2\<rparr>) st B2 st'"
proof -
  note C = con [unfolded connected_def]
  obtain A2 off m rb lb where A2: "flush others' waits A1 st fin = Some (A2, Inr ())"
    "move_chain (ss_bm B) (ss_mem A2) (recv_buf B st') off = Some (m, rb)"
    "content m rb = content (ss_mem A) (recv_buf B st') @ content (ss_mem A) (send_buf A st) @ concat bss" "reader_inv (ss_bm B) gs e m rb others"
    "queue_inv n a d c (ss_qmem A2)"
    "contents (ss_qmem A2) (queue_layout a d c) = [\<lparr>seq_id = st_id st, offset_in_shm_buf = off, status = kStreamOpened\<rparr>]"
    "all_slices lb = []" "slices (lb_pinned lb) = []" "\<forall>bm gs e m others. managed bm gs e m others \<longrightarrow> writer_inv bm gs e m lb others"
    "handle_ok A2 st" "inner A2 st = (inner A st)\<lparr>si_send_buf := lb\<rparr>" "ss_bm A2 = ss_bm A" "ss_qm A2 = ss_qm A" "ss_version A2 = ss_version A"
    "ss_send A2 = (ss_send A)\<lparr>ch_queue := ch_queue (ss_send A)
       @ [\<lparr>sr_hdr = [], sr_body = hdr_encode (replicate 8 0) 8 (ss_version A) kPolling, sr_done = length (ss_promises A)\<rparr>]\<rparr>"
    by (rule send_part [OF con bss len w, of others' waits fin])
  have v: "ss_version A \<noteq> 0" using C by auto
  obtain B1 where B1: "handle_events wd (B\<lparr>ss_mem := ss_mem A2, ss_qmem := ss_qmem A2\<rparr>) (hdr_encode (replicate 8 0) 8 (ss_version A) kPolling)
      = Some (B1, \<lparr>er_consumed = 8, er_required = 8, er_err = None\<rparr>)"
    "live B1" "ss_streams B1 = ss_streams B" "inner B1 st' = (inner B st')\<lparr>si_pending_data := [\<lparr>w_fallback_slice = None, w_offset = off\<rparr>]\<rparr>"
    "ss_bm B1 = ss_bm B" "ss_mem B1 = ss_mem A2" "ss_qm B1 = ss_qm B" "queue_inv n a d c (ss_qmem B1)"
    "contents (ss_qmem B1) (queue_layout a d c) = []" "\<not> raised (queue_layout a d c) (ss_qmem B1)"
    by (rule arrive_part [OF con wd v A2(5,6)])
  have rB1: "recv_buf B1 st' = recv_buf B st'" using B1(4) by (simp add: recv_buf_def)
  have r: "reader_inv (ss_bm A) gs e (ss_mem A) (send_buf A st) (shm_names gs (all_slices (recv_buf B st')) @ others)"
    using C by (simp add: writer_inv_def)
  have "lb_len rb = lb_len (recv_buf B st') + lb_len (send_buf A st) + length (concat bss)"
    using reader_inv_length [OF A2(4)] reader_inv_length [OF r] reader_inv_length [of "ss_bm B" gs e "ss_mem A" "recv_buf B st'"] C A2(3)
    by auto
  then have km: "lb_len (recv_buf B1 st') < k" "k \<le> lb_len rb" using k rB1 by simp_all
  obtain B2 b rb2 where B2: "stream_read_bytes wakes B1 st' k = Some (B2, Inr b)" "recv_buf B2 st' = rb2"
    "buf_bytes (ss_mem B2) rb2 b = Some (take k (content m rb))" "content (ss_mem B2) rb2 = drop k (content m rb)"
    "reader_inv (ss_bm B2) gs e (ss_mem B2) rb2 others" "live B2" "ss_streams B2 = ss_streams B1" "ss_bm B2 = ss_bm B1"
    "si_pending_data (inner B2 st') = []" "ss_qm B2 = ss_qm B1" "ss_qmem B2 = ss_qmem B1"
    using read_takes_pending [OF B1(2), of "st_id st" st' off m rb gs e others k wakes] B1 A2(2,4) C km rB1 by auto
  have "managed (ss_bm A) gs e (ss_mem B2) (shm_names gs (all_slices rb2) @ others)"
    using B2(5) r by (simp add: reader_inv_def lb_inv_def managed_def)
  then have "connected gs e others a d c n (A2\<lparr>ss_mem := ss_mem B2, ss_qmem := ss_qmem B2\<rparr>) st B2 st'"
    using C A2 B1 B2 by (simp add: connected_def handle_ok_def inner_def send_buf_def)
  then show ?thesis using A2 B1(1) B2 unfolding sent by auto
qed

text \<open>
  Property C1. What is written to a stream arrives at its peer. A program writes any byte strings to a stream whose buffers
  stay in shared memory and flushes it; the flush succeeds and posts one polling event. When the peer's
  session handles that event and its program asks the stream for up to all the bytes that were sent, it gets exactly
  the bytes its buffer had, followed by those written, in order, none lost and none added, without waiting. What it has not asked
  for is still in its buffer, and both sessions are ready for the next message.
\<close>

theorem shm_message_delivered:
  assumes "connected gs e others a d c (Suc n) A st B st'"
    and "\<forall>bs \<in> set bss. length bs < 2 ^ 32" and "content (ss_mem A) (send_buf A st) @ concat bss \<noteq> []"
    and "lb_len (recv_buf B st') + lb_len (send_buf A st) + length (concat bss) < 2 ^ 64"
    and "stream_writes A st bss = Some A1" and "lb_is_from_shm (send_buf A1 st)" and "\<not> ch_is_full (ss_send A)"
    and "lb_len (recv_buf B st') < k" and "k \<le> lb_len (recv_buf B st') + lb_len (send_buf A st) + length (concat bss)"
    and "wd_yields wd = [\<lambda>s. s]"
    and "sent = content (ss_mem A) (recv_buf B st') @ content (ss_mem A) (send_buf A st) @ concat bss"
  shows "\<exists>A2 r B1 B2 b. flush others' waits A1 st fin = Some (A2, Inr ()) \<and> ch_queue (ss_send A2) = ch_queue (ss_send A) @ [r]
    \<and> handle_events wd (B\<lparr>ss_mem := ss_mem A2, ss_qmem := ss_qmem A2\<rparr>) (sr_hdr r @ sr_body r)
      = Some (B1, \<lparr>er_consumed = 8, er_required = 8, er_err = None\<rparr>)
    \<and> stream_read_bytes [] B1 st' k = Some (B2, Inr b)
    \<and> buf_bytes (ss_mem B2) (recv_buf B2 st') b = Some (take k sent)
    \<and> content (ss_mem B2) (recv_buf B2 st') = drop k sent
    \<and> connected gs e others a d c n (A2\<lparr>ss_mem := ss_mem B2, ss_qmem := ss_qmem B2\<rparr>) st B2 st'"
  using assms(2,4) by (intro round_ok [OF assms(1) _ assms(3) _ assms(5-11)]) simp_all

definition sample_endpoint :: "buffer_manager \<Rightarrow> mem \<Rightarrow> stream channel option \<Rightarrow> session" where
  "sample_endpoint bm m accept = accepted 2 (new_session default_config bm m
     ((ss_qm sample_session)\<lparr>qm_send_queue := queue_layout X86_64 0 2, qm_recv_queue := queue_layout X86_64 0 2\<rparr>)
     (fst (create_from_bytes X86_64 (\<lambda>_. 0) 0 2)) 3 accept False (\<lambda>_. None))"

definition sample_stream :: stream where
  "sample_stream = \<lparr>st_inner = 0, st_id = 2, st_session_id = 0\<rparr>"

lemma sample_endpoint_fields [simp]:
  "ss_inners (sample_endpoint bm m ac) = [new_stream_inner]" "ss_streams (sample_endpoint bm m ac) = [(2, sample_stream)]"
  "ss_mem (sample_endpoint bm m ac) = m" "ss_bm (sample_endpoint bm m ac) = bm"
  "ss_qmem (sample_endpoint bm m ac) = fst (create_from_bytes X86_64 (\<lambda>_. 0) 0 2)"
  "qm_send_queue (ss_qm (sample_endpoint bm m ac)) = queue_layout X86_64 0 2"
  "qm_recv_queue (ss_qm (sample_endpoint bm m ac)) = queue_layout X86_64 0 2"
  "ss_version (sample_endpoint bm m ac) = 3" "ss_send (sample_endpoint bm m ac) = make_channel 4096"
  "inner (sample_endpoint bm m ac) sample_stream = new_stream_inner" "handle_ok (sample_endpoint bm m ac) sample_stream"
  by (simp_all add: sample_endpoint_def sample_stream_def new_session_def Let_def next_stream_def inner_def handle_ok_def)

lemma sample_connected:
  assumes "managed bm gs e m []"
  shows "connected gs e [] X86_64 0 2 5 (sample_endpoint bm m None) sample_stream (sample_endpoint bm m (Some (make_channel 4))) sample_stream"
proof -
  have n: "all_slices new_linked_buffer = []" by (simp add: new_linked_buffer_def all_slices_def)
  have "live (sample_endpoint bm m (Some (make_channel 4)))"
    by (simp add: live_def) (simp add: new_stream_inner_def stream_state_defs)
  moreover have "\<not> raised (queue_layout X86_64 0 2) (fst (create_from_bytes X86_64 (\<lambda>_. 0) 0 2))"
    using create_from_bytes_flag [of X86_64 "\<lambda>_. 0" 0 2] by (simp add: raised_def)
  ultimately show ?thesis
    using new_writer_inv [OF assms] new_linked_buffer_inv [OF assms] n
    by (simp add: connected_def fresh_queue send_buf_def recv_buf_def) (simp add: new_stream_inner_def sample_stream_def make_channel_def)
qed

theorem shm_message_delivered_witness:
  "\<exists>bm m A1 A2 r B1 B2 b. bm_create sample_pairs ''p'' (\<lambda>_. 0) 1000 0 = (m, Inr bm)
    \<and> stream_writes (sample_endpoint bm m None) sample_stream [[1, 2, 3]] = Some A1
    \<and> flush (\<lambda>s. s) (\<lambda>_ s. s) A1 sample_stream True = Some (A2, Inr ()) \<and> ch_queue (ss_send A2) = [r]
    \<and> handle_events \<lparr>wd_others = \<lambda>s. s, wd_yields = [\<lambda>s. s]\<rparr>
        ((sample_endpoint bm m (Some (make_channel 4)))\<lparr>ss_mem := ss_mem A2, ss_qmem := ss_qmem A2\<rparr>) (sr_hdr r @ sr_body r)
      = Some (B1, \<lparr>er_consumed = 8, er_required = 8, er_err = None\<rparr>)
    \<and> stream_read_bytes [] B1 sample_stream 2 = Some (B2, Inr b)
    \<and> buf_bytes (ss_mem B2) (recv_buf B2 sample_stream) b = Some [1, 2]"
proof -
  let ?gs = "created_specs sample_pairs 1000 0" and ?wd = "\<lparr>wd_others = \<lambda>s. s, wd_yields = [\<lambda>s. s]\<rparr>"
  obtain m bm where b: "bm_create sample_pairs ''p'' (\<lambda>_. 0) 1000 0 = (m, Inr bm)"
    and mg: "managed bm ?gs 1000 m []" and x: "bm_max_slice_size bm = 64" by (rule sample_managed)
  let ?A = "sample_endpoint bm m None" and ?B = "sample_endpoint bm m (Some (make_channel 4))" and ?s = sample_stream
  obtain ma s where a: "alloc_shm_buffer bm m 3 = (ma, Inr s)"
    using alloc_succeeds_iff [OF mg sample_spec0(2), of 3] x by (auto simp: sample_spec0)
  then have "fresh_slice s" "3 \<le> unat (bs_cap s)"
    using src.alloc_one_ok [OF mg a] by (auto simp: grants_def)
  then obtain m1 lb1 where w: "write_all bm m new_linked_buffer [[1, 2, 3]] = Some (m1, lb1)" "lb_is_from_shm lb1"
    using write_one_slice [of bm m "[1, 2, 3]" ma s] a by auto
  have e: "send_buf ?A ?s = new_linked_buffer" "recv_buf ?B ?s = new_linked_buffer"
    by (simp_all add: send_buf_def recv_buf_def) (simp_all add: new_stream_inner_def)
  have A1: "stream_writes ?A ?s [[1, 2, 3]] = Some (with_send ?A ?s m1 lb1)"
    using stream_writes_all [of ?A ?s m "new_linked_buffer" "[[1, 2, 3]]"] with_send_same [of ?A ?s] w(1) e(1) by simp
  have ch: "\<not> ch_is_full (ss_send ?A)" by (simp add: make_channel_def ch_is_full_def)
  have c: "connected ?gs 1000 [] X86_64 0 2 (Suc 4) ?A ?s ?B ?s" using sample_connected [OF mg] by simp
  obtain A2 r B1 B2 v where "flush (\<lambda>s. s) (\<lambda>_ s. s) (with_send ?A ?s m1 lb1) ?s True = Some (A2, Inr ())"
    "ch_queue (ss_send A2) = ch_queue (ss_send ?A) @ [r]"
    "handle_events ?wd (?B\<lparr>ss_mem := ss_mem A2, ss_qmem := ss_qmem A2\<rparr>) (sr_hdr r @ sr_body r)
      = Some (B1, \<lparr>er_consumed = 8, er_required = 8, er_err = None\<rparr>)"
    "stream_read_bytes [] B1 ?s 2 = Some (B2, Inr v)" "buf_bytes (ss_mem B2) (recv_buf B2 ?s) v = Some (take 2 [1, 2, 3])"
    using shm_message_delivered [OF c _ _ _ A1 _ ch, of 2 ?wd "[1, 2, 3]" "\<lambda>s. s" "\<lambda>_ s. s" True] w(2) e by auto
  then show ?thesis using b A1 by (auto simp: make_channel_def)
qed

end
