(* ===== verification/Fallback_Path.thy ===== *)
theory Fallback_Path
  imports End_To_End
begin

text \<open>
  The way of a message through the socket, which a stream takes when its buffers are on the heap or when it has taken
  it before: from \<open>flush\<close> through the write loop and the event handler to \<open>read_bytes\<close>.
\<close>

section \<open>The bytes of a fallback event\<close>

text \<open>Up to the write slice, the slices of a send buffer give their bytes from their first one.\<close>

lemma payload_bytes:
  assumes "sl_nodes sl = pre @ [(w, s)]" "distinct (map fst (sl_nodes sl))" "\<forall>t \<in> set (slices sl). bs_read_index t = 0"
  shows "fallback_payload m (Some w) (sl_nodes sl) = concat (map (slice_bytes m) (slices sl))"
proof -
  have "fallback_payload m (Some w) (xs @ [(w, s)]) = concat (map (slice_bytes m \<circ> snd) (xs @ [(w, s)]))"
    if "w \<notin> fst ` set xs" "\<forall>t \<in> snd ` set (xs @ [(w, s)]). bs_read_index t = 0" for xs
    using that by (induction xs) (auto simp: slice_bytes_def slice_size_def)
  from this [of pre] assms show ?thesis by (auto simp: slices_def)
qed

lemma writer_payload:
  assumes "writer_inv bm gs e m lb others" "slices (lb_slices lb) \<noteq> []"
  shows "fallback_payload m' (sl_write (lb_slices lb)) (sl_nodes (lb_slices lb)) = concat (map (slice_bytes m') (slices (lb_slices lb)))"
proof -
  obtain pre w s where c: "sl_nodes (lb_slices lb) = pre @ [(w, s)]" "sl_write (lb_slices lb) = Some w"
    using assms by (auto simp: writer_inv_def cursor_at_def)
  have "distinct (map fst (sl_nodes (lb_slices lb)))" "\<forall>t \<in> set (slices (lb_slices lb)). bs_read_index t = 0"
    using assms(1) by (auto simp: writer_inv_def reader_inv_def lb_inv_def sl_inv_def ids_def tidy_def clean_slice_def)
  then show ?thesis using payload_bytes [OF c(1)] c(2) by simp
qed

text \<open>\<open>done\<close> flushes the headers of shared buffers and leaves the bytes alone.\<close>

lemma lb_done_keeps:
  assumes inv: "writer_inv bm gs e m lb others" and ne: "slices (lb_slices lb) \<noteq> []"
  obtains m1 where "lb_done bm m lb b = Some (m1, lb)" "lb_inv bm gs e m1 lb others"
    "concat (map (slice_bytes m1) (slices (lb_slices lb))) = content m lb"
    "\<forall>g \<in> set others. \<forall>x \<in> area gs g. m1 x = m x"
proof (cases "lb_is_from_shm lb")
  case False
  then show ?thesis using that [of m] inv by (simp add: lb_done_def writer_inv_def reader_inv_def content_def)
next
  case True
  have li: "lb_inv bm gs e m lb others" using inv by (simp add: writer_inv_def reader_inv_def)
  note d = lb_invD [OF li]
  obtain m1 where m1: "lb_done bm m lb b = Some (m1, lb)"
    "\<forall>s \<in> set (slices (lb_slices lb)). sendable gs m1 s \<and> slice_bytes m1 s = slice_bytes m s"
    "managed bm gs e m1 (shm_names gs (all_slices lb) @ others)"
    "\<forall>g \<in> set (shm_names gs (slices (lb_pinned lb)) @ others). \<forall>x \<in> area gs g. m1 x = m x"
    by (rule lb_done_ok [OF inv True ne])
  have "good_slice gs m1 s" if "s \<in> set (slices (lb_pinned lb))" for s
    using good_slice_cong(1) [OF d(5) [OF that], of m1] m1(4) hname_in_shm_names [OF that, of gs] by auto
  then have "lb_inv bm gs e m1 lb others"
    using m1(2,3) d(1,2,6) by (auto simp: lb_inv_def all_slices_def sendable_def)
  moreover have "map (slice_bytes m1) (slices (lb_slices lb)) = map (slice_bytes m) (slices (lb_slices lb))" using m1(2) by simp
  moreover have "\<forall>g \<in> set others. \<forall>x \<in> area gs g. m1 x = m x" using m1(4) by auto
  ultimately show ?thesis using m1(1) that [of m1] unfolding content_def by metis
qed

text \<open>A request alone in the channel is written when the socket takes its bytes.\<close>

lemma write_half_ok: "accepts (length d) as \<Longrightarrow> \<exists>as'. write_half_write_all d as = Some (as', d, Inr ())"
  using block_write_full_ok [of 0 d as] by (simp add: write_half_write_all_def)

lemma wait_for_send_writes:
  assumes "ch_queue (ss_send s) = []" "\<not> ch_stopped (ss_send s)" "ch_cap (ss_send s) \<noteq> 0" "accepts (length body) as" "body \<noteq> []"
  obtains t where "wait_for_send (writer_runs as) s None body = Some (t, Inr ())" "ss_sent t = ss_sent s @ body"
    "ss_inners t = ss_inners s" "ss_mem t = ss_mem s" "ss_bm t = ss_bm s"
proof -
  let ?n = "length (ss_promises s)"
  let ?r = "\<lparr>sr_hdr = [], sr_body = body, sr_done = ?n\<rparr>"
  define u where "u = s\<lparr>ss_promises := ss_promises s @ [Pending], ss_send := (ss_send s)\<lparr>ch_queue := [?r]\<rparr>\<rparr>"
  define v where "v = set_promise ?n Fulfilled (sent_bytes body (u\<lparr>ss_send := (ss_send s)\<lparr>ch_queue := []\<rparr>\<rparr>))"
  obtain as' where wr: "write_ready ?r as = Some (as', body, Inr ())"
    using write_half_ok [OF assms(4)] assms(5) by (auto simp: write_ready_def)
  have "session_write_loop (\<lambda>s. s) v as' = Some (v, as', False)"
    using assms(2) by (subst session_write_loop.simps) (simp add: v_def u_def set_promise_def sent_bytes_def ch_pop_def)
  then have "session_write_loop (\<lambda>s. s) u as = Some (v, as', False)"
    using wr by (subst session_write_loop.simps) (simp add: u_def [THEN arg_cong [of _ _ ss_send]] ch_pop_def v_def)
  then have run: "writer_runs as u = v" by (simp add: writer_runs_def)
  have "wait_for_send (writer_runs as) s None body = Some (v, Inr ())"
    using assms(1-3) run
    by (simp add: wait_for_send_def add_promise_def awaited_def can_send_def ch_push_timeout_def ch_is_full_def Let_def u_def [symmetric])
      (simp add: v_def u_def set_promise_def sent_bytes_def)
  then show ?thesis by (rule that) (simp_all add: v_def u_def set_promise_def sent_bytes_def)
qed

section \<open>The sender\<close>

lemma enter_fallback_state:
  assumes "handle_ok s st" "\<not> lb_is_from_shm (send_buf s st) \<or> si_in_fallback_state (inner s st)"
  shows "inner (enter_fallback s st) st = (inner s st)\<lparr>si_in_fallback_state := True\<rparr>" "handle_ok (enter_fallback s st) st"
    "ss_bm (enter_fallback s st) = ss_bm s" "ss_mem (enter_fallback s st) = ss_mem s" "ss_version (enter_fallback s st) = ss_version s"
    "ss_send (enter_fallback s st) = ss_send s" "ss_sent (enter_fallback s st) = ss_sent s"
  using assms by (auto simp: enter_fallback_def inner_def set_inner_def handle_ok_def)

lemma with_send_more [simp]: "ss_sent (with_send s st m lb) = ss_sent s"
  by (simp add: with_send_def set_inner_def)

lemma breaker_fields [simp]:
  "ss_inners (open_circuit_breaker s) = ss_inners s" "ss_mem (open_circuit_breaker s) = ss_mem s" "ss_bm (open_circuit_breaker s) = ss_bm s"
  "ss_send (open_circuit_breaker s) = ss_send s" "ss_sent (open_circuit_breaker s) = ss_sent s" "ss_streams (open_circuit_breaker s) = ss_streams s"
  "ss_version (open_circuit_breaker s) = ss_version s" "ss_is_client (open_circuit_breaker s) = ss_is_client s"
  by (simp_all add: open_circuit_breaker_def)

lemma bump_more [simp]: "ss_send (bump f s) = ss_send s" "ss_sent (bump f s) = ss_sent s"
  by (simp_all add: bump_def)

definition fallback_event :: "u8 \<Rightarrow> u32 \<Rightarrow> bytes \<Rightarrow> bytes" where
  "fallback_event v i d = fallback_encode (replicate 16 0) (of_nat (length d) + 16) v i kStreamOpened @ d"

lemma write_fallback_sends:
  assumes h: "handle_ok s st" and len: "lb_len (send_buf s st) \<le> 4294967295 - 16"
    and pl: "fallback_payload (ss_mem s) (sl_write (lb_slices (send_buf s st))) (sl_nodes (lb_slices (send_buf s st))) = d" "lb_len (send_buf s st) = length d"
    and inv: "lb_inv (ss_bm s) gs e (ss_mem s) (send_buf s st) others" and pin: "slices (lb_pinned (send_buf s st)) = []"
    and ch: "ch_queue (ss_send s) = []" "\<not> ch_stopped (ss_send s)" "ch_cap (ss_send s) \<noteq> 0" "accepts (16 + length d) as"
  obtains t lb where "write_fallback (writer_runs as) s st kStreamOpened = Some (t, Inr ())"
    "ss_sent t = ss_sent s @ fallback_event (ss_version s) (st_id st) d" "handle_ok t st" "inner t st = (inner s st)\<lparr>si_send_buf := lb\<rparr>"
    "sl_inv (lb_slices lb)" "sl_inv (lb_pinned lb)" "slices (lb_pinned lb) = []"
proof -
  obtain m lb where r: "lb_recycle (ss_bm s) (ss_mem s) (send_buf s st) = Some (m, lb)" "reader_inv (ss_bm s) gs e m lb others"
    "lb_pinned lb = lb_pinned (send_buf s st)"
    using lb_recycle_ok [OF inv] by auto
  let ?v = "bump (\<lambda>c. c\<lparr>fallback_write_count := fallback_write_count c + 1\<rparr>) (open_circuit_breaker (with_send s st m lb))"
  let ?b = "fallback_event (ss_version s) (st_id st) d"
  have b: "fallback_as_slice (fallback_encode (replicate 16 0) (of_nat (length d) + 16) (ss_version s) (st_id st) kStreamOpened) @ d = ?b"
    by (simp add: fallback_event_def fallback_as_slice_def kHeaderSize_def)
  have "length ?b = 16 + length d" "?b \<noteq> []" by (simp_all add: fallback_event_def flip: length_0_conv)
  then obtain t where t: "wait_for_send (writer_runs as) ?v None ?b = Some (t, Inr ())" "ss_sent t = ss_sent s @ ?b"
    "ss_inners t = ss_inners (with_send s st m lb)"
    using wait_for_send_writes [of ?v ?b as] ch by auto
  have "write_fallback (writer_runs as) s st kStreamOpened = Some (t, Inr ())"
    using len r(1) pl t(1) b by (simp add: write_fallback_def recycle_send_def Let_def)
  moreover have "handle_ok t st" "inner t st = (inner s st)\<lparr>si_send_buf := lb\<rparr>"
    using t(3) inner_with_send [OF h, of m lb] h by (simp_all add: handle_ok_def inner_def with_send_def set_inner_def)
  ultimately show ?thesis using t(2) r(2,3) pin by (intro that [of t lb]) (auto simp: reader_inv_def lb_inv_def)
qed

lemma flush_falls_back:
  assumes h: "handle_ok s st" and st: "si_state (inner s st) = kStreamOpened"
    and fb: "\<not> lb_is_from_shm (send_buf s st) \<or> si_in_fallback_state (inner s st)"
    and inv: "writer_inv (ss_bm s) gs e (ss_mem s) (send_buf s st) others" and pin: "slices (lb_pinned (send_buf s st)) = []"
    and len: "0 < lb_len (send_buf s st)" "lb_len (send_buf s st) \<le> 4294967295 - 16"
    and ch: "ch_queue (ss_send s) = []" "\<not> ch_stopped (ss_send s)" "ch_cap (ss_send s) \<noteq> 0" "accepts (16 + lb_len (send_buf s st)) as"
  obtains t where "flush (writer_runs as) waits s st b = Some (t, Inr ())" "fallback_state t st" "lb_len (send_buf t st) = 0"
    "ss_sent t = ss_sent s @ fallback_event (ss_version s) (st_id st) (content (ss_mem s) (send_buf s st))"
proof -
  define lb d where "lb = send_buf s st" and "d = content (ss_mem s) lb"
  have ri: "reader_inv (ss_bm s) gs e (ss_mem s) lb others" using inv by (simp add: writer_inv_def lb_def)
  have ld: "lb_len lb = length d" using reader_inv_length [OF ri] by (simp add: d_def)
  have ne: "slices (lb_slices lb) \<noteq> []" using len(1) ri by (auto simp: lb_def reader_inv_def total_size_def)
  obtain m1 where m1: "lb_done (ss_bm s) (ss_mem s) lb b = Some (m1, lb)" "lb_inv (ss_bm s) gs e m1 lb others"
    "concat (map (slice_bytes m1) (slices (lb_slices lb))) = d"
    unfolding d_def by (rule lb_done_keeps [OF inv [folded lb_def] ne, of b])
  define u where "u = bump (\<lambda>c. c\<lparr>out_flow_bytes := out_flow_bytes c + of_nat (lb_len lb)\<rparr>) s"
  have u: "inner u st = inner s st" "send_buf u st = lb" "handle_ok u st" "ss_bm u = ss_bm s" "ss_mem u = ss_mem s"
    "ss_version u = ss_version s" "ss_send u = ss_send s" "ss_sent u = ss_sent s"
    using h by (simp_all add: u_def send_buf_def lb_def)
  define v where "v = with_send u st m1 lb"
  have v: "inner v st = inner s st" "send_buf v st = lb" "handle_ok v st" "ss_bm v = ss_bm s" "ss_mem v = m1"
    "ss_version v = ss_version s" "ss_send v = ss_send s" "ss_sent v = ss_sent s"
    using u by (simp_all add: v_def lb_def) (simp add: send_buf_def)
  let ?x = "enter_fallback v st"
  have fbv: "\<not> lb_is_from_shm (send_buf v st) \<or> si_in_fallback_state (inner v st)" using fb v(1,2) by (simp add: lb_def)
  note x = enter_fallback_state [OF v(3) fbv]
  have sx: "send_buf ?x st = lb" using x(1) v(1) by (simp add: send_buf_def lb_def)
  have pl: "fallback_payload m1 (sl_write (lb_slices lb)) (sl_nodes (lb_slices lb)) = d"
    using writer_payload [OF inv [folded lb_def] ne] m1(3) by simp
  obtain t lb1 where t: "write_fallback (writer_runs as) ?x st kStreamOpened = Some (t, Inr ())"
    "ss_sent t = ss_sent s @ fallback_event (ss_version s) (st_id st) d" "handle_ok t st" "inner t st = (inner ?x st)\<lparr>si_send_buf := lb1\<rparr>"
    "sl_inv (lb_slices lb1)" "sl_inv (lb_pinned lb1)" "slices (lb_pinned lb1) = []"
    using write_fallback_sends [OF x(2), of d gs e others as] len(2) pl ld m1(2) pin ch x v sx unfolding lb_def [symmetric] by auto
  obtain lb2 where cl: "lb_clean (ss_mem t) lb1 = Some (ss_mem t, lb2)" "lb_len lb2 = 0"
    using lb_clean_ok [OF t(5-7)] by metis
  have st1: "send_buf t st = lb1" using t(4) by (simp add: send_buf_def)
  have "flush (writer_runs as) waits s st b = flush_send (writer_runs as) waits ?x st kStreamOpened"
    unfolding flush_def lb_def [symmetric] u_def [symmetric] using len(1) st m1(1) u by (simp add: Let_def v_def [symmetric] lb_def [symmetric])
  also have "\<dots> = Some (with_send t st (ss_mem t) lb2, Inr ())"
    using x(1) t(1) cl(1) st1 by (simp add: flush_send_def clean_send_def)
  finally show ?thesis
    using t x(1) cl(2) by (intro that [of "with_send t st (ss_mem t) lb2"]) (simp_all add: fallback_state_def d_def lb_def)
qed

section \<open>The receiver\<close>

lemma fallback_event_fields:
  assumes "length d \<le> 4294967295 - 16"
  shows "length (fallback_event v i d) = 16 + length d" "unat (hdr_length (fallback_event v i d)) = 16 + length d"
    "hdr_msg_type (fallback_event v i d) = kFallbackData" "v \<noteq> 0 \<Longrightarrow> check_event_valid (fallback_event v i d) = Inr ()"
    "load_be_u32 (drop 8 (fallback_event v i d)) 0 = i" "load_be_u32 (drop 8 (fallback_event v i d)) 4 = kStreamOpened"
    "drop 16 (fallback_event v i d) = d"
proof -
  let ?h = "fallback_encode (replicate 16 0) (of_nat (length d) + 16) v i kStreamOpened"
  have same: "fallback_event v i d ! j = ?h ! j" if "j < 16" for j using that by (simp add: fallback_event_def nth_append)
  have hc: "hdr_length (fallback_event v i d) = of_nat (length d) + 16" "hdr_magic (fallback_event v i d) = kMagicNumber"
    "hdr_version (fallback_event v i d) = v" "hdr_msg_type (fallback_event v i d) = kFallbackData"
    using hdr_cong [of "fallback_event v i d" ?h] same by simp_all
  show l: "length (fallback_event v i d) = 16 + length d" and "drop 16 (fallback_event v i d) = d"
    by (simp_all add: fallback_event_def)
  have "of_nat (length d) + 16 = (of_nat (length d + 16) :: u32)" by simp
  then show "unat (hdr_length (fallback_event v i d)) = 16 + length d"
    unfolding hc using assms unat_of_nat_u32 [of "length d + 16"] by simp
  show "hdr_msg_type (fallback_event v i d) = kFallbackData" by (rule hc(4))
  show "v \<noteq> 0 \<Longrightarrow> check_event_valid (fallback_event v i d) = Inr ()"
    by (simp add: check_event_valid_def hc event_type_consts)
  have "load_be_u32 (drop 8 (fallback_event v i d)) k = load_be_u32 ?h (8 + k)" if "k \<le> 4" for k
    using that l same by (simp add: load_be_u32_def)
  from this [of 0] this [of 4] show "load_be_u32 (drop 8 (fallback_event v i d)) 0 = i"
    "load_be_u32 (drop 8 (fallback_event v i d)) 4 = kStreamOpened" by simp_all
qed

lemma add_pending_fields [simp]:
  "ss_streams (add_pending s st w) = ss_streams s" "ss_bm (add_pending s st w) = ss_bm s" "ss_mem (add_pending s st w) = ss_mem s"
  "handle_ok s st \<Longrightarrow> inner (add_pending s st w) st = (inner s st)\<lparr>si_pending_data := si_pending_data (inner s st) @ [w]\<rparr>"
  by (simp_all add: add_pending_def)

text \<open>The handler gives the bytes to the stream as a slice on the heap.\<close>

lemma fallback_event_handled:
  assumes "v \<noteq> 0" "length d \<le> 4294967295 - 16" "live s" "map_of (ss_streams s) i = Some st"
  obtains t where "handle_events w s (fallback_event v i d) = Some (t, \<lparr>er_consumed = 16 + length d, er_required = 8, er_err = None\<rparr>)"
    "ss_streams t = ss_streams s" "live t" "ss_bm t = ss_bm s" "ss_mem t = ss_mem s"
    "inner t st = (inner s st)\<lparr>si_pending_data := si_pending_data (inner s st) @ [\<lparr>w_fallback_slice = Some (heap_data_slice d), w_offset = 0\<rparr>]\<rparr>"
proof -
  define ev where "ev = fallback_event v i d"
  note f = fallback_event_fields [OF assms(2), of v i, folded ev_def]
  let ?w = "\<lparr>w_fallback_slice = Some (heap_data_slice d), w_offset = 0\<rparr>"
  define u where "u = bump (\<lambda>c. c\<lparr>fallback_read_count := fallback_read_count c + 1\<rparr>) (open_circuit_breaker s)"
  have u: "ss_streams u = ss_streams s" "ss_bm u = ss_bm s" "ss_mem u = ss_mem s" "ss_inners u = ss_inners s"
    by (simp_all add: u_def)
  then have iu: "inner u st = inner s st" "handle_ok u st" "live u" "si_state (inner s st) \<noteq> kStreamClosed"
    using assms(3) live_known [OF assms(3,4)] by (simp_all add: inner_def handle_ok_def live_def)
  let ?t = "add_pending u st ?w"
  have "handle_fallback_data (wd_others w) s (take 8 ev) (drop 8 ev)
      = Some (?t, \<lparr>hr_consumed = 16 + length d, hr_required = 8, hr_stop = False, hr_err = None\<rparr>)"
    using f iu(4) assms(4) u fill_open [of u st ?w] iu
    by (simp add: handle_fallback_data_def Let_def heap_data_slice_def [symmetric, unfolded Let_def] u_def [symmetric] get_stream_def
        handle_stream_message_def stream_state_defs)
  then have he: "handle_event w s ev = Some (?t, Inr \<lparr>hr_consumed = 16 + length d, hr_required = 8, hr_stop = False, hr_err = None\<rparr>)"
    using f(3) by (simp add: handle_event_def event_type_consts Let_def)
  have "handle_events w ?t [] = Some (?t, \<lparr>er_consumed = 0, er_required = 8, er_err = None\<rparr>)"
    by (subst handle_events_round) (simp_all add: events_round_def)
  then have "handle_events w s ev = Some (?t, \<lparr>er_consumed = 16 + length d, er_required = 8, er_err = None\<rparr>)"
    using he f assms(1,2) by (subst handle_events_round) (simp_all add: events_round_def)
  moreover have "live ?t" using iu by (simp add: add_pending_def live_set_inner)
  ultimately show ?thesis using u iu by (intro that [of ?t]) (simp_all add: ev_def)
qed

lemma read_takes_fallback:
  assumes s: "live s" "map_of (ss_streams s) i = Some st"
    and p: "si_pending_data (inner s st) = [\<lparr>w_fallback_slice = Some (heap_data_slice d), w_offset = 0\<rparr>]" "length d < 4294967296"
    and r: "reader_inv (ss_bm s) gs e (ss_mem s) (recv_buf s st) others" and len: "lb_len (recv_buf s st) + length d < 18446744073709551616"
    and k: "lb_len (recv_buf s st) < k" "k \<le> lb_len (recv_buf s st) + length d"
  obtains t b where "stream_read_bytes wakes s st k = Some (t, Inr b)" "fallback_state t st"
    "buf_bytes (ss_mem t) (recv_buf t st) b = Some (take k (content (ss_mem s) (recv_buf s st) @ d))"
    "content (ss_mem t) (recv_buf t st) = drop k (content (ss_mem s) (recv_buf s st) @ d)"
    "reader_inv (ss_bm s) gs e (ss_mem t) (recv_buf t st) others"
proof -
  define m rb where "m = ss_mem s" and "rb = append_buffer_slice (recv_buf s st) (heap_data_slice d)"
  note h = heap_data_slice_ok [OF p(2)]
  have a: "reader_inv (ss_bm s) gs e m rb others" "content m rb = content m (recv_buf s st) @ d"
    using append_buffer_slice_ok [of "ss_bm s" gs e m "recv_buf s st" "heap_data_slice d" others] r h len
    by (simp_all add: m_def rb_def)
  have l: "lb_len rb = lb_len (recv_buf s st) + length d"
    using reader_inv_length [OF a(1)] reader_inv_length [OF r] a(2) by (simp add: m_def)
  have hs: "handle_ok s st" using live_known [OF s] by simp
  define v where "v = bump (\<lambda>c. c\<lparr>in_flow_bytes := in_flow_bytes c + of_nat (usub (lb_len rb) (lb_len (recv_buf s st)))\<rparr>)
    (set_inner s st ((inner s st)\<lparr>si_pending_data := [], si_recv_buf := rb, si_in_fallback_state := True\<rparr>))"
  have v: "inner v st = (inner s st)\<lparr>si_pending_data := [], si_recv_buf := rb, si_in_fallback_state := True\<rparr>" "handle_ok v st"
    "ss_bm v = ss_bm s" "ss_mem v = m"
    using hs by (simp_all add: v_def inner_def set_inner_def handle_ok_def m_def)
  have "move_pending_data s st = Some v"
    using p(1) by (simp add: move_pending_data_def Let_def recv_buf_def v_def rb_def)
  then have more: "read_more wakes s st k = Some (v, Inr ())" using k(2) v(1) l by (simp add: read_more_def)
  have kl: "k \<le> lb_len rb" using k(2) l by simp
  obtain m' rb' b where rd: "lb_read_bytes (ss_bm s) m rb k = Some (m', rb', Inr b)"
    "buf_bytes m' rb' b = Some (take k (content m rb))" "content m' rb' = drop k (content m rb)" "reader_inv (ss_bm s) gs e m' rb' others"
    using lb_read_bytes_ok [OF a(1) kl] by auto
  have "stream_read_bytes wakes s st k = Some (with_recv v st m' rb', Inr b)"
    using more k(1) rd(1) v by (simp add: stream_read_bytes_def ensure_then_def recv_buf_def)
  then show ?thesis using rd v a(2)
    by (intro that [of "with_recv v st m' rb'" b]) (simp_all add: recv_buf_def fallback_state_def m_def)
qed

text \<open>
  Property C8. A message that does not fit the shared memory arrives through the socket. When a stream whose send buffer is
  on the heap, or that has used the socket before, is flushed and the socket takes the bytes in whatever pieces,
  the flush succeeds, all buffers of the stream are returned, and the bytes the write loop has given to the socket are one event.
  The peer's handler consumes exactly that event, and reading from the stream gives the bytes its buffer had followed by
  those of the message, in order; both sides are in fallback state from then on.
\<close>

theorem fallback_message_delivered:
  assumes "handle_ok A st" and "si_state (inner A st) = kStreamOpened"
    and "\<not> lb_is_from_shm (send_buf A st) \<or> fallback_state A st"
    and "writer_inv (ss_bm A) gs e (ss_mem A) (send_buf A st) others" and "slices (lb_pinned (send_buf A st)) = []"
    and "0 < lb_len (send_buf A st)" and "lb_len (send_buf A st) \<le> 2 ^ 32 - 17" and "ss_version A \<noteq> 0"
    and "ch_queue (ss_send A) = []" and "\<not> ch_stopped (ss_send A)" and "ch_cap (ss_send A) \<noteq> 0"
    and "accepts (16 + lb_len (send_buf A st)) as"
    and "live B" and "map_of (ss_streams B) (st_id st) = Some st'" and "si_pending_data (inner B st') = []"
    and "reader_inv (ss_bm B) gs' e' (ss_mem B) (recv_buf B st') others'"
    and "lb_len (recv_buf B st') + lb_len (send_buf A st) < 2 ^ 64"
    and "lb_len (recv_buf B st') < k" and "k \<le> lb_len (recv_buf B st') + lb_len (send_buf A st)"
    and "sent = content (ss_mem B) (recv_buf B st') @ content (ss_mem A) (send_buf A st)"
  shows "\<exists>A' ev B1 B2 b. flush (writer_runs as) waits A st fin = Some (A', Inr ()) \<and> fallback_state A' st \<and> lb_len (send_buf A' st) = 0
    \<and> ss_sent A' = ss_sent A @ ev
    \<and> handle_events wd B ev = Some (B1, \<lparr>er_consumed = length ev, er_required = kHeaderSize, er_err = None\<rparr>)
    \<and> stream_read_bytes [] B1 st' k = Some (B2, Inr b) \<and> fallback_state B2 st'
    \<and> buf_bytes (ss_mem B2) (recv_buf B2 st') b = Some (take k sent)
    \<and> content (ss_mem B2) (recv_buf B2 st') = drop k sent"
proof -
  define d where "d = content (ss_mem A) (send_buf A st)"
  have ld: "lb_len (send_buf A st) = length d"
    using assms(4) reader_inv_length [of "ss_bm A" gs e "ss_mem A" "send_buf A st" others] by (simp add: writer_inv_def d_def)
  have dl: "length d \<le> 4294967295 - 16" using assms(7) ld by simp
  let ?ev = "fallback_event (ss_version A) (st_id st) d"
  obtain A' where A: "flush (writer_runs as) waits A st fin = Some (A', Inr ())" "fallback_state A' st" "lb_len (send_buf A' st) = 0"
    "ss_sent A' = ss_sent A @ ?ev"
    using flush_falls_back [OF assms(1,2) _ assms(4,5,6) _ assms(9-12), of waits fin] assms(3,7)
    by (auto simp: fallback_state_def d_def)
  obtain B1 where B: "handle_events wd B ?ev = Some (B1, \<lparr>er_consumed = 16 + length d, er_required = 8, er_err = None\<rparr>)"
    "ss_streams B1 = ss_streams B" "live B1" "ss_bm B1 = ss_bm B" "ss_mem B1 = ss_mem B"
    "inner B1 st' = (inner B st')\<lparr>si_pending_data := [\<lparr>w_fallback_slice = Some (heap_data_slice d), w_offset = 0\<rparr>]\<rparr>"
    using fallback_event_handled [OF assms(8) dl assms(13,14), of wd] assms(15) by auto
  have rb: "recv_buf B1 st' = recv_buf B st'" using B(6) by (simp add: recv_buf_def)
  obtain B2 b where R: "stream_read_bytes [] B1 st' k = Some (B2, Inr b)" "fallback_state B2 st'"
    "buf_bytes (ss_mem B2) (recv_buf B2 st') b = Some (take k sent)" "content (ss_mem B2) (recv_buf B2 st') = drop k sent"
  proof (rule read_takes_fallback [OF B(3), of "st_id st" st' d gs' e' others' k "[]"])
    show "map_of (ss_streams B1) (st_id st) = Some st'" "length d < 4294967296" using B(2) assms(14) dl by simp_all
    show "si_pending_data (inner B1 st') = [\<lparr>w_fallback_slice = Some (heap_data_slice d), w_offset = 0\<rparr>]" using B(6) by simp
    show "reader_inv (ss_bm B1) gs' e' (ss_mem B1) (recv_buf B1 st') others'" using B(4,5) rb assms(16) by simp
    show "lb_len (recv_buf B1 st') + length d < 18446744073709551616" "lb_len (recv_buf B1 st') < k"
      "k \<le> lb_len (recv_buf B1 st') + length d" using rb assms(17-19) ld by simp_all
  qed (use that B(5) rb assms(20) in \<open>simp add: d_def\<close>)
  from A B(1) R show ?thesis using fallback_event_fields(1) [OF dl, of "ss_version A" "st_id st"] by auto
qed

theorem fallback_message_delivered_witness:
  "\<exists>A A' ev B B1 B2 b. flush (writer_runs [Accepts 5, WInterrupted, Accepts 100]) (\<lambda>_ s. s) A sample_stream True = Some (A', Inr ())
    \<and> ss_sent A = [] \<and> ss_sent A' = ev
    \<and> handle_events \<lparr>wd_others = \<lambda>s. s, wd_yields = []\<rparr> B ev = Some (B1, \<lparr>er_consumed = length ev, er_required = kHeaderSize, er_err = None\<rparr>)
    \<and> stream_read_bytes [] B1 sample_stream 3 = Some (B2, Inr b)
    \<and> buf_bytes (ss_mem B2) (recv_buf B2 sample_stream) b = Some [1, 2, 3]"
proof -
  let ?gs = "created_specs sample_pairs 1000 0" and ?as = "[Accepts 5, WInterrupted, Accepts 100]"
    and ?wd = "\<lparr>wd_others = \<lambda>s. s, wd_yields = []\<rparr>" and ?s = sample_stream
  obtain m bm where "bm_create sample_pairs ''p'' (\<lambda>_. 0) 1000 0 = (m, Inr bm)" and mg: "managed bm ?gs 1000 m []"
    by (rule sample_managed)
  obtain m1 lb1 where w: "writer_inv bm ?gs 1000 m1 lb1 []" "content m1 lb1 = [1, 2, 3]" "lb_pinned lb1 = lb_pinned new_linked_buffer"
    using write_all_ok [OF new_writer_inv [OF mg], of "[[1, 2, 3]]"] by auto
  let ?i = "new_stream_inner\<lparr>si_send_buf := lb1, si_in_fallback_state := True\<rparr>"
  define A where "A = (sample_endpoint bm m1 None)\<lparr>ss_inners := [?i]\<rparr>"
  define B where "B = sample_endpoint bm m1 (Some (make_channel 4))"
  have ri: "reader_inv bm ?gs 1000 m1 lb1 []" using w(1) by (simp add: writer_inv_def)
  have l: "lb_len lb1 = 3" using reader_inv_length [OF ri] w(2) by simp
  have "managed bm ?gs 1000 m1 (shm_names ?gs (all_slices lb1))" using ri by (simp add: reader_inv_def lb_inv_def)
  note rb = new_linked_buffer_inv [OF this]
  have iA: "inner A ?s = ?i" "handle_ok A ?s" "ss_bm A = bm" "ss_mem A = m1" "ss_version A = 3" "ss_send A = make_channel 4096" "ss_sent A = []"
    by (simp_all add: A_def inner_def sample_stream_def handle_ok_def) (simp add: sample_endpoint_def new_session_def accepted_def)
  then have sA: "send_buf A ?s = lb1" "fallback_state A ?s" "si_state (inner A ?s) = kStreamOpened"
    by (simp_all add: send_buf_def fallback_state_def) (simp add: new_stream_inner_def)
  have "live B" unfolding B_def by (simp add: live_def) (simp add: new_stream_inner_def stream_state_defs)
  moreover have "recv_buf B ?s = new_linked_buffer" "si_pending_data (inner B ?s) = []" "map_of (ss_streams B) (st_id ?s) = Some ?s" "ss_bm B = bm" "ss_mem B = m1"
    unfolding B_def by (simp_all add: recv_buf_def) (simp_all add: new_stream_inner_def sample_stream_def)
  ultimately have "\<exists>A' ev B1 B2 b. flush (writer_runs ?as) (\<lambda>_ s. s) A ?s True = Some (A', Inr ()) \<and> fallback_state A' ?s \<and> lb_len (send_buf A' ?s) = 0
    \<and> ss_sent A' = ss_sent A @ ev \<and> handle_events ?wd B ev = Some (B1, \<lparr>er_consumed = length ev, er_required = kHeaderSize, er_err = None\<rparr>)
    \<and> stream_read_bytes [] B1 ?s 3 = Some (B2, Inr b) \<and> fallback_state B2 ?s
    \<and> buf_bytes (ss_mem B2) (recv_buf B2 ?s) b = Some (take 3 [1, 2, 3]) \<and> content (ss_mem B2) (recv_buf B2 ?s) = drop 3 [1, 2, 3]"
    using w rb l iA sA
    by (intro fallback_message_delivered [where gs = ?gs and e = 1000 and others = "[]" and gs' = ?gs and e' = 1000
          and others' = "shm_names ?gs (all_slices lb1)"])
      (simp_all add: make_channel_def)
  then obtain A' ev B1 B2 b where "flush (writer_runs ?as) (\<lambda>_ s. s) A ?s True = Some (A', Inr ())" "ss_sent A' = ss_sent A @ ev"
    "handle_events ?wd B ev = Some (B1, \<lparr>er_consumed = length ev, er_required = kHeaderSize, er_err = None\<rparr>)"
    "stream_read_bytes [] B1 ?s 3 = Some (B2, Inr b)" "buf_bytes (ss_mem B2) (recv_buf B2 ?s) b = Some (take 3 [1, 2, 3])"
    by blast
  then show ?thesis using iA(7)
    by (intro exI [of _ A] exI [of _ A'] exI [of _ ev] exI [of _ B] exI [of _ B1] exI [of _ B2] exI [of _ b]) simp
qed

end
