(* ===== verification/Compact.thy ===== *)
theory Compact
  imports End_To_End
begin

text \<open>
  \<open>src/compact.cpp\<close> and \<open>include/shmipc/util/shmbuf_reader.hpp\<close>: the byte stream on top of a stream that
  reads into and writes from the caller's buffers.
\<close>

section \<open>ShmBufReader\<close>

record shm_buf_reader =
  sb_buf :: buf
  sb_consumed :: nat

definition new_shm_buf_reader :: "buf \<Rightarrow> shm_buf_reader" where
  "new_shm_buf_reader b = \<lparr>sb_buf = b, sb_consumed = 0\<rparr>"

text \<open>
  \<open>span\<close> is \<open>buf_.span()\<close> and \<open>n\<close> the size of the caller's buffer. The result has the bytes that were filled in and
  whether all data is consumed.
\<close>

definition sb_read :: "bytes \<Rightarrow> shm_buf_reader \<Rightarrow> nat \<Rightarrow> shm_buf_reader \<times> bytes \<times> bool" where
  "sb_read span r n =
     (if sb_consumed r \<ge> length span then (r, [], True)
      else
        let inner = drop (sb_consumed r) span
        in if length inner \<le> n then (r\<lparr>sb_consumed := sb_consumed r + length inner\<rparr>, inner, True)
           else (r\<lparr>sb_consumed := sb_consumed r + n\<rparr>, take n inner, False))"

section \<open>StreamExt\<close>

record stream_ext =
  ext_stream :: stream
  ext_reader :: "shm_buf_reader option"

definition new_stream_ext :: "stream \<Rightarrow> stream_ext" where
  "new_stream_ext st = \<lparr>ext_stream = st, ext_reader = None\<rparr>"

text \<open>Filling the caller's buffer from the current reader; \<open>None\<close> when the storage behind its \<open>Buf\<close> is gone.\<close>

definition ext_reader_read :: "session \<Rightarrow> stream_ext \<Rightarrow> shm_buf_reader \<Rightarrow> nat \<Rightarrow> (stream_ext \<times> bytes) option" where
  "ext_reader_read s x r n =
     (case buf_bytes (ss_mem s) (recv_buf s (ext_stream x)) (sb_buf r) of
        None \<Rightarrow> None
      | Some span \<Rightarrow>
          (let (r1, out, consumed) = sb_read span r n
           in Some (x\<lparr>ext_reader := (if consumed then None else Some r1)\<rparr>, out)))"

text \<open>The loop of \<open>read\<close> runs at most twice: a buffer it has just acquired is consumed next.\<close>

definition ext_read ::
  "others list \<Rightarrow> session \<Rightarrow> stream_ext \<Rightarrow> nat \<Rightarrow> (session \<times> stream_ext \<times> (errc + bytes)) option" where
  "ext_read wakes s x n =
     (if n = 0 then Some (s, x, Inr [])
      else
        case ext_reader x of
          Some r \<Rightarrow> map_option (\<lambda>(x1, out). (s, x1, Inr out)) (ext_reader_read s x r n)
        | None \<Rightarrow>
            (case stream_read wakes s (ext_stream x) of
               None \<Rightarrow> None
             | Some (s1, Inl e) \<Rightarrow> Some (s1, x, Inl (to_io_error_code e))
             | Some (s1, Inr data) \<Rightarrow>
                 map_option (\<lambda>(x1, out). (s1, x1, Inr out)) (ext_reader_read s1 x (new_shm_buf_reader data) n)))"

definition ext_write :: "session \<Rightarrow> stream_ext \<Rightarrow> bytes \<Rightarrow> (session \<times> (errc + nat)) option" where
  "ext_write s x bs =
     map_option (\<lambda>(s1, r). (s1, case r of Inl e \<Rightarrow> Inl (to_io_error_code e) | Inr n \<Rightarrow> Inr n))
       (stream_write_bytes s (ext_stream x) bs)"

definition ext_flush :: "others \<Rightarrow> (nat \<Rightarrow> others) \<Rightarrow> session \<Rightarrow> stream_ext \<Rightarrow> (session \<times> (errc + unit)) option" where
  "ext_flush others waits s x =
     map_option (\<lambda>(s1, r). (s1, case r of
         Inl e \<Rightarrow> if kind e = KStreamClosed then Inr () else Inl (to_io_error_code e)
       | Inr _ \<Rightarrow> Inr ()))
       (flush others waits s (ext_stream x) True)"

text \<open>
  \<open>wakes n\<close> is what happens during the waits of the call with \<open>n\<close> bytes left to read. When the
  call fails, the bytes read so far are in the caller's buffer.
\<close>

function ext_read_exact ::
  "(nat \<Rightarrow> others list) \<Rightarrow> session \<Rightarrow> stream_ext \<Rightarrow> nat \<Rightarrow> (session \<times> stream_ext \<times> (errc + bytes)) option" where
  "ext_read_exact wakes s x n =
     (if n = 0 then Some (s, x, Inr [])
      else
        case ext_read (wakes n) s x n of
          None \<Rightarrow> None
        | Some (s1, x1, Inl e) \<Rightarrow> Some (s1, x1, Inl e)
        | Some (s1, x1, Inr out) \<Rightarrow>
            if out = [] then Some (s1, x1, Inl Broken_pipe)
            else
              (case ext_read_exact wakes s1 x1 (n - length out) of
                 None \<Rightarrow> None
               | Some (s2, x2, Inl e) \<Rightarrow> Some (s2, x2, Inl e)
               | Some (s2, x2, Inr rest) \<Rightarrow> Some (s2, x2, Inr (out @ rest))))"
  by pat_completeness auto
termination
  by (relation "measure (\<lambda>(wakes, s, x, n). n)") auto

declare ext_read_exact.simps [simp del]

text \<open>A reader that calls \<open>read_exact\<close> for one size after the other.\<close>

fun ext_reads ::
  "(nat list \<Rightarrow> nat \<Rightarrow> others list) \<Rightarrow> session \<Rightarrow> stream_ext \<Rightarrow> nat list
     \<Rightarrow> (session \<times> stream_ext \<times> (errc + bytes) list) option" where
  "ext_reads wakes s x [] = Some (s, x, [])"
| "ext_reads wakes s x (n # ns) =
     (case ext_read_exact (wakes (n # ns)) s x n of
        None \<Rightarrow> None
      | Some (s1, x1, r) \<Rightarrow> map_option (\<lambda>(s2, x2, rs). (s2, x2, r # rs)) (ext_reads wakes s1 x1 ns))"

fun chunks :: "nat list \<Rightarrow> bytes \<Rightarrow> bytes list" where
  "chunks [] bs = []"
| "chunks (n # ns) bs = take n bs # chunks ns (drop n bs)"

partial_function (option) ext_write_all :: "session \<Rightarrow> stream_ext \<Rightarrow> bytes \<Rightarrow> (session \<times> (errc + unit)) option" where
  "ext_write_all s x bs =
     (if bs = [] then Some (s, Inr ())
      else
        case ext_write s x bs of
          None \<Rightarrow> None
        | Some (s1, Inl e) \<Rightarrow> Some (s1, Inl e)
        | Some (s1, Inr n) \<Rightarrow> ext_write_all s1 x (drop n bs))"

definition ext_shutdown :: "others \<Rightarrow> (nat \<Rightarrow> others) \<Rightarrow> session \<Rightarrow> stream_ext \<Rightarrow> (session \<times> (errc + unit)) option" where
  "ext_shutdown others waits s x =
     (case ext_flush others waits s x of
        None \<Rightarrow> None
      | Some (s1, Inl e) \<Rightarrow> Some (s1, Inl e)
      | Some (s1, Inr _) \<Rightarrow>
          map_option (\<lambda>(s2, r). (s2, case r of Inl e \<Rightarrow> Inl (to_io_error_code e) | Inr _ \<Rightarrow> Inr ()))
            (stream_close others s1 (ext_stream x)))"

section \<open>Reading\<close>

text \<open>What a reader of the byte stream has still to get: the rest of the current buffer, then the receive buffer.\<close>

definition ext_rest :: "session \<Rightarrow> stream_ext \<Rightarrow> bytes" where
  "ext_rest s x =
     (case ext_reader x of
        None \<Rightarrow> []
      | Some r \<Rightarrow> (case buf_bytes (ss_mem s) (recv_buf s (ext_stream x)) (sb_buf r) of
                    None \<Rightarrow> [] | Some span \<Rightarrow> drop (sb_consumed r) span))"

definition ext_unread :: "session \<Rightarrow> stream_ext \<Rightarrow> bytes" where
  "ext_unread s x = ext_rest s x @ content (ss_mem s) (recv_buf s (ext_stream x))"

definition ext_ok :: "list_spec list \<Rightarrow> nat \<Rightarrow> (nat \<times> nat) list \<Rightarrow> session \<Rightarrow> stream_ext \<Rightarrow> bool" where
  "ext_ok gs e others s x \<longleftrightarrow> handle_ok s (ext_stream x)
     \<and> reader_inv (ss_bm s) gs e (ss_mem s) (recv_buf s (ext_stream x)) others
     \<and> (case ext_reader x of None \<Rightarrow> True
        | Some r \<Rightarrow> (case buf_bytes (ss_mem s) (recv_buf s (ext_stream x)) (sb_buf r) of
                      None \<Rightarrow> False | Some span \<Rightarrow> sb_consumed r < length span))"

lemma ext_reader_read_ok:
  assumes "handle_ok s (ext_stream x)" "reader_inv (ss_bm s) gs e (ss_mem s) (recv_buf s (ext_stream x)) others"
    "buf_bytes (ss_mem s) (recv_buf s (ext_stream x)) (sb_buf r) = Some span" "sb_consumed r < length span" "0 < n"
  obtains x' out where "ext_reader_read s x r n = Some (x', out)" "out = take n (drop (sb_consumed r) span)"
    "out \<noteq> []" "ext_stream x' = ext_stream x" "ext_ok gs e others s x'" "ext_rest s x' = drop n (drop (sb_consumed r) span)"
proof -
  obtain r1 out b where rd: "sb_read span r n = (r1, out, b)" by (cases "sb_read span r n") auto
  let ?x = "x\<lparr>ext_reader := (if b then None else Some r1)\<rparr>"
  have "ext_reader_read s x r n = Some (?x, out)" using assms(3) rd by (simp add: ext_reader_read_def)
  moreover have "out = take n (drop (sb_consumed r) span)" "out \<noteq> []" "ext_ok gs e others s ?x"
    "ext_rest s ?x = drop n (drop (sb_consumed r) span)"
    using rd assms by (auto simp: sb_read_def Let_def ext_ok_def ext_rest_def add.commute split: if_splits)
  ultimately show ?thesis by (intro that [of ?x out]) simp_all
qed

text \<open>A call of \<open>read\<close> returns the next bytes, at least one and at most as many as asked for.\<close>

lemma ext_read_ok:
  assumes ok: "ext_ok gs e others s x" and n: "0 < n" and ne: "ext_unread s x \<noteq> []"
  obtains s' x' out where "ext_read wakes s x n = Some (s', x', Inr out)" "out \<noteq> []" "length out \<le> n"
    "out = take (length out) (ext_unread s x)" "ext_unread s' x' = drop (length out) (ext_unread s x)" "ext_ok gs e others s' x'"
proof (cases "ext_reader x")
  case (Some r)
  let ?st = "ext_stream x"
  obtain span where sp: "buf_bytes (ss_mem s) (recv_buf s ?st) (sb_buf r) = Some span" "sb_consumed r < length span"
    and inv: "handle_ok s ?st" "reader_inv (ss_bm s) gs e (ss_mem s) (recv_buf s ?st) others"
    using ok Some by (auto simp: ext_ok_def split: option.splits)
  obtain x' out where x': "ext_reader_read s x r n = Some (x', out)" "out = take n (drop (sb_consumed r) span)"
    "out \<noteq> []" "ext_stream x' = ?st" "ext_ok gs e others s x'" "ext_rest s x' = drop n (drop (sb_consumed r) span)"
    by (rule ext_reader_read_ok [OF inv sp n])
  have u: "ext_unread s x = drop (sb_consumed r) span @ content (ss_mem s) (recv_buf s ?st)"
    using Some sp by (simp add: ext_unread_def ext_rest_def)
  show ?thesis
    by (rule that [of s x' out]) (use x' u n Some in \<open>auto simp: ext_read_def ext_unread_def min_def\<close>)
next
  case None
  let ?st = "ext_stream x" and ?c = "content (ss_mem s) (recv_buf s (ext_stream x))"
  have inv: "handle_ok s ?st" "reader_inv (ss_bm s) gs e (ss_mem s) (recv_buf s ?st) others" using ok by (simp_all add: ext_ok_def)
  have c: "?c \<noteq> []" "ext_unread s x = ?c" using ne None by (simp_all add: ext_unread_def ext_rest_def)
  have l: "lb_len (recv_buf s ?st) = length ?c" using reader_inv_length [OF inv(2)] by simp
  obtain m lb b where r: "lb_read_bytes (ss_bm s) (ss_mem s) (recv_buf s ?st) (length ?c) = Some (m, lb, Inr b)"
    "buf_bytes m lb b = Some ?c" "content m lb = []" "reader_inv (ss_bm s) gs e m lb others"
    using lb_read_bytes_ok [OF inv(2), of "length ?c"] l by auto
  let ?t = "with_recv s ?st m lb"
  have rd: "stream_read wakes s ?st = Some (?t, Inr b)"
    using c(1) l r(1) by (simp add: stream_read_def ensure_then_def)
  have t: "recv_buf ?t ?st = lb" "handle_ok ?t ?st" using inv(1) by (simp_all add: recv_buf_def)
  obtain x' out where x': "ext_reader_read ?t x (new_shm_buf_reader b) n = Some (x', out)" "out = take n ?c"
    "out \<noteq> []" "ext_stream x' = ?st" "ext_ok gs e others ?t x'" "ext_rest ?t x' = drop n ?c"
    using ext_reader_read_ok [of ?t x gs e others "new_shm_buf_reader b" ?c n] r t c(1) n
    by (auto simp: new_shm_buf_reader_def)
  show ?thesis
    by (rule that [of ?t x' out]) (use x' c n None rd t r in \<open>auto simp: ext_read_def ext_unread_def min_def\<close>)
qed

lemma ext_read_exact_ok:
  "ext_ok gs e others s x \<Longrightarrow> n \<le> length (ext_unread s x) \<Longrightarrow>
    \<exists>s' x'. ext_read_exact wakes s x n = Some (s', x', Inr (take n (ext_unread s x)))
      \<and> ext_ok gs e others s' x' \<and> ext_unread s' x' = drop n (ext_unread s x)"
proof (induction n arbitrary: s x rule: less_induct)
  case (less n)
  show ?case
  proof (cases "n = 0")
    case True
    then show ?thesis using less.prems by (simp add: ext_read_exact.simps)
  next
    case False
    then have "0 < n" "ext_unread s x \<noteq> []" using less.prems(2) by auto
    then obtain s1 x1 out where r: "ext_read (wakes n) s x n = Some (s1, x1, Inr out)" "out \<noteq> []" "length out \<le> n"
      "out = take (length out) (ext_unread s x)" "ext_unread s1 x1 = drop (length out) (ext_unread s x)" "ext_ok gs e others s1 x1"
      by (rule ext_read_ok [OF less.prems(1)])
    have k: "n - length out < n" "n - length out \<le> length (ext_unread s1 x1)" using False r(2,3,5) less.prems(2) by simp_all
    obtain s2 x2 where e: "ext_read_exact wakes s1 x1 (n - length out) = Some (s2, x2, Inr (take (n - length out) (ext_unread s1 x1)))"
      "ext_ok gs e others s2 x2" "ext_unread s2 x2 = drop (n - length out) (ext_unread s1 x1)"
      using less.IH [OF k(1) r(6) k(2)] by auto
    have "take n (ext_unread s x) = out @ take (n - length out) (ext_unread s1 x1)"
      using r(3,4,5) by (metis le_add_diff_inverse take_add)
    then show ?thesis using e r False by (subst ext_read_exact.simps) simp
  qed
qed

text \<open>A pending message is moved by the first call that finds the receive buffer empty.\<close>

lemma ext_read_exact_moves:
  assumes "live s" "map_of (ss_streams s) i = Some st" "si_pending_data (inner s st) = [\<lparr>w_fallback_slice = None, w_offset = off\<rparr>]"
    "move_chain (ss_bm s) (ss_mem s) (recv_buf s st) off = Some (m, rb)" "reader_inv (ss_bm s) gs e m rb others"
    "lb_len (recv_buf s st) = 0" "0 < n" "n \<le> lb_len rb"
  shows "\<exists>s' x'. ext_read_exact wakes s (new_stream_ext st) n = Some (s', x', Inr (take n (content m rb)))
    \<and> ext_ok gs e others s' x' \<and> ext_unread s' x' = drop n (content m rb)"
proof -
  let ?x = "new_stream_ext st"
  obtain v where v: "move_pending_data s st = Some v" "handle_ok v st" "inner v st = (inner s st)\<lparr>si_pending_data := [], si_recv_buf := rb\<rparr>"
    "ss_bm v = ss_bm s" "ss_mem v = m" by (rule move_pending_one [OF assms(1-4)])
  have r: "recv_buf v st = rb" using v(3) by (simp add: recv_buf_def)
  have "read_more w s st 1 = Some (v, Inr ())" for w using v(1,3) assms(7,8) by (simp add: read_more_def)
  then have "stream_read w s st = stream_read w v st" for w
    using assms(6-8) r by (simp add: stream_read_def ensure_then_def)
  then have "ext_read w s ?x n = ext_read w v ?x n" for w using assms(7) by (simp add: ext_read_def new_stream_ext_def)
  then have eq: "ext_read_exact wakes s ?x n = ext_read_exact wakes v ?x n"
    using assms(7) ext_read_exact.simps [of wakes s ?x n] ext_read_exact.simps [of wakes v ?x n] by simp
  have "ext_ok gs e others v ?x" "ext_unread v ?x = content m rb"
    using v r assms(5) by (simp_all add: ext_ok_def ext_unread_def ext_rest_def new_stream_ext_def)
  then show ?thesis using ext_read_exact_ok [of gs e others v ?x n wakes] reader_inv_length [OF assms(5)] assms(8) eq by simp
qed

lemma ext_reads_ok:
  "ext_ok gs e others s x \<Longrightarrow> sum_list ns \<le> length (ext_unread s x) \<Longrightarrow>
    \<exists>s' x'. ext_reads wakes s x ns = Some (s', x', map Inr (chunks ns (ext_unread s x)))
      \<and> ext_unread s' x' = drop (sum_list ns) (ext_unread s x)"
proof (induction ns arbitrary: s x)
  case (Cons n ns)
  obtain s1 x1 where 1: "ext_read_exact (wakes (n # ns)) s x n = Some (s1, x1, Inr (take n (ext_unread s x)))"
    "ext_ok gs e others s1 x1" "ext_unread s1 x1 = drop n (ext_unread s x)"
    using ext_read_exact_ok [OF Cons.prems(1), of n "wakes (n # ns)"] Cons.prems(2) by auto
  moreover have "sum_list ns \<le> length (ext_unread s1 x1)" using 1(3) Cons.prems(2) by simp
  ultimately show ?case using Cons.IH [OF 1(2)] by (auto simp: add.commute)
qed simp

lemma ext_reads_moves:
  assumes "live s" "map_of (ss_streams s) i = Some st" "si_pending_data (inner s st) = [\<lparr>w_fallback_slice = None, w_offset = off\<rparr>]"
    "move_chain (ss_bm s) (ss_mem s) (recv_buf s st) off = Some (m, rb)" "reader_inv (ss_bm s) gs e m rb others"
    "lb_len (recv_buf s st) = 0" "0 < sum_list ns" "sum_list ns \<le> lb_len rb"
  shows "\<exists>s' x'. ext_reads wakes s (new_stream_ext st) ns = Some (s', x', map Inr (chunks ns (content m rb)))
    \<and> ext_unread s' x' = drop (sum_list ns) (content m rb)"
  using assms(7,8)
proof (induction ns)
  case (Cons n ns)
  show ?case
  proof (cases "n = 0")
    case True
    then show ?thesis using Cons by (auto simp: ext_read_exact.simps [of _ _ _ 0])
  next
    case False
    then obtain s1 x1 where 1: "ext_read_exact (wakes (n # ns)) s (new_stream_ext st) n = Some (s1, x1, Inr (take n (content m rb)))"
      "ext_ok gs e others s1 x1" "ext_unread s1 x1 = drop n (content m rb)"
      using ext_read_exact_moves [OF assms(1-6), of n "wakes (n # ns)"] Cons.prems(2) by auto
    moreover have "sum_list ns \<le> length (ext_unread s1 x1)"
      using 1(3) Cons.prems(2) reader_inv_length [OF assms(5)] by simp
    ultimately show ?thesis using ext_reads_ok [OF 1(2), of ns wakes] by (auto simp: add.commute)
  qed
qed simp

section \<open>Writing\<close>

lemma ext_write_all_ok:
  assumes "handle_ok s st" "writer_inv (ss_bm s) gs e (ss_mem s) (send_buf s st) others" "length bs < 4294967296"
    "lb_len (send_buf s st) + length bs < 18446744073709551616"
  obtains s1 where "stream_writes s st [bs] = Some s1" "ext_write_all s (new_stream_ext st) bs = Some (if bs = [] then s else s1, Inr ())"
proof -
  obtain m lb where w: "lb_write_bytes (ss_bm s) (ss_mem s) (send_buf s st) bs = Some (m, lb, Inr (length bs))"
    using lb_write_bytes_ok [OF assms(2-4)] by auto
  have sw: "stream_write_bytes s st bs = Some (with_send s st m lb, Inr (length bs))" using w by (simp add: stream_write_bytes_def)
  have "ext_write_all s (new_stream_ext st) bs = Some (if bs = [] then s else with_send s st m lb, Inr ())"
    using sw by (subst ext_write_all.simps) (simp add: ext_write_def new_stream_ext_def ext_write_all.simps [of _ _ "[]"])
  with sw show ?thesis by (intro that [of "with_send s st m lb"]) simp_all
qed

text \<open>
  Property C18. The byte stream carries the bytes of one side to the other. A program writes a byte string with
  \<open>write_all\<close>, which stays in shared memory, and flushes it; the flush succeeds and posts one polling event. When the peer's
  session has handled that event, a reader gets the bytes in chunks of any sizes: the calls of \<open>read_exact\<close>, one after the other,
  for sizes that together are not more than what was sent, return the consecutive pieces of it, without waiting, however the pieces
  lie in the buffer a call has left half read; and the rest is what later calls get.
\<close>

theorem compact_round_trip:
  assumes "connected gs e others a d c (Suc n) A st B st'" and "lb_len (recv_buf B st') = 0"
    and "bs \<noteq> []" and "length bs < 2 ^ 32" and "lb_len (send_buf A st) + length bs < 2 ^ 64"
    and "ext_write_all A (new_stream_ext st) bs = Some (A1, r1)" and "lb_is_from_shm (send_buf A1 st)" and "\<not> ch_is_full (ss_send A)"
    and "wd_yields wd = [\<lambda>s. s]" and "sent = content (ss_mem A) (send_buf A st) @ bs" and "0 < sum_list ks" and "sum_list ks \<le> length sent"
  shows "r1 = Inr () \<and> (\<exists>A2 r B1. ext_flush others' waits A1 (new_stream_ext st) = Some (A2, Inr ())
    \<and> ch_queue (ss_send A2) = ch_queue (ss_send A) @ [r]
    \<and> handle_events wd (B\<lparr>ss_mem := ss_mem A2, ss_qmem := ss_qmem A2\<rparr>) (sr_hdr r @ sr_body r)
      = Some (B1, \<lparr>er_consumed = kHeaderSize, er_required = kHeaderSize, er_err = None\<rparr>)
    \<and> (\<exists>B2 y. ext_reads wakes B1 (new_stream_ext st') ks = Some (B2, y, map Inr (chunks ks sent))
        \<and> ext_unread B2 y = drop (sum_list ks) sent))"
proof -
  note C = assms(1) [unfolded connected_def]
  have wi: "writer_inv (ss_bm A) gs e (ss_mem A) (send_buf A st) (shm_names gs (all_slices (recv_buf B st')) @ others)" using C by simp
  have bl: "length bs < 4294967296" "lb_len (send_buf A st) + length bs < 18446744073709551616" using assms(4,5) by simp_all
  obtain A1' where w: "stream_writes A st [bs] = Some A1'" "ext_write_all A (new_stream_ext st) bs = Some (A1', Inr ())"
    using ext_write_all_ok [OF _ wi bl] C assms(3) by auto
  then have A1: "A1' = A1" "r1 = Inr ()" using assms(6) by simp_all
  have cb: "content (ss_mem A) (recv_buf B st') = []"
    using C assms(2) reader_inv_length [of "ss_bm B" gs e "ss_mem A" "recv_buf B st'"] by auto
  have pre: "\<forall>bs' \<in> set [bs]. length bs' < 4294967296" "content (ss_mem A) (send_buf A st) @ concat [bs] \<noteq> []"
    "lb_len (recv_buf B st') + lb_len (send_buf A st) + length (concat [bs]) < 18446744073709551616"
    using bl assms(2,3) by simp_all
  obtain A2 off m rb where A2: "flush others' waits A1 st True = Some (A2, Inr ())"
    "move_chain (ss_bm B) (ss_mem A2) (recv_buf B st') off = Some (m, rb)"
    "content m rb = content (ss_mem A) (recv_buf B st') @ content (ss_mem A) (send_buf A st) @ concat [bs]" "reader_inv (ss_bm B) gs e m rb others"
    "queue_inv n a d c (ss_qmem A2)"
    "contents (ss_qmem A2) (queue_layout a d c) = [\<lparr>seq_id = st_id st, offset_in_shm_buf = off, status = kStreamOpened\<rparr>]"
    "ss_send A2 = (ss_send A)\<lparr>ch_queue := ch_queue (ss_send A)
       @ [\<lparr>sr_hdr = [], sr_body = hdr_encode (replicate 8 0) 8 (ss_version A) kPolling, sr_done = length (ss_promises A)\<rparr>]\<rparr>"
    by (rule send_part [OF assms(1) pre w(1) [unfolded A1] assms(7,8), of others' waits True])
  have v: "ss_version A \<noteq> 0" using C by auto
  obtain B1 where B1: "handle_events wd (B\<lparr>ss_mem := ss_mem A2, ss_qmem := ss_qmem A2\<rparr>) (hdr_encode (replicate 8 0) 8 (ss_version A) kPolling)
      = Some (B1, \<lparr>er_consumed = 8, er_required = 8, er_err = None\<rparr>)"
    "live B1" "ss_streams B1 = ss_streams B" "inner B1 st' = (inner B st')\<lparr>si_pending_data := [\<lparr>w_fallback_slice = None, w_offset = off\<rparr>]\<rparr>"
    "ss_bm B1 = ss_bm B" "ss_mem B1 = ss_mem A2" by (rule arrive_part [OF assms(1,9) v A2(5,6)])
  have rB: "recv_buf B1 st' = recv_buf B st'" using B1(4) by (simp add: recv_buf_def)
  have snt: "content m rb = sent" using A2(3) cb assms(10) by simp
  have "\<exists>B2 y. ext_reads wakes B1 (new_stream_ext st') ks = Some (B2, y, map Inr (chunks ks sent))
      \<and> ext_unread B2 y = drop (sum_list ks) sent"
    using ext_reads_moves [OF B1(2), of "st_id st" st' off m rb gs e others ks wakes] B1 A2(2,4) C rB assms(2,11,12) snt reader_inv_length [OF A2(4)]
    by auto
  then show ?thesis using A1(2) A2(1,7) B1(1) by (auto simp: ext_flush_def new_stream_ext_def)
qed

theorem compact_round_trip_witness:
  "\<exists>bm m A1 A2 r B1 B2 y. bm_create sample_pairs ''p'' (\<lambda>_. 0) 1000 0 = (m, Inr bm)
    \<and> ext_write_all (sample_endpoint bm m None) (new_stream_ext sample_stream) [1, 2, 3] = Some (A1, Inr ())
    \<and> ext_flush (\<lambda>s. s) (\<lambda>_ s. s) A1 (new_stream_ext sample_stream) = Some (A2, Inr ()) \<and> ch_queue (ss_send A2) = [r]
    \<and> handle_events \<lparr>wd_others = \<lambda>s. s, wd_yields = [\<lambda>s. s]\<rparr>
        ((sample_endpoint bm m (Some (make_channel 4)))\<lparr>ss_mem := ss_mem A2, ss_qmem := ss_qmem A2\<rparr>) (sr_hdr r @ sr_body r)
      = Some (B1, \<lparr>er_consumed = kHeaderSize, er_required = kHeaderSize, er_err = None\<rparr>)
    \<and> ext_reads (\<lambda>_ _. []) B1 (new_stream_ext sample_stream) [1, 1] = Some (B2, y, [Inr [1], Inr [2]]) \<and> ext_unread B2 y = [3]"
proof -
  let ?gs = "created_specs sample_pairs 1000 0" and ?wd = "\<lparr>wd_others = \<lambda>s. s, wd_yields = [\<lambda>s. s]\<rparr>"
  obtain m bm where b: "bm_create sample_pairs ''p'' (\<lambda>_. 0) 1000 0 = (m, Inr bm)"
    and mg: "managed bm ?gs 1000 m []" and x: "bm_max_slice_size bm = 64" by (rule sample_managed)
  let ?A = "sample_endpoint bm m None" and ?B = "sample_endpoint bm m (Some (make_channel 4))" and ?s = sample_stream
  obtain ma s where a: "alloc_shm_buffer bm m 3 = (ma, Inr s)"
    using alloc_succeeds_iff [OF mg sample_spec0(2), of 3] x by (auto simp: sample_spec0)
  then have "fresh_slice s" "3 \<le> unat (bs_cap s)"
    using src.alloc_one_ok [OF mg a] by (auto simp: grants_def)
  then obtain m1 lb1 k where w: "lb_write_bytes bm m new_linked_buffer [1, 2, 3] = Some (m1, lb1, Inr k)" "lb_is_from_shm lb1"
    using write_one_slice [of bm m "[1, 2, 3]" ma s] a by auto
  have e: "send_buf ?A ?s = new_linked_buffer" "recv_buf ?B ?s = new_linked_buffer"
    by (simp_all add: send_buf_def recv_buf_def) (simp_all add: new_stream_inner_def)
  have c: "connected ?gs 1000 [] X86_64 0 2 (Suc 4) ?A ?s ?B ?s" using sample_connected [OF mg] by simp
  have wi: "writer_inv (ss_bm ?A) ?gs 1000 (ss_mem ?A) (send_buf ?A ?s) []" using new_writer_inv [OF mg] e by simp
  obtain A1 where A1: "stream_writes ?A ?s [[1, 2, 3]] = Some A1" "ext_write_all ?A (new_stream_ext ?s) [1, 2, 3] = Some (A1, Inr ())"
    using ext_write_all_ok [OF _ wi, of "[1, 2, 3]"] e by auto
  have shm: "lb_is_from_shm (send_buf A1 ?s)" using A1(1) w e by (auto simp: stream_write_bytes_def)
  have ch: "\<not> ch_is_full (ss_send ?A)" by (simp add: make_channel_def ch_is_full_def)
  from compact_round_trip [OF c _ _ _ _ A1(2) shm ch, of ?wd "[1, 2, 3]" "[1, 1]" "\<lambda>s. s" "\<lambda>_ s. s" "\<lambda>_ _. []"] e b A1(2)
  show ?thesis by (fastforce simp: make_channel_def)
qed

end
