(* ===== verification/Transport.thy ===== *)
theory Transport
  imports Os_Interface
begin

text \<open>
  \<open>src/transport.cpp\<close> and \<open>include/shmipc/transport.hpp\<close>: addresses, connecting, listening, accepting and the
  ownership of socket descriptors. The answers of the kernel and of the resolver are the fields of a record. Byte order conversions
  are part of the calls that take the converted values.
\<close>

section \<open>Addresses\<close>

record unix_addr =
  ua_path :: string

record tcp_addr =
  ta_host :: string
  ta_port :: u16

text \<open>The size of \<open>sun_path\<close>, with its terminating zero.\<close>

definition sun_path_size :: nat where "sun_path_size = 108"

definition from_pathname :: "string \<Rightarrow> unix_addr result" where
  "from_pathname path =
     (if path = [] then Inl (io_error ''empty unix socket path'')
      else if length path \<ge> sun_path_size then Inl (io_error ''unix socket path too long'')
      else Inr \<lparr>ua_path = path\<rparr>)"

text \<open>\<open>std::stoi\<close>: white space, a sign, then the longest run of digits; \<open>None\<close> where it throws.\<close>

definition isspace :: "char \<Rightarrow> bool" where
  "isspace c \<longleftrightarrow> of_char c = (32 :: nat) \<or> (9 \<le> (of_char c :: nat) \<and> of_char c \<le> (13 :: nat))"

definition isdigit :: "char \<Rightarrow> bool" where
  "isdigit c \<longleftrightarrow> 48 \<le> (of_char c :: nat) \<and> of_char c \<le> (57 :: nat)"

definition digits_value :: "string \<Rightarrow> nat" where
  "digits_value = foldl (\<lambda>a c. 10 * a + (of_char c - 48)) 0"

definition stoi :: "string \<Rightarrow> int option" where
  "stoi s =
     (let t = dropWhile isspace s;
          neg = (case t of c # r \<Rightarrow> c = CHR ''-'' | [] \<Rightarrow> False);
          u = (case t of c # r \<Rightarrow> if c = CHR ''-'' \<or> c = CHR ''+'' then r else t | [] \<Rightarrow> t);
          ds = takeWhile isdigit u;
          v = (if neg then - int (digits_value ds) else int (digits_value ds))
      in if ds = [] \<or> v < - 2147483648 \<or> v > 2147483647 then None else Some v)"

text \<open>The split at the last colon; without a colon or with nothing behind it the address is invalid.\<close>

definition tcp_parse :: "string \<Rightarrow> tcp_addr result" where
  "tcp_parse s =
     (let tail = rev (takeWhile (\<lambda>c. c \<noteq> CHR '':'') (rev s)); rest = dropWhile (\<lambda>c. c \<noteq> CHR '':'') (rev s)
      in if rest = [] \<or> tail = [] then Inl (io_error (''invalid tcp address: '' @ s))
         else
           let host = rev (tl rest);
               host1 = (if length host \<ge> 2 \<and> hd host = CHR ''['' \<and> last host = CHR '']''
                        then take (length host - 2) (drop 1 host) else host)
           in case stoi tail of
                None \<Rightarrow> Inl (io_error (''invalid tcp port in: '' @ s))
              | Some port \<Rightarrow>
                  if port < 0 \<or> port > 65535 then Inl (io_error (''tcp port out of range in: '' @ s))
                  else Inr \<lparr>ta_host = host1, ta_port = of_int port\<rparr>)"

definition tcp_to_string :: "tcp_addr \<Rightarrow> string" where
  "tcp_to_string a = ta_host a @ '':'' @ dec (unat (ta_port a))"

section \<open>Sockets\<close>

record net =
  nt_socket :: int
  nt_connect_unix :: "string \<Rightarrow> bool"
  nt_connect_tcp :: "u32 \<Rightarrow> u16 \<Rightarrow> bool"
  nt_bind_unix :: "string \<Rightarrow> bool"
  nt_bind_tcp :: "u32 \<Rightarrow> u16 \<Rightarrow> bool"
  nt_listen :: bool
  nt_accept :: int
  nt_dup :: int
  nt_inet_pton :: "string \<Rightarrow> u32 option"
  nt_strerror :: string

definition net_errno :: "net \<Rightarrow> error" where
  "net_errno nt = io_error (nt_strerror nt)"

text \<open>A string as the C functions see it.\<close>

definition c_str :: "string \<Rightarrow> string" where
  "c_str = takeWhile (\<lambda>c. c \<noteq> CHR 0x00)"

text \<open>What \<open>strncpy\<close> leaves in \<open>sun_path\<close>.\<close>

definition sun_path :: "unix_addr \<Rightarrow> string" where
  "sun_path a = take (sun_path_size - 1) (c_str (ua_path a))"

definition kLoopback :: u32 where "kLoopback = 0x7F000001"

definition kAny :: u32 where "kAny = 0"

text \<open>The events of a call and the descriptor it hands to its caller.\<close>

definition unix_connect :: "net \<Rightarrow> unix_addr \<Rightarrow> os_event list \<times> int result" where
  "unix_connect nt a =
     (let fd = nt_socket nt in
      if fd < 0 then ([], Inl (net_errno nt))
      else if \<not> nt_connect_unix nt (sun_path a) then ([EvOpen fd, EvClose fd], Inl (net_errno nt))
      else ([EvOpen fd], Inr fd))"

definition tcp_connect :: "net \<Rightarrow> tcp_addr \<Rightarrow> os_event list \<times> int result" where
  "tcp_connect nt a =
     (let fd = nt_socket nt in
      if fd < 0 then ([], Inl (net_errno nt))
      else
        case (case nt_inet_pton nt (c_str (ta_host a)) of
                Some ip \<Rightarrow> Some ip
              | None \<Rightarrow> if ta_host a = ''localhost'' then Some kLoopback else None) of
          None \<Rightarrow> ([EvOpen fd, EvClose fd], Inl (io_error (''invalid ipv4 host: '' @ ta_host a)))
        | Some ip \<Rightarrow>
            if \<not> nt_connect_tcp nt ip (ta_port a) then ([EvOpen fd, EvClose fd], Inl (net_errno nt))
            else ([EvOpen fd], Inr fd))"

definition unix_listen :: "net \<Rightarrow> unix_addr \<Rightarrow> os_event list \<times> int result" where
  "unix_listen nt a =
     (let fd = nt_socket nt in
      if fd < 0 then ([], Inl (net_errno nt))
      else
        let evs = [EvOpen fd, EvUnlink (c_str (ua_path a))]
        in if \<not> nt_bind_unix nt (sun_path a) \<or> \<not> nt_listen nt then (evs @ [EvClose fd], Inl (net_errno nt))
           else (evs, Inr fd))"

definition tcp_listen :: "net \<Rightarrow> tcp_addr \<Rightarrow> os_event list \<times> int result" where
  "tcp_listen nt a =
     (let fd = nt_socket nt in
      if fd < 0 then ([], Inl (net_errno nt))
      else
        case (if ta_host a = [] \<or> ta_host a = ''0.0.0.0'' then Some kAny else nt_inet_pton nt (c_str (ta_host a))) of
          None \<Rightarrow> ([EvOpen fd, EvClose fd], Inl (io_error (''invalid ipv4 host: '' @ ta_host a)))
        | Some ip \<Rightarrow>
            if \<not> nt_bind_tcp nt ip (ta_port a) \<or> \<not> nt_listen nt then ([EvOpen fd, EvClose fd], Inl (net_errno nt))
            else ([EvOpen fd], Inr fd))"

text \<open>\<open>accept\<close> of both listeners.\<close>

definition transport_accept :: "net \<Rightarrow> os_event list \<times> int result" where
  "transport_accept nt =
     (let fd = nt_accept nt in if fd < 0 then ([], Inl (net_errno nt)) else ([EvOpen fd], Inr fd))"

text \<open>The destructors of streams, listeners and halves.\<close>

definition close_owned :: "int \<Rightarrow> os_event list" where
  "close_owned fd = (if fd \<ge> 0 then [EvClose fd] else [])"

definition shutdown_write :: "int \<Rightarrow> os_event list" where
  "shutdown_write fd = (if fd \<ge> 0 then [EvShutdown fd] else [])"

text \<open>The two halves, or none when \<open>dup\<close> fails, and the descriptor the stream still owns.\<close>

definition split_fd :: "net \<Rightarrow> int \<Rightarrow> os_event list \<times> (int \<times> int) option" where
  "split_fd nt fd = (let dup_fd = nt_dup nt in if dup_fd < 0 then ([], None) else ([EvOpen dup_fd], Some (fd, dup_fd)))"

definition into_split :: "net \<Rightarrow> int \<Rightarrow> os_event list \<times> int \<times> (int \<times> int) option" where
  "into_split nt fd = (let (evs, halves) = split_fd nt fd in (evs, - 1, halves))"

section \<open>Parsing what was printed\<close>

lemma of_char_digit [simp]: "k < 10 \<Longrightarrow> of_char (char_of (48 + k)) = (48 + k :: nat)"
  by simp

lemma isdigit_digit [simp]: "k < 10 \<Longrightarrow> isdigit (char_of (48 + k :: nat))"
  by (simp add: isdigit_def)

lemma dec_digits: "list_all isdigit (dec n) \<and> dec n \<noteq> [] \<and> digits_value (dec n) = n"
proof (induction n rule: dec.induct)
  case (1 n)
  then show ?case by (cases "n < 10") (subst (1 2 3) dec.simps, simp add: digits_value_def)+
qed

lemma stoi_dec:
  assumes "n \<le> 2147483647"
  shows "stoi (dec n) = Some (int n)"
proof -
  obtain c r where c: "dec n = c # r" by (cases "dec n") auto
  note d = dec_digits [of n]
  have "48 \<le> (of_char c :: nat)" "of_char c \<le> (57 :: nat)" using d c by (simp_all add: isdigit_def)
  then have n: "\<not> isspace c" "c \<noteq> CHR ''-''" "c \<noteq> CHR ''+''" by (auto simp: isspace_def)
  have t: "takeWhile isdigit r = r" using d c by (simp add: list_all_iff)
  show ?thesis using assms n d unfolding stoi_def c by (simp add: Let_def t)
qed

lemma no_colon_dec: "CHR '':'' \<notin> set (dec n)"
  using dec_digits [of n] by (auto simp: list_all_iff isdigit_def)

text \<open>The split of an address with a printed port.\<close>

lemma split_address:
  shows "rev (takeWhile (\<lambda>c. c \<noteq> CHR '':'') (rev (h @ '':'' @ dec p))) = dec p"
    "dropWhile (\<lambda>c. c \<noteq> CHR '':'') (rev (h @ '':'' @ dec p)) = CHR '':'' # rev h"
proof -
  have a: "c \<noteq> CHR '':''" if "c \<in> set (rev (dec p))" for c using that no_colon_dec [of p] by auto
  have r: "rev (h @ '':'' @ dec p) = rev (dec p) @ CHR '':'' # rev h" by simp
  show "rev (takeWhile (\<lambda>c. c \<noteq> CHR '':'') (rev (h @ '':'' @ dec p))) = dec p"
    unfolding r by (subst takeWhile_append2) (use a in simp_all)
  show "dropWhile (\<lambda>c. c \<noteq> CHR '':'') (rev (h @ '':'' @ dec p)) = CHR '':'' # rev h"
    unfolding r by (subst dropWhile_append2) (use a in simp_all)
qed

lemma tcp_parse_printed:
  "tcp_parse (h @ '':'' @ dec (unat p)) = Inr \<lparr>ta_host =
     (if length h \<ge> 2 \<and> hd h = CHR ''['' \<and> last h = CHR '']'' then take (length h - 2) (drop 1 h) else h), ta_port = p\<rparr>"
proof -
  have l: "unat p < 65536" by (rule unat_u16_less)
  have "stoi (dec (unat p)) = Some (int (unat p))" by (rule stoi_dec) (use l in linarith)
  moreover have "\<not> (int (unat p) < 0 \<or> int (unat p) > 65535)" using l by linarith
  moreover have "word_of_int (int (unat p)) = p" by simp
  ultimately show ?thesis unfolding tcp_parse_def split_address Let_def by (simp del: of_nat_less_0_iff)
qed

section \<open>Properties\<close>

text \<open>What a caller may rely on: one open descriptor, or nothing left open.\<close>

definition hands_over :: "os_event list \<times> int result \<Rightarrow> bool" where
  "hands_over r \<longleftrightarrow> (case snd r of Inr fd \<Rightarrow> opened (fst r) = [fd] \<and> closed (fst r) = [] \<and> 0 \<le> fd | Inl e \<Rightarrow> opened (fst r) = closed (fst r))"

text \<open>
  A TCP address survives printing and parsing: every host that is not in brackets and every port come back,
  and a host in brackets, which may contain colons, loses exactly its brackets.
\<close>

theorem tcp_address_round_trip:
  "(\<not> (hd (ta_host a) = CHR ''['' \<and> last (ta_host a) = CHR '']'' \<and> 2 \<le> length (ta_host a)) \<longrightarrow> tcp_parse (tcp_to_string a) = Inr a)
   \<and> tcp_parse (tcp_to_string \<lparr>ta_host = ''['' @ ta_host a @ '']'', ta_port = ta_port a\<rparr>) = Inr a"
  using tcp_parse_printed [of "ta_host a" "ta_port a"] tcp_parse_printed [of "''['' @ ta_host a @ '']''" "ta_port a"]
  by (auto simp: tcp_to_string_def)

theorem tcp_address_round_trip_witness:
  "tcp_parse (tcp_to_string \<lparr>ta_host = ''::1'', ta_port = 65535\<rparr>) = Inr \<lparr>ta_host = ''::1'', ta_port = 65535\<rparr>"
  using tcp_address_round_trip [of "\<lparr>ta_host = ''::1'', ta_port = 65535\<rparr>"] by simp

text \<open>
  Property C31. No call of the transport loses a descriptor: whoever connects, listens or accepts either gets the one descriptor that was
  opened, still open, or an error, and then everything that was opened has been closed.
\<close>

theorem transport_keeps_descriptors:
  "hands_over (unix_connect nt ua) \<and> hands_over (tcp_connect nt ta) \<and> hands_over (unix_listen nt ua)
   \<and> hands_over (tcp_listen nt ta) \<and> hands_over (transport_accept nt)"
proof (intro conjI)
  show "hands_over (unix_connect nt ua)" "hands_over (unix_listen nt ua)" "hands_over (transport_accept nt)"
    by (simp_all add: hands_over_def unix_connect_def unix_listen_def transport_accept_def Let_def)
  show "hands_over (tcp_connect nt ta)" "hands_over (tcp_listen nt ta)"
    by (simp_all add: hands_over_def tcp_connect_def tcp_listen_def Let_def split: option.split)
qed

end
