(* ===== verification/Session_Manager.thy ===== *)
theory Session_Manager
  imports End_To_End Transport
begin

text \<open>
  \<open>include/shmipc/session_manager.hpp\<close> and \<open>Session::client\<close> of \<open>include/shmipc/session.hpp\<close>: a fixed number of
  client sessions to one server, from which streams are handed out in turn, and the threads that rebuild a session after
  its end. The atomic slots are the entries of a list; the shared registry of buffer managers is threaded through
  the sessions. The unused members \<open>epoch\<close>, \<open>rand_id\<close> and \<open>state\<close> are left out. A stream is always put back to a
  manager whose slot still has the session of the stream.
\<close>

section \<open>Session::client\<close>

text \<open>What a client finds when it connects: the result of \<open>connect\<close>, then what \<open>Session::create\<close> depends on.\<close>

record attempt =
  at_conn :: "unit result"
  at_pid :: nat
  at_host :: host
  at_split :: "unit result"
  at_bmem :: mem
  at_qmem :: mem
  at_debug :: bool

text \<open>The changes to the caller's configuration, which stay when the name is too long.\<close>

definition client_config :: "nat \<Rightarrow> nat \<Rightarrow> u64 \<Rightarrow> u64 \<Rightarrow> config \<Rightarrow> config \<times> unit result" where
  "client_config pid session_id epoch_id rand_id cfg =
     (let cfg1 = cfg\<lparr>share_memory_path_prefix := share_memory_path_prefix cfg @ ''_'' @ dec pid\<rparr>
      in if mem_map_type cfg1 = KDevShmFile
            \<and> length (share_memory_path_prefix cfg1) + kEpochInfoMaxLen + kQueueInfoMaxLen > kFileNameMaxLen
         then (cfg1, Inl (Error KFileNameTooLong))
         else
           let cfg2 = (if epoch_id > 0
                       then cfg1\<lparr>share_memory_path_prefix := share_memory_path_prefix cfg1 @ ''_epoch_'' @ dec (unat epoch_id) @ ''_'' @ dec (unat rand_id)\<rparr>
                       else cfg1);
               cfg3 = (if share_memory_path_prefix cfg2 \<noteq> []
                       then cfg2\<lparr>queue_path := share_memory_path_prefix cfg2 @ ''_queue_'' @ dec session_id\<rparr>
                       else cfg2)
           in (cfg3, Inr ()))"

definition session_client ::
  "attempt \<Rightarrow> nat \<Rightarrow> u64 \<Rightarrow> u64 \<Rightarrow> session_manager_config \<Rightarrow> (session_manager_config \<times> session result) io" where
  "session_client a session_id epoch_id rand_id sm_config =
     (case at_conn a of
        Inl e \<Rightarrow> Ret (sm_config, Inl e)
      | Inr _ \<Rightarrow>
          (let (cfg, r) = client_config (at_pid a) session_id epoch_id rand_id (smc_config sm_config);
               sm_config1 = sm_config\<lparr>smc_config := cfg\<rparr>
           in case r of
                Inl e \<Rightarrow> Ret (sm_config1, Inl e)
              | Inr _ \<Rightarrow>
                  bind_io (session_create (at_host a) cfg (at_split a) None (at_bmem a) (at_qmem a) (at_debug a))
                    (\<lambda>s. Ret (sm_config1, s))))"

section \<open>SessionManager\<close>

definition kSessionRoundRobinThreshold :: nat where "kSessionRoundRobinThreshold = 32"

text \<open>Where a rebuild thread is: waiting for the end of its session, in the retry loop, or gone.\<close>

datatype rebuild_phase = Watching | Retrying | Returned

record session_manager =
  sm_smc :: session_manager_config
  sm_sessions :: "session list"
  sm_count :: u64
  sm_shutdown_event :: bool
  sm_registry :: registry
  sm_rebuild :: "rebuild_phase list"

text \<open>The loop of \<open>create\<close> over the sessions from \<open>i\<close> on; \<open>as\<close> is what each of them finds.\<close>

primrec create_sessions ::
  "(nat \<Rightarrow> attempt) \<Rightarrow> nat \<Rightarrow> nat \<Rightarrow> session_manager_config \<Rightarrow> registry \<Rightarrow> session list
   \<Rightarrow> (session_manager_config \<times> registry \<times> session list) result io" where
  "create_sessions as 0 i sm_config reg ss = Ret (Inr (sm_config, reg, ss))"
| "create_sessions as (Suc n) i sm_config reg ss =
     bind_io (session_client ((as i)\<lparr>at_host := (at_host (as i))\<lparr>h_registry := reg\<rparr>\<rparr>) i 0 0 sm_config)
       (\<lambda>(sm_config1, r). case r of
            Inl e \<Rightarrow> Ret (Inl e)
          | Inr s \<Rightarrow> create_sessions as n (Suc i) sm_config1 (ss_registry s) (ss @ [s]))"

definition manager_create :: "(nat \<Rightarrow> attempt) \<Rightarrow> session_manager_config \<Rightarrow> registry \<Rightarrow> session_manager result io" where
  "manager_create as sm_config reg =
     try_io (create_sessions as (session_num sm_config) 0 sm_config reg [])
       (\<lambda>(sm_config1, reg1, ss). Ret (Inr
          \<lparr>sm_smc = sm_config1, sm_sessions = ss, sm_count = 0, sm_shutdown_event = False, sm_registry = reg1,
           sm_rebuild = replicate (session_num sm_config) Watching\<rparr>))"

definition manager_slot :: "session_manager \<Rightarrow> nat" where
  "manager_slot m = unat (sm_count m + 1) div kSessionRoundRobinThreshold mod length (sm_sessions m)"

definition manager_get_stream :: "session_manager \<Rightarrow> session_manager \<times> stream result" where
  "manager_get_stream m =
     (if sm_sessions m = [] then (m, Inl (Error KSessionUnhealthy))
      else
        let i = manager_slot m;
            (s, r) = get_or_open_stream (sm_sessions m ! i) i
        in (m\<lparr>sm_count := sm_count m + 1, sm_sessions := (sm_sessions m)[i := s]\<rparr>, r))"

definition put_back :: "others \<Rightarrow> session_manager \<Rightarrow> stream \<Rightarrow> session_manager option" where
  "put_back others m st =
     (let i = st_session_id st
      in if i \<ge> length (sm_sessions m) then None
         else map_option (\<lambda>s. m\<lparr>sm_sessions := (sm_sessions m)[i := s]\<rparr>)
                (put_or_close_stream others (sm_sessions m ! i) st))"

text \<open>Closing all sessions, each with the registry as the sessions before it left it.\<close>

fun close_sessions :: "others \<Rightarrow> registry \<Rightarrow> session list \<Rightarrow> (registry \<times> session list) option" where
  "close_sessions others reg [] = Some (reg, [])"
| "close_sessions others reg (s # ss) =
     (case session_close others (s\<lparr>ss_registry := reg\<rparr>) of
        None \<Rightarrow> None
      | Some t \<Rightarrow> map_option (\<lambda>(reg1, ts). (reg1, t # ts)) (close_sessions others (ss_registry t) ss))"

text \<open>One round of the wait in \<open>rebuild_session\<close>, at most 200 ms, and the test behind it.\<close>

definition rebuild_watch :: "session_manager \<Rightarrow> nat \<Rightarrow> rebuild_phase" where
  "rebuild_watch m i =
     (if sm_shutdown_event m then Returned
      else if ss_shutdown_event (sm_sessions m ! i) then Retrying
      else Watching)"

text \<open>One round of the retry loop, on a copy of the manager's configuration; the registry it finds is that of the attempt.\<close>

definition rebuild_try :: "attempt \<Rightarrow> session_manager \<Rightarrow> nat \<Rightarrow> (session_manager \<times> rebuild_phase) io" where
  "rebuild_try a m i =
     bind_io (session_client a i 0 0 (sm_smc m))
       (\<lambda>(_, r). case r of
            Inl e \<Rightarrow> Ret (m, Retrying)
          | Inr s \<Rightarrow> Ret (m\<lparr>sm_sessions := (sm_sessions m)[i := s], sm_registry := ss_registry s\<rparr>, Watching))"

text \<open>
  The rebuild thread of slot \<open>i\<close> from a phase on; \<open>as\<close> is what its next attempts find. The phase in the result
  says how far it has come: it has returned, it waits for an event, or it is about to try again.
\<close>

function rebuild_session :: "attempt list \<Rightarrow> session_manager \<Rightarrow> nat \<Rightarrow> rebuild_phase \<Rightarrow> (session_manager \<times> rebuild_phase) io" where
  "rebuild_session as m i Returned = Ret (m, Returned)"
| "rebuild_session as m i Watching =
     (case rebuild_watch m i of
        Returned \<Rightarrow> Ret (m, Returned)
      | Retrying \<Rightarrow> rebuild_session as m i Retrying
      | Watching \<Rightarrow> Ret (m, Watching))"
| "rebuild_session [] m i Retrying = Ret (m, Retrying)"
| "rebuild_session (a # as) m i Retrying = bind_io (rebuild_try a m i) (\<lambda>(m1, phase). rebuild_session as m1 i phase)"
  by pat_completeness auto
termination
  by (relation "measure (\<lambda>(as, m, i, phase). 2 * length as + (if phase = Watching then 1 else 0))") auto

text \<open>\<open>close\<close> up to the joining of the threads, each of which then runs \<open>rebuild_session\<close> to its end.\<close>

definition manager_close :: "others \<Rightarrow> session_manager \<Rightarrow> session_manager option" where
  "manager_close others m =
     map_option (\<lambda>(reg, ss). m\<lparr>sm_shutdown_event := True, sm_registry := reg, sm_sessions := ss\<rparr>)
       (close_sessions others (sm_registry m) (sm_sessions m))"

section \<open>Creating a manager\<close>

text \<open>All values a program can return, whatever the other side answers.\<close>

primrec io_all :: "('a \<Rightarrow> bool) \<Rightarrow> 'a io \<Rightarrow> bool" where
  "io_all P (Ret x) = P x"
| "io_all P Undef = True"
| "io_all P (RecvBytes n k) = (\<forall>r. io_all P (k r))"
| "io_all P (SendBytes bs k) = (\<forall>r. io_all P (k r))"
| "io_all P (SockType k) = (\<forall>r. io_all P (k r))"
| "io_all P (SendMsg n fds k) = (\<forall>r. io_all P (k r))"
| "io_all P (RecvMsg n k) = (\<forall>r. io_all P (k r))"
| "io_all P (Effect evs p) = io_all P p"

lemma io_all_bind [simp]: "io_all P (bind_io p f) = io_all (\<lambda>x. io_all P (f x)) p"
  by (induction p) simp_all

lemma io_all_mono: "io_all P p \<Longrightarrow> (\<And>x. P x \<Longrightarrow> Q x) \<Longrightarrow> io_all Q p"
  by (induction p) auto

lemma io_all_always [simp, intro]: "(\<And>x. P x) \<Longrightarrow> io_all P p"
  by (induction p) simp_all

text \<open>
  The value a program returns against a peer that answers its reads with the given byte strings, one after the other,
  while everything else succeeds on a stream socket.
\<close>

primrec answered :: "'a io \<Rightarrow> bytes list \<Rightarrow> ('a \<times> bytes list) option" where
  "answered (Ret x) bss = Some (x, bss)"
| "answered Undef bss = None"
| "answered (RecvBytes n k) bss = (case bss of [] \<Rightarrow> None | bs # bss' \<Rightarrow> if length bs = n then answered (k (Inr bs)) bss' else None)"
| "answered (SendBytes bs k) bss = answered (k (Inr ())) bss"
| "answered (SockType k) bss = answered (k (Inr False)) bss"
| "answered (SendMsg n fds k) bss = answered (k (Inr ())) bss"
| "answered (RecvMsg n k) bss = None"
| "answered (Effect evs p) bss = answered p bss"

lemma answered_bind:
  "answered (bind_io p f) bss = (case answered p bss of None \<Rightarrow> None | Some (x, bss') \<Rightarrow> answered (f x) bss')"
  by (induction p arbitrary: bss) (auto split: list.split)

lemma answered_all: "answered p bss = Some (x, bss') \<Longrightarrow> io_all P p \<Longrightarrow> P x"
proof (induction p arbitrary: bss)
  case (RecvBytes n k)
  then obtain bs cs where "answered (k (Inr bs)) cs = Some (x, bss')" by (auto split: list.splits if_splits)
  then show ?case using RecvBytes.IH [of "k (Inr bs)" cs] RecvBytes.prems(2) by simp
qed auto

text \<open>A created session has the paths it was given and no stream.\<close>

definition starts_with_paths :: "config \<Rightarrow> session result \<Rightarrow> bool" where
  "starts_with_paths cfg r \<longleftrightarrow> (case r of Inl e \<Rightarrow> True
     | Inr s \<Rightarrow> queue_path (ss_config s) = queue_path cfg \<and> share_memory_path_prefix (ss_config s) = share_memory_path_prefix cfg
          \<and> ss_pool s = [] \<and> ss_streams s = [] \<and> is_healthy s \<and> \<not> is_closed s)"

lemma starts_new_session:
  "queue_path c = queue_path cfg \<Longrightarrow> share_memory_path_prefix c = share_memory_path_prefix cfg
   \<Longrightarrow> starts_with_paths cfg (Inr (new_session c bm bmem qm qmem v tx d reg))"
  by (simp add: starts_with_paths_def new_session_def is_healthy_def is_closed_def Let_def)

lemma init_manager_paths:
  assumes "init_manager a os reg c bmem qmem = (evs, reg1, c1, bmem1, qmem1, r)"
  shows "queue_path c1 = queue_path c" "share_memory_path_prefix c1 = share_memory_path_prefix c"
  using assms by (auto simp: init_manager_def Let_def split: if_splits prod.splits sum.splits)

lemma verify_paths:
  assumes "verify c = (c1, Inr u)"
  shows "queue_path c1 = queue_path c" "share_memory_path_prefix c1 = share_memory_path_prefix c"
  using assms verify_Inr_iff [of c c1] by (simp_all add: verify_aligned_def)

lemma session_create_paths: "io_all (starts_with_paths cfg) (session_create hs cfg split None bmem qmem debug)"
proof (cases "verify cfg")
  case (Pair c r)
  have p: "queue_path c1 = queue_path cfg" "share_memory_path_prefix c1 = share_memory_path_prefix cfg"
    if "r = Inr u" "init_manager (h_arch hs) (h_os hs) (h_registry hs) c bmem qmem = (evs, reg1, c1, bmem1, qmem1, x)"
    for u evs reg1 c1 bmem1 qmem1 x
    using that Pair init_manager_paths [OF that(2)] verify_paths [of cfg c u] by simp_all
  show ?thesis
    unfolding session_create_def Pair
    by (auto simp: starts_with_paths_def [of _ "Inl _"] try_io_def p intro!: starts_new_session
        split: sum.split prod.split)
qed

text \<open>What \<open>k\<close> calls of \<open>Session::client\<close> append to the prefix, and the names of the queues.\<close>

definition pid_tags :: "nat \<Rightarrow> nat \<Rightarrow> string" where
  "pid_tags pid k = concat (replicate k (''_'' @ dec pid))"

definition queue_name :: "string \<Rightarrow> nat \<Rightarrow> nat \<Rightarrow> string" where
  "queue_name base pid i = base @ pid_tags pid (Suc i) @ ''_queue_'' @ dec i"

definition name_fits :: "config \<Rightarrow> bool" where
  "name_fits c \<longleftrightarrow> (mem_map_type c = KDevShmFile \<longrightarrow> length (share_memory_path_prefix c) + 75 \<le> 255)"

lemma pid_tags_Suc: "pid_tags pid (Suc k) = ''_'' @ dec pid @ pid_tags pid k"
  by (simp add: pid_tags_def)

lemma pid_tags_snoc: "pid_tags pid (Suc k) = pid_tags pid k @ ''_'' @ dec pid"
  by (induction k) (simp_all add: pid_tags_def)

lemma length_pid_tags: "length (pid_tags pid k) = k * Suc (length (dec pid))"
  by (simp add: pid_tags_def length_concat sum_list_replicate)

lemma client_config_ok:
  assumes "client_config pid i 0 0 c = (c1, Inr u)"
  shows "share_memory_path_prefix c1 = share_memory_path_prefix c @ ''_'' @ dec pid"
    "queue_path c1 = share_memory_path_prefix c @ ''_'' @ dec pid @ ''_queue_'' @ dec i"
    "mem_map_type c1 = mem_map_type c" "name_fits c1"
  using assms by (auto simp: client_config_def name_fits_def kFileNameMaxLen_def kEpochInfoMaxLen_def kQueueInfoMaxLen_def
      Let_def split: if_splits)

text \<open>What a successful client leaves, from a configuration \<open>c\<close>.\<close>

definition client_result :: "nat \<Rightarrow> nat \<Rightarrow> session_manager_config \<Rightarrow> session_manager_config \<times> session result \<Rightarrow> bool" where
  "client_result pid i smc = (\<lambda>(smc1, r). case r of Inl e \<Rightarrow> True
     | Inr s \<Rightarrow> client_config pid i 0 0 (smc_config smc) = (smc_config smc1, Inr ())
         \<and> session_num smc1 = session_num smc \<and> starts_with_paths (smc_config smc1) r)"

lemma session_client_result: "io_all (client_result (at_pid a) i smc) (session_client a i 0 0 smc)"
proof (cases "client_config (at_pid a) i 0 0 (smc_config smc)")
  case (Pair cfg r)
  show ?thesis
    unfolding session_client_def Pair client_result_def
    by (cases "at_conn a"; cases r)
      (auto simp: Let_def split: sum.split intro!: io_all_mono [OF session_create_paths])
qed

text \<open>The state of \<open>create\<close> after \<open>n\<close> sessions, of which the first has number \<open>i\<close>.\<close>

definition created :: "nat \<Rightarrow> nat \<Rightarrow> nat \<Rightarrow> config \<Rightarrow> session list \<Rightarrow> config \<Rightarrow> session list \<Rightarrow> bool" where
  "created pid n i c ss c1 ss1 \<longleftrightarrow>
     share_memory_path_prefix c1 = share_memory_path_prefix c @ pid_tags pid n
     \<and> mem_map_type c1 = mem_map_type c \<and> (0 < n \<longrightarrow> name_fits c1)
     \<and> map (queue_path \<circ> ss_config) ss1 = map (queue_path \<circ> ss_config) ss
         @ map (\<lambda>k. share_memory_path_prefix c @ pid_tags pid (Suc k) @ ''_queue_'' @ dec (i + k)) [0..<n]
     \<and> (\<forall>s \<in> set ss1. s \<in> set ss \<or> ss_pool s = [] \<and> ss_streams s = [] \<and> is_healthy s \<and> \<not> is_closed s)"

lemma created_Suc:
  assumes "created pid n (Suc i) c1 (ss @ [s]) c2 ss2" "client_config pid i 0 0 c = (c1, Inr ())"
    "starts_with_paths c1 (Inr s)"
  shows "created pid (Suc n) i c ss c2 ss2"
proof -
  note c = client_config_ok [OF assms(2)]
  note d = assms(1) [unfolded created_def]
  have u: "[0..<Suc n] = 0 # map Suc [0..<n]" by (simp add: upt_conv_Cons map_Suc_upt del: upt_Suc)
  have s: "queue_path (ss_config s) = queue_path c1" "ss_pool s = [] \<and> ss_streams s = [] \<and> is_healthy s \<and> \<not> is_closed s"
    using assms(3) by (simp_all add: starts_with_paths_def)
  have q: "share_memory_path_prefix c1 @ pid_tags pid (Suc k) @ ''_queue_'' @ dec (Suc i + k)
      = share_memory_path_prefix c @ pid_tags pid (Suc (Suc k)) @ ''_queue_'' @ dec (i + Suc k)" for k
    by (simp add: c(1) pid_tags_Suc [of pid "Suc k"])
  show ?thesis
    unfolding created_def
  proof (intro conjI)
    show "share_memory_path_prefix c2 = share_memory_path_prefix c @ pid_tags pid (Suc n)"
      using d by (simp add: c(1) pid_tags_Suc)
    show "mem_map_type c2 = mem_map_type c" using d c(3) by simp
    show "0 < Suc n \<longrightarrow> name_fits c2"
      using d c(4) by (cases n) (auto simp: name_fits_def pid_tags_def)
    have "queue_path (ss_config s) = share_memory_path_prefix c @ pid_tags pid (Suc 0) @ ''_queue_'' @ dec (i + 0)"
      by (simp add: s(1) c(2) pid_tags_def)
    then show "map (queue_path \<circ> ss_config) ss2 = map (queue_path \<circ> ss_config) ss
        @ map (\<lambda>k. share_memory_path_prefix c @ pid_tags pid (Suc k) @ ''_queue_'' @ dec (i + k)) [0..<Suc n]"
      using d unfolding u q by (simp add: comp_def)
    show "\<forall>s \<in> set ss2. s \<in> set ss \<or> ss_pool s = [] \<and> ss_streams s = [] \<and> is_healthy s \<and> \<not> is_closed s"
      using d s(2) by fastforce
  qed
qed

lemma create_sessions_created:
  assumes "\<forall>k. at_pid (as k) = pid"
  shows "io_all (\<lambda>r. case r of Inl e \<Rightarrow> True
     | Inr (smc1, reg1, ss1) \<Rightarrow> created pid n i (smc_config smc) ss (smc_config smc1) ss1)
     (create_sessions as n i smc reg ss)"
proof (induction n arbitrary: i smc reg ss)
  case 0
  show ?case by (simp add: created_def pid_tags_def)
next
  case (Suc n)
  have "io_all (client_result pid i smc) (session_client ((as i)\<lparr>at_host := (at_host (as i))\<lparr>h_registry := reg\<rparr>\<rparr>) i 0 0 smc)"
    using session_client_result [of "(as i)\<lparr>at_host := (at_host (as i))\<lparr>h_registry := reg\<rparr>\<rparr>" i smc] assms by simp
  then show ?case
    unfolding create_sessions.simps io_all_bind
  proof (rule io_all_mono)
    fix x :: "session_manager_config \<times> session result"
    assume x: "client_result pid i smc x"
    show "io_all (\<lambda>r. case r of Inl e \<Rightarrow> True
       | Inr (smc1, reg1, ss1) \<Rightarrow> created pid (Suc n) i (smc_config smc) ss (smc_config smc1) ss1)
       (case x of (smc1, r) \<Rightarrow> case r of Inl e \<Rightarrow> Ret (Inl e)
          | Inr s \<Rightarrow> create_sessions as n (Suc i) smc1 (ss_registry s) (ss @ [s]))"
      using x by (cases x; cases "snd x")
        (auto simp: client_result_def split: sum.splits intro!: io_all_mono [OF Suc.IH] elim!: created_Suc)
  qed
qed

text \<open>A queue name ends with the number of its session.\<close>

lemma digits_at_end: "takeWhile isdigit (rev (x @ ''_queue_'' @ dec n)) = rev (dec n)"
proof -
  have r: "rev (x @ ''_queue_'' @ dec n) = rev (dec n) @ CHR ''_'' # rev (x @ ''_queue'')" by simp
  have "isdigit c" if "c \<in> set (rev (dec n))" for c using that dec_digits [of n] by (simp add: list_all_iff)
  then show ?thesis unfolding r by (subst takeWhile_append2) (auto simp: isdigit_def)
qed

lemma queue_name_inject: "queue_name base pid i = queue_name base pid j \<longleftrightarrow> i = j"
proof
  assume "queue_name base pid i = queue_name base pid j"
  then have "takeWhile isdigit (rev (queue_name base pid i)) = takeWhile isdigit (rev (queue_name base pid j))" by simp
  then have "rev (dec i) = rev (dec j)"
    using digits_at_end [of "base @ pid_tags pid (Suc i)" i] digits_at_end [of "base @ pid_tags pid (Suc j)" j]
    unfolding queue_name_def append_assoc by simp
  then show "i = j" by (simp add: dec_inject)
qed simp

lemma created_names:
  assumes "created pid n 0 c [] c1 ss"
  shows "map (queue_path \<circ> ss_config) ss = map (queue_name (share_memory_path_prefix c) pid) [0 ..< n]"
    "distinct (map (queue_path \<circ> ss_config) ss)" "length ss = n"
    "\<forall>s \<in> set ss. ss_pool s = [] \<and> ss_streams s = [] \<and> is_healthy s \<and> \<not> is_closed s"
    "mem_map_type c = KDevShmFile \<and> 0 < n \<longrightarrow> length (share_memory_path_prefix c) + n * Suc (length (dec pid)) \<le> 180"
proof -
  note d = assms [unfolded created_def]
  have "(\<lambda>k. share_memory_path_prefix c @ pid_tags pid (Suc k) @ ''_queue_'' @ dec (0 + k)) = queue_name (share_memory_path_prefix c) pid"
    by (simp add: queue_name_def fun_eq_iff)
  then show n: "map (queue_path \<circ> ss_config) ss = map (queue_name (share_memory_path_prefix c) pid) [0 ..< n]"
    using d by simp
  show "distinct (map (queue_path \<circ> ss_config) ss)"
    unfolding n by (simp add: distinct_map inj_on_def queue_name_inject)
  show "length ss = n" using arg_cong [OF n, of length] by simp
  show "\<forall>s \<in> set ss. ss_pool s = [] \<and> ss_streams s = [] \<and> is_healthy s \<and> \<not> is_closed s" using d by simp
  show "mem_map_type c = KDevShmFile \<and> 0 < n \<longrightarrow> length (share_memory_path_prefix c) + n * Suc (length (dec pid)) \<le> 180"
    using d by (auto simp: name_fits_def length_pid_tags)
qed

section \<open>A client that finds its server\<close>

text \<open>A kernel with room for the mappings, and the three answers of a server of version 3.\<close>

definition roomy_os :: "os \<Rightarrow> bool" where
  "roomy_os os \<longleftrightarrow> (\<forall>name. 0 \<le> os_memfd_create os name) \<and> (\<forall>fd n. os_ftruncate os fd n = 0) \<and> (\<forall>fd n. os_mmap_ok os fd n)"

definition server_answers :: "bytes list" where
  "server_answers = [header_event 3 kExchangeProtoVersion, header_event 3 kAckReadyRecvFd, header_event 3 kAckShareMemory]"

definition default_config_at :: "string \<Rightarrow> string \<Rightarrow> config" where
  "default_config_at pre qp = default_config\<lparr>share_memory_path_prefix := pre, queue_path := qp\<rparr>"

lemma client_protocol_answered:
  "answered (init_client_protocol hs bp bfd qp qfd KMemFd) (server_answers @ rest) = Some (Inr 3, rest)"
  by (simp add: server_answers_def init_client_protocol_def try_io_def client_get_initializer_def block_read_event_header_def
      wait_event_header_def kHeaderSize_def v3_client_init_def send_memfd_to_peer_def send_fd_def
      event_type_consts kMaxSupportProtoVersion_def Let_def)

lemma default_creatable: "creatable (sort_pairs (buffer_slice_sizes default_config)) 33554432 0"
  by (simp add: default_config_def sort_pairs_def creatable_def region_of_def bnum_def percents_def)

lemma default_verified:
  assumes "pre \<noteq> []" "qp \<noteq> []"
  shows "verify (default_config_at pre qp) = (default_config_at pre qp, Inr ())"
  using assms
  by (simp add: verify_Inr_iff verify_accepts_def verify_aligned_def align_pair_def default_config_at_def default_config_def
      align4_def align8_def)

lemma default_init_manager:
  assumes "roomy_os os"
  obtains evs reg1 c1 bmem1 qmem1 bm qm where
    "init_manager a os reg (default_config_at pre qp) bmem qmem = (evs, reg1, c1, bmem1, qmem1, Inr (bm, qm))" "mem_map_type c1 = KMemFd"
proof -
  let ?c = "default_config_at pre qp" and ?bp = "pre @ kBufferPathSuffix"
  have d: "mem_map_type ?c = KMemFd" "share_memory_path_prefix ?c = pre" "queue_path ?c = qp" "share_memory_buffer_cap ?c = 33554432"
    "buffer_slice_sizes ?c = buffer_slice_sizes default_config"
    by (simp_all add: default_config_at_def default_config_def)
  obtain m1 bm1 where c: "bm_create (sort_pairs (buffer_slice_sizes default_config)) ?bp bmem 33554432 0 = (m1, Inr bm1)"
    using bm_create_shape [OF default_creatable, of ?bp bmem] by blast
  have f: "\<not> os_memfd_create os n < 0" "os_ftruncate os fd k = 0" "os_mmap_ok os fd k" for n fd k
    using assms by (auto simp: roomy_os_def not_less)
  obtain e1 r1 ps b1 bm where g: "get_with_memfd os reg ?bp 0 33554432 True (buffer_slice_sizes default_config) bmem = (e1, r1, ps, b1, Inr bm)"
    using c f by (cases "reg ?bp") (auto simp: get_with_memfd_def memfd_source_def create_or_map_def Let_def)
  obtain q1 qm where "qm_create a qmem (count_queue_mem_size (queue_cap ?c) * kQueueCount) (queue_cap ?c) qp KMemFd
      (os_memfd_create os (''shmipc'' @ qp)) = (q1, qm)" by fastforce
  then obtain e2 where q: "create_with_memfd a os qp (queue_cap ?c) qmem = (e2, q1, Inr qm)"
    using f by (simp add: create_with_memfd_def Let_def)
  show thesis
    by (rule that [of "e1 @ e2" r1 "?c\<lparr>buffer_slice_sizes := ps\<rparr>" b1 q1 bm qm])
      (use g q d in \<open>simp_all add: init_manager_def Let_def\<close>)
qed

lemma default_client:
  assumes "at_conn a = Inr ()" "at_split a = Inr ()" "roomy_os (h_os (at_host a))" "smc_config smc = default_config_at pre qp"
  obtains pre' qp' s where
    "answered (session_client a i 0 0 smc) (server_answers @ rest) = Some ((smc\<lparr>smc_config := default_config_at pre' qp'\<rparr>, Inr s), rest)"
proof -
  define pre' where "pre' = pre @ ''_'' @ dec (at_pid a)"
  define qp' where "qp' = pre' @ ''_queue_'' @ dec i"
  have c: "client_config (at_pid a) i 0 0 (default_config_at pre qp) = (default_config_at pre' qp', Inr ())"
    by (simp add: client_config_def default_config_at_def default_config_def pre'_def qp'_def Let_def)
  have v: "verify (default_config_at pre' qp') = (default_config_at pre' qp', Inr ())"
    by (rule default_verified) (simp_all add: pre'_def qp'_def)
  obtain evs reg1 c1 bmem1 qmem1 bm qm where i: "init_manager (h_arch (at_host a)) (h_os (at_host a)) (h_registry (at_host a))
      (default_config_at pre' qp') (at_bmem a) (at_qmem a) = (evs, reg1, c1, bmem1, qmem1, Inr (bm, qm))" "mem_map_type c1 = KMemFd"
    by (rule default_init_manager [OF assms(3)])
  show thesis
    by (rule that [of pre' qp' "new_session c1 bm bmem1 qm qmem1 3 None (at_debug a) reg1"])
      (simp add: session_client_def assms(1,2,4) c v i session_create_def try_io_def answered_bind client_protocol_answered)
qed

lemma default_sessions:
  assumes "\<And>k. at_conn (as k) = Inr () \<and> at_split (as k) = Inr () \<and> roomy_os (h_os (at_host (as k)))"
  shows "smc_config smc = default_config_at pre qp \<Longrightarrow>
    \<exists>x. answered (create_sessions as n i smc reg ss) (concat (replicate n server_answers)) = Some (Inr x, [])"
proof (induction n arbitrary: i smc reg ss pre qp)
  case (Suc n)
  let ?a = "(as i)\<lparr>at_host := (at_host (as i))\<lparr>h_registry := reg\<rparr>\<rparr>"
  have "at_conn ?a = Inr ()" "at_split ?a = Inr ()" "roomy_os (h_os (at_host ?a))" using assms by simp_all
  then obtain pre' qp' s where "answered (session_client ?a i 0 0 smc) (server_answers @ concat (replicate n server_answers))
      = Some ((smc\<lparr>smc_config := default_config_at pre' qp'\<rparr>, Inr s), concat (replicate n server_answers))"
    by (rule default_client [OF _ _ _ Suc.prems])
  then show ?case using Suc.IH [of "smc\<lparr>smc_config := default_config_at pre' qp'\<rparr>" pre' qp'] by (simp add: answered_bind)
qed simp

lemma default_manager:
  assumes "\<And>k. at_conn (as k) = Inr () \<and> at_split (as k) = Inr () \<and> roomy_os (h_os (at_host (as k)))"
    "smc_config smc = default_config_at pre qp"
  obtains m where "answered (manager_create as smc reg) (concat (replicate (session_num smc) server_answers)) = Some (Inr m, [])"
proof -
  obtain x where "answered (create_sessions as (session_num smc) 0 smc reg []) (concat (replicate (session_num smc) server_answers)) = Some (Inr x, [])"
    using default_sessions [where as = as and smc = smc and n = "session_num smc" and i = 0 and reg = reg and ss = "[]"] assms by blast
  then show thesis using that by (cases x) (simp add: manager_create_def try_io_def answered_bind)
qed

section \<open>Taking turns\<close>

text \<open>The slots that the next \<open>k\<close> calls of \<open>get_stream\<close> use.\<close>

primrec next_slots :: "session_manager \<Rightarrow> nat \<Rightarrow> nat list" where
  "next_slots m 0 = []"
| "next_slots m (Suc k) = manager_slot m # next_slots (fst (manager_get_stream m)) k"

lemma manager_get_stream_simps [simp]:
  assumes "sm_sessions m \<noteq> []"
  shows "sm_count (fst (manager_get_stream m)) = sm_count m + 1"
    "length (sm_sessions (fst (manager_get_stream m))) = length (sm_sessions m)"
  using assms by (simp_all add: manager_get_stream_def Let_def split_def)

lemma next_slots_eq:
  assumes "sm_sessions m \<noteq> []" "unat (sm_count m) + k < 18446744073709551616"
  shows "next_slots m k = map (\<lambda>t. t div 32 mod length (sm_sessions m)) [unat (sm_count m) + 1 ..< unat (sm_count m) + 1 + k]"
  using assms
proof (induction k arbitrary: m)
  case (Suc k)
  let ?m = "fst (manager_get_stream m)"
  have n: "unat (sm_count m + 1) = unat (sm_count m) + 1"
    using Suc.prems(2) by (simp add: unat_word_ariths(1))
  have "sm_sessions ?m \<noteq> []" using Suc.prems(1) manager_get_stream_simps(2) [of m] by (metis length_0_conv)
  then show ?case
    using Suc.IH [of ?m] Suc.prems n
    by (simp add: manager_slot_def kSessionRoundRobinThreshold_def upt_conv_Cons del: upt_Suc)
qed simp

lemma window_shift:
  assumes "\<And>x. f (x + p) = f x"
  shows "count_list (map f [a ..< a + p]) j = count_list (map f [0 ..< p]) j"
proof (induction a)
  case (Suc a)
  show ?case
  proof (cases p)
    case (Suc q)
    have "[a ..< a + p] = a # [Suc a ..< a + p]" "[Suc a ..< Suc a + p] = [Suc a ..< a + p] @ [a + p]"
      using Suc by (simp_all add: upt_conv_Cons)
    then show ?thesis using Suc.IH assms [of a] by (simp split: if_splits)
  qed simp
qed simp

lemma turns_of_slot:
  assumes "j < n"
  shows "count_list (map (\<lambda>t. t div 32 mod n) [a ..< a + 32 * n]) j = 32"
proof -
  have p: "(x + 32 * n) div 32 mod n = x div 32 mod n" for x :: nat by simp
  have "{t. t < 32 * n \<and> t div 32 mod n = j} = {32 * j ..< 32 * j + 32}"
  proof (intro set_eqI iffI)
    fix t assume "t \<in> {t. t < 32 * n \<and> t div 32 mod n = j}"
    then have t: "t < 32 * n" "t div 32 mod n = j" by simp_all
    then have "t div 32 < n" by (simp add: less_mult_imp_div_less mult.commute)
    with t(2) show "t \<in> {32 * j ..< 32 * j + 32}" by auto
  next
    fix t assume t: "t \<in> {32 * j ..< 32 * j + 32}"
    then have "t div 32 = j" by auto
    with t assms show "t \<in> {t. t < 32 * n \<and> t div 32 mod n = j}" by auto
  qed
  then have "card (set (filter (\<lambda>t. j = t div 32 mod n) [0 ..< 32 * n])) = 32"
    by (simp add: eq_commute [of j])
  then have "count_list (map (\<lambda>t. t div 32 mod n) [0 ..< 32 * n]) j = 32"
    by (simp add: count_list_eq_length_filter filter_map comp_def distinct_card [symmetric] del: set_filter)
  then show ?thesis using window_shift [of "\<lambda>t. t div 32 mod n" "32 * n" a j] p by simp
qed

section \<open>Streams come home\<close>

text \<open>A pool holds streams of one session number.\<close>

definition tagged :: "nat \<Rightarrow> session \<Rightarrow> bool" where
  "tagged i s \<longleftrightarrow> (\<forall>st \<in> set (ss_pool s). st_session_id st = i)"

definition keeps_tags :: "others \<Rightarrow> bool" where
  "keeps_tags others \<longleftrightarrow> (\<forall>i s. tagged i s \<longrightarrow> tagged i (others s))"

lemma tagged_simps [simp]:
  "tagged i (s\<lparr>ss_mem := m\<rparr>) = tagged i s" "tagged i (s\<lparr>ss_qmem := m\<rparr>) = tagged i s" "tagged i (s\<lparr>ss_send := c\<rparr>) = tagged i s"
  "tagged i (s\<lparr>ss_promises := p\<rparr>) = tagged i s" "tagged i (bump f s) = tagged i s" "tagged i (set_inner s st x) = tagged i s"
  "tagged i (s\<lparr>ss_pool := []\<rparr>)" "tagged i (s\<lparr>ss_shutdown_err := e\<rparr>) = tagged i s" "tagged i (s\<lparr>ss_next_stream_id := n\<rparr>) = tagged i s"
  "tagged i (s\<lparr>ss_inners := xs\<rparr>) = tagged i s" "tagged i (s\<lparr>ss_streams := ys\<rparr>) = tagged i s"
  by (simp_all add: tagged_def bump_def set_inner_def)

lemma tagged_awaited [simp]: "keeps_tags others \<Longrightarrow> tagged i s \<Longrightarrow> tagged i (awaited others p s)"
  by (simp add: keeps_tags_def awaited_def)

lemma wait_for_send_tagged:
  assumes "wait_for_send others s h b = Some (t, r)" "keeps_tags others" "tagged i s"
  shows "tagged i t"
  using assms(1) by (auto simp: wait_for_send_def add_promise_def Let_def assms(2,3) split: prod.splits if_splits promise.splits)

lemma wake_up_peer_tagged:
  assumes "wake_up_peer others s = Some (t, r)" "keeps_tags others" "tagged i s"
  shows "tagged i t"
  using assms(1) by (auto simp: wake_up_peer_def add_promise_def Let_def assms(2,3) split: prod.splits if_splits option.splits)

lemma on_buf_tagged:
  "on_recv s st x = Some (t, y) \<Longrightarrow> tagged i t = tagged i s" "on_send s st x = Some (t, y) \<Longrightarrow> tagged i t = tagged i s"
  by (auto simp: on_recv_def on_send_def split: option.splits prod.splits)

lemma clean_tagged: "clean s st = Some t \<Longrightarrow> tagged i t = tagged i s"
  by (auto simp: clean_def clean_pending_data_def recycle_recv_def recycle_send_def on_stream_close_def on_buf_tagged
      Let_def split: option.splits)

lemma stream_close_tagged:
  assumes "stream_close others s st = Some (t, r)" "keeps_tags others" "tagged i s"
  shows "tagged i t"
  using assms(1)
  by (auto simp: stream_close_def Let_def assms(2,3) clean_tagged split: if_splits option.splits prod.splits sum.splits
      elim!: wait_for_send_tagged wake_up_peer_tagged)

lemma release_read_and_reuse_tagged: "release_read_and_reuse s st = Some t \<Longrightarrow> tagged i t = tagged i s"
  by (auto simp: release_read_and_reuse_def Let_def split: option.splits)

lemma pool_push_tagged:
  assumes "pool_push others s st = Some (t, r)" "keeps_tags others" "tagged i s" "st_session_id st = i"
  shows "tagged i t"
proof (cases "length (ss_pool s) < ss_pool_cap s")
  case True
  with assms show ?thesis by (auto simp: pool_push_def tagged_def)
next
  case False
  with assms show ?thesis by (auto simp: pool_push_def elim!: stream_close_tagged)
qed

lemma put_or_close_stream_tagged:
  assumes "put_or_close_stream others s st = Some t" "keeps_tags others" "tagged i s" "st_session_id st = i"
  shows "tagged i t"
  using assms(1)
  by (auto simp: put_or_close_stream_def stream_reset_def Let_def assms(2-4) release_read_and_reuse_tagged
      split: if_splits option.splits elim!: stream_close_tagged pool_push_tagged)

lemma pool_take_open_set: "pool_take_open sts s = (rest, r) \<Longrightarrow> set rest \<subseteq> set sts \<and> set_option r \<subseteq> set sts"
  by (induction sts) (auto split: if_splits)

lemma get_or_open_stream_tagged:
  assumes "get_or_open_stream s i = (t, r)" "tagged i s"
  shows "tagged i t" "r = Inr st \<Longrightarrow> st_session_id st = i"
proof -
  obtain rest o' where p: "pool_take_open (ss_pool s) s = (rest, o')" by (cases "pool_take_open (ss_pool s) s")
  have "set rest \<subseteq> set (ss_pool s)" "set_option o' \<subseteq> set (ss_pool s)" using pool_take_open_set [OF p] by simp_all
  then have d: "tagged i (s\<lparr>ss_pool := rest\<rparr>)" "o' = Some x \<Longrightarrow> st_session_id x = i" for x
    using assms(2) by (auto simp: tagged_def)
  show "tagged i t" "r = Inr st \<Longrightarrow> st_session_id st = i"
    using assms p d by (auto simp: get_or_open_stream_def open_stream_def new_stream_def insert_stream_def Let_def
        split: if_splits option.splits)
qed

lemma pool_close_tagged:
  assumes "pool_close others s = Some t" "keeps_tags others" "tagged i s"
  shows "tagged i t"
  using assms(1,3)
proof (rule pool_close_keeps)
  show "tagged i s1" if "tagged i s" "pool_pop s = (s1, x)" for s s1 x
    using that by (auto simp: pool_pop_def tagged_def split: list.splits)
  show "tagged i t" if "tagged i s" "stream_close others s st = Some (t, x)" for s st t x
    using stream_close_tagged [OF that(2) assms(2) that(1)] .
qed

lemma close_all_tagged:
  assumes "keeps_tags others"
  shows "close_all others s sts = Some t \<Longrightarrow> tagged i s \<Longrightarrow> tagged i t"
  by (induction sts arbitrary: s) (auto split: option.splits dest: stream_close_tagged [OF _ assms])

lemma session_close_tagged:
  assumes "session_close others s = Some t" "keeps_tags others" "tagged i s"
  shows "tagged i t"
proof (cases "ss_shutdown s = 0")
  case True
  with assms(1) obtain s1 s4 where
    s1: "pool_close others (s\<lparr>ss_shutdown := 1\<rparr>) = Some s1"
    and s4: "close_all others (s1\<lparr>ss_shutdown_event := True, ss_streams := []\<rparr>) (map snd (ss_streams s1)) = Some s4"
    and t: "ss_pool t = ss_pool s4"
    by (auto simp: session_close_def Let_def split: option.splits prod.splits)
  have "tagged i s1" by (rule pool_close_tagged [OF s1 assms(2)]) (use assms(3) in \<open>simp add: tagged_def\<close>)
  then show ?thesis using close_all_tagged [OF assms(2) s4, of i] t by (simp add: tagged_def)
next
  case False
  with assms show ?thesis by (simp add: session_close_def)
qed

text \<open>
  Steps of a manager, with the slot and the stream it hands out, if any: the calls of its users, the threads that rebuild its
  sessions, and anything that happens inside a session without touching its pool.
\<close>

inductive manager_step :: "session_manager \<Rightarrow> (nat \<times> stream) list \<Rightarrow> session_manager \<Rightarrow> bool" where
  got: "manager_get_stream m = (m', Inr st) \<Longrightarrow> manager_step m [(manager_slot m, st)] m'"
| refused: "manager_get_stream m = (m', Inl e) \<Longrightarrow> manager_step m [] m'"
| returned: "put_back others m st = Some m' \<Longrightarrow> keeps_tags others \<Longrightarrow> manager_step m [] m'"
| closed: "manager_close others m = Some m' \<Longrightarrow> keeps_tags others \<Longrightarrow> manager_step m [] m'"
| tried: "\<not> io_all (\<lambda>x. x \<noteq> (m', phase)) (rebuild_try a m i) \<Longrightarrow> manager_step m [] m'"
| worked: "keeps_tags others \<Longrightarrow> manager_step m [] (m\<lparr>sm_sessions := (sm_sessions m)[i := others (sm_sessions m ! i)]\<rparr>)"

inductive manager_run :: "session_manager \<Rightarrow> (nat \<times> stream) list \<Rightarrow> session_manager \<Rightarrow> bool" where
  start: "manager_run m [] m"
| more: "manager_run m out m' \<Longrightarrow> manager_step m' out' m'' \<Longrightarrow> manager_run m (out @ out') m''"

definition at_home :: "session_manager \<Rightarrow> bool" where
  "at_home m \<longleftrightarrow> (\<forall>i < length (sm_sessions m). tagged i (sm_sessions m ! i))"

lemma at_home_update:
  assumes "at_home m" "i < length (sm_sessions m) \<Longrightarrow> tagged i s" "sm_sessions m' = (sm_sessions m)[i := s]"
  shows "at_home m'"
  unfolding at_home_def assms(3)
proof (intro allI impI)
  fix j assume "j < length ((sm_sessions m)[i := s])"
  then show "tagged j ((sm_sessions m)[i := s] ! j)"
    using assms(1,2) by (cases "j = i") (simp_all add: at_home_def)
qed

lemma close_sessions_tagged:
  assumes "keeps_tags others"
  shows "close_sessions others reg ss = Some (reg', ts) \<Longrightarrow> length ts = length ss
    \<and> (\<forall>i k. i < length ss \<longrightarrow> tagged k (ss ! i) \<longrightarrow> tagged k (ts ! i))"
proof (induction ss arbitrary: reg ts)
  case (Cons s ss)
  then obtain t ts' where t: "session_close others (s\<lparr>ss_registry := reg\<rparr>) = Some t" "ts = t # ts'"
    "close_sessions others (ss_registry t) ss = Some (reg', ts')"
    by (auto split: option.splits)
  have "tagged k t" if "tagged k s" for k
    by (rule session_close_tagged [OF t(1) assms]) (use that in \<open>simp add: tagged_def\<close>)
  then show ?case using Cons.IH [OF t(3)] t(2) by (auto simp: nth_Cons split: nat.splits)
qed simp

lemma rebuild_try_slot:
  "io_all (\<lambda>x. sm_sessions (fst x) = sm_sessions m
     \<or> (\<exists>s. ss_pool s = [] \<and> sm_sessions (fst x) = (sm_sessions m)[i := s])) (rebuild_try a m i)"
proof -
  have "io_all (client_result (at_pid a) i (sm_smc m)) (session_client a i 0 0 (sm_smc m))"
    by (rule session_client_result)
  then show ?thesis
    unfolding rebuild_try_def io_all_bind
    by (rule io_all_mono) (force simp: client_result_def starts_with_paths_def split: sum.splits)
qed

lemma manager_get_stream_home:
  assumes "manager_get_stream m = (m', r)" "at_home m"
  shows "at_home m'" "r = Inr st \<Longrightarrow> st_session_id st = manager_slot m"
proof -
  obtain s x where g: "get_or_open_stream (sm_sessions m ! manager_slot m) (manager_slot m) = (s, x)" by fastforce
  have t: "tagged (manager_slot m) (sm_sessions m ! manager_slot m)" if "sm_sessions m \<noteq> []"
    using assms(2) that by (simp add: at_home_def manager_slot_def)
  have m: "if sm_sessions m = [] then m' = m \<and> r = Inl (Error KSessionUnhealthy)
      else sm_sessions m' = (sm_sessions m)[manager_slot m := s] \<and> r = x"
    using assms(1) g by (auto simp: manager_get_stream_def Let_def)
  show "at_home m'"
    using m assms(2) at_home_update [OF assms(2), of "manager_slot m" s m'] get_or_open_stream_tagged(1) [OF g t]
    by (auto split: if_splits)
  show "st_session_id st = manager_slot m" if "r = Inr st"
    using m that get_or_open_stream_tagged(2) [OF g t, of st] by (auto split: if_splits)
qed

lemma put_back_home:
  assumes "put_back others m st = Some m'" "keeps_tags others" "at_home m"
  shows "at_home m'"
proof -
  obtain s where s: "put_or_close_stream others (sm_sessions m ! st_session_id st) st = Some s"
    "st_session_id st < length (sm_sessions m)" "sm_sessions m' = (sm_sessions m)[st_session_id st := s]"
    using assms(1) by (auto simp: put_back_def Let_def split: if_splits)
  have "tagged (st_session_id st) s"
    using put_or_close_stream_tagged [OF s(1) assms(2)] assms(3) s(2) by (simp add: at_home_def)
  then show ?thesis using at_home_update [OF assms(3) _ s(3)] by simp
qed

lemma manager_close_home:
  assumes "manager_close others m = Some m'" "keeps_tags others" "at_home m"
  shows "at_home m'"
proof -
  obtain reg ss where c: "close_sessions others (sm_registry m) (sm_sessions m) = Some (reg, ss)" "sm_sessions m' = ss"
    using assms(1) by (auto simp: manager_close_def)
  show ?thesis using close_sessions_tagged [OF assms(2) c(1)] assms(3) c(2) by (simp add: at_home_def)
qed

lemma rebuild_try_home:
  assumes "\<not> io_all (\<lambda>x. x \<noteq> (m', phase)) (rebuild_try a m i)" "at_home m"
  shows "at_home m'"
proof -
  have "sm_sessions m' = sm_sessions m \<or> (\<exists>s. ss_pool s = [] \<and> sm_sessions m' = (sm_sessions m)[i := s])"
  proof (rule ccontr)
    assume "\<not> ?thesis"
    then have "io_all (\<lambda>x. x \<noteq> (m', phase)) (rebuild_try a m i)"
      by (intro io_all_mono [OF rebuild_try_slot [of m i a]]) auto
    with assms(1) show False by contradiction
  qed
  then show ?thesis
  proof
    assume "sm_sessions m' = sm_sessions m"
    with assms(2) show ?thesis by (simp add: at_home_def)
  next
    assume "\<exists>s. ss_pool s = [] \<and> sm_sessions m' = (sm_sessions m)[i := s]"
    then obtain s where "ss_pool s = []" "sm_sessions m' = (sm_sessions m)[i := s]" by blast
    then show ?thesis using at_home_update [OF assms(2), of i s m'] by (simp add: tagged_def)
  qed
qed

lemma worked_home: "keeps_tags others \<Longrightarrow> at_home m \<Longrightarrow> at_home (m\<lparr>sm_sessions := (sm_sessions m)[i := others (sm_sessions m ! i)]\<rparr>)"
  by (rule at_home_update [where m = m and i = i and s = "others (sm_sessions m ! i)"]) (simp_all add: at_home_def keeps_tags_def)

lemma manager_step_home:
  assumes "manager_step m out m'" "at_home m"
  shows "at_home m' \<and> (\<forall>(i, st) \<in> set out. st_session_id st = i)"
  using assms
proof (cases rule: manager_step.cases)
  case (got st)
  then show ?thesis using manager_get_stream_home [OF got(2) assms(2)] by simp
next
  case (tried phase a i)
  show ?thesis using rebuild_try_home [OF tried(2) assms(2)] tried(1) by simp
qed (simp_all add: manager_get_stream_home(1) put_back_home manager_close_home worked_home)

lemma manager_run_home:
  assumes "manager_run m out m'" "at_home m"
  shows "at_home m' \<and> (\<forall>(i, st) \<in> set out. st_session_id st = i)"
  using assms by (induction rule: manager_run.induct) (auto dest: manager_step_home)

section \<open>Closing while a session is rebuilt\<close>

lemma close_sessions_closed:
  assumes "others_ok others" "close_sessions others reg ss = Some (reg', ts)" "\<forall>s \<in> set ss. session_ok s"
  shows "length ts = length ss" "\<forall>t \<in> set ts. is_closed t"
  using assms(2,3)
proof (induction ss arbitrary: reg ts)
  case (Cons s ss)
  case 1
  then show ?case using Cons.IH(1) by (auto split: option.splits)
next
  case (Cons s ss)
  case 2
  then obtain t ts' where t: "session_close others (s\<lparr>ss_registry := reg\<rparr>) = Some t" "ts = t # ts'"
    "close_sessions others (ss_registry t) ss = Some (reg', ts')"
    by (auto split: option.splits)
  have "session_ok (s\<lparr>ss_registry := reg\<rparr>)" using 2(2) by (simp add: session_ok_def handle_ok_def)
  then have "is_closed t" by (rule session_close_closed(1) [OF assms(1) t(1)])
  then show ?case using Cons.IH(2) [OF t(3)] 2(2) t(2) by simp
qed simp_all

lemma rebuild_try_result:
  "io_all (\<lambda>(m', phase). m' = m \<and> phase = Retrying
     \<or> phase = Watching \<and> (\<exists>s. m' = m\<lparr>sm_sessions := (sm_sessions m)[i := s], sm_registry := ss_registry s\<rparr> \<and> is_healthy s \<and> \<not> is_closed s))
     (rebuild_try a m i)"
  unfolding rebuild_try_def io_all_bind
proof (rule io_all_mono [OF session_client_result])
  fix x assume "client_result (at_pid a) i (sm_smc m) x"
  then show "io_all (\<lambda>(m', phase). m' = m \<and> phase = Retrying
     \<or> phase = Watching \<and> (\<exists>s. m' = m\<lparr>sm_sessions := (sm_sessions m)[i := s], sm_registry := ss_registry s\<rparr> \<and> is_healthy s \<and> \<not> is_closed s))
     (case x of (c, r) \<Rightarrow> case r of Inl e \<Rightarrow> Ret (m, Retrying)
        | Inr s \<Rightarrow> Ret (m\<lparr>sm_sessions := (sm_sessions m)[i := s], sm_registry := ss_registry s\<rparr>, Watching))"
    by (cases x; cases "snd x") (force simp: client_result_def starts_with_paths_def)+
qed

lemma rebuild_after_close:
  assumes "sm_shutdown_event m"
  shows "io_all (\<lambda>(m', phase). m' = m \<and> phase = Retrying
     \<or> phase = Returned \<and> (\<exists>s. sm_sessions m' = (sm_sessions m)[i := s] \<and> is_healthy s \<and> \<not> is_closed s))
     (rebuild_session as m i Retrying)"
proof (induction as)
  case (Cons a as)
  have w: "rebuild_session as (m\<lparr>sm_sessions := ss, sm_registry := reg\<rparr>) i Watching
      = Ret (m\<lparr>sm_sessions := ss, sm_registry := reg\<rparr>, Returned)" for ss reg
    using assms by (simp add: rebuild_watch_def)
  show ?case
    unfolding rebuild_session.simps(4) io_all_bind
    by (rule io_all_mono [OF rebuild_try_result [of m i a]]) (use Cons w in auto)
qed simp

section \<open>Streams are used again\<close>

lemma content_frame:
  assumes "lb_inv bm gs e m lb others"
    and "\<And>g x. g \<in> set (shm_names gs (all_slices lb)) \<Longrightarrow> x \<in> area gs g \<Longrightarrow> m' x = m x"
  shows "content m' lb = content m lb"
proof (rule content_cong)
  fix x assume "x \<in> set (slices (lb_slices lb))"
  then have x: "x \<in> set (all_slices lb)" by (simp add: all_slices_def)
  have "good_slice gs m x" using assms(1) x by (simp add: lb_inv_def)
  then show "slice_bytes m' x = slice_bytes m x"
    using assms(2) [OF hname_in_shm_names [OF x]] by (rule good_slice_cong(2))
qed

text \<open>The buffer that is kept is emptied, and what others hold keeps its bytes.\<close>

lemma reserve_front:
  assumes inv: "lb_inv bm gs e m lb others" and n: "sl_nodes (lb_slices lb) = [(f, x)]" and shm: "bs_is_from_shm x"
    and h: "h \<in> set others" "y \<in> area gs h"
  shows "fst (reset m x) y = m y"
proof (rule ccontr)
  assume "fst (reset m x) y \<noteq> m y"
  moreover have x: "x \<in> set (all_slices lb)" using n by (simp add: all_slices_def slices_def)
  then have "named gs x" using inv shm by (auto simp: lb_inv_def good_slice_def)
  ultimately have y: "y \<in> area gs (hname gs x)" by (intro reset_in_area)
  have m: "managed bm gs e m (shm_names gs (all_slices lb) @ others)" using inv by (simp add: lb_inv_def)
  have hx: "hname gs x \<in> set (shm_names gs (all_slices lb))" by (rule hname_in_shm_names [OF x shm])
  then have "hname gs x \<noteq> h" using src.owned_distinct [OF m] h(1) by auto
  then show False using src.owned_disjoint [OF m, of "hname gs x" h] hx h y by auto
qed

lemma release_reserve_runs:
  assumes inv: "reader_inv bm gs e m lb others" and len: "lb_len lb = 0"
  obtains m' lb' where "release_previous_read_and_reserve bm m lb = Some (m', lb')" "lb_len lb' = 0" "content m' lb' = []"
    "\<forall>h \<in> set others. \<forall>x \<in> area gs h. m' x = m x"
proof -
  have li: "lb_inv bm gs e m lb others" using inv by (simp add: reader_inv_def)
  obtain m1 lb1 where c: "clean_pinned_list bm m lb = Some (m1, lb1)" "lb_inv bm gs e m1 lb1 others" "lb_len lb1 = 0"
    "content m1 lb1 = content m lb" "\<forall>h \<in> set others. \<forall>x \<in> area gs h. m1 x = m x"
    using clean_pinned_list_ok [OF li] len by auto
  have i: "sl_inv (lb_slices lb1)" using c(2) by (simp add: lb_inv_def)
  show ?thesis
  proof (cases "sl_len (lb_slices lb1) = 1")
    case True
    then have "length (sl_nodes (lb_slices lb1)) = Suc 0" using i by (simp add: sl_inv_def)
    then obtain f x where n: "sl_nodes (lb_slices lb1) = [(f, x)]" by (auto simp: length_Suc_conv)
    then have f: "sl_front (lb_slices lb1) = Some f" "deref (lb_slices lb1) (Some f) = Some x" "slices (lb_slices lb1) = [x]"
      using i by (simp_all add: sl_inv_def head_id_def deref_def slices_def)
    have k: "slices (set_slice (lb_slices lb1) f (snd (reset m1 x))) = [snd (reset m1 x)]"
      using set_slice_split [OF i, of "[]" f x "[]" "snd (reset m1 x)"] n by (simp add: slices_def)
    have p: "slices (fst (pop_front (lb_slices lb1))) = []" using pop_front_cons [OF i f(3)] by simp
    have w: "slices (set_write sl u) = slices sl" for sl u by (simp add: slices_def set_write_def)
    let ?keep = "\<lambda>sl. lb1\<lparr>lb_slices := if sl_len sl = 0 then set_write sl None else sl\<rparr>"
    have ce: "content m2 (?keep sl) = concat (map (slice_bytes m2) (slices sl))" for m2 sl by (simp add: content_def w)
    show ?thesis
    proof (cases "bs_is_from_shm x")
      case shm: True
      let ?sl = "set_slice (lb_slices lb1) f (snd (reset m1 x))"
      have "release_previous_read_and_reserve bm m lb = Some (fst (reset m1 x), ?keep ?sl)"
        using True c(1,3) f shm by (simp add: release_previous_read_and_reserve_def Let_def)
      moreover have "slice_bytes m2 (snd (reset m1 x)) = []" for m2
        by (simp add: slice_bytes_def slice_size_def reset_def data_read_def split: data_ptr.split)
      moreover have "\<forall>h \<in> set others. \<forall>y \<in> area gs h. fst (reset m1 x) y = m y"
        using reserve_front [OF c(2) n shm] c(5) by simp
      ultimately show ?thesis using c(3) k by (intro that [of "fst (reset m1 x)" "?keep ?sl"]) (simp_all add: ce)
    next
      case False
      have "release_previous_read_and_reserve bm m lb = Some (m1, ?keep (fst (pop_front (lb_slices lb1))))"
        using True c(1,3) f False by (simp add: release_previous_read_and_reserve_def Let_def)
      then show ?thesis using c(3,5) p by (intro that [of m1 "?keep (fst (pop_front (lb_slices lb1)))"]) (simp_all add: ce)
    qed
  next
    case False
    then have "release_previous_read_and_reserve bm m lb = Some (m1, lb1)"
      using c(1) by (auto simp: release_previous_read_and_reserve_def)
    moreover have "content m lb = []" using reader_inv_length [OF inv] len by simp
    ultimately show ?thesis using that c(3-5) by simp
  qed
qed

text \<open>A stream in order to be reused: open, with nothing left to read.\<close>

definition idle :: "session \<Rightarrow> stream \<Rightarrow> bool" where
  "idle s st \<longleftrightarrow> is_open s st \<and> \<not> fallback_state s st \<and> lb_len (recv_buf s st) = 0 \<and> si_pending_data (inner s st) = []"

text \<open>The receive and the send buffer of a stream hold what they hold apart from each other.\<close>

definition buffers_ok :: "list_spec list \<Rightarrow> nat \<Rightarrow> (nat \<times> nat) list \<Rightarrow> session \<Rightarrow> stream \<Rightarrow> bool" where
  "buffers_ok gs e held s st \<longleftrightarrow>
     reader_inv (ss_bm s) gs e (ss_mem s) (recv_buf s st) (shm_names gs (all_slices (send_buf s st)) @ held)
     \<and> lb_inv (ss_bm s) gs e (ss_mem s) (send_buf s st) (shm_names gs (all_slices (recv_buf s st)) @ held)"

definition unsent :: "session \<Rightarrow> stream \<Rightarrow> bytes" where
  "unsent s st = content (ss_mem s) (send_buf s st)"

lemma put_idle_stream:
  assumes h: "handle_ok s st" and i: "idle s st" and room: "length (ss_pool s) < ss_pool_cap s"
    and inv: "buffers_ok gs e held s st"
  obtains t where "put_or_close_stream others s st = Some t" "ss_pool t = ss_pool s @ [st]" "is_healthy t = is_healthy s"
    "is_open t st" "\<not> fallback_state t st" "si_pending_data (inner t st) = []"
    "(content (ss_mem t) (recv_buf t st), unsent t st) \<in> {([], unsent s st), (unsent s st, [])}"
    "\<forall>g \<in> set held. \<forall>x \<in> area gs g. ss_mem t x = ss_mem s x"
proof -
  let ?s = "set_inner s st ((inner s st)\<lparr>si_in_fallback_state := False\<rparr>)"
  have r: "stream_reset s st = (?s, Inr ())"
    using i by (simp add: idle_def stream_reset_def is_open_def recv_buf_def Let_def)
  have e: "ss_bm ?s = ss_bm s" "ss_mem ?s = ss_mem s" "recv_buf ?s st = recv_buf s st"
    using h by (simp_all add: set_inner_def recv_buf_def inner_def handle_ok_def)
  have inv1: "reader_inv (ss_bm s) gs e (ss_mem s) (recv_buf s st) (shm_names gs (all_slices (send_buf s st)) @ held)"
    and inv2: "lb_inv (ss_bm s) gs e (ss_mem s) (send_buf s st) (shm_names gs (all_slices (recv_buf s st)) @ held)"
    using inv by (simp_all add: buffers_ok_def)
  have l0: "lb_len (recv_buf s st) = 0" using i by (simp add: idle_def)
  obtain m lb where rel: "release_previous_read_and_reserve (ss_bm s) (ss_mem s) (recv_buf s st) = Some (m, lb)" "lb_len lb = 0"
    "content m lb = []"
    and fr: "\<forall>g \<in> set (shm_names gs (all_slices (send_buf s st)) @ held). \<forall>x \<in> area gs g. m x = ss_mem s x"
    by (rule release_reserve_runs [OF inv1 l0])
  have ct: "content m (send_buf s st) = unsent s st"
    unfolding unsent_def by (rule content_frame [OF inv2]) (use fr in auto)
  have fr': "\<forall>g \<in> set held. \<forall>x \<in> area gs g. m x = ss_mem s x" using fr by auto
  have in': "inner ?s st = (inner s st)\<lparr>si_in_fallback_state := False\<rparr>" "handle_ok ?s st"
    using h by (simp_all add: inner_def set_inner_def handle_ok_def)
  define x where "x = (if lb_len lb = 0 \<and> sl_len (lb_slices lb) = 1
    then (inner ?s st)\<lparr>si_recv_buf := si_send_buf (inner ?s st), si_send_buf := lb\<rparr> else (inner ?s st)\<lparr>si_recv_buf := lb\<rparr>)"
  let ?t = "set_inner (?s\<lparr>ss_mem := m\<rparr>) st x"
  have "release_read_and_reuse ?s st = Some ?t"
    using rel unfolding release_read_and_reuse_def e by (simp add: Let_def x_def)
  then have p: "put_or_close_stream others s st = Some (?t\<lparr>ss_pool := ss_pool s @ [st]\<rparr>)"
    using i r room by (simp add: put_or_close_stream_def idle_def pool_push_def) (simp add: set_inner_def)
  have it: "inner (?t\<lparr>ss_pool := ss_pool s @ [st]\<rparr>) st = x" "ss_mem (?t\<lparr>ss_pool := ss_pool s @ [st]\<rparr>) = m"
    using h by (simp_all add: inner_def set_inner_def handle_ok_def)
  have xf: "si_state x = kStreamOpened" "\<not> si_in_fallback_state x" "si_pending_data x = []"
    "(content m (si_recv_buf x), content m (si_send_buf x)) \<in> {([], unsent s st), (unsent s st, [])}"
    using i rel(3) ct by (simp_all add: x_def in' idle_def is_open_def send_buf_def)
  show ?thesis
    by (rule that [OF p])
      (use xf it fr' in \<open>simp_all add: is_open_def fallback_state_def recv_buf_def send_buf_def unsent_def\<close>,
       simp_all add: set_inner_def is_healthy_def)
qed

section \<open>Properties\<close>

text \<open>A client whose server cannot be reached, one whose server answers, and a manager as \<open>create\<close> leaves it.\<close>

definition sample_attempt :: attempt where
  "sample_attempt = \<lparr>at_conn = Inl (io_error ''connection refused''), at_pid = 1234,
     at_host = \<lparr>h_arch = X86_64, h_os = sample_os, h_registry = (\<lambda>_. None), h_fd_mem = (\<lambda>_ _. 0), h_file_mem = (\<lambda>_ _. 0)\<rparr>,
     at_split = Inr (), at_bmem = (\<lambda>_. 0), at_qmem = (\<lambda>_. 0), at_debug = False\<rparr>"

definition lucky_attempt :: attempt where
  "lucky_attempt = sample_attempt\<lparr>at_conn := Inr ()\<rparr>"

lemma lucky_attempt_ok:
  "at_conn lucky_attempt = Inr () \<and> at_split lucky_attempt = Inr () \<and> roomy_os (h_os (at_host lucky_attempt))"
  by (simp add: lucky_attempt_def sample_attempt_def roomy_os_def sample_os_def)

lemma default_config_at_default: "default_config = default_config_at ''/dev/shm/shmipc'' ''/dev/shm/shmipc_queue''"
  by (simp add: default_config_at_def default_config_def)

definition sample_manager :: "session list \<Rightarrow> session_manager" where
  "sample_manager ss = \<lparr>sm_smc = default_session_manager_config, sm_sessions = ss, sm_count = 0, sm_shutdown_event = False,
     sm_registry = (\<lambda>_. None), sm_rebuild = replicate (length ss) Watching\<rparr>"

text \<open>
  Property C30. A manager that could be created has all its sessions, each with its own queue path and none with a stream yet, and in file mode
  the last path prefix still fits: every session adds the process id to the prefix once more, so with enough sessions \<open>create\<close> always fails.
\<close>

theorem manager_create_names:
  assumes "\<forall>k. at_pid (as k) = pid"
  shows "io_all (\<lambda>r. case r of Inl e \<Rightarrow> True
     | Inr m \<Rightarrow> map (queue_path \<circ> ss_config) (sm_sessions m)
           = map (queue_name (share_memory_path_prefix (smc_config smc)) pid) [0 ..< session_num smc]
         \<and> distinct (map (queue_path \<circ> ss_config) (sm_sessions m))
         \<and> (\<forall>s \<in> set (sm_sessions m). ss_pool s = [] \<and> ss_streams s = [] \<and> is_healthy s \<and> \<not> is_closed s)
         \<and> sm_rebuild m = replicate (length (sm_sessions m)) Watching
         \<and> (mem_map_type (smc_config smc) = KDevShmFile \<and> 0 < session_num smc
            \<longrightarrow> length (share_memory_path_prefix (smc_config smc)) + session_num smc * Suc (length (dec pid)) \<le> 180))
     (manager_create as smc reg)"
proof -
  have "io_all (\<lambda>r. case r of Inl e \<Rightarrow> True
     | Inr (smc1, reg1, ss) \<Rightarrow> created pid (session_num smc) 0 (smc_config smc) [] (smc_config smc1) ss)
     (create_sessions as (session_num smc) 0 smc reg [])"
    by (rule create_sessions_created [OF assms])
  then show ?thesis
    unfolding manager_create_def try_io_def io_all_bind
    by (rule io_all_mono) (use created_names in \<open>fastforce split: sum.splits simp del: map_map\<close>)
qed

theorem manager_create_names_witness:
  "(\<exists>m. answered (manager_create (\<lambda>_. lucky_attempt) (default_session_manager_config\<lparr>session_num := 2\<rparr>) (\<lambda>_. None))
         (server_answers @ server_answers) = Some (Inr m, [])
       \<and> map (queue_path \<circ> ss_config) (sm_sessions m)
          = [''/dev/shm/shmipc_1234_queue_0'', ''/dev/shm/shmipc_1234_1234_queue_1''])
   \<and> io_all (\<lambda>r. \<exists>e. r = Inl e) (manager_create (\<lambda>_. lucky_attempt)
     \<lparr>smc_config = default_config\<lparr>mem_map_type := KDevShmFile\<rparr>, session_num = 40, stream_max_idle_time = 0\<rparr> (\<lambda>_. None))"
proof
  let ?smc = "default_session_manager_config\<lparr>session_num := 2\<rparr>"
  have d: "dec 1234 = ''1234''" "dec 0 = ''0''" "dec 1 = ''1''" "dec (Suc 0) = ''1''" by code_simp+
  have p: "\<forall>k. at_pid ((\<lambda>_ :: nat. lucky_attempt) k) = 1234" by (simp add: lucky_attempt_def sample_attempt_def)
  have "smc_config ?smc = default_config_at ''/dev/shm/shmipc'' ''/dev/shm/shmipc_queue''"
    using default_config_at_default by (simp add: default_session_manager_config_def)
  then obtain m where m: "answered (manager_create (\<lambda>_. lucky_attempt) ?smc (\<lambda>_. None)) (server_answers @ server_answers) = Some (Inr m, [])"
    using default_manager [of "\<lambda>_. lucky_attempt" ?smc "''/dev/shm/shmipc''" "''/dev/shm/shmipc_queue''" "\<lambda>_. None"] lucky_attempt_ok
    by (auto simp: numeral_2_eq_2)
  have "map (queue_path \<circ> ss_config) (sm_sessions m) = map (queue_name ''/dev/shm/shmipc'' 1234) [0 ..< 2]"
    using answered_all [OF m manager_create_names [OF p, of ?smc "\<lambda>_. None"]]
    by (simp add: default_session_manager_config_def) (simp add: default_config_def)
  also have "\<dots> = [''/dev/shm/shmipc_1234_queue_0'', ''/dev/shm/shmipc_1234_1234_queue_1'']"
    by (simp add: numeral_2_eq_2 queue_name_def pid_tags_def d)
  finally show "\<exists>m. answered (manager_create (\<lambda>_. lucky_attempt) ?smc (\<lambda>_. None)) (server_answers @ server_answers) = Some (Inr m, [])
       \<and> map (queue_path \<circ> ss_config) (sm_sessions m) = [''/dev/shm/shmipc_1234_queue_0'', ''/dev/shm/shmipc_1234_1234_queue_1'']"
    using m by (intro exI [of _ m] conjI)
  let ?smc = "\<lparr>smc_config = default_config\<lparr>mem_map_type := KDevShmFile\<rparr>, session_num = 40, stream_max_idle_time = 0\<rparr>"
  show "io_all (\<lambda>r. \<exists>e. r = Inl e) (manager_create (\<lambda>_. lucky_attempt) ?smc (\<lambda>_. None))"
    by (rule io_all_mono [OF manager_create_names [OF p, of ?smc "\<lambda>_. None"]])
      (auto simp: d default_config_def split: sum.splits)
qed

text \<open>
  Property C26. Streams are taken from all sessions evenly: in any stretch of 32 calls per session, every session is asked 32 times.
\<close>

theorem sessions_take_turns:
  assumes "unat (sm_count m) + 32 * length (sm_sessions m) < 18446744073709551616" "j < length (sm_sessions m)"
  shows "count_list (next_slots m (32 * length (sm_sessions m))) j = 32"
proof -
  have n: "sm_sessions m \<noteq> []" using assms(2) by auto
  show ?thesis unfolding next_slots_eq [OF n assms(1)] by (rule turns_of_slot [OF assms(2)])
qed

theorem sessions_take_turns_witness:
  "count_list (next_slots (sample_manager [sample_session, sample_session]) 64) 1 = 32"
  using sessions_take_turns [of "sample_manager [sample_session, sample_session]" 1] by (simp add: sample_manager_def)

text \<open>
  Property C25. Whatever users do with the streams of a manager, and whichever of its sessions end, are rebuilt or closed, every
  stream it hands out carries the number of the slot it was taken from, so that \<open>put_back\<close> returns it there.
\<close>

theorem streams_name_their_slot:
  assumes "at_home m" "manager_run m out m'"
  shows "at_home m' \<and> (\<forall>(i, st) \<in> set out. st_session_id st = i)"
  by (rule manager_run_home [OF assms(2,1)])

theorem streams_name_their_slot_witness:
  "\<exists>m st. manager_get_stream (sample_manager [sample_session]) = (m, Inr st) \<and> st_session_id st = 0"
proof -
  let ?m = "sample_manager [sample_session]"
  have h: "at_home ?m" by (simp add: at_home_def sample_manager_def tagged_def sample_session_def new_session_def Let_def)
  obtain m st where g: "manager_get_stream ?m = (m, Inr st)"
    by (simp add: manager_get_stream_def sample_manager_def manager_slot_def get_or_open_stream_def open_stream_def is_healthy_def is_closed_def
        sample_session_def new_session_def new_stream_def insert_stream_def Let_def)
  have "manager_run ?m ([] @ [(manager_slot ?m, st)]) m"
    by (rule manager_run.more [OF manager_run.start manager_step.got [OF g]])
  then show ?thesis using streams_name_their_slot [OF h] g by (fastforce simp: manager_slot_def sample_manager_def)
qed

text \<open>
  Property C27. A stream that is put back idle is the next one handed out from its slot, open and with nothing pending. One of its two
  buffers then holds exactly the bytes its last user wrote and did not flush, and the other is empty: with nothing unsent the next user
  gets it clean, otherwise it sends these bytes first or, when the buffers were swapped, reads them. The bytes of buffers that others hold stay.
\<close>

theorem returned_stream_is_reused:
  assumes "st_session_id st < length (sm_sessions m)" "sm_sessions m ! st_session_id st = s"
    and "handle_ok s st" "idle s st" "ss_pool s = []" "0 < ss_pool_cap s" "is_healthy s"
    and "buffers_ok gs e held s st" "manager_slot m = st_session_id st"
  shows "\<exists>m1 m2 t. put_back others m st = Some m1 \<and> manager_get_stream m1 = (m2, Inr st)
    \<and> sm_sessions m2 ! st_session_id st = t \<and> is_open t st \<and> \<not> fallback_state t st \<and> si_pending_data (inner t st) = []
    \<and> (content (ss_mem t) (recv_buf t st), unsent t st) \<in> {([], unsent s st), (unsent s st, [])}
    \<and> (\<forall>g \<in> set held. \<forall>x \<in> area gs g. ss_mem t x = ss_mem s x)"
proof -
  have room: "length (ss_pool s) < ss_pool_cap s" using assms by simp
  obtain t where t: "put_or_close_stream others s st = Some t" "ss_pool t = [st]" "is_healthy t" "is_open t st"
    "\<not> fallback_state t st" "si_pending_data (inner t st) = []"
    "(content (ss_mem t) (recv_buf t st), unsent t st) \<in> {([], unsent s st), (unsent s st, [])}"
    "\<forall>g \<in> set held. \<forall>x \<in> area gs g. ss_mem t x = ss_mem s x"
    by (rule put_idle_stream [OF assms(3,4) room assms(8), of others]) (simp add: assms)
  let ?m1 = "m\<lparr>sm_sessions := (sm_sessions m)[st_session_id st := t]\<rparr>"
  have p: "put_back others m st = Some ?m1" using t(1) assms(1,2) by (simp add: put_back_def)
  have sl: "manager_slot ?m1 = st_session_id st" using assms(9) by (simp add: manager_slot_def)
  have "manager_get_stream ?m1 = (?m1\<lparr>sm_count := sm_count m + 1,
      sm_sessions := (sm_sessions m)[st_session_id st := t\<lparr>ss_pool := []\<rparr>]\<rparr>, Inr st)"
    using assms(1) t(2-4) unfolding manager_get_stream_def sl by (auto simp: get_or_open_stream_def Let_def)
  then show ?thesis
    using p t assms(1) by (simp add: is_open_def fallback_state_def recv_buf_def send_buf_def inner_def unsent_def)
qed

theorem returned_stream_is_reused_witness:
  "\<exists>bm m A M1 M2. bm_create sample_pairs ''p'' (\<lambda>_. 0) 1000 0 = (m, Inr bm)
    \<and> stream_writes (sample_endpoint bm m None) sample_stream [[1, 2, 3]] = Some A
    \<and> put_back (\<lambda>s. s) (sample_manager [A]) sample_stream = Some M1 \<and> manager_get_stream M1 = (M2, Inr sample_stream)
    \<and> (content (ss_mem (sm_sessions M2 ! 0)) (recv_buf (sm_sessions M2 ! 0) sample_stream), unsent (sm_sessions M2 ! 0) sample_stream)
        \<in> {([], [1, 2, 3]), ([1, 2, 3], [])}"
proof -
  let ?gs = "created_specs sample_pairs 1000 0" and ?s = sample_stream
  obtain m bm where b: "bm_create sample_pairs ''p'' (\<lambda>_. 0) 1000 0 = (m, Inr bm)" and mg: "managed bm ?gs 1000 m []"
    by (rule sample_managed)
  let ?A = "sample_endpoint bm m None"
  obtain m1 lb1 where w: "write_all bm m new_linked_buffer [[1, 2, 3]] = Some (m1, lb1)" "writer_inv bm ?gs 1000 m1 lb1 []"
    "content m1 lb1 = [1, 2, 3]"
    using write_all_ok [OF new_writer_inv [OF mg], of "[[1, 2, 3]]"] by (auto simp: new_linked_buffer_def content_def)
  have i: "lb_inv bm ?gs 1000 m1 lb1 []" using w(2) by (simp add: writer_inv_def reader_inv_def)
  have "managed bm ?gs 1000 m1 (shm_names ?gs (all_slices lb1))" using i(1) by (simp add: lb_inv_def)
  then have r: "reader_inv bm ?gs 1000 m1 new_linked_buffer (shm_names ?gs (all_slices lb1))"
    by (rule new_linked_buffer_inv)
  have e: "send_buf ?A ?s = new_linked_buffer" by (simp add: send_buf_def) (simp add: new_stream_inner_def)
  have A: "stream_writes ?A ?s [[1, 2, 3]] = Some (with_send ?A ?s m1 lb1)"
    using stream_writes_all [of ?A ?s m new_linked_buffer "[[1, 2, 3]]"] with_send_same [of ?A ?s] w(1) e by simp
  have f: "idle (with_send ?A ?s m1 lb1) ?s" "ss_pool (with_send ?A ?s m1 lb1) = []" "0 < ss_pool_cap (with_send ?A ?s m1 lb1)"
    "is_healthy (with_send ?A ?s m1 lb1)" "send_buf (with_send ?A ?s m1 lb1) ?s = lb1" "recv_buf (with_send ?A ?s m1 lb1) ?s = new_linked_buffer"
    by (simp_all add: idle_def is_open_def fallback_state_def recv_buf_def send_buf_def is_healthy_def)
      (simp_all add: new_stream_inner_def with_send_def set_inner_def sample_endpoint_def accepted_def new_session_def Let_def
        default_config_def stream_state_defs new_linked_buffer_def)
  have z: "st_session_id ?s = 0" "sm_sessions (sample_manager ss) = ss" "manager_slot (sample_manager [x]) = 0" for x ss
    by (simp_all add: sample_stream_def sample_manager_def manager_slot_def)
  have n: "shm_names ?gs (all_slices new_linked_buffer) = []"
    by (simp add: shm_names_def all_slices_def new_linked_buffer_def slices_def empty_slice_list_def)
  have mb: "ss_mem (with_send ?A ?s m1 lb1) = m1" "ss_bm (with_send ?A ?s m1 lb1) = bm" by simp_all
  have bo: "buffers_ok ?gs 1000 [] (with_send ?A ?s m1 lb1) ?s" and u: "unsent (with_send ?A ?s m1 lb1) ?s = [1, 2, 3]"
    using f r i n mb w(3) by (simp_all add: buffers_ok_def unsent_def)
  obtain M1 M2 where "put_back (\<lambda>s. s) (sample_manager [with_send ?A ?s m1 lb1]) ?s = Some M1"
    "manager_get_stream M1 = (M2, Inr ?s)"
    "(content (ss_mem (sm_sessions M2 ! 0)) (recv_buf (sm_sessions M2 ! 0) ?s), unsent (sm_sessions M2 ! 0) ?s)
        \<in> {([], [1, 2, 3]), ([1, 2, 3], [])}"
    using returned_stream_is_reused [of ?s "sample_manager [with_send ?A ?s m1 lb1]" "with_send ?A ?s m1 lb1" ?gs 1000
        "[]" "\<lambda>s. s"] f(1-4) bo u by (auto simp: z)
  then show ?thesis using b A by auto
qed

text \<open>
  Property C38. A rebuild outlives \<open>close\<close>. After \<open>close\<close> has closed all sessions, a rebuild thread that waits for the end of its session
  returns, but one that is in its retry loop does not look at the shutdown event: as long as the server cannot be reached it
  tries again, so that \<open>close\<close>, which joins it, does not return; and when an attempt succeeds, it puts the new session into
  the slot and only then returns, so that the closed manager is left with an open session, which nobody closes any more.
\<close>

theorem rebuild_outlives_close:
  assumes "manager_close others m = Some m'" and "others_ok others" and "\<forall>s \<in> set (sm_sessions m). session_ok s"
    and "i < length (sm_sessions m)"
  shows "(\<forall>s \<in> set (sm_sessions m'). is_closed s) \<and> rebuild_session as m' i Watching = Ret (m', Returned)
    \<and> ((\<forall>a \<in> set as. \<exists>e. at_conn a = Inl e) \<longrightarrow> rebuild_session as m' i Retrying = Ret (m', Retrying))
    \<and> io_all (\<lambda>(m'', phase). m'' = m' \<and> phase = Retrying
         \<or> phase = Returned \<and> (\<exists>s. sm_sessions m'' = (sm_sessions m')[i := s] \<and> is_healthy s \<and> \<not> is_closed s))
       (rebuild_session as m' i Retrying)"
proof (intro conjI impI)
  have e: "sm_shutdown_event m'" and l: "i < length (sm_sessions m')"
    using assms(1,4) close_sessions_closed(1) [OF assms(2) _ assms(3)] by (auto simp: manager_close_def)
  show "\<forall>s \<in> set (sm_sessions m'). is_closed s"
    using assms(1) close_sessions_closed(2) [OF assms(2) _ assms(3)] by (auto simp: manager_close_def)
  show "rebuild_session as m' i Watching = Ret (m', Returned)" using e by (simp add: rebuild_watch_def)
  show "rebuild_session as m' i Retrying = Ret (m', Retrying)" if "\<forall>a \<in> set as. \<exists>e. at_conn a = Inl e"
    using that by (induction as) (auto simp: rebuild_try_def session_client_def)
  show "io_all (\<lambda>(m'', phase). m'' = m' \<and> phase = Retrying
         \<or> phase = Returned \<and> (\<exists>s. sm_sessions m'' = (sm_sessions m')[i := s] \<and> is_healthy s \<and> \<not> is_closed s))
       (rebuild_session as m' i Retrying)"
    by (rule rebuild_after_close [OF e])
qed

theorem rebuild_outlives_close_witness:
  "\<exists>m m1 s. manager_close (\<lambda>s. s) (sample_manager [sample_session]) = Some m \<and> is_closed (sm_sessions m ! 0)
    \<and> rebuild_session [sample_attempt, sample_attempt] m 0 Retrying = Ret (m, Retrying)
    \<and> answered (rebuild_session [sample_attempt, lucky_attempt] m 0 Retrying) server_answers = Some ((m1, Returned), [])
    \<and> sm_sessions m1 = [s] \<and> \<not> is_closed s"
proof -
  let ?m = "sample_manager [sample_session]"
  have ok: "session_ok sample_session"
    by (simp add: sample_session_def session_ok_def new_session_def Let_def make_channel_def)
  have ss: "sm_sessions ?m = [sample_session]" by (simp add: sample_manager_def)
  obtain m where m: "manager_close (\<lambda>s. s) ?m = Some m" "sm_smc m = default_session_manager_config" "length (sm_sessions m) = 1"
    "sm_shutdown_event m"
    by (simp add: manager_close_def sample_manager_def session_close_def sample_session_def new_session_def pool_close.simps
        pool_pop_def Let_def split_def)
  have o: "others_ok (\<lambda>s. s)" by (simp add: others_ok_def)
  note t = rebuild_outlives_close [OF m(1) o]
  have c: "is_closed (sm_sessions m ! 0)" "rebuild_session [sample_attempt, sample_attempt] m 0 Retrying = Ret (m, Retrying)"
    using t [of 0 "[sample_attempt, sample_attempt]"] ss ok m(3) by (auto simp: sample_attempt_def)
  have d: "smc_config (sm_smc m) = default_config_at ''/dev/shm/shmipc'' ''/dev/shm/shmipc_queue''"
    using m(2) default_config_at_default by (simp add: default_session_manager_config_def)
  obtain smc s where a: "answered (session_client lucky_attempt 0 0 0 (sm_smc m)) (server_answers @ []) = Some ((smc, Inr s), [])"
    using default_client [OF _ _ _ d, of lucky_attempt 0 "[]"] lucky_attempt_ok by metis
  have f: "session_client sample_attempt 0 0 0 x = Ret (x, Inl (io_error ''connection refused''))" for x
    by (simp add: session_client_def sample_attempt_def)
  let ?m1 = "m\<lparr>sm_sessions := (sm_sessions m)[0 := s], sm_registry := ss_registry s\<rparr>"
  have r: "answered (rebuild_session [sample_attempt, lucky_attempt] m 0 Retrying) server_answers = Some ((?m1, Returned), [])"
    using a m(4) by (simp add: rebuild_try_def answered_bind rebuild_watch_def f)
  have s1: "sm_sessions ?m1 = [s]" using m(3) by (simp add: length_Suc_conv) auto
  have "\<not> is_closed s"
    using answered_all [OF r conjunct2 [OF conjunct2 [OF conjunct2 [OF t [of 0 "[sample_attempt, lucky_attempt]"]]]]] ss ok m(3) s1
    by (auto simp: length_Suc_conv)
  with m(1) c r s1 show ?thesis by blast
qed

end
