(* ===== verification/Listener.thy ===== *)
theory Listener
  imports Session_Manager
begin

text \<open>
  \<open>include/shmipc/listener.hpp\<close> and \<open>src/listener.cpp\<close>: the accept loop, which makes a server session of every connection, the
  threads that forward the streams of the sessions, and \<open>accept\<close> and \<open>close\<close> of the listener. A stream in the channel of the listener
  comes with the number of its session in the vector of sessions.
\<close>

section \<open>Operations\<close>

record listener =
  ln_streams :: "(errc + nat \<times> stream) channel"
  ln_sessions :: "session list"
  ln_fd :: int
  ln_accepting :: bool
  ln_joinable :: bool
  ln_registry :: registry

text \<open>\<open>Listener::start\<close>; \<open>listening\<close> is what \<open>listen\<close> returned.\<close>

definition listener_start :: "registry \<Rightarrow> int result \<Rightarrow> listener result" where
  "listener_start reg listening =
     (case listening of
        Inl e \<Rightarrow> Inl e
      | Inr fd \<Rightarrow> Inr \<lparr>ln_streams = make_channel 0, ln_sessions = [], ln_fd = fd, ln_accepting = True, ln_joinable = True, ln_registry = reg\<rparr>)"

definition session_server ::
  "host \<Rightarrow> config \<Rightarrow> unit result \<Rightarrow> stream channel \<Rightarrow> mem \<Rightarrow> mem \<Rightarrow> bool \<Rightarrow> session result io" where
  "session_server hs cfg split accept_tx bmem qmem debug = session_create hs cfg split (Some accept_tx) bmem qmem debug"

text \<open>What \<open>send\<close> on the unbounded channel of the listener does; its result is not looked at.\<close>

definition ln_send :: "errc + nat \<times> stream \<Rightarrow> listener \<Rightarrow> listener" where
  "ln_send x l = (case ch_push (ln_streams l) x of None \<Rightarrow> l | Some (c, sent) \<Rightarrow> l\<lparr>ln_streams := c\<rparr>)"

text \<open>
  One round of \<open>accept_loop\<close>: the connection is what \<open>accept\<close> of the transport answered, the rest is what the handshake
  depends on. The flag says that the loop ends.
\<close>

definition accept_round :: "attempt \<Rightarrow> config \<Rightarrow> listener \<Rightarrow> (listener \<times> bool) io" where
  "accept_round a cfg l =
     (case at_conn a of
        Inl e \<Rightarrow> Ret ((ln_send (Inl (to_io_error_code e)) l)\<lparr>ln_accepting := False\<rparr>, True)
      | Inr _ \<Rightarrow>
          bind_io (session_server (at_host a) cfg (at_split a) (make_channel (max_stream_num cfg)) (at_bmem a) (at_qmem a) (at_debug a))
            (\<lambda>r. case r of
                 Inl e \<Rightarrow> Ret (l, False)
               | Inr s \<Rightarrow> Ret (l\<lparr>ln_sessions := ln_sessions l @ [s], ln_registry := ss_registry s\<rparr>, False)))"

text \<open>The thread that forwards the streams of session \<open>i\<close>: its start, and one round of its loop; the flag says that it ends.\<close>

definition forward_start :: "nat \<Rightarrow> listener \<Rightarrow> listener" where
  "forward_start i l = l\<lparr>ln_sessions := (ln_sessions l)[i := recv_attach (ln_sessions l ! i)]\<rparr>"

definition forward_round :: "nat \<Rightarrow> listener \<Rightarrow> (listener \<times> bool) option" where
  "forward_round i l =
     map_option (\<lambda>(s, c, stop). (l\<lparr>ln_sessions := (ln_sessions l)[i := s], ln_streams := c\<rparr>, stop))
       (recv_one (\<lambda>st. Inr (i, st)) (ln_sessions l ! i) (ln_streams l))"

text \<open>\<open>None\<close>: the call waits.\<close>

definition listener_accept :: "listener \<Rightarrow> (listener \<times> (errc + nat \<times> stream)) option" where
  "listener_accept l =
     (case ch_pop (ln_streams l) of
        None \<Rightarrow> None
      | Some (c, None) \<Rightarrow> Some (l\<lparr>ln_streams := c\<rparr>, Inl Connection_aborted)
      | Some (c, Some r) \<Rightarrow> Some (l\<lparr>ln_streams := c\<rparr>, r))"

text \<open>
  \<open>meanwhile\<close> is what the accept loop and the forwarding threads do after the sessions have been closed. Then the socket is shut down,
  which makes the \<open>accept\<close> of a loop that still runs fail with \<open>e\<close>, and the loop is joined.
\<close>

definition listener_close :: "others \<Rightarrow> (listener \<Rightarrow> listener) \<Rightarrow> error \<Rightarrow> listener \<Rightarrow> listener option" where
  "listener_close others meanwhile e l =
     (case close_sessions others (ln_registry l) (ln_sessions l) of
        None \<Rightarrow> None
      | Some (reg, ss) \<Rightarrow>
          let l1 = meanwhile (l\<lparr>ln_sessions := ss, ln_registry := reg\<rparr>);
              l2 = (if ln_fd l1 \<ge> 0
                    then (if ln_accepting l1 then ln_send (Inl (to_io_error_code e)) l1 else l1)\<lparr>ln_fd := - 1, ln_accepting := False\<rparr>
                    else l1)
          in if ln_joinable l2 \<and> ln_accepting l2 then None
             else Some (l2\<lparr>ln_joinable := False, ln_streams := ch_stop (ln_streams l2)\<rparr>))"

text \<open>The destructor.\<close>

definition destroy_listener :: "others \<Rightarrow> (listener \<Rightarrow> listener) \<Rightarrow> error \<Rightarrow> listener \<Rightarrow> listener option" where
  "destroy_listener others meanwhile e l = (if ln_joinable l then listener_close others meanwhile e l else Some l)"

section \<open>Streams in order\<close>

definition streams_of :: "nat \<Rightarrow> (nat \<times> stream) list \<Rightarrow> stream list" where
  "streams_of i xs = map snd (filter (\<lambda>(j, st). j = i) xs)"

definition delivered :: "(errc + nat \<times> stream) list \<Rightarrow> (nat \<times> stream) list" where
  "delivered q = concat (map (case_sum (\<lambda>_. []) (\<lambda>x. [x])) q)"

lemma streams_of_simps [simp]:
  "streams_of i [] = []" "streams_of i (xs @ ys) = streams_of i xs @ streams_of i ys"
  "streams_of i (x # xs) = (if fst x = i then snd x # streams_of i xs else streams_of i xs)"
  "streams_of i (map (Pair j) sts) = (if i = j then sts else [])"
  by (auto simp: streams_of_def filter_map comp_def)

lemma delivered_simps [simp]:
  "delivered [] = []" "delivered (p @ q) = delivered p @ delivered q" "delivered (Inl e # q) = delivered q"
  "delivered (Inr x # q) = x # delivered q"
  by (simp_all add: delivered_def)

text \<open>The streams of session \<open>i\<close> that \<open>accept\<close> has not returned yet: those the listener holds, then those the session holds.\<close>

definition announced :: "session \<Rightarrow> stream list" where
  "announced s = (case ss_accept s of None \<Rightarrow> [] | Some c \<Rightarrow> ch_queue c)"

definition waiting :: "nat \<Rightarrow> listener \<Rightarrow> stream list" where
  "waiting i l = streams_of i (delivered (ch_queue (ln_streams l)))
     @ (if i < length (ln_sessions l) then announced (ln_sessions l ! i) else [])"

definition open_channel :: "listener \<Rightarrow> bool" where
  "open_channel l \<longleftrightarrow> \<not> ch_stopped (ln_streams l) \<and> ch_cap (ln_streams l) = 0"

text \<open>Steps of the threads of a listener and its users before it is closed, with the streams handed out and the streams that arrive.\<close>

inductive listener_step :: "listener \<Rightarrow> (nat \<times> stream) list \<Rightarrow> (nat \<times> stream) list \<Rightarrow> listener \<Rightarrow> bool" where
  starts: "i < length (ln_sessions l) \<Longrightarrow> listener_step l [] [] (forward_start i l)"
| forwarded: "i < length (ln_sessions l) \<Longrightarrow> forward_round i l = Some (l', stop) \<Longrightarrow> listener_step l [] [] l'"
| accepts: "listener_accept l = Some (l', Inr x) \<Longrightarrow> listener_step l [x] [] l'"
| fails: "listener_accept l = Some (l', Inl e) \<Longrightarrow> listener_step l [] [] l'"
| connects: "\<not> io_all (\<lambda>x. x \<noteq> (l', stop)) (accept_round a cfg l) \<Longrightarrow> listener_step l [] [] l'"
| announces: "i < length (ln_sessions l) \<Longrightarrow> announced s = announced (ln_sessions l ! i) @ sts
    \<Longrightarrow> listener_step l [] (map (Pair i) sts) (l\<lparr>ln_sessions := (ln_sessions l)[i := s]\<rparr>)"

inductive listener_run :: "listener \<Rightarrow> (nat \<times> stream) list \<Rightarrow> (nat \<times> stream) list \<Rightarrow> listener \<Rightarrow> bool" where
  start: "listener_run l [] [] l"
| more: "listener_run l out new l' \<Longrightarrow> listener_step l' out' new' l'' \<Longrightarrow> listener_run l (out @ out') (new @ new') l''"

text \<open>A step that loses, doubles and reorders nothing.\<close>

definition in_order :: "listener \<Rightarrow> (nat \<times> stream) list \<Rightarrow> (nat \<times> stream) list \<Rightarrow> listener \<Rightarrow> bool" where
  "in_order l out new l' \<longleftrightarrow> (open_channel l \<longrightarrow> open_channel l'
     \<and> (\<forall>i. streams_of i out @ waiting i l' = waiting i l @ streams_of i new))"

lemma start_in_order: "i < length (ln_sessions l) \<Longrightarrow> in_order l [] [] (forward_start i l)"
  by (auto simp: in_order_def forward_start_def recv_attach_def open_channel_def waiting_def announced_def nth_list_update)

lemma forward_in_order:
  assumes "forward_round i l = Some (l', stop)" "i < length (ln_sessions l)"
  shows "in_order l [] [] l'"
proof (cases "ss_accept (ln_sessions l ! i)")
  case None
  with assms show ?thesis by (simp add: forward_round_def recv_one_def)
next
  case (Some c)
  with assms show ?thesis
    by (cases "ch_queue c")
      (auto simp: in_order_def forward_round_def recv_one_def ch_pop_def ch_push_def open_channel_def waiting_def announced_def
        ch_is_full_def nth_list_update split: if_splits)
qed

lemma accept_in_order:
  assumes "listener_accept l = Some (l', r)"
  shows "in_order l (delivered [r]) [] l'"
proof (cases "ch_queue (ln_streams l)")
  case Nil
  with assms show ?thesis by (auto simp: in_order_def listener_accept_def ch_pop_def open_channel_def split: if_splits)
next
  case (Cons x q)
  with assms show ?thesis
    by (cases x) (auto simp: in_order_def listener_accept_def ch_pop_def open_channel_def waiting_def)
qed

lemma ln_send_in_order: "open_channel l \<Longrightarrow> open_channel (ln_send (Inl e) l) \<and> waiting i (ln_send (Inl e) l) = waiting i l"
  by (simp add: ln_send_def ch_push_def open_channel_def ch_is_full_def waiting_def)

lemma server_session_empty:
  "io_all (\<lambda>r. case r of Inl e \<Rightarrow> True | Inr s \<Rightarrow> announced s = []) (session_server hs cfg split (make_channel n) bmem qmem debug)"
  by (auto simp: session_server_def session_create_def try_io_def announced_def new_session_def make_channel_def Let_def
      split: sum.split prod.split)

lemma connect_in_order: "io_all (\<lambda>(l', stop). in_order l [] [] l') (accept_round a cfg l)"
proof (cases "at_conn a")
  case (Inl e)
  have "waiting i (x\<lparr>ln_accepting := b\<rparr>) = waiting i x" "open_channel (x\<lparr>ln_accepting := b\<rparr>) = open_channel x" for i x b
    by (simp_all add: waiting_def open_channel_def)
  with Inl show ?thesis by (simp add: accept_round_def in_order_def ln_send_in_order)
next
  case (Inr u)
  have "in_order l [] [] (l\<lparr>ln_sessions := ln_sessions l @ [s], ln_registry := reg\<rparr>)" if "announced s = []" for s reg
    using that by (auto simp: in_order_def open_channel_def waiting_def nth_append)
  then show ?thesis
    unfolding accept_round_def Inr
    by (auto split: sum.split intro!: io_all_mono [OF server_session_empty] simp: in_order_def [of l "[]" "[]" l])
qed

lemma announce_in_order:
  assumes "i < length (ln_sessions l)" "announced s = announced (ln_sessions l ! i) @ sts"
  shows "in_order l [] (map (Pair i) sts) (l\<lparr>ln_sessions := (ln_sessions l)[i := s]\<rparr>)"
  using assms by (auto simp: in_order_def open_channel_def waiting_def nth_list_update)

lemma listener_step_in_order: "listener_step l out new l' \<Longrightarrow> in_order l out new l'"
proof (induction rule: listener_step.induct)
  case (connects l' stop a cfg l)
  then show ?case using io_all_mono [OF connect_in_order [of l a cfg], of "\<lambda>x. x \<noteq> (l', stop)"] by auto
qed (auto intro: start_in_order forward_in_order announce_in_order dest: accept_in_order)

lemma listener_run_in_order: "listener_run l out new l' \<Longrightarrow> in_order l out new l'"
proof (induction rule: listener_run.induct)
  case (more l out new l' out' new' l'')
  have a: "streams_of i out @ waiting i l' = waiting i l @ streams_of i new" "open_channel l'" if "open_channel l" for i
    using more.IH that by (simp_all add: in_order_def)
  have b: "streams_of i out' @ waiting i l'' = waiting i l' @ streams_of i new'" "open_channel l''" if "open_channel l'" for i
    using listener_step_in_order [OF more.hyps(2)] that by (simp_all add: in_order_def)
  have "streams_of i (out @ out') @ waiting i l'' = waiting i l @ streams_of i (new @ new')" if "open_channel l" for i
    using a(1) [OF that, of i] b(1) [OF a(2) [OF that], of i] by (metis append.assoc streams_of_simps(2))
  then show ?case using a(2) b(2) by (simp add: in_order_def)
qed (simp add: in_order_def)

section \<open>Accepting after close\<close>

primrec accept_calls :: "nat \<Rightarrow> listener \<Rightarrow> (listener \<times> (errc + nat \<times> stream) list) option" where
  "accept_calls 0 l = Some (l, [])"
| "accept_calls (Suc n) l =
     (case listener_accept l of
        None \<Rightarrow> None
      | Some (l1, r) \<Rightarrow> map_option (\<lambda>(l2, rs). (l2, r # rs)) (accept_calls n l1))"

lemma accept_drains:
  assumes "ch_stopped (ln_streams l)" "ch_queue (ln_streams l) = q"
  shows "\<exists>l'. accept_calls n l = Some (l', take n q @ replicate (n - length q) (Inl Connection_aborted))"
  using assms
proof (induction n arbitrary: l q)
  case (Suc n)
  show ?case
  proof (cases q)
    case Nil
    with Suc.prems have "listener_accept l = Some (l\<lparr>ln_streams := ln_streams l\<rparr>, Inl Connection_aborted)"
      by (simp add: listener_accept_def ch_pop_def)
    with Suc.IH [of l "[]"] Suc.prems Nil show ?thesis by auto
  next
    case (Cons r rs)
    let ?l = "l\<lparr>ln_streams := (ln_streams l)\<lparr>ch_queue := rs\<rparr>\<rparr>"
    have "listener_accept l = Some (?l, r)" using Suc.prems Cons by (simp add: listener_accept_def ch_pop_def)
    with Suc.IH [of ?l rs] Suc.prems Cons show ?thesis by auto
  qed
qed simp

section \<open>Properties\<close>

text \<open>A listener with these sessions, and a session with a stream that nobody has accepted yet.\<close>

definition sample_listener :: "session list \<Rightarrow> listener" where
  "sample_listener ss = \<lparr>ln_streams = make_channel 0, ln_sessions = ss, ln_fd = 5, ln_accepting = True, ln_joinable = True,
     ln_registry = (\<lambda>_. None)\<rparr>"

definition announcing_session :: session where
  "announcing_session = sample_server\<lparr>ss_accept := Some \<lparr>ch_queue = [sample_stream], ch_cap = 4, ch_stopped = False\<rparr>\<rparr>"

text \<open>
  Property C28. Until it is closed a listener loses no stream: whatever connections, forwarding threads and callers of \<open>accept\<close> do
  in whichever order, the streams of each session that \<open>accept\<close> has returned, followed by those still on their way, are
  those the session has announced, in the same order.
\<close>

theorem listener_keeps_streams:
  assumes "open_channel l" "listener_run l out new l'"
  shows "streams_of i out @ waiting i l' = waiting i l @ streams_of i new"
  using listener_run_in_order [OF assms(2)] assms(1) by (simp add: in_order_def)

theorem listener_keeps_streams_witness:
  "\<exists>l1 l2. forward_round 0 (sample_listener [announcing_session]) = Some (l1, False)
    \<and> listener_accept l1 = Some (l2, Inr (0, sample_stream)) \<and> waiting 0 l2 = []"
proof -
  let ?l = "sample_listener [announcing_session]"
  obtain l1 where f: "forward_round 0 ?l = Some (l1, False)" and q: "ch_queue (ln_streams l1) = [Inr (0, sample_stream)]"
    by (simp add: forward_round_def recv_one_def sample_listener_def announcing_session_def ch_pop_def ch_push_def make_channel_def
        ch_is_full_def)
  obtain l2 where a: "listener_accept l1 = Some (l2, Inr (0, sample_stream))"
    using q by (simp add: listener_accept_def ch_pop_def)
  have "listener_run ?l ([] @ []) ([] @ []) l1"
    by (rule listener_run.more [OF listener_run.start listener_step.forwarded [OF _ f]]) (simp add: sample_listener_def)
  from listener_run.more [OF this listener_step.accepts [OF a]]
  have "listener_run ?l [(0, sample_stream)] [] l2" by simp
  moreover have "open_channel ?l" "waiting 0 ?l = [sample_stream]"
    by (simp_all add: open_channel_def waiting_def sample_listener_def make_channel_def announced_def announcing_session_def)
  ultimately have "waiting 0 l2 = []" using listener_keeps_streams [of ?l "[(0, sample_stream)]" "[]" l2 0] by simp
  with f a show ?thesis by blast
qed

text \<open>
  Property C29. After \<open>close\<close> no caller of \<open>accept\<close> waits: the calls return what the listener still holds, in order, and from
  then on report that the connection was aborted.
\<close>

theorem closed_listener_drains:
  assumes "listener_close others meanwhile e l = Some l'"
  shows "\<exists>l''. accept_calls n l' = Some (l'', take n (ch_queue (ln_streams l'))
    @ replicate (n - length (ch_queue (ln_streams l'))) (Inl Connection_aborted))"
proof -
  have "ch_stopped (ln_streams l')"
    using assms by (auto simp: listener_close_def Let_def ch_stop_def split: option.splits if_splits)
  then show ?thesis using accept_drains by blast
qed

theorem closed_listener_drains_witness:
  "\<exists>l l'. listener_close (\<lambda>s. s) (\<lambda>l. l) (io_error ''Invalid argument'') (sample_listener []) = Some l
    \<and> accept_calls 3 l = Some (l', [Inl Io_error, Inl Connection_aborted, Inl Connection_aborted])"
proof -
  obtain l where l: "listener_close (\<lambda>s. s) (\<lambda>l. l) (io_error ''Invalid argument'') (sample_listener []) = Some l"
    and q: "ch_queue (ln_streams l) = [Inl (to_io_error_code (io_error ''Invalid argument''))]"
    by (simp add: listener_close_def sample_listener_def ln_send_def ch_push_def make_channel_def ch_is_full_def ch_stop_def Let_def)
  show ?thesis
    using closed_listener_drains [OF l, of 3] l q by (auto simp: numeral_3_eq_3 to_io_error_code_def io_error_def)
qed

end
