(* ===== verification/Spec2Isabelle.thy ===== *)
theory Spec2Isabelle
  imports Handshake Free_List_Race Fallback_Path Compact Listener Transport
begin

text \<open>
  Verification of shmipc, inter-process communication over shared memory (\<open>src/include/shmipc\<close> and \<open>src/src\<close>).

  \<^bold>\<open>The program.\<close> Two processes share a region of buffers and a pair of queues. A client connects over a socket and announces
  both mappings in a handshake. From then on a message is written into a chain of buffers, the offset of the first one is put into a queue, and
  a short event over the socket wakes the peer if it is not already working on the queue. When buffers or queue are exhausted the
  message itself goes over the socket. Streams multiplex a session; a session manager keeps several client sessions, a
  listener makes sessions of incoming connections.

  \<^bold>\<open>Values.\<close> Machine integers are words (\<open>u8\<close> to \<open>u64\<close>), \<open>size_t\<close> values are natural numbers whose subtraction \<open>usub\<close> and addition
  \<open>uadd\<close> wrap at 64 bits, memory is a function from addresses to bytes, a failing operation returns \<open>error + 'a\<close>. Undefined
  behaviour, an exception that nobody catches and a call that never returns are \<open>None\<close>.

  \<^bold>\<open>Foundations.\<close>
  \<^item> \<open>Shm_Prelude\<close>: words, loads and stores, byte strings. \<open>Errors\<close> (\<open>error.hpp\<close>), \<open>Config\<close> (\<open>config.cpp\<close>, \<open>session_config.hpp\<close>,
    \<open>consts.hpp\<close>): \<open>verify\<close> accepts exactly the configurations its conditions describe.
  \<^item> \<open>Os_Interface\<close>: the operating system calls as a record of answers, and the events a call leaves. \<open>Transport\<close> (\<open>transport.cpp\<close>):
    addresses and the ownership of descriptors.

  \<^bold>\<open>Shared memory.\<close>
  \<^item> \<open>Queue\<close>, \<open>Queue_Manager\<close> (\<open>queue.cpp\<close>): the ring of a queue refines a list of elements; the two halves of a mapping are two independent queues.
  \<^item> \<open>Slice\<close>, \<open>Slice_List\<close> (\<open>buffer/slice.cpp\<close>): buffer headers, slices, and the owning chain with its raw pointers as identities.
  \<^item> \<open>Buffer_List\<close>, \<open>Buffer_Manager\<close>, \<open>Buffer_Setup\<close> (\<open>buffer/list.cpp\<close>, \<open>buffer/manager.cpp\<close>): free lists in memory, the
    layout of several lists, allocation and recycling, the process-wide registry. The locale \<open>fifo_pool\<close> is the contract of one list; it gives
    conservation of buffers over runs of pops, pushes and writes of the holders, which never get stuck; \<open>bm_run\<close> does the same for all lists of a manager.
    The reference count of a registered manager is a 32-bit word. \<open>sort_pairs\<close> is a stable sort, where \<open>std::sort\<close> leaves the order of
    pairs of the same size open. Create followed by mapping gives both processes the same view. In these theories an operation of a list is atomic;
    \<open>Free_List_Race\<close> takes \<open>push\<close> and \<open>pop\<close> apart, one step per shared access: buffers are conserved as long as no two calls of \<open>pop\<close> overlap,
    and from any idle state with four free buffers overlapping ones can hand out a buffer twice.
  \<^item> \<open>Linked_Buffer\<close>, \<open>Linked_Read\<close>, \<open>Linked_Reader\<close>, \<open>Linked_Write\<close>, \<open>Handover\<close> (\<open>buffer/linked.cpp\<close>): reading a chain refines a byte string, writing appends to it,
    and a chain that is posted arrives with the same bytes.

  \<^bold>\<open>Protocol.\<close>
  \<^item> \<open>Protocol\<close> (\<open>protocol/event.cpp\<close>, \<open>protocol/block_io.cpp\<close>): headers, metadata and the blocking loops. \<open>Handshake\<close> (\<open>protocol/initializer.cpp\<close>,
    \<open>protocol/adapter.cpp\<close>, \<open>protocol/protocol.cpp\<close>): both sides as programs over an interface of socket calls, and all their interleavings.
  \<^item> \<open>Buf_Reader\<close> (\<open>util/buf_reader.cpp\<close>): the buffered reader is transparent however the socket cuts the stream.
  \<^item> \<open>Wakeup\<close> (\<open>Queue::mark_working\<close>, \<open>Stream::flush\<close>, \<open>Session::wake_up_peer\<close>, \<open>Session::handle_polling\<close>): any number of senders against the
    receiver, one step per access to the shared flag, queue or socket. No wake-up is lost. The
    fallback flag belongs to a stream and \<open>Stream::reset\<close> clears it: while it is not cleared one sender keeps the order of a stream; with two senders a
    fallback message can overtake.

  \<^bold>\<open>Streams and sessions.\<close>
  \<^item> \<open>Sync\<close> (\<open>sync/channel.hpp\<close>), \<open>Session_State\<close>, \<open>Stream_Ops\<close> (\<open>stream.cpp\<close>), \<open>Session_Ops\<close> (\<open>session.cpp\<close>, \<open>stream_pool.cpp\<close>): one record is the state of a
    session with its streams, and every operation is a function on it. At a wait the other threads and the peer may change the session; what they do is an argument.
    \<open>session_close\<close> releases the buffer manager; that the last release unmaps the memory is an event of the registry (\<open>Buffer_Setup\<close>), and the memory
    of the session record stays readable after it.
  \<^item> \<open>Session_Types\<close>: the type invariant and the order of stream states, kept by every operation. \<open>Session_Events\<close>: the read loop takes the same events
    however the bytes arrive.
  \<^item> \<open>Delivery\<close>, \<open>End_To_End\<close>, \<open>Fallback_Path\<close>: the path of a message through both sessions, over shared memory and over the socket;
    the polling handler files every message with its stream and announces exactly the new streams to \<open>accept\<close>.
  \<^item> \<open>Compact\<close> (\<open>compact.cpp\<close>, \<open>util/shmbuf_reader.hpp\<close>): the byte stream adapter; successive calls of \<open>read_exact\<close> cut the sent bytes
    into chunks of any sizes.
  \<^item> \<open>Session_Manager\<close> (\<open>session_manager.hpp\<close>, \<open>Session::client\<close>): turns, names, the bytes a reused stream carries, and the rebuild threads, which
    watch or retry: a retry outlives \<open>close\<close>. \<open>put_back\<close> is for streams of the session that is in the slot. \<open>Listener\<close> (\<open>listener.cpp\<close>,
    \<open>listener.hpp\<close>): the way of streams from sessions to \<open>accept\<close>.

  \<^bold>\<open>Loops and bounds.\<close> Loops that end by their data are recursive functions with a measure. \<open>pop\<close> of a free list retries 200 times and \<open>flush\<close> 10 times, as the
  code does. Loops that may not end are partial functions into \<open>option\<close>; that they return is proved where it holds: \<open>polling_delivers_all\<close> for
  \<open>handle_polling\<close>, \<open>read_loop_any_chunking\<close> for the read loop, \<open>writer_appends_all_bytes\<close> for writing. That the counters of a
  queue stay below \<open>2 ^ 63\<close>, and the call count of a manager below \<open>2 ^ 64\<close>, are hypotheses.

  \<^bold>\<open>Not modelled.\<close> Log output (\<open>log.cpp\<close>) and \<open>protocol_trace\<close>; \<open>Bytes\<close>, which no other part uses; \<open>HandshakeTimeoutGuard\<close>, whose effect is that a blocking
  call fails; the SIGPIPE handler and socket options; creating threads, and joining them except where a call waits for it. Tests, benchmarks, examples and
  \<open>third_party\<close> only use the library.
\<close>

end
